(* ===== verification/Ngx_Base.thy ===== *)
theory Ngx_Base
  imports Main "HOL-Library.Word"
begin

unbundle bit_operations_syntax

text \<open>
  The base of the development: bytes and character names, return codes, guarded reads,
  the 256-bit character-class tables, and the byte-at-a-time scanning loop that all of
  nginx's resumable parsers share, with the interface (a locale) that makes such a loop
  independent of how the network fragments its input.
\<close>

section \<open>Bytes\<close>

text \<open>\<open>u_char\<close> is an 8-bit word; an \<open>ngx_str_t\<close> is the list of the \<open>len\<close> bytes at \<open>data\<close>.\<close>

type_synonym u_char = "8 word"
type_synonym bytes = "u_char list"
type_synonym ptr = "nat option"

text \<open>The control and punctuation characters the sources compare with.\<close>

abbreviation (input) NUL :: u_char where "NUL \<equiv> 0x0"
abbreviation (input) TAB :: u_char where "TAB \<equiv> 0x9"
abbreviation (input) LF :: u_char where "LF \<equiv> 0xa"
abbreviation (input) CR :: u_char where "CR \<equiv> 0xd"
abbreviation (input) SP :: u_char where "SP \<equiv> 0x20"
abbreviation (input) EXCL :: u_char where "EXCL \<equiv> 0x21"
abbreviation (input) DQUOTE :: u_char where "DQUOTE \<equiv> 0x22"
abbreviation (input) HASH :: u_char where "HASH \<equiv> 0x23"
abbreviation (input) DOLLAR :: u_char where "DOLLAR \<equiv> 0x24"
abbreviation (input) PERCENT :: u_char where "PERCENT \<equiv> 0x25"
abbreviation (input) AMP :: u_char where "AMP \<equiv> 0x26"
abbreviation (input) SQUOTE :: u_char where "SQUOTE \<equiv> 0x27"
abbreviation (input) LPAREN :: u_char where "LPAREN \<equiv> 0x28"
abbreviation (input) RPAREN :: u_char where "RPAREN \<equiv> 0x29"
abbreviation (input) STAR :: u_char where "STAR \<equiv> 0x2a"
abbreviation (input) PLUS :: u_char where "PLUS \<equiv> 0x2b"
abbreviation (input) COMMA :: u_char where "COMMA \<equiv> 0x2c"
abbreviation (input) MINUS :: u_char where "MINUS \<equiv> 0x2d"
abbreviation (input) DOT :: u_char where "DOT \<equiv> 0x2e"
abbreviation (input) SLASH :: u_char where "SLASH \<equiv> 0x2f"
abbreviation (input) D0 :: u_char where "D0 \<equiv> 0x30"
abbreviation (input) D1 :: u_char where "D1 \<equiv> 0x31"
abbreviation (input) D9 :: u_char where "D9 \<equiv> 0x39"
abbreviation (input) COLON :: u_char where "COLON \<equiv> 0x3a"
abbreviation (input) SEMI :: u_char where "SEMI \<equiv> 0x3b"
abbreviation (input) LESS :: u_char where "LESS \<equiv> 0x3c"
abbreviation (input) EQ :: u_char where "EQ \<equiv> 0x3d"
abbreviation (input) GREATER :: u_char where "GREATER \<equiv> 0x3e"
abbreviation (input) QUEST :: u_char where "QUEST \<equiv> 0x3f"
abbreviation (input) LBRACK :: u_char where "LBRACK \<equiv> 0x5b"
abbreviation (input) BSLASH :: u_char where "BSLASH \<equiv> 0x5c"
abbreviation (input) RBRACK :: u_char where "RBRACK \<equiv> 0x5d"
abbreviation (input) UNDER :: u_char where "UNDER \<equiv> 0x5f"
abbreviation (input) TILDE :: u_char where "TILDE \<equiv> 0x7e"

text \<open>Letters.\<close>

abbreviation (input) c_A :: u_char where "c_A \<equiv> 0x41"
abbreviation (input) c_B :: u_char where "c_B \<equiv> 0x42"
abbreviation (input) c_C :: u_char where "c_C \<equiv> 0x43"
abbreviation (input) c_D :: u_char where "c_D \<equiv> 0x44"
abbreviation (input) c_E :: u_char where "c_E \<equiv> 0x45"
abbreviation (input) c_F :: u_char where "c_F \<equiv> 0x46"
abbreviation (input) c_G :: u_char where "c_G \<equiv> 0x47"
abbreviation (input) c_H :: u_char where "c_H \<equiv> 0x48"
abbreviation (input) c_I :: u_char where "c_I \<equiv> 0x49"
abbreviation (input) c_K :: u_char where "c_K \<equiv> 0x4b"
abbreviation (input) c_L :: u_char where "c_L \<equiv> 0x4c"
abbreviation (input) c_M :: u_char where "c_M \<equiv> 0x4d"
abbreviation (input) c_N :: u_char where "c_N \<equiv> 0x4e"
abbreviation (input) c_O :: u_char where "c_O \<equiv> 0x4f"
abbreviation (input) c_P :: u_char where "c_P \<equiv> 0x50"
abbreviation (input) c_R :: u_char where "c_R \<equiv> 0x52"
abbreviation (input) c_S :: u_char where "c_S \<equiv> 0x53"
abbreviation (input) c_T :: u_char where "c_T \<equiv> 0x54"
abbreviation (input) c_U :: u_char where "c_U \<equiv> 0x55"
abbreviation (input) c_V :: u_char where "c_V \<equiv> 0x56"
abbreviation (input) c_X :: u_char where "c_X \<equiv> 0x58"
abbreviation (input) c_Y :: u_char where "c_Y \<equiv> 0x59"
abbreviation (input) c_Z :: u_char where "c_Z \<equiv> 0x5a"
abbreviation (input) c_a :: u_char where "c_a \<equiv> 0x61"
abbreviation (input) c_d :: u_char where "c_d \<equiv> 0x64"
abbreviation (input) c_f :: u_char where "c_f \<equiv> 0x66"
abbreviation (input) c_g :: u_char where "c_g \<equiv> 0x67"
abbreviation (input) c_h :: u_char where "c_h \<equiv> 0x68"
abbreviation (input) c_k :: u_char where "c_k \<equiv> 0x6b"
abbreviation (input) c_l :: u_char where "c_l \<equiv> 0x6c"
abbreviation (input) c_m :: u_char where "c_m \<equiv> 0x6d"
abbreviation (input) c_n :: u_char where "c_n \<equiv> 0x6e"
abbreviation (input) c_o :: u_char where "c_o \<equiv> 0x6f"
abbreviation (input) c_p :: u_char where "c_p \<equiv> 0x70"
abbreviation (input) c_q :: u_char where "c_q \<equiv> 0x71"
abbreviation (input) c_r :: u_char where "c_r \<equiv> 0x72"
abbreviation (input) c_s :: u_char where "c_s \<equiv> 0x73"
abbreviation (input) c_t :: u_char where "c_t \<equiv> 0x74"
abbreviation (input) c_u :: u_char where "c_u \<equiv> 0x75"
abbreviation (input) c_w :: u_char where "c_w \<equiv> 0x77"
abbreviation (input) c_y :: u_char where "c_y \<equiv> 0x79"
abbreviation (input) c_z :: u_char where "c_z \<equiv> 0x7a"

text \<open>A C string literal as bytes.\<close>

definition lit :: "string \<Rightarrow> bytes" where
  "lit s = map of_char s"

lemma lit_Nil [simp]: "lit [] = []"
  by (simp add: lit_def)

lemma lit_Cons [simp]: "lit (c # s) = of_char c # lit s"
  by (simp add: lit_def)

text \<open>Every byte, listed, so that a fact about a byte table is checked entry by entry.\<close>

definition all_bytes :: "u_char list" where
  "all_bytes =
    [0, 1, 2, 3, 4, 5, 6, 7, 8, 9, 10, 11, 12, 13, 14, 15, 16, 17, 18, 19, 20, 21, 22, 23,
     24, 25, 26, 27, 28, 29, 30, 31, 32, 33, 34, 35, 36, 37, 38, 39, 40, 41, 42, 43, 44, 45,
     46, 47, 48, 49, 50, 51, 52, 53, 54, 55, 56, 57, 58, 59, 60, 61, 62, 63, 64, 65, 66, 67,
     68, 69, 70, 71, 72, 73, 74, 75, 76, 77, 78, 79, 80, 81, 82, 83, 84, 85, 86, 87, 88, 89,
     90, 91, 92, 93, 94, 95, 96, 97, 98, 99, 100, 101, 102, 103, 104, 105, 106, 107, 108,
     109, 110, 111, 112, 113, 114, 115, 116, 117, 118, 119, 120, 121, 122, 123, 124, 125,
     126, 127, 128, 129, 130, 131, 132, 133, 134, 135, 136, 137, 138, 139, 140, 141, 142,
     143, 144, 145, 146, 147, 148, 149, 150, 151, 152, 153, 154, 155, 156, 157, 158, 159,
     160, 161, 162, 163, 164, 165, 166, 167, 168, 169, 170, 171, 172, 173, 174, 175, 176,
     177, 178, 179, 180, 181, 182, 183, 184, 185, 186, 187, 188, 189, 190, 191, 192, 193,
     194, 195, 196, 197, 198, 199, 200, 201, 202, 203, 204, 205, 206, 207, 208, 209, 210,
     211, 212, 213, 214, 215, 216, 217, 218, 219, 220, 221, 222, 223, 224, 225, 226, 227,
     228, 229, 230, 231, 232, 233, 234, 235, 236, 237, 238, 239, 240, 241, 242, 243, 244,
     245, 246, 247, 248, 249, 250, 251, 252, 253, 254, 255]"

lemma all_bytes_upt: "all_bytes = map word_of_nat [0..<256]"
  by (simp add: all_bytes_def upt_rec [of _ "numeral _"] del: upt_rec_numeral)

lemma byte_in_all_bytes: "x \<in> set all_bytes"
proof -
  have "unat x < 256"
    using unsigned_less [of x] by simp
  then have "\<exists>n \<in> {0..<256}. x = word_of_nat n"
    by (intro bexI [of _ "unat x"]) simp_all
  then show ?thesis
    by (auto simp: all_bytes_upt)
qed

lemma byte_cases: "list_all P all_bytes \<Longrightarrow> P x"
  using byte_in_all_bytes [of x] by (simp add: list_all_iff)

lemma byte_imp: "list_all (\<lambda>c. P c \<longrightarrow> Q c) all_bytes \<Longrightarrow> P x \<Longrightarrow> Q x"
  using byte_cases [of "\<lambda>c. P c \<longrightarrow> Q c" x] by simp

text \<open>Case conversion (\<open>ngx_tolower\<close>) and the digit tests that many routines write inline.\<close>

definition ngx_tolower :: "u_char \<Rightarrow> u_char" where
  "ngx_tolower c = (if c_A \<le> c \<and> c \<le> c_Z then c OR 0x20 else c)"

definition ngx_toupper :: "u_char \<Rightarrow> u_char" where
  "ngx_toupper c = (if c_a \<le> c \<and> c \<le> c_z then c AND NOT 0x20 else c)"

definition is_digit :: "u_char \<Rightarrow> bool" where
  "is_digit ch \<longleftrightarrow> D0 \<le> ch \<and> ch \<le> D9"

definition is_alpha :: "u_char \<Rightarrow> bool" where
  "is_alpha ch \<longleftrightarrow> (let c = ch OR 0x20 in c_a \<le> c \<and> c \<le> c_z)"

text \<open>The value of a decimal digit and of a string of them.\<close>

definition digit_val :: "u_char \<Rightarrow> nat" where
  "digit_val c = unat (c - D0)"

definition dec_val :: "bytes \<Rightarrow> nat" where
  "dec_val ds = foldl (\<lambda>v c. v * 10 + digit_val c) 0 ds"

lemma digit_val_less: "is_digit c \<Longrightarrow> digit_val c < 10"
  unfolding is_digit_def digit_val_def by unat_arith

lemma dec_val_foldl: "foldl (\<lambda>v c. v * 10 + digit_val c) a ds = a * 10 ^ length ds + dec_val ds"
proof (induction ds arbitrary: a)
  case Nil
  show ?case by (simp add: dec_val_def)
next
  case (Cons d ds)
  have "dec_val (d # ds) = digit_val d * 10 ^ length ds + dec_val ds"
    using Cons [of "digit_val d"] by (simp add: dec_val_def)
  with Cons [of "a * 10 + digit_val d"] show ?case by (simp add: algebra_simps)
qed

lemma dec_val_Nil [simp]: "dec_val [] = 0"
  by (simp add: dec_val_def)

lemma dec_val_Cons: "dec_val (d # ds) = digit_val d * 10 ^ length ds + dec_val ds"
  using dec_val_foldl [of "digit_val d" ds] by (simp add: dec_val_def)

lemma dec_val_less: "\<forall>c \<in> set ds. is_digit c \<Longrightarrow> dec_val ds < 10 ^ length ds"
proof (induction ds)
  case (Cons d ds)
  then have "digit_val d \<le> 9" and less: "dec_val ds < 10 ^ length ds"
    using digit_val_less [of d] by auto
  then have "digit_val d * 10 ^ length ds \<le> 9 * 10 ^ length ds"
    by (intro mult_le_mono1)
  with less have "dec_val (d # ds) < 10 * 10 ^ length ds"
    unfolding dec_val_Cons by linarith
  then show ?case by simp
qed simp

lemma dec_val_bound: "\<forall>c \<in> set ds. is_digit c \<Longrightarrow> length ds \<le> 3 \<Longrightarrow> dec_val ds < 1000"
proof -
  assume "\<forall>c \<in> set ds. is_digit c" and "length ds \<le> 3"
  then have "dec_val ds < 10 ^ length ds" and "(10::nat) ^ length ds \<le> 10 ^ 3"
    by (simp_all only: dec_val_less power_increasing_iff)
  then show ?thesis by simp
qed

lemma dec_val_pos:
  assumes "ds \<noteq> []" and "is_digit (hd ds)" and "hd ds \<noteq> D0"
  shows "0 < dec_val ds"
proof -
  have "0 < digit_val (hd ds)"
    using assms(2,3) unfolding is_digit_def digit_val_def by unat_arith
  then show ?thesis
    using assms(1) by (cases ds) (simp_all add: dec_val_Cons)
qed

lemma is_digit_not [simp]: "is_digit c \<Longrightarrow> c \<noteq> DOT" "is_digit c \<Longrightarrow> c \<noteq> CR" "is_digit c \<Longrightarrow> c \<noteq> LF"
  "is_digit c \<Longrightarrow> c \<noteq> SP"
  by (auto simp: is_digit_def)

lemma digit_word:
  "ucast (c - D0) = (word_of_nat (digit_val c) :: 'a::len word)"
  by (simp add: digit_val_def)

section \<open>Reads and tables\<close>

text \<open>
  A read through a pointer. Inside the buffer it is the byte there; the model returns 0
  beyond it, and the theorems that matter show that the code does not look there.
\<close>

definition rd :: "bytes \<Rightarrow> nat \<Rightarrow> u_char" where
  "rd m i = (if i < length m then m ! i else 0)"

lemma rd_append [simp]: "i < length m \<Longrightarrow> rd (m @ rest) i = rd m i"
  by (simp add: rd_def nth_append)

lemma rd_nth: "i < length m \<Longrightarrow> rd m i = m ! i"
  by (simp add: rd_def)

text \<open>The bytes from offset \<open>i\<close> up to, not including, offset \<open>j\<close>.\<close>

definition slice :: "bytes \<Rightarrow> nat \<Rightarrow> nat \<Rightarrow> bytes" where
  "slice mem i j = take (j - i) (drop i mem)"

lemma length_slice [simp]: "j \<le> length mem \<Longrightarrow> length (slice mem i j) = j - i"
  by (simp add: slice_def)

lemma slice_rd: "m + n \<le> length mem \<Longrightarrow> slice mem m (m + n) = map (\<lambda>k. rd mem (m + k)) [0..<n]"
  by (auto simp: list_eq_iff_nth_eq slice_def rd_def)

text \<open>No NUL, CR or LF from offset \<open>i\<close> up to \<open>j\<close>.\<close>

definition clean :: "bytes \<Rightarrow> nat \<Rightarrow> nat \<Rightarrow> bool" where
  "clean mem i j \<longleftrightarrow> (\<forall>k. i \<le> k \<longrightarrow> k < j \<longrightarrow> mem ! k \<noteq> NUL \<and> mem ! k \<noteq> CR \<and> mem ! k \<noteq> LF)"

lemma clean_Suc [simp]:
  "i \<le> j \<Longrightarrow> clean mem i (Suc j) \<longleftrightarrow>
     clean mem i j \<and> mem ! j \<noteq> NUL \<and> mem ! j \<noteq> CR \<and> mem ! j \<noteq> LF"
  by (auto simp: clean_def less_Suc_eq)

lemma clean_empty [simp]: "clean mem i i"
  by (simp add: clean_def)

text \<open>
  The test \<open>table[ch >> 5] & (1U << (ch & 0x1f))\<close> on a table of eight 32-bit words.
\<close>

definition in_table :: "32 word list \<Rightarrow> u_char \<Rightarrow> bool" where
  "in_table t ch \<longleftrightarrow> (t ! unat (drop_bit 5 ch)) AND push_bit (unat (ch AND 0x1f)) 1 \<noteq> 0"

section \<open>Return codes\<close>

datatype ngx_rc =
    NGX_OK | NGX_ERROR | NGX_AGAIN | NGX_BUSY | NGX_DONE | NGX_DECLINED
  | NGX_HTTP_PARSE_HEADER_DONE
  | NGX_HTTP_PARSE_INVALID_METHOD
  | NGX_HTTP_PARSE_INVALID_REQUEST
  | NGX_HTTP_PARSE_INVALID_09_METHOD
  | NGX_HTTP_PARSE_INVALID_HEADER

section \<open>Input buffers\<close>

text \<open>
  The part of \<open>ngx_buf_t\<close> the parsers use. \<open>b_mem\<close> holds the bytes between \<open>start\<close> and
  \<open>last\<close>, so \<open>last\<close> is its length; \<open>b_pos\<close> is the offset of \<open>pos\<close>. Receiving more
  data appends to it.
\<close>

record ngx_buf =
  b_mem :: bytes
  b_pos :: nat

definition recv :: "ngx_buf \<Rightarrow> bytes \<Rightarrow> ngx_buf" where
  "recv b rest = b\<lparr>b_mem := b_mem b @ rest\<rparr>"

lemma recv_sel [simp]:
  "b_mem (recv b rest) = b_mem b @ rest"
  "b_pos (recv b rest) = b_pos b"
  by (simp_all add: recv_def)

lemma recv_Nil [simp]: "recv b [] = b"
  by (simp add: recv_def)

lemma recv_recv [simp]: "recv (recv b xs) ys = recv b (xs @ ys)"
  by (simp add: recv_def)

lemma recv_pos_update [simp]: "recv (b\<lparr>b_pos := p\<rparr>) rest = (recv b rest)\<lparr>b_pos := p\<rparr>"
  by (simp add: recv_def)

section \<open>The scanning loop\<close>

text \<open>
  Every resumable parser is \<open>for (p = b->pos; p < b->last; p++) { ch = *p; switch (state) ... }\<close>.
  One round of the \<open>switch\<close> either goes on to the next byte or leaves the loop, by
  \<open>return\<close> or by \<open>goto\<close>; \<open>'e\<close> says where to.
\<close>

datatype ('s, 'e) flow = Cont 's | Leave 'e 's

datatype ('s, 'e) scanned = Ran_out nat 's | Left_at 'e nat 's

fun scan :: "(bytes \<Rightarrow> nat \<Rightarrow> u_char \<Rightarrow> 's \<Rightarrow> ('s, 'e) flow) \<Rightarrow>
    bytes \<Rightarrow> nat \<Rightarrow> bytes \<Rightarrow> 's \<Rightarrow> ('s, 'e) scanned" where
  "scan step mem p [] s = Ran_out p s"
| "scan step mem p (ch # chs) s =
     (case step mem p ch s of
        Cont s' \<Rightarrow> scan step mem (Suc p) chs s'
      | Leave e s' \<Rightarrow> Left_at e p s')"

lemma scan_append:
  "scan step mem p (xs @ ys) s =
     (case scan step mem p xs s of
        Ran_out q s' \<Rightarrow> scan step mem q ys s'
      | Left_at e q s' \<Rightarrow> Left_at e q s')"
  by (induction xs arbitrary: p s) (auto split: flow.split)

lemma scan_Ran_out_pos: "scan step mem p xs s = Ran_out q s' \<Longrightarrow> q = p + length xs"
  by (induction xs arbitrary: p s) (fastforce split: flow.splits)+

lemma scan_Left_at_pos:
  "scan step mem p xs s = Left_at e q s' \<Longrightarrow> p \<le> q \<and> q < p + length xs"
  by (induction xs arbitrary: p s) (fastforce split: flow.splits)+

text \<open>A state that accumulates a decimal number below \<open>lim\<close>.\<close>

lemma scan_digits:
  assumes "\<And>p v c. is_digit c \<Longrightarrow> v < lim \<Longrightarrow> step mem p c (f v) = Cont (f (v * 10 + digit_val c))"
    and "\<forall>c \<in> set ds. is_digit c" and "v * 10 ^ length ds + dec_val ds < 10 * lim"
  shows "scan step mem p (ds @ ys) (f v) =
    scan step mem (p + length ds) ys (f (v * 10 ^ length ds + dec_val ds))"
  using assms(2,3)
proof (induction ds arbitrary: p v)
  case (Cons d ds)
  have eq: "v * 10 ^ length (d # ds) + dec_val (d # ds) =
      (v * 10 + digit_val d) * 10 ^ length ds + dec_val ds"
    by (simp add: dec_val_Cons algebra_simps)
  have "v * 10 \<le> v * 10 * 10 ^ length ds" by simp
  also have "\<dots> \<le> v * 10 ^ length (d # ds) + dec_val (d # ds)" by simp
  finally have "v < lim" using Cons.prems(2) by linarith
  then have "step mem p d (f v) = Cont (f (v * 10 + digit_val d))"
    using Cons.prems(1) by (intro assms(1)) auto
  then show ?case
    using Cons.IH [of "v * 10 + digit_val d" "Suc p"] Cons.prems eq by simp
qed simp

text \<open>An invariant of one round is an invariant of the loop.\<close>

lemma scan_invariant:
  assumes "\<And>p ch s. I p s \<Longrightarrow> p < length mem \<Longrightarrow> ch = mem ! p \<Longrightarrow>
      (case step mem p ch s of Cont s' \<Rightarrow> I (Suc p) s' | Leave e s' \<Rightarrow> J e p s')"
    and "I p s"
  shows "case scan step mem p (drop p mem) s of
      Ran_out q s' \<Rightarrow> I q s' | Left_at e q s' \<Rightarrow> J e q s'"
  using assms(2)
proof (induction "length mem - p" arbitrary: p s)
  case 0
  then show ?case by simp
next
  case (Suc n)
  then have lt: "p < length mem" by simp
  then have drop: "drop p mem = mem ! p # drop (Suc p) mem"
    by (simp add: Cons_nth_drop_Suc)
  have one: "case step mem p (mem ! p) s of Cont s' \<Rightarrow> I (Suc p) s' | Leave e s' \<Rightarrow> J e p s'"
    using assms(1) [OF Suc.prems lt refl] .
  show ?case
  proof (cases "step mem p (mem ! p) s")
    case (Cont s')
    with one have "I (Suc p) s'" by simp
    then have "case scan step mem (Suc p) (drop (Suc p) mem) s' of
        Ran_out q s' \<Rightarrow> I q s' | Left_at e q s' \<Rightarrow> J e q s'"
      using Suc.hyps(2) by (intro Suc.hyps(1)) simp
    with Cont show ?thesis by (simp add: drop)
  next
    case (Leave e s')
    with one show ?thesis by (simp add: drop)
  qed
qed

text \<open>
  A whole parser: \<open>load\<close> is what it does on entry (\<open>state = r->state\<close> and so on),
  \<open>suspend\<close> what it does when the bytes run out, \<open>leave\<close> the code behind the labels.
\<close>

definition drive :: "(bytes \<Rightarrow> nat \<Rightarrow> u_char \<Rightarrow> 's \<Rightarrow> ('s, 'e) flow) \<Rightarrow> ('r \<Rightarrow> 's) \<Rightarrow>
    (nat \<Rightarrow> 's \<Rightarrow> ngx_buf \<Rightarrow> ngx_rc \<times> 'r \<times> ngx_buf) \<Rightarrow>
    ('e \<Rightarrow> nat \<Rightarrow> 's \<Rightarrow> ngx_buf \<Rightarrow> ngx_rc \<times> 'r \<times> ngx_buf) \<Rightarrow>
    'r \<Rightarrow> ngx_buf \<Rightarrow> ngx_rc \<times> 'r \<times> ngx_buf" where
  "drive step load suspend leave r b =
     (case scan step (b_mem b) (b_pos b) (drop (b_pos b) (b_mem b)) (load r) of
        Ran_out p s \<Rightarrow> suspend p s b
      | Left_at e p s \<Rightarrow> leave e p s b)"

text \<open>
  How the event loop uses a parser: call it, and while it answers \<open>NGX_AGAIN\<close> read
  more and call it again on the same request and buffer.
\<close>

fun feed :: "('r \<Rightarrow> ngx_buf \<Rightarrow> ngx_rc \<times> 'r \<times> ngx_buf) \<Rightarrow>
    'r \<Rightarrow> ngx_buf \<Rightarrow> bytes list \<Rightarrow> ngx_rc \<times> 'r \<times> ngx_buf" where
  "feed parse r b [] = parse r b"
| "feed parse r b (x # xs) =
     (case parse r b of (rc, r', b') \<Rightarrow>
        if rc = NGX_AGAIN then feed parse r' (recv b' x) xs
        else (rc, r', recv b' (concat (x # xs))))"

section \<open>Interfaces\<close>

text \<open>
  A byte step is \<^emph>\<open>causal\<close> when it looks at nothing beyond the byte it is given.
\<close>

locale causal_step =
  fixes step :: "bytes \<Rightarrow> nat \<Rightarrow> u_char \<Rightarrow> 's \<Rightarrow> ('s, 'e) flow"
  assumes step_causal:
    "p < length mem \<Longrightarrow> ch = mem ! p \<Longrightarrow> step (mem @ rest) p ch s = step mem p ch s"
begin

lemma scan_causal:
  "scan step (mem @ rest) p (drop p mem) s = scan step mem p (drop p mem) s"
proof (induction "length mem - p" arbitrary: p s)
  case 0
  then show ?case by simp
next
  case (Suc n)
  then have lt: "p < length mem" by simp
  have "drop p mem = mem ! p # drop (Suc p) mem"
    using lt by (simp add: Cons_nth_drop_Suc)
  moreover have "n = length mem - Suc p"
    using Suc.hyps(2) by simp
  ultimately show ?case
    using Suc.hyps(1) [of "Suc p"] step_causal [OF lt refl] by (simp split: flow.split)
qed

lemma scan_more:
  assumes "p \<le> length mem"
  shows "scan step (mem @ rest) p (drop p (mem @ rest)) s =
    (case scan step mem p (drop p mem) s of
       Ran_out q s' \<Rightarrow> scan step (mem @ rest) q (drop q (mem @ rest)) s'
     | Left_at e q s' \<Rightarrow> Left_at e q s')"
proof -
  have "drop p (mem @ rest) = drop p mem @ rest"
    using assms by simp
  moreover have "q = length mem" if "scan step mem p (drop p mem) s = Ran_out q s'" for q s'
    using scan_Ran_out_pos [OF that] assms by simp
  ultimately show ?thesis
    by (auto simp: scan_append scan_causal split: scanned.split)
qed

end

text \<open>
  A resumable parser suspends with everything the next call needs to load.
  \<open>core\<close> forgets the parts of the loop state that no later byte depends on (the saved
  copies of the local variables), \<open>view\<close> is what a caller may rely on in a result, and
  \<open>inv\<close> is what the loop state satisfies on the way.
\<close>

locale resumable_parser = causal_step step
  for step :: "bytes \<Rightarrow> nat \<Rightarrow> u_char \<Rightarrow> 's \<Rightarrow> ('s, 'e) flow" +
  fixes load :: "'r \<Rightarrow> 's"
    and suspend :: "nat \<Rightarrow> 's \<Rightarrow> ngx_buf \<Rightarrow> ngx_rc \<times> 'r \<times> ngx_buf"
    and leave :: "'e \<Rightarrow> nat \<Rightarrow> 's \<Rightarrow> ngx_buf \<Rightarrow> ngx_rc \<times> 'r \<times> ngx_buf"
    and good :: "'r \<Rightarrow> bool"
    and inv :: "'s \<Rightarrow> bool"
    and core :: "'s \<Rightarrow> 'c"
    and view :: "ngx_rc \<times> 'r \<times> ngx_buf \<Rightarrow> 'v"
  assumes inv_load: "good r \<Longrightarrow> inv (load r)"
    and inv_step: "inv s \<Longrightarrow> step mem p ch s = Cont s' \<Longrightarrow> inv s'"
    and step_core: "core s = core t \<Longrightarrow>
      map_flow core id (step mem p ch s) = map_flow core id (step mem p ch t)"
    and suspend_again: "inv s \<Longrightarrow> suspend p s b = (NGX_AGAIN, r', b') \<Longrightarrow>
      good r' \<and> core (load r') = core s \<and> b' = b\<lparr>b_pos := p\<rparr>"
    and suspend_core: "core s = core t \<Longrightarrow>
      view (suspend p s b) = view (suspend p t (b\<lparr>b_pos := q\<rparr>))"
    and leave_recv: "leave e p s b = (rc, r', b') \<Longrightarrow>
      rc \<noteq> NGX_AGAIN \<and> leave e p s (recv b rest) = (rc, r', recv b' rest)"
    and leave_core: "core s = core t \<Longrightarrow>
      view (leave e p s b) = view (leave e p t (b\<lparr>b_pos := q\<rparr>))"
begin

abbreviation parse :: "'r \<Rightarrow> ngx_buf \<Rightarrow> ngx_rc \<times> 'r \<times> ngx_buf" where
  "parse \<equiv> drive step load suspend leave"

abbreviation run :: "'r \<Rightarrow> ngx_buf \<Rightarrow> ('s, 'e) scanned" where
  "run r b \<equiv> scan step (b_mem b) (b_pos b) (drop (b_pos b) (b_mem b)) (load r)"

lemma scan_inv:
  "inv s \<Longrightarrow> scan step mem p xs s = Ran_out q s' \<Longrightarrow> inv s'"
  by (induction xs arbitrary: p s) (auto split: flow.splits dest: inv_step)

lemma scan_core:
  "core s = core t \<Longrightarrow>
    map_scanned core id (scan step mem p xs s) = map_scanned core id (scan step mem p xs t)"
proof (induction xs arbitrary: p s t)
  case Nil
  then show ?case by simp
next
  case (Cons x xs)
  have eq: "map_flow core id (step mem p x s) = map_flow core id (step mem p x t)"
    using Cons.prems by (rule step_core)
  show ?case
  proof (cases "step mem p x s")
    case (Cont s')
    with eq obtain t' where "step mem p x t = Cont t'" and "core s' = core t'"
      by (cases "step mem p x t") auto
    with Cont Cons.IH [of s' t' "Suc p"] show ?thesis by simp
  next
    case (Leave e s')
    with eq show ?thesis by (cases "step mem p x t") auto
  qed
qed

lemma finish_core:
  assumes "map_scanned core id x = map_scanned core id y"
  shows "view (case x of Ran_out p s \<Rightarrow> suspend p s b | Left_at e p s \<Rightarrow> leave e p s b) =
    view (case y of Ran_out p s \<Rightarrow> suspend p s (b\<lparr>b_pos := q\<rparr>)
      | Left_at e p s \<Rightarrow> leave e p s (b\<lparr>b_pos := q\<rparr>))"
  using assms by (cases x; cases y) (auto intro: suspend_core leave_core)

lemma parse_more_again:
  assumes "good r" and "b_pos b \<le> length (b_mem b)" and "parse r b = (NGX_AGAIN, r', b')"
  shows "view (parse r' (recv b' rest)) = view (parse r (recv b rest))"
    and "good r'" and "b' = b\<lparr>b_pos := length (b_mem b)\<rparr>"
proof -
  have "\<exists>p s. run r b = Ran_out p s \<and> suspend p s b = (NGX_AGAIN, r', b')"
    using assms(3) by (auto simp: drive_def split: scanned.splits dest: leave_recv)
  then obtain p s where out: "run r b = Ran_out p s"
    and sus: "suspend p s b = (NGX_AGAIN, r', b')" by blast
  from suspend_again [OF scan_inv [OF inv_load [OF assms(1)] out] sus]
  have l: "core (load r') = core s" and b': "b' = b\<lparr>b_pos := p\<rparr>" and g: "good r'"
    by auto
  have p: "p = length (b_mem b)"
    using scan_Ran_out_pos [OF out] assms(2) by simp
  have "run r (recv b rest) =
      scan step (b_mem b @ rest) p (drop p (b_mem b @ rest)) s"
    using scan_more [OF assms(2), of rest "load r"] out by simp
  moreover have "run r' (recv b' rest) =
      scan step (b_mem b @ rest) p (drop p (b_mem b @ rest)) (load r')"
    by (simp add: b')
  ultimately have "map_scanned core id (run r (recv b rest)) =
      map_scanned core id (run r' (recv b' rest))"
    using scan_core [OF l] by metis
  from finish_core [OF this, of "recv b rest" p]
  show "view (parse r' (recv b' rest)) = view (parse r (recv b rest))"
    by (simp add: drive_def b')
  show "good r'" by (rule g)
  show "b' = b\<lparr>b_pos := length (b_mem b)\<rparr>" by (simp add: b' p)
qed

lemma parse_more_left:
  assumes "b_pos b \<le> length (b_mem b)" and "run r b = Left_at e p s"
    and "parse r b = (rc, r', b')"
  shows "parse r (recv b rest) = (rc, r', recv b' rest)"
  using scan_more [OF assms(1), of rest "load r"] assms(2,3) leave_recv [of e p s b rc r' b' rest]
  by (simp add: drive_def)

end

text \<open>
  If the parser always asks for more when its input runs out, how the input is cut
  into pieces does not matter.
\<close>

locale suspending_parser = resumable_parser step load suspend leave good inv core view
  for step :: "bytes \<Rightarrow> nat \<Rightarrow> u_char \<Rightarrow> 's \<Rightarrow> ('s, 'e) flow"
    and load :: "'r \<Rightarrow> 's"
    and suspend :: "nat \<Rightarrow> 's \<Rightarrow> ngx_buf \<Rightarrow> ngx_rc \<times> 'r \<times> ngx_buf"
    and leave :: "'e \<Rightarrow> nat \<Rightarrow> 's \<Rightarrow> ngx_buf \<Rightarrow> ngx_rc \<times> 'r \<times> ngx_buf"
    and good :: "'r \<Rightarrow> bool"
    and inv :: "'s \<Rightarrow> bool"
    and core :: "'s \<Rightarrow> 'c"
    and view :: "ngx_rc \<times> 'r \<times> ngx_buf \<Rightarrow> 'v" +
  assumes suspend_rc: "fst (suspend p s b) = NGX_AGAIN"
begin

lemma parse_more_final:
  assumes "b_pos b \<le> length (b_mem b)" and "parse r b = (rc, r', b')" and "rc \<noteq> NGX_AGAIN"
  shows "parse r (recv b rest) = (rc, r', recv b' rest)"
proof (cases "run r b")
  case (Ran_out p s)
  with assms(2,3) suspend_rc [of p s b] show ?thesis by (simp add: drive_def)
next
  case (Left_at e p s)
  with assms show ?thesis by (blast intro: parse_more_left)
qed

theorem feed_concat:
  assumes "good r" and "b_pos b \<le> length (b_mem b)"
  shows "view (feed parse r b xs) = view (parse r (recv b (concat xs)))"
  using assms
proof (induction xs arbitrary: r b)
  case Nil
  then show ?case by simp
next
  case (Cons x xs)
  obtain rc r' b' where res: "parse r b = (rc, r', b')"
    by (cases "parse r b") auto
  show ?case
  proof (cases "rc = NGX_AGAIN")
    case True
    with res have again: "parse r b = (NGX_AGAIN, r', b')" by simp
    note next_call = parse_more_again [OF Cons.prems again]
    have "view (feed parse r' (recv b' x) xs) = view (parse r' (recv (recv b' x) (concat xs)))"
      using next_call(2,3) by (intro Cons.IH) simp_all
    also have "\<dots> = view (parse r (recv b (concat (x # xs))))"
      using next_call(1) [of "x @ concat xs"] by simp
    finally show ?thesis using res True by simp
  next
    case False
    then show ?thesis
      using parse_more_final [OF Cons.prems(2) res, of "concat (x # xs)"] res by simp
  qed
qed

end

end
