(* ===== verification/Http_Request.thy ===== *)
theory Http_Request
  imports Ngx_Base
begin

unbundle bit_operations_syntax

text \<open>
  The request structure (\<open>ngx_http_request_t\<close>, src/http/ngx_http_request.h): the fields
  the parsers of ngx_http_parse.c read and write, the method codes, and the table of
  \<open>usual\<close> URI characters.

  A pointer into the request buffer is the offset of the byte it points at, \<open>None\<close> for
  \<open>NULL\<close>. One-bit fields are booleans, \<open>http_major\<close> and \<open>http_minor\<close> the 16-bit fields
  they are in the source, \<open>header_hash\<close> a 64-bit \<open>ngx_uint_t\<close>. \<open>r_uri\<close>, \<open>r_exten\<close> and \<open>r_args\<close>
  are the bytes of \<open>r->uri\<close>, \<open>r->exten\<close> and \<open>r->args\<close>. While \<open>ngx_http_parse_complex_uri\<close> runs,
  \<open>uri_ext\<close> points into the URI it writes, and its offset is counted there.
\<close>

section \<open>The request\<close>

record ngx_http_request =
  r_state :: nat
  r_method :: nat
  http_version :: nat
  http_major :: "16 word"
  http_minor :: "16 word"
  request_start :: ptr
  request_end :: ptr
  method_end :: ptr
  schema_start :: ptr
  schema_end :: ptr
  host_start :: ptr
  host_end :: ptr
  port_end :: ptr
  uri_start :: ptr
  uri_end :: ptr
  uri_ext :: ptr
  args_start :: ptr
  http_protocol_data :: ptr
  complex_uri :: bool
  quoted_uri :: bool
  plus_in_uri :: bool
  space_in_uri :: bool
  invalid_header :: bool
  header_hash :: "64 word"
  lowcase_index :: nat
  lowcase_header :: bytes
  header_name_start :: ptr
  header_name_end :: ptr
  header_start :: ptr
  header_end :: ptr
  r_upstream :: bool
  r_uri :: bytes
  r_exten :: bytes
  r_args :: bytes

text \<open>\<open>NGX_HTTP_LC_HEADER_LEN\<close>\<close>

abbreviation (input) LC_HEADER_LEN :: nat where "LC_HEADER_LEN \<equiv> 32"

text \<open>A request as \<open>ngx_http_create_request\<close> leaves it: zeroed, with an unknown method and
  \<open>NGX_HTTP_VERSION_10\<close>.\<close>

definition ngx_http_request_init :: ngx_http_request where
  "ngx_http_request_init =
     \<lparr> r_state = 0, r_method = 0x0001, http_version = 1000, http_major = 0, http_minor = 0,
       request_start = None, request_end = None, method_end = None,
       schema_start = None, schema_end = None, host_start = None, host_end = None,
       port_end = None, uri_start = None, uri_end = None, uri_ext = None, args_start = None,
       http_protocol_data = None,
       complex_uri = False, quoted_uri = False, plus_in_uri = False, space_in_uri = False,
       invalid_header = False, header_hash = 0, lowcase_index = 0,
       lowcase_header = replicate LC_HEADER_LEN 0,
       header_name_start = None, header_name_end = None, header_start = None,
       header_end = None, r_upstream = False,
       r_uri = [], r_exten = [], r_args = [] \<rparr>"

text \<open>The method bits.\<close>

abbreviation (input) NGX_HTTP_UNKNOWN :: nat where "NGX_HTTP_UNKNOWN \<equiv> 0x0001"
abbreviation (input) NGX_HTTP_GET :: nat where "NGX_HTTP_GET \<equiv> 0x0002"
abbreviation (input) NGX_HTTP_HEAD :: nat where "NGX_HTTP_HEAD \<equiv> 0x0004"
abbreviation (input) NGX_HTTP_POST :: nat where "NGX_HTTP_POST \<equiv> 0x0008"
abbreviation (input) NGX_HTTP_PUT :: nat where "NGX_HTTP_PUT \<equiv> 0x0010"
abbreviation (input) NGX_HTTP_DELETE :: nat where "NGX_HTTP_DELETE \<equiv> 0x0020"
abbreviation (input) NGX_HTTP_MKCOL :: nat where "NGX_HTTP_MKCOL \<equiv> 0x0040"
abbreviation (input) NGX_HTTP_COPY :: nat where "NGX_HTTP_COPY \<equiv> 0x0080"
abbreviation (input) NGX_HTTP_MOVE :: nat where "NGX_HTTP_MOVE \<equiv> 0x0100"
abbreviation (input) NGX_HTTP_OPTIONS :: nat where "NGX_HTTP_OPTIONS \<equiv> 0x0200"
abbreviation (input) NGX_HTTP_PROPFIND :: nat where "NGX_HTTP_PROPFIND \<equiv> 0x0400"
abbreviation (input) NGX_HTTP_PROPPATCH :: nat where "NGX_HTTP_PROPPATCH \<equiv> 0x0800"
abbreviation (input) NGX_HTTP_LOCK :: nat where "NGX_HTTP_LOCK \<equiv> 0x1000"
abbreviation (input) NGX_HTTP_UNLOCK :: nat where "NGX_HTTP_UNLOCK \<equiv> 0x2000"
abbreviation (input) NGX_HTTP_PATCH :: nat where "NGX_HTTP_PATCH \<equiv> 0x4000"
abbreviation (input) NGX_HTTP_TRACE :: nat where "NGX_HTTP_TRACE \<equiv> 0x8000"

section \<open>Usual URI characters\<close>

text \<open>The table \<open>usual\<close> (the build is not \<open>NGX_WIN32\<close>).\<close>

definition usual :: "32 word list" where
  "usual = [0xffffdbfe, 0x7fff37d6, 0xffffffff, 0xffffffff,
            0xffffffff, 0xffffffff, 0xffffffff, 0xffffffff]"

definition is_usual :: "u_char \<Rightarrow> bool" where
  "is_usual ch \<longleftrightarrow> in_table usual ch"

lemma is_usual_iff:
  "is_usual ch \<longleftrightarrow>
     ch \<noteq> NUL \<and> ch \<noteq> LF \<and> ch \<noteq> CR \<and> ch \<noteq> SP \<and> ch \<noteq> HASH \<and> ch \<noteq> PERCENT \<and>
     ch \<noteq> PLUS \<and> ch \<noteq> DOT \<and> ch \<noteq> SLASH \<and> ch \<noteq> QUEST"
  by (rule byte_cases [where x = ch])
    (simp add: all_bytes_def is_usual_def in_table_def usual_def)

end
