(* ===== verification/Http_Request_Line.thy ===== *)
theory Http_Request_Line
  imports Http_Request
begin

unbundle bit_operations_syntax

text \<open>
  \<open>ngx_http_parse_request_line\<close> (src/http/ngx_http_parse.c): the state machine that reads
  \<open>METHOD URI HTTP/major.minor\<close>, one definition per state of its \<open>switch\<close>.
  The state \<open>sw_x\<close> of the source is the constructor \<open>Rl_x\<close>.
\<close>

section \<open>Comparing method names\<close>

text \<open>
  The little-endian build compares four bytes at once through a \<open>uint32_t *\<close>; \<open>le32\<close> is the
  word \<open>(c3 << 24) | (c2 << 16) | (c1 << 8) | c0\<close>, \<open>rd32\<close> the load.
\<close>

definition le32 :: "u_char \<Rightarrow> u_char \<Rightarrow> u_char \<Rightarrow> u_char \<Rightarrow> 32 word" where
  "le32 c0 c1 c2 c3 =
     push_bit 24 (ucast c3) OR push_bit 16 (ucast c2) OR push_bit 8 (ucast c1) OR ucast c0"

definition rd32 :: "bytes \<Rightarrow> nat \<Rightarrow> 32 word" where
  "rd32 mem m = le32 (rd mem m) (rd mem (m + 1)) (rd mem (m + 2)) (rd mem (m + 3))"

definition ngx_str3_cmp :: "bytes \<Rightarrow> nat \<Rightarrow> u_char \<Rightarrow> u_char \<Rightarrow> u_char \<Rightarrow> u_char \<Rightarrow> bool" where
  "ngx_str3_cmp mem m c0 c1 c2 c3 \<longleftrightarrow> rd32 mem m = le32 c0 c1 c2 c3"

definition ngx_str3Ocmp :: "bytes \<Rightarrow> nat \<Rightarrow> u_char \<Rightarrow> u_char \<Rightarrow> u_char \<Rightarrow> u_char \<Rightarrow> bool" where
  "ngx_str3Ocmp mem m c0 c1 c2 c3 \<longleftrightarrow> rd32 mem m = le32 c0 c1 c2 c3"

definition ngx_str4cmp :: "bytes \<Rightarrow> nat \<Rightarrow> u_char \<Rightarrow> u_char \<Rightarrow> u_char \<Rightarrow> u_char \<Rightarrow> bool" where
  "ngx_str4cmp mem m c0 c1 c2 c3 \<longleftrightarrow> rd32 mem m = le32 c0 c1 c2 c3"

definition ngx_str5cmp ::
    "bytes \<Rightarrow> nat \<Rightarrow> u_char \<Rightarrow> u_char \<Rightarrow> u_char \<Rightarrow> u_char \<Rightarrow> u_char \<Rightarrow> bool" where
  "ngx_str5cmp mem m c0 c1 c2 c3 c4 \<longleftrightarrow>
     rd32 mem m = le32 c0 c1 c2 c3 \<and> rd mem (m + 4) = c4"

definition ngx_str6cmp ::
    "bytes \<Rightarrow> nat \<Rightarrow> u_char \<Rightarrow> u_char \<Rightarrow> u_char \<Rightarrow> u_char \<Rightarrow> u_char \<Rightarrow> u_char \<Rightarrow> bool" where
  "ngx_str6cmp mem m c0 c1 c2 c3 c4 c5 \<longleftrightarrow>
     rd32 mem m = le32 c0 c1 c2 c3 \<and>
     rd32 mem (m + 4) AND 0xffff = push_bit 8 (ucast c5) OR ucast c4"

definition ngx_str7_cmp :: "bytes \<Rightarrow> nat \<Rightarrow> u_char \<Rightarrow> u_char \<Rightarrow> u_char \<Rightarrow> u_char \<Rightarrow>
    u_char \<Rightarrow> u_char \<Rightarrow> u_char \<Rightarrow> u_char \<Rightarrow> bool" where
  "ngx_str7_cmp mem m c0 c1 c2 c3 c4 c5 c6 c7 \<longleftrightarrow>
     rd32 mem m = le32 c0 c1 c2 c3 \<and> rd32 mem (m + 4) = le32 c4 c5 c6 c7"

definition ngx_str8cmp :: "bytes \<Rightarrow> nat \<Rightarrow> u_char \<Rightarrow> u_char \<Rightarrow> u_char \<Rightarrow> u_char \<Rightarrow>
    u_char \<Rightarrow> u_char \<Rightarrow> u_char \<Rightarrow> u_char \<Rightarrow> bool" where
  "ngx_str8cmp mem m c0 c1 c2 c3 c4 c5 c6 c7 \<longleftrightarrow>
     rd32 mem m = le32 c0 c1 c2 c3 \<and> rd32 mem (m + 4) = le32 c4 c5 c6 c7"

definition ngx_str9cmp :: "bytes \<Rightarrow> nat \<Rightarrow> u_char \<Rightarrow> u_char \<Rightarrow> u_char \<Rightarrow> u_char \<Rightarrow>
    u_char \<Rightarrow> u_char \<Rightarrow> u_char \<Rightarrow> u_char \<Rightarrow> u_char \<Rightarrow> bool" where
  "ngx_str9cmp mem m c0 c1 c2 c3 c4 c5 c6 c7 c8 \<longleftrightarrow>
     rd32 mem m = le32 c0 c1 c2 c3 \<and> rd32 mem (m + 4) = le32 c4 c5 c6 c7 \<and>
     rd mem (m + 8) = c8"

section \<open>States and exits\<close>

datatype rl_state =
    Rl_start | Rl_method | Rl_spaces_before_uri | Rl_schema | Rl_schema_slash
  | Rl_schema_slash_slash | Rl_host_start | Rl_host | Rl_host_end | Rl_host_ip_literal
  | Rl_port | Rl_host_http_09 | Rl_after_slash_in_uri | Rl_check_uri
  | Rl_check_uri_http_09 | Rl_uri | Rl_http_09 | Rl_http_H | Rl_http_HT | Rl_http_HTT
  | Rl_http_HTTP | Rl_first_major_digit | Rl_major_digit | Rl_first_minor_digit
  | Rl_minor_digit | Rl_spaces_after_digit | Rl_almost_done
  | Rl_no_case nat

text \<open>
  \<open>r->state\<close> is an integer: the position of the state in the \<open>enum\<close>. An integer that
  names no state selects no \<open>case\<close> of the \<open>switch\<close> (\<open>Rl_no_case\<close>).
\<close>

definition rl_enum :: "rl_state list" where
  "rl_enum =
     [Rl_start, Rl_method, Rl_spaces_before_uri, Rl_schema, Rl_schema_slash,
      Rl_schema_slash_slash, Rl_host_start, Rl_host, Rl_host_end, Rl_host_ip_literal,
      Rl_port, Rl_host_http_09, Rl_after_slash_in_uri, Rl_check_uri,
      Rl_check_uri_http_09, Rl_uri, Rl_http_09, Rl_http_H, Rl_http_HT, Rl_http_HTT,
      Rl_http_HTTP, Rl_first_major_digit, Rl_major_digit, Rl_first_minor_digit,
      Rl_minor_digit, Rl_spaces_after_digit, Rl_almost_done]"

definition rl_of_nat :: "nat \<Rightarrow> rl_state" where
  "rl_of_nat n = (if n < 27 then rl_enum ! n else Rl_no_case (n - 27))"

fun rl_to_nat :: "rl_state \<Rightarrow> nat" where
  "rl_to_nat Rl_start = 0" | "rl_to_nat Rl_method = 1"
| "rl_to_nat Rl_spaces_before_uri = 2" | "rl_to_nat Rl_schema = 3"
| "rl_to_nat Rl_schema_slash = 4" | "rl_to_nat Rl_schema_slash_slash = 5"
| "rl_to_nat Rl_host_start = 6" | "rl_to_nat Rl_host = 7" | "rl_to_nat Rl_host_end = 8"
| "rl_to_nat Rl_host_ip_literal = 9" | "rl_to_nat Rl_port = 10"
| "rl_to_nat Rl_host_http_09 = 11" | "rl_to_nat Rl_after_slash_in_uri = 12"
| "rl_to_nat Rl_check_uri = 13" | "rl_to_nat Rl_check_uri_http_09 = 14"
| "rl_to_nat Rl_uri = 15" | "rl_to_nat Rl_http_09 = 16" | "rl_to_nat Rl_http_H = 17"
| "rl_to_nat Rl_http_HT = 18" | "rl_to_nat Rl_http_HTT = 19" | "rl_to_nat Rl_http_HTTP = 20"
| "rl_to_nat Rl_first_major_digit = 21" | "rl_to_nat Rl_major_digit = 22"
| "rl_to_nat Rl_first_minor_digit = 23" | "rl_to_nat Rl_minor_digit = 24"
| "rl_to_nat Rl_spaces_after_digit = 25" | "rl_to_nat Rl_almost_done = 26"
| "rl_to_nat (Rl_no_case k) = 27 + k"

text \<open>The two \<open>return NGX_HTTP_PARSE_INVALID_...\<close> and \<open>goto done\<close>.\<close>

datatype rl_exit = Rl_invalid_method | Rl_invalid_request | Rl_done

type_synonym rl_flow = "(rl_state \<times> ngx_http_request, rl_exit) flow"

abbreviation (input) rl_goto :: "rl_state \<Rightarrow> ngx_http_request \<Rightarrow> rl_flow" where
  "rl_goto st r \<equiv> Cont (st, r)"

abbreviation (input) rl_fail :: "rl_exit \<Rightarrow> rl_state \<Rightarrow> ngx_http_request \<Rightarrow> rl_flow" where
  "rl_fail e st r \<equiv> Leave e (st, r)"

abbreviation (input) rl_finish :: "rl_state \<Rightarrow> ngx_http_request \<Rightarrow> rl_flow" where
  "rl_finish st r \<equiv> Leave Rl_done (st, r)"

section \<open>One round of the loop, state by state\<close>

text \<open>A byte that may stand in a method name.\<close>

definition method_char :: "u_char \<Rightarrow> bool" where
  "method_char ch \<longleftrightarrow> \<not> ((ch < c_A \<or> c_Z < ch) \<and> ch \<noteq> UNDER \<and> ch \<noteq> MINUS)"

definition rl_start :: "nat \<Rightarrow> u_char \<Rightarrow> ngx_http_request \<Rightarrow> rl_flow" where
  "rl_start p ch r0 =
     (let r = r0\<lparr>request_start := Some p\<rparr> in
      if ch = CR \<or> ch = LF then rl_goto Rl_start r
      else if \<not> method_char ch then rl_fail Rl_invalid_method Rl_start r
      else rl_goto Rl_method r)"

text \<open>The inner \<open>switch (p - m)\<close>: the method of the bytes from \<open>m\<close>, by their number.\<close>

definition rl_method3 :: "bytes \<Rightarrow> nat \<Rightarrow> nat \<Rightarrow> nat" where
  "rl_method3 mem m old =
     (if ngx_str3_cmp mem m c_G c_E c_T SP then NGX_HTTP_GET
      else if ngx_str3_cmp mem m c_P c_U c_T SP then NGX_HTTP_PUT
      else old)"

definition rl_method4 :: "bytes \<Rightarrow> nat \<Rightarrow> nat \<Rightarrow> nat" where
  "rl_method4 mem m old =
     (if rd mem (m + 1) = c_O then
        (if ngx_str3Ocmp mem m c_P c_O c_S c_T then NGX_HTTP_POST
         else if ngx_str3Ocmp mem m c_C c_O c_P c_Y then NGX_HTTP_COPY
         else if ngx_str3Ocmp mem m c_M c_O c_V c_E then NGX_HTTP_MOVE
         else if ngx_str3Ocmp mem m c_L c_O c_C c_K then NGX_HTTP_LOCK
         else old)
      else if ngx_str4cmp mem m c_H c_E c_A c_D then NGX_HTTP_HEAD
      else old)"

definition rl_method5 :: "bytes \<Rightarrow> nat \<Rightarrow> nat \<Rightarrow> nat" where
  "rl_method5 mem m old =
     (if ngx_str5cmp mem m c_M c_K c_C c_O c_L then NGX_HTTP_MKCOL
      else if ngx_str5cmp mem m c_P c_A c_T c_C c_H then NGX_HTTP_PATCH
      else if ngx_str5cmp mem m c_T c_R c_A c_C c_E then NGX_HTTP_TRACE
      else old)"

definition rl_method6 :: "bytes \<Rightarrow> nat \<Rightarrow> nat \<Rightarrow> nat" where
  "rl_method6 mem m old =
     (if ngx_str6cmp mem m c_D c_E c_L c_E c_T c_E then NGX_HTTP_DELETE
      else if ngx_str6cmp mem m c_U c_N c_L c_O c_C c_K then NGX_HTTP_UNLOCK
      else old)"

definition rl_method789 :: "bytes \<Rightarrow> nat \<Rightarrow> nat \<Rightarrow> nat \<Rightarrow> nat" where
  "rl_method789 mem m n old =
     (if n = 7 then
        (if ngx_str7_cmp mem m c_O c_P c_T c_I c_O c_N c_S SP then NGX_HTTP_OPTIONS else old)
      else if n = 8 then
        (if ngx_str8cmp mem m c_P c_R c_O c_P c_F c_I c_N c_D then NGX_HTTP_PROPFIND else old)
      else if n = 9 then
        (if ngx_str9cmp mem m c_P c_R c_O c_P c_P c_A c_T c_C c_H
         then NGX_HTTP_PROPPATCH else old)
      else old)"

definition rl_method_code :: "bytes \<Rightarrow> nat \<Rightarrow> nat \<Rightarrow> nat \<Rightarrow> nat" where
  "rl_method_code mem m n old =
     (if n = 3 then rl_method3 mem m old
      else if n = 4 then rl_method4 mem m old
      else if n = 5 then rl_method5 mem m old
      else if n = 6 then rl_method6 mem m old
      else rl_method789 mem m n old)"

definition rl_method :: "bytes \<Rightarrow> nat \<Rightarrow> u_char \<Rightarrow> ngx_http_request \<Rightarrow> rl_flow" where
  "rl_method mem p ch r =
     (if ch = SP then
        (let m = (case request_start r of Some m \<Rightarrow> m | None \<Rightarrow> 0) in
         rl_goto Rl_spaces_before_uri
           (r\<lparr>method_end := Some (p - 1),
              r_method := rl_method_code mem m (p - m) (r_method r)\<rparr>))
      else if \<not> method_char ch then rl_fail Rl_invalid_method Rl_method r
      else rl_goto Rl_method r)"

definition rl_spaces_before_uri :: "nat \<Rightarrow> u_char \<Rightarrow> ngx_http_request \<Rightarrow> rl_flow" where
  "rl_spaces_before_uri p ch r =
     (if ch = SLASH then rl_goto Rl_after_slash_in_uri (r\<lparr>uri_start := Some p\<rparr>)
      else if is_alpha ch then rl_goto Rl_schema (r\<lparr>schema_start := Some p\<rparr>)
      else if ch = SP then rl_goto Rl_spaces_before_uri r
      else rl_fail Rl_invalid_request Rl_spaces_before_uri r)"

definition rl_schema :: "nat \<Rightarrow> u_char \<Rightarrow> ngx_http_request \<Rightarrow> rl_flow" where
  "rl_schema p ch r =
     (if is_alpha ch then rl_goto Rl_schema r
      else if ch = COLON then rl_goto Rl_schema_slash (r\<lparr>schema_end := Some p\<rparr>)
      else rl_fail Rl_invalid_request Rl_schema r)"

text \<open>The states that accept one character only.\<close>

definition rl_expect :: "u_char \<Rightarrow> rl_state \<Rightarrow> rl_state \<Rightarrow> u_char \<Rightarrow> ngx_http_request \<Rightarrow> rl_flow" where
  "rl_expect c nxt st ch r =
     (if ch = c then rl_goto nxt r else rl_fail Rl_invalid_request st r)"

text \<open>"use single \<open>/\<close> from request line to preserve pointers"\<close>

definition rl_single_slash :: "ngx_http_request \<Rightarrow> ngx_http_request" where
  "rl_single_slash r =
     r\<lparr>uri_start := map_option (\<lambda>q. q + 1) (schema_end r),
       uri_end := map_option (\<lambda>q. q + 2) (schema_end r)\<rparr>"

definition rl_host_end :: "nat \<Rightarrow> u_char \<Rightarrow> rl_state \<Rightarrow> ngx_http_request \<Rightarrow> rl_flow" where
  "rl_host_end p ch st r0 =
     (let r = r0\<lparr>host_end := Some p\<rparr> in
      if ch = COLON then rl_goto Rl_port r
      else if ch = SLASH then rl_goto Rl_after_slash_in_uri (r\<lparr>uri_start := Some p\<rparr>)
      else if ch = SP then rl_goto Rl_host_http_09 (rl_single_slash r)
      else rl_fail Rl_invalid_request st r)"

text \<open>\<open>sw_host\<close>, which falls through to \<open>sw_host_end\<close>.\<close>

definition rl_host :: "nat \<Rightarrow> u_char \<Rightarrow> ngx_http_request \<Rightarrow> rl_flow" where
  "rl_host p ch r =
     (if is_alpha ch then rl_goto Rl_host r
      else if is_digit ch \<or> ch = DOT \<or> ch = MINUS then rl_goto Rl_host r
      else rl_host_end p ch Rl_host r)"

text \<open>\<open>sw_host_start\<close>, which falls through to \<open>sw_host\<close>.\<close>

definition rl_host_start :: "nat \<Rightarrow> u_char \<Rightarrow> ngx_http_request \<Rightarrow> rl_flow" where
  "rl_host_start p ch r0 =
     (let r = r0\<lparr>host_start := Some p\<rparr> in
      if ch = LBRACK then rl_goto Rl_host_ip_literal r else rl_host p ch r)"

definition rl_host_ip_literal :: "u_char \<Rightarrow> ngx_http_request \<Rightarrow> rl_flow" where
  "rl_host_ip_literal ch r =
     (if is_digit ch then rl_goto Rl_host_ip_literal r
      else if is_alpha ch then rl_goto Rl_host_ip_literal r
      else if ch = COLON then rl_goto Rl_host_ip_literal r
      else if ch = RBRACK then rl_goto Rl_host_end r
      else if ch \<in> {MINUS, DOT, UNDER, TILDE} then rl_goto Rl_host_ip_literal r
      else if ch \<in> {EXCL, DOLLAR, AMP, SQUOTE, LPAREN, RPAREN, STAR, PLUS, COMMA, SEMI, EQ}
        then rl_goto Rl_host_ip_literal r
      else rl_fail Rl_invalid_request Rl_host_ip_literal r)"

definition rl_port :: "nat \<Rightarrow> u_char \<Rightarrow> ngx_http_request \<Rightarrow> rl_flow" where
  "rl_port p ch r =
     (if is_digit ch then rl_goto Rl_port r
      else if ch = SLASH then
        rl_goto Rl_after_slash_in_uri (r\<lparr>port_end := Some p, uri_start := Some p\<rparr>)
      else if ch = SP then
        rl_goto Rl_host_http_09 (rl_single_slash (r\<lparr>port_end := Some p\<rparr>))
      else rl_fail Rl_invalid_request Rl_port r)"

text \<open>
  \<open>sw_host_http_09\<close>, and with \<open>other\<close> for the \<open>default\<close> of their \<open>switch\<close> also
  \<open>sw_check_uri_http_09\<close> and \<open>sw_http_09\<close>: the spaces before the protocol.
\<close>

definition rl_spaces_http_09 ::
    "rl_state \<Rightarrow> (ngx_http_request \<Rightarrow> rl_flow) \<Rightarrow> nat \<Rightarrow> u_char \<Rightarrow> ngx_http_request \<Rightarrow> rl_flow" where
  "rl_spaces_http_09 st other p ch r =
     (if ch = SP then rl_goto st r
      else if ch = CR then rl_goto Rl_almost_done (r\<lparr>http_minor := 9\<rparr>)
      else if ch = LF then rl_finish st (r\<lparr>http_minor := 9\<rparr>)
      else if ch = c_H then rl_goto Rl_http_H (r\<lparr>http_protocol_data := Some p\<rparr>)
      else other r)"

definition rl_host_http_09 :: "nat \<Rightarrow> u_char \<Rightarrow> ngx_http_request \<Rightarrow> rl_flow" where
  "rl_host_http_09 =
     rl_spaces_http_09 Rl_host_http_09 (rl_fail Rl_invalid_request Rl_host_http_09)"

text \<open>The URI ends at \<open>p\<close> and no protocol follows: HTTP/0.9.\<close>

abbreviation (input) uri_end_09 :: "nat \<Rightarrow> ngx_http_request \<Rightarrow> ngx_http_request" where
  "uri_end_09 p r \<equiv> r\<lparr>uri_end := Some p, http_minor := 9\<rparr>"

definition rl_after_slash_in_uri :: "nat \<Rightarrow> u_char \<Rightarrow> ngx_http_request \<Rightarrow> rl_flow" where
  "rl_after_slash_in_uri p ch r =
     (if is_usual ch then rl_goto Rl_check_uri r
      else if ch = SP then rl_goto Rl_check_uri_http_09 (r\<lparr>uri_end := Some p\<rparr>)
      else if ch = CR then rl_goto Rl_almost_done (uri_end_09 p r)
      else if ch = LF then rl_finish Rl_after_slash_in_uri (uri_end_09 p r)
      else if ch = DOT then rl_goto Rl_uri (r\<lparr>complex_uri := True\<rparr>)
      else if ch = PERCENT then rl_goto Rl_uri (r\<lparr>quoted_uri := True\<rparr>)
      else if ch = SLASH then rl_goto Rl_uri (r\<lparr>complex_uri := True\<rparr>)
      else if ch = QUEST then rl_goto Rl_uri (r\<lparr>args_start := Some (p + 1)\<rparr>)
      else if ch = HASH then rl_goto Rl_uri (r\<lparr>complex_uri := True\<rparr>)
      else if ch = PLUS then rl_goto Rl_after_slash_in_uri (r\<lparr>plus_in_uri := True\<rparr>)
      else if ch = NUL then rl_fail Rl_invalid_request Rl_after_slash_in_uri r
      else rl_goto Rl_check_uri r)"

definition rl_check_uri :: "nat \<Rightarrow> u_char \<Rightarrow> ngx_http_request \<Rightarrow> rl_flow" where
  "rl_check_uri p ch r =
     (if is_usual ch then rl_goto Rl_check_uri r
      else if ch = SLASH then rl_goto Rl_after_slash_in_uri (r\<lparr>uri_ext := None\<rparr>)
      else if ch = DOT then rl_goto Rl_check_uri (r\<lparr>uri_ext := Some (p + 1)\<rparr>)
      else if ch = SP then rl_goto Rl_check_uri_http_09 (r\<lparr>uri_end := Some p\<rparr>)
      else if ch = CR then rl_goto Rl_almost_done (uri_end_09 p r)
      else if ch = LF then rl_finish Rl_check_uri (uri_end_09 p r)
      else if ch = PERCENT then rl_goto Rl_uri (r\<lparr>quoted_uri := True\<rparr>)
      else if ch = QUEST then rl_goto Rl_uri (r\<lparr>args_start := Some (p + 1)\<rparr>)
      else if ch = HASH then rl_goto Rl_uri (r\<lparr>complex_uri := True\<rparr>)
      else if ch = PLUS then rl_goto Rl_check_uri (r\<lparr>plus_in_uri := True\<rparr>)
      else if ch = NUL then rl_fail Rl_invalid_request Rl_check_uri r
      else rl_goto Rl_check_uri r)"

definition rl_uri :: "nat \<Rightarrow> u_char \<Rightarrow> ngx_http_request \<Rightarrow> rl_flow" where
  "rl_uri p ch r =
     (if is_usual ch then rl_goto Rl_uri r
      else if ch = SP then rl_goto Rl_http_09 (r\<lparr>uri_end := Some p\<rparr>)
      else if ch = CR then rl_goto Rl_almost_done (uri_end_09 p r)
      else if ch = LF then rl_finish Rl_uri (uri_end_09 p r)
      else if ch = HASH then rl_goto Rl_uri (r\<lparr>complex_uri := True\<rparr>)
      else if ch = NUL then rl_fail Rl_invalid_request Rl_uri r
      else rl_goto Rl_uri r)"

text \<open>
  In the two states below the \<open>default\<close> is \<open>state = sw_...; p--; break;\<close>: the loop's \<open>p++\<close>
  undoes the \<open>p--\<close>, so the next round is the \<open>case\<close> of the new state on the same byte.
\<close>

definition rl_check_uri_http_09 :: "nat \<Rightarrow> u_char \<Rightarrow> ngx_http_request \<Rightarrow> rl_flow" where
  "rl_check_uri_http_09 p ch =
     rl_spaces_http_09 Rl_check_uri_http_09
       (\<lambda>r. rl_check_uri p ch (r\<lparr>space_in_uri := True\<rparr>)) p ch"

definition rl_http_09 :: "nat \<Rightarrow> u_char \<Rightarrow> ngx_http_request \<Rightarrow> rl_flow" where
  "rl_http_09 p ch =
     rl_spaces_http_09 Rl_http_09 (\<lambda>r. rl_uri p ch (r\<lparr>space_in_uri := True\<rparr>)) p ch"

definition rl_first_major_digit :: "u_char \<Rightarrow> ngx_http_request \<Rightarrow> rl_flow" where
  "rl_first_major_digit ch r =
     (if ch < D1 \<or> D9 < ch then rl_fail Rl_invalid_request Rl_first_major_digit r
      else rl_goto Rl_major_digit (r\<lparr>http_major := ucast (ch - D0)\<rparr>))"

definition rl_major_digit :: "u_char \<Rightarrow> ngx_http_request \<Rightarrow> rl_flow" where
  "rl_major_digit ch r =
     (if ch = DOT then rl_goto Rl_first_minor_digit r
      else if \<not> is_digit ch then rl_fail Rl_invalid_request Rl_major_digit r
      else if 99 < http_major r then rl_fail Rl_invalid_request Rl_major_digit r
      else rl_goto Rl_major_digit (r\<lparr>http_major := http_major r * 10 + ucast (ch - D0)\<rparr>))"

definition rl_first_minor_digit :: "u_char \<Rightarrow> ngx_http_request \<Rightarrow> rl_flow" where
  "rl_first_minor_digit ch r =
     (if \<not> is_digit ch then rl_fail Rl_invalid_request Rl_first_minor_digit r
      else rl_goto Rl_minor_digit (r\<lparr>http_minor := ucast (ch - D0)\<rparr>))"

definition rl_minor_digit :: "u_char \<Rightarrow> ngx_http_request \<Rightarrow> rl_flow" where
  "rl_minor_digit ch r =
     (if ch = CR then rl_goto Rl_almost_done r
      else if ch = LF then rl_finish Rl_minor_digit r
      else if ch = SP then rl_goto Rl_spaces_after_digit r
      else if \<not> is_digit ch then rl_fail Rl_invalid_request Rl_minor_digit r
      else if 99 < http_minor r then rl_fail Rl_invalid_request Rl_minor_digit r
      else rl_goto Rl_minor_digit (r\<lparr>http_minor := http_minor r * 10 + ucast (ch - D0)\<rparr>))"

definition rl_spaces_after_digit :: "u_char \<Rightarrow> ngx_http_request \<Rightarrow> rl_flow" where
  "rl_spaces_after_digit ch r =
     (if ch = SP then rl_goto Rl_spaces_after_digit r
      else if ch = CR then rl_goto Rl_almost_done r
      else if ch = LF then rl_finish Rl_spaces_after_digit r
      else rl_fail Rl_invalid_request Rl_spaces_after_digit r)"

definition rl_almost_done :: "nat \<Rightarrow> u_char \<Rightarrow> ngx_http_request \<Rightarrow> rl_flow" where
  "rl_almost_done p ch r0 =
     (let r = r0\<lparr>request_end := Some (p - 1)\<rparr> in
      if ch = LF then rl_finish Rl_almost_done r
      else rl_fail Rl_invalid_request Rl_almost_done r)"

text \<open>The \<open>switch (state)\<close>.\<close>

fun rl_step :: "bytes \<Rightarrow> nat \<Rightarrow> u_char \<Rightarrow> rl_state \<times> ngx_http_request \<Rightarrow> rl_flow" where
  "rl_step mem p ch (Rl_start, r) = rl_start p ch r"
| "rl_step mem p ch (Rl_method, r) = rl_method mem p ch r"
| "rl_step mem p ch (Rl_spaces_before_uri, r) = rl_spaces_before_uri p ch r"
| "rl_step mem p ch (Rl_schema, r) = rl_schema p ch r"
| "rl_step mem p ch (Rl_schema_slash, r) =
     rl_expect SLASH Rl_schema_slash_slash Rl_schema_slash ch r"
| "rl_step mem p ch (Rl_schema_slash_slash, r) =
     rl_expect SLASH Rl_host_start Rl_schema_slash_slash ch r"
| "rl_step mem p ch (Rl_host_start, r) = rl_host_start p ch r"
| "rl_step mem p ch (Rl_host, r) = rl_host p ch r"
| "rl_step mem p ch (Rl_host_end, r) = rl_host_end p ch Rl_host_end r"
| "rl_step mem p ch (Rl_host_ip_literal, r) = rl_host_ip_literal ch r"
| "rl_step mem p ch (Rl_port, r) = rl_port p ch r"
| "rl_step mem p ch (Rl_host_http_09, r) = rl_host_http_09 p ch r"
| "rl_step mem p ch (Rl_after_slash_in_uri, r) = rl_after_slash_in_uri p ch r"
| "rl_step mem p ch (Rl_check_uri, r) = rl_check_uri p ch r"
| "rl_step mem p ch (Rl_check_uri_http_09, r) = rl_check_uri_http_09 p ch r"
| "rl_step mem p ch (Rl_uri, r) = rl_uri p ch r"
| "rl_step mem p ch (Rl_http_09, r) = rl_http_09 p ch r"
| "rl_step mem p ch (Rl_http_H, r) = rl_expect c_T Rl_http_HT Rl_http_H ch r"
| "rl_step mem p ch (Rl_http_HT, r) = rl_expect c_T Rl_http_HTT Rl_http_HT ch r"
| "rl_step mem p ch (Rl_http_HTT, r) = rl_expect c_P Rl_http_HTTP Rl_http_HTT ch r"
| "rl_step mem p ch (Rl_http_HTTP, r) = rl_expect SLASH Rl_first_major_digit Rl_http_HTTP ch r"
| "rl_step mem p ch (Rl_first_major_digit, r) = rl_first_major_digit ch r"
| "rl_step mem p ch (Rl_major_digit, r) = rl_major_digit ch r"
| "rl_step mem p ch (Rl_first_minor_digit, r) = rl_first_minor_digit ch r"
| "rl_step mem p ch (Rl_minor_digit, r) = rl_minor_digit ch r"
| "rl_step mem p ch (Rl_spaces_after_digit, r) = rl_spaces_after_digit ch r"
| "rl_step mem p ch (Rl_almost_done, r) = rl_almost_done p ch r"
| "rl_step mem p ch (Rl_no_case k, r) = rl_goto (Rl_no_case k) r"

section \<open>The parser\<close>

definition rl_load :: "ngx_http_request \<Rightarrow> rl_state \<times> ngx_http_request" where
  "rl_load r = (rl_of_nat (r_state r), r)"

definition rl_suspend :: "nat \<Rightarrow> rl_state \<times> ngx_http_request \<Rightarrow> ngx_buf \<Rightarrow>
    ngx_rc \<times> ngx_http_request \<times> ngx_buf" where
  "rl_suspend p s b =
     (case s of (st, r) \<Rightarrow> (NGX_AGAIN, r\<lparr>r_state := rl_to_nat st\<rparr>, b\<lparr>b_pos := p\<rparr>))"

text \<open>The code behind \<open>done:\<close>, and the early returns.\<close>

fun rl_leave :: "rl_exit \<Rightarrow> nat \<Rightarrow> rl_state \<times> ngx_http_request \<Rightarrow> ngx_buf \<Rightarrow>
    ngx_rc \<times> ngx_http_request \<times> ngx_buf" where
  "rl_leave Rl_invalid_method p (st, r) b = (NGX_HTTP_PARSE_INVALID_METHOD, r, b)"
| "rl_leave Rl_invalid_request p (st, r) b = (NGX_HTTP_PARSE_INVALID_REQUEST, r, b)"
| "rl_leave Rl_done p (st, r) b =
     (let v = unat (http_major r) * 1000 + unat (http_minor r);
          r' = r\<lparr>request_end := (case request_end r of None \<Rightarrow> Some p | Some q \<Rightarrow> Some q),
                 http_version := v, r_state := 0\<rparr>
      in (if v = 9 \<and> r_method r \<noteq> NGX_HTTP_GET then NGX_HTTP_PARSE_INVALID_09_METHOD
          else NGX_OK, r', b\<lparr>b_pos := p + 1\<rparr>))"

definition ngx_http_parse_request_line ::
    "ngx_http_request \<Rightarrow> ngx_buf \<Rightarrow> ngx_rc \<times> ngx_http_request \<times> ngx_buf" where
  "ngx_http_parse_request_line = drive rl_step rl_load rl_suspend rl_leave"

section \<open>The parser is resumable\<close>

lemma rl_of_to_nat [simp]: "rl_of_nat (rl_to_nat s) = s"
  by (cases s) (simp_all add: rl_of_nat_def rl_enum_def)

lemma le32_bytes:
  "ucast (le32 a b c d) = a" "ucast (drop_bit 8 (le32 a b c d)) = b"
  "ucast (drop_bit 16 (le32 a b c d)) = c" "ucast (drop_bit 24 (le32 a b c d)) = d"
  by (rule bit_word_eqI; auto simp: le32_def bit_simps dest: bit_imp_le_length)+

lemma le32_inject [simp]:
  "le32 a b c d = le32 a' b' c' d' \<longleftrightarrow> a = a' \<and> b = b' \<and> c = c' \<and> d = d'"
  by (metis le32_bytes)

lemma le32_low16: "le32 a b c d AND 0xffff = push_bit 8 (ucast b') OR ucast a' \<longleftrightarrow> a = a' \<and> b = b'"
proof -
  have m: "(0xffff :: 32 word) = mask 16"
    by (simp add: mask_eq_exp_minus_1)
  have 1: "le32 a b c d AND 0xffff = le32 a b 0 0" unfolding m
    by (rule bit_word_eqI) (auto simp: le32_def bit_simps dest: bit_imp_le_length)
  have 2: "push_bit 8 (ucast b') OR ucast a' = le32 a' b' 0 0"
    by (simp add: le32_def)
  show ?thesis unfolding 1 2 by simp
qed
lemmas rl_state_defs =
  rl_start_def rl_method_def rl_spaces_before_uri_def rl_schema_def rl_expect_def
  rl_single_slash_def rl_host_end_def rl_host_def rl_host_start_def rl_host_ip_literal_def
  rl_port_def rl_spaces_http_09_def rl_host_http_09_def rl_after_slash_in_uri_def
  rl_check_uri_def rl_uri_def rl_check_uri_http_09_def rl_http_09_def
  rl_first_major_digit_def rl_major_digit_def rl_first_minor_digit_def rl_minor_digit_def
  rl_spaces_after_digit_def rl_almost_done_def

fun rl_core :: "rl_state \<times> ngx_http_request \<Rightarrow> rl_state \<times> ngx_http_request" where
  "rl_core (st, r) = (st, r\<lparr>r_state := 0\<rparr>)"

lemma rl_step_core:
  "rl_step mem p ch (rl_core s) = map_flow rl_core id (rl_step mem p ch s)"
proof -
  obtain st r where "s = (st, r)" by (cases s)
  then show ?thesis by (cases st) (simp_all add: rl_state_defs Let_def)
qed

lemma r_state_cong:
  assumes "r\<lparr>r_state := 0\<rparr> = r'\<lparr>r_state := 0\<rparr>"
  shows "r\<lparr>r_state := n\<rparr> = (r' :: ngx_http_request)\<lparr>r_state := n\<rparr>"
  using arg_cong [OF assms, of "\<lambda>r. r\<lparr>r_state := n\<rparr>"] by simp

lemma rl_core_eqD:
  assumes "rl_core (st, r) = rl_core (st', r')"
  shows "st' = st" and "r' = r\<lparr>r_state := r_state r'\<rparr>"
  using r_state_cong [of r r' "r_state r'"] assms by simp_all

lemma rd32_causal: "m + 3 < length mem \<Longrightarrow> rd32 (mem @ rest) m = rd32 mem m"
  by (simp add: rd32_def)

lemma str_cmp_causal:
  "m + 3 < length mem \<Longrightarrow> ngx_str3_cmp (mem @ rest) m c0 c1 c2 c3 = ngx_str3_cmp mem m c0 c1 c2 c3"
  "m + 3 < length mem \<Longrightarrow> ngx_str3Ocmp (mem @ rest) m c0 c1 c2 c3 = ngx_str3Ocmp mem m c0 c1 c2 c3"
  "m + 3 < length mem \<Longrightarrow> ngx_str4cmp (mem @ rest) m c0 c1 c2 c3 = ngx_str4cmp mem m c0 c1 c2 c3"
  "m + 4 < length mem \<Longrightarrow>
     ngx_str5cmp (mem @ rest) m c0 c1 c2 c3 c4 = ngx_str5cmp mem m c0 c1 c2 c3 c4"
  "m + 5 < length mem \<Longrightarrow>
     ngx_str6cmp (mem @ rest) m c0 c1 c2 c3 c4 c5 = ngx_str6cmp mem m c0 c1 c2 c3 c4 c5"
  "m + 7 < length mem \<Longrightarrow>
     ngx_str7_cmp (mem @ rest) m c0 c1 c2 c3 c4 c5 c6 c7 = ngx_str7_cmp mem m c0 c1 c2 c3 c4 c5 c6 c7"
  "m + 7 < length mem \<Longrightarrow>
     ngx_str8cmp (mem @ rest) m c0 c1 c2 c3 c4 c5 c6 c7 = ngx_str8cmp mem m c0 c1 c2 c3 c4 c5 c6 c7"
  "m + 8 < length mem \<Longrightarrow>
     ngx_str9cmp (mem @ rest) m c0 c1 c2 c3 c4 c5 c6 c7 c8 =
     ngx_str9cmp mem m c0 c1 c2 c3 c4 c5 c6 c7 c8"
  by (simp_all add: ngx_str3_cmp_def ngx_str3Ocmp_def ngx_str4cmp_def ngx_str5cmp_def
      ngx_str6cmp_def ngx_str7_cmp_def ngx_str8cmp_def ngx_str9cmp_def rd32_causal)
    (simp add: rd32_def le32_low16)

lemma rl_methods_causal:
  "m + 3 < length mem \<Longrightarrow> rl_method3 (mem @ rest) m old = rl_method3 mem m old"
  "m + 4 < length mem \<Longrightarrow> rl_method4 (mem @ rest) m old = rl_method4 mem m old"
  "m + 5 < length mem \<Longrightarrow> rl_method5 (mem @ rest) m old = rl_method5 mem m old"
  "m + 6 < length mem \<Longrightarrow> rl_method6 (mem @ rest) m old = rl_method6 mem m old"
  "m + n < length mem \<Longrightarrow> rl_method789 (mem @ rest) m n old = rl_method789 mem m n old"
  by (simp_all add: rl_method3_def rl_method4_def rl_method5_def rl_method6_def
      rl_method789_def str_cmp_causal cong: if_cong split del: if_split)

lemma rl_method_code_causal:
  assumes "p < length mem"
  shows "rl_method_code (mem @ rest) m (p - m) old = rl_method_code mem m (p - m) old"
proof (cases "m < p")
  case True
  then obtain n where "p = m + n"
    using less_imp_add_positive by blast
  with assms show ?thesis
    by (auto simp: rl_method_code_def rl_methods_causal)
next
  case False
  then show ?thesis by (simp add: rl_method_code_def rl_method789_def)
qed

lemma rl_step_causal:
  assumes "p < length mem"
  shows "rl_step (mem @ rest) p ch s = rl_step mem p ch s"
proof -
  obtain st r where "s = (st, r)" by (cases s)
  then show ?thesis
    using rl_method_code_causal [OF assms] by (cases st) (simp_all add: rl_method_def Let_def)
qed

text \<open>What a caller relies on: a rejected request is only finalized.\<close>

fun rl_view :: "ngx_rc \<times> ngx_http_request \<times> ngx_buf \<Rightarrow>
    ngx_rc \<times> (ngx_http_request \<times> ngx_buf) option" where
  "rl_view (rc, r, b) =
     (rc, if rc \<in> {NGX_HTTP_PARSE_INVALID_METHOD, NGX_HTTP_PARSE_INVALID_REQUEST} then None
          else Some (r, b))"

interpretation rl: suspending_parser rl_step rl_load rl_suspend rl_leave
  "\<lambda>_. True" "\<lambda>_. True" rl_core rl_view
proof (unfold_locales, goal_cases)
  case (1 p mem ch rest s)
  then show ?case by (simp add: rl_step_causal)
next
  case (4 s t mem p ch)
  then show ?case by (simp flip: rl_step_core)
next
  case (5 s p b r' b')
  then show ?case by (auto simp: rl_suspend_def rl_load_def split: prod.splits)
next
  case (6 s t p b q)
  obtain st r where s: "s = (st, r)" by (cases s)
  obtain st' r' where t: "t = (st', r')" by (cases t)
  obtain n where "st' = st" "r' = r\<lparr>r_state := n\<rparr>"
    using rl_core_eqD [OF 6 [unfolded s t]] by blast
  then show ?case by (simp add: s t rl_suspend_def)
next
  case (7 e p s b rc r' b' rest)
  then show ?case by (cases e; cases s) (auto simp: Let_def split: if_splits)
next
  case (8 s t e p b q)
  obtain st r where s: "s = (st, r)" by (cases s)
  obtain st' r' where t: "t = (st', r')" by (cases t)
  obtain n where "st' = st" "r' = r\<lparr>r_state := n\<rparr>"
    using rl_core_eqD [OF 8 [unfolded s t]] by blast
  then show ?case
    by (cases e) (simp_all add: s t Let_def)
next
  case (9 p s b)
  then show ?case by (simp add: rl_suspend_def split: prod.split)
qed auto

text \<open>C1: How the network cuts a request line into pieces does not matter: calling the parser again
  with more bytes while it answers \<open>NGX_AGAIN\<close> gives the same result as one call on all of
  the bytes, from any request state, whatever the bytes are.\<close>

theorem request_line_fragmentation:
  assumes "b_pos b \<le> length (b_mem b)"
  shows "rl_view (feed ngx_http_parse_request_line r b pieces) =
    rl_view (ngx_http_parse_request_line r (recv b (concat pieces)))"
  unfolding ngx_http_parse_request_line_def using assms by (intro rl.feed_concat) simp_all

theorem request_line_fragmentation_witness:
  "b_pos \<lparr>b_mem = lit ''G'', b_pos = 0\<rparr> \<le> length (b_mem \<lparr>b_mem = lit ''G'', b_pos = 0\<rparr>) \<and>
   rl_view (feed ngx_http_parse_request_line ngx_http_request_init \<lparr>b_mem = lit ''G'', b_pos = 0\<rparr>
      [lit ''ET /a b'', lit '' HT'', [], lit ''TP/1.1'', [CR], [LF]]) =
   rl_view (ngx_http_parse_request_line ngx_http_request_init
      (recv \<lparr>b_mem = lit ''G'', b_pos = 0\<rparr> (concat [lit ''ET /a b'', lit '' HT'', [], lit ''TP/1.1'', [CR], [LF]]))) \<and>
   fst (feed ngx_http_parse_request_line ngx_http_request_init \<lparr>b_mem = lit ''G'', b_pos = 0\<rparr>
      [lit ''ET /a b'', lit '' HT'', [], lit ''TP/1.1'', [CR], [LF]]) = NGX_OK"
  (is "?H \<and> ?eq \<and> ?ok")
proof (intro conjI)
  show h: ?H by simp
  show ?eq by (rule request_line_fragmentation [OF h])
  show ?ok by code_simp
qed

section \<open>Method names\<close>

text \<open>The reference: the method a name stands for.\<close>

definition method_names :: "(bytes \<times> nat) list" where
  "method_names =
    [(lit ''GET'', NGX_HTTP_GET), (lit ''PUT'', NGX_HTTP_PUT), (lit ''POST'', NGX_HTTP_POST),
     (lit ''COPY'', NGX_HTTP_COPY), (lit ''MOVE'', NGX_HTTP_MOVE), (lit ''LOCK'', NGX_HTTP_LOCK),
     (lit ''HEAD'', NGX_HTTP_HEAD), (lit ''MKCOL'', NGX_HTTP_MKCOL),
     (lit ''PATCH'', NGX_HTTP_PATCH), (lit ''TRACE'', NGX_HTTP_TRACE),
     (lit ''DELETE'', NGX_HTTP_DELETE), (lit ''UNLOCK'', NGX_HTTP_UNLOCK),
     (lit ''OPTIONS'', NGX_HTTP_OPTIONS), (lit ''PROPFIND'', NGX_HTTP_PROPFIND),
     (lit ''PROPPATCH'', NGX_HTTP_PROPPATCH)]"

definition method_of :: "bytes \<Rightarrow> nat" where
  "method_of name = (case map_of method_names name of Some c \<Rightarrow> c | None \<Rightarrow> NGX_HTTP_UNKNOWN)"

lemma method_names_bytes: "method_names =
    [([71, 69, 84], 0x2), ([80, 85, 84], 0x10), ([80, 79, 83, 84], 0x8),
     ([67, 79, 80, 89], 0x80), ([77, 79, 86, 69], 0x100), ([76, 79, 67, 75], 0x1000),
     ([72, 69, 65, 68], 0x4), ([77, 75, 67, 79, 76], 0x40), ([80, 65, 84, 67, 72], 0x4000),
     ([84, 82, 65, 67, 69], 0x8000), ([68, 69, 76, 69, 84, 69], 0x20),
     ([85, 78, 76, 79, 67, 75], 0x2000), ([79, 80, 84, 73, 79, 78, 83], 0x200),
     ([80, 82, 79, 80, 70, 73, 78, 68], 0x400), ([80, 82, 79, 80, 80, 65, 84, 67, 72], 0x800)]"
  by (simp add: method_names_def)

lemma str_cmp_iff:
  "ngx_str3_cmp mem m c0 c1 c2 c3 \<longleftrightarrow>
     rd mem m = c0 \<and> rd mem (m + 1) = c1 \<and> rd mem (m + 2) = c2 \<and> rd mem (m + 3) = c3"
  "ngx_str3Ocmp mem m c0 c1 c2 c3 \<longleftrightarrow>
     rd mem m = c0 \<and> rd mem (m + 1) = c1 \<and> rd mem (m + 2) = c2 \<and> rd mem (m + 3) = c3"
  "ngx_str4cmp mem m c0 c1 c2 c3 \<longleftrightarrow>
     rd mem m = c0 \<and> rd mem (m + 1) = c1 \<and> rd mem (m + 2) = c2 \<and> rd mem (m + 3) = c3"
  "ngx_str5cmp mem m c0 c1 c2 c3 c4 \<longleftrightarrow>
     rd mem m = c0 \<and> rd mem (m + 1) = c1 \<and> rd mem (m + 2) = c2 \<and> rd mem (m + 3) = c3 \<and>
     rd mem (m + 4) = c4"
  "ngx_str6cmp mem m c0 c1 c2 c3 c4 c5 \<longleftrightarrow>
     rd mem m = c0 \<and> rd mem (m + 1) = c1 \<and> rd mem (m + 2) = c2 \<and> rd mem (m + 3) = c3 \<and>
     rd mem (m + 4) = c4 \<and> rd mem (m + 5) = c5"
  "ngx_str7_cmp mem m c0 c1 c2 c3 c4 c5 c6 c7 \<longleftrightarrow>
     rd mem m = c0 \<and> rd mem (m + 1) = c1 \<and> rd mem (m + 2) = c2 \<and> rd mem (m + 3) = c3 \<and>
     rd mem (m + 4) = c4 \<and> rd mem (m + 5) = c5 \<and> rd mem (m + 6) = c6 \<and> rd mem (m + 7) = c7"
  "ngx_str8cmp mem m c0 c1 c2 c3 c4 c5 c6 c7 \<longleftrightarrow>
     rd mem m = c0 \<and> rd mem (m + 1) = c1 \<and> rd mem (m + 2) = c2 \<and> rd mem (m + 3) = c3 \<and>
     rd mem (m + 4) = c4 \<and> rd mem (m + 5) = c5 \<and> rd mem (m + 6) = c6 \<and> rd mem (m + 7) = c7"
  "ngx_str9cmp mem m c0 c1 c2 c3 c4 c5 c6 c7 c8 \<longleftrightarrow>
     rd mem m = c0 \<and> rd mem (m + 1) = c1 \<and> rd mem (m + 2) = c2 \<and> rd mem (m + 3) = c3 \<and>
     rd mem (m + 4) = c4 \<and> rd mem (m + 5) = c5 \<and> rd mem (m + 6) = c6 \<and> rd mem (m + 7) = c7 \<and>
     rd mem (m + 8) = c8"
  unfolding ngx_str3_cmp_def ngx_str3Ocmp_def ngx_str4cmp_def ngx_str5cmp_def
      ngx_str6cmp_def ngx_str7_cmp_def ngx_str8cmp_def ngx_str9cmp_def rd32_def le32_low16
  by (simp_all add: add.commute [of _ m])

lemma method_names_length: "name \<in> fst ` set method_names \<Longrightarrow> length name \<in> {3..9}"
  by (auto simp: method_names_bytes)

lemma method_of_other: "length name \<notin> {3..9} \<Longrightarrow> method_of name = NGX_HTTP_UNKNOWN"
proof -
  assume "length name \<notin> {3..9}"
  then have "map_of method_names name = None"
    using method_names_length by (auto simp: map_of_eq_None_iff)
  then show ?thesis by (simp add: method_of_def)
qed

lemmas method_spec_simps = str_cmp_iff method_of_def method_names_bytes

lemma rl_methods_spec:
  "rd mem (m + 3) = SP \<Longrightarrow> rl_method3 mem m NGX_HTTP_UNKNOWN = method_of [rd mem m, rd mem (m + 1), rd mem (m + 2)]"
  "rl_method4 mem m NGX_HTTP_UNKNOWN = method_of [rd mem m, rd mem (m + 1), rd mem (m + 2), rd mem (m + 3)]"
  "rl_method5 mem m NGX_HTTP_UNKNOWN =
     method_of [rd mem m, rd mem (m + 1), rd mem (m + 2), rd mem (m + 3), rd mem (m + 4)]"
  "rl_method6 mem m NGX_HTTP_UNKNOWN =
     method_of [rd mem m, rd mem (m + 1), rd mem (m + 2), rd mem (m + 3), rd mem (m + 4), rd mem (m + 5)]"
  "rd mem (m + 7) = SP \<Longrightarrow> rl_method789 mem m 7 NGX_HTTP_UNKNOWN =
     method_of [rd mem m, rd mem (m + 1), rd mem (m + 2), rd mem (m + 3), rd mem (m + 4), rd mem (m + 5), rd mem (m + 6)]"
  "rl_method789 mem m 8 NGX_HTTP_UNKNOWN =
     method_of [rd mem m, rd mem (m + 1), rd mem (m + 2), rd mem (m + 3), rd mem (m + 4), rd mem (m + 5), rd mem (m + 6), rd mem (m + 7)]"
  "rl_method789 mem m 9 NGX_HTTP_UNKNOWN =
     method_of [rd mem m, rd mem (m + 1), rd mem (m + 2), rd mem (m + 3), rd mem (m + 4), rd mem (m + 5), rd mem (m + 6), rd mem (m + 7), rd mem (m + 8)]"
  by (simp_all add: rl_method3_def rl_method4_def rl_method5_def rl_method6_def
      rl_method789_def method_spec_simps)

lemma upt_small:
  "[0..<3] = [0, 1, 2]" "[0..<4] = [0, 1, 2, 3]" "[0..<5] = [0, 1, 2, 3, 4]"
  "[0..<6] = [0, 1, 2, 3, 4, 5]" "[0..<7] = [0, 1, 2, 3, 4, 5, 6]"
  "[0..<8] = [0, 1, 2, 3, 4, 5, 6, 7]" "[0..<9] = [0, 1, 2, 3, 4, 5, 6, 7, 8]"
  by (simp_all add: upt_rec [of _ "numeral _"] del: upt_rec_numeral)

lemma rl_method_code_spec:
  assumes "m + n < length mem" and "mem ! (m + n) = SP"
  shows "rl_method_code mem m n NGX_HTTP_UNKNOWN = method_of (slice mem m (m + n))"
proof -
  have sp: "rd mem (m + n) = SP"
    using assms by (simp add: rd_def)
  have name: "slice mem m (m + n) = map (\<lambda>k. rd mem (m + k)) [0..<n]"
    using assms(1) by (simp add: slice_rd)
  consider "n = 3" | "n = 4" | "n = 5" | "n = 6" | "n = 7" | "n = 8" | "n = 9" | "n \<notin> {3..9}"
    by fastforce
  then show ?thesis
  proof cases
    case 1
    then show ?thesis
      using sp unfolding name
      by (simp add: rl_method_code_def rl_methods_spec upt_small del: One_nat_def)
  next
    case 2
    then show ?thesis
      using sp unfolding name
      by (simp add: rl_method_code_def rl_methods_spec upt_small del: One_nat_def)
  next
    case 3
    then show ?thesis
      using sp unfolding name
      by (simp add: rl_method_code_def rl_methods_spec upt_small del: One_nat_def)
  next
    case 4
    then show ?thesis
      using sp unfolding name
      by (simp add: rl_method_code_def rl_methods_spec upt_small del: One_nat_def)
  next
    case 5
    then show ?thesis
      using sp unfolding name
      by (simp add: rl_method_code_def rl_methods_spec upt_small del: One_nat_def)
  next
    case 6
    then show ?thesis
      using sp unfolding name
      by (simp add: rl_method_code_def rl_methods_spec upt_small del: One_nat_def)
  next
    case 7
    then show ?thesis
      using sp unfolding name
      by (simp add: rl_method_code_def rl_methods_spec upt_small del: One_nat_def)
  next
    case 8
    then have "method_of (slice mem m (m + n)) = NGX_HTTP_UNKNOWN"
      by (intro method_of_other) (simp add: name)
    moreover from 8 have "n \<noteq> 3" "n \<noteq> 4" "n \<noteq> 5" "n \<noteq> 6" "n \<noteq> 7" "n \<noteq> 8" "n \<noteq> 9" by auto
    ultimately show ?thesis
      by (simp add: rl_method_code_def rl_method789_def)
  qed
qed
section \<open>Where the pointers point\<close>

text \<open>The method has been read: \<open>me\<close> is its last byte.\<close>

definition has_method :: "bytes \<Rightarrow> nat \<Rightarrow> ngx_http_request \<Rightarrow> nat \<Rightarrow> bool" where
  "has_method mem p r me \<longleftrightarrow> method_end r = Some me \<and> me < p \<and> request_end r = None \<and>
     (\<exists>rs\<le>me. request_start r = Some rs \<and> r_method r = method_of (slice mem rs (Suc me)))"

text \<open>In a schema, its end and the first slash behind it.\<close>

definition has_schema :: "bytes \<Rightarrow> nat \<Rightarrow> ngx_http_request \<Rightarrow> bool" where
  "has_schema mem p r \<longleftrightarrow> (\<exists>me se. has_method mem p r me \<and> schema_end r = Some se \<and>
      me < se \<and> se + 2 < p \<and> mem ! (se + 1) = SLASH)"

definition has_uri_start :: "bytes \<Rightarrow> nat \<Rightarrow> ngx_http_request \<Rightarrow> nat \<Rightarrow> bool" where
  "has_uri_start mem p r us \<longleftrightarrow> (\<exists>me. has_method mem p r me \<and> uri_start r = Some us \<and>
      me < us \<and> us < p \<and> mem ! us = SLASH)"

definition has_uri :: "bytes \<Rightarrow> nat \<Rightarrow> ngx_http_request \<Rightarrow> bool" where
  "has_uri mem p r \<longleftrightarrow> (\<exists>us ue. has_uri_start mem p r us \<and> uri_end r = Some ue \<and>
      us < ue \<and> ue < p \<and> clean mem us ue)"

text \<open>What holds of the request at \<open>done:\<close>, reached at the byte \<open>p\<close>.\<close>

definition rl_final :: "bytes \<Rightarrow> nat \<Rightarrow> ngx_http_request \<Rightarrow> bool" where
  "rl_final mem p r \<longleftrightarrow> (\<exists>rs me us ue re.
      request_start r = Some rs \<and> method_end r = Some me \<and>
      uri_start r = Some us \<and> uri_end r = Some ue \<and>
      (case request_end r of None \<Rightarrow> re = p | Some q \<Rightarrow> re = q) \<and>
      rs \<le> me \<and> me < us \<and> us < ue \<and> ue \<le> re \<and> re \<le> p \<and>
      mem ! us = SLASH \<and> clean mem us ue \<and> r_method r = method_of (slice mem rs (Suc me)))"

lemma has_method_Suc: "has_method mem p r me \<Longrightarrow> has_method mem (Suc p) r me"
  by (auto simp: has_method_def)

fun rl_inv :: "bytes \<Rightarrow> nat \<Rightarrow> rl_state \<times> ngx_http_request \<Rightarrow> bool" where
  "rl_inv mem p (Rl_start, r) \<longleftrightarrow> request_end r = None \<and> r_method r = NGX_HTTP_UNKNOWN"
| "rl_inv mem p (Rl_method, r) \<longleftrightarrow> request_end r = None \<and> r_method r = NGX_HTTP_UNKNOWN \<and>
     (\<exists>rs<p. request_start r = Some rs)"
| "rl_inv mem p (Rl_spaces_before_uri, r) \<longleftrightarrow> (\<exists>me. has_method mem p r me)"
| "rl_inv mem p (Rl_schema, r) \<longleftrightarrow> (\<exists>me. has_method mem p r me \<and> me + 1 < p)"
| "rl_inv mem p (Rl_schema_slash, r) \<longleftrightarrow> (\<exists>me se. has_method mem p r me \<and>
      schema_end r = Some se \<and> me < se \<and> p = se + 1)"
| "rl_inv mem p (Rl_schema_slash_slash, r) \<longleftrightarrow> (\<exists>me se. has_method mem p r me \<and>
      schema_end r = Some se \<and> me < se \<and> p = se + 2 \<and> mem ! (se + 1) = SLASH)"
| "rl_inv mem p (Rl_host_start, r) \<longleftrightarrow> has_schema mem p r"
| "rl_inv mem p (Rl_host, r) \<longleftrightarrow> has_schema mem p r"
| "rl_inv mem p (Rl_host_end, r) \<longleftrightarrow> has_schema mem p r"
| "rl_inv mem p (Rl_host_ip_literal, r) \<longleftrightarrow> has_schema mem p r"
| "rl_inv mem p (Rl_port, r) \<longleftrightarrow> has_schema mem p r"
| "rl_inv mem p (Rl_host_http_09, r) \<longleftrightarrow> has_uri mem p r"
| "rl_inv mem p (Rl_after_slash_in_uri, r) \<longleftrightarrow> (\<exists>us. has_uri_start mem p r us \<and> clean mem us p)"
| "rl_inv mem p (Rl_check_uri, r) \<longleftrightarrow> (\<exists>us. has_uri_start mem p r us \<and> clean mem us p)"
| "rl_inv mem p (Rl_check_uri_http_09, r) \<longleftrightarrow> has_uri mem p r \<and> 
   (\<exists>us. has_uri_start mem p r us \<and> clean mem us p)"
| "rl_inv mem p (Rl_uri, r) \<longleftrightarrow> (\<exists>us. has_uri_start mem p r us \<and> clean mem us p)"
| "rl_inv mem p (Rl_http_09, r) \<longleftrightarrow> has_uri mem p r \<and> 
   (\<exists>us. has_uri_start mem p r us \<and> clean mem us p)"
| "rl_inv mem p (Rl_no_case k, r) \<longleftrightarrow> False"
| "rl_inv mem p (_, r) \<longleftrightarrow> has_uri mem p r"

lemmas rl_inv_defs = rl_final_def has_method_def [abs_def] has_schema_def has_uri_start_def has_uri_def

text \<open>One round keeps the invariant, and \<open>goto done\<close> happens with a whole URI only.\<close>

definition rl_ok :: "bytes \<Rightarrow> nat \<Rightarrow> rl_flow \<Rightarrow> bool" where
  "rl_ok mem p fl \<longleftrightarrow> (case fl of
       Cont s' \<Rightarrow> rl_inv mem (Suc p) s'
     | Leave e s' \<Rightarrow> e = Rl_done \<longrightarrow> rl_final mem p (snd s'))"

lemma rl_ok_simps [simp]:
  "rl_ok mem p (Cont s') \<longleftrightarrow> rl_inv mem (Suc p) s'"
  "rl_ok mem p (Leave e s') \<longleftrightarrow>
     (e = Rl_done \<longrightarrow> rl_final mem p (snd s'))"
  by (simp_all add: rl_ok_def)

lemma rl_ok_method:
  assumes "rl_inv mem p (Rl_method, r)" and "p < length mem"
  shows "rl_ok mem p (rl_method mem p (mem ! p) r)"
proof -
  from assms(1) obtain rs where rs: "rs < p" "request_start r = Some rs"
    and un: "r_method r = NGX_HTTP_UNKNOWN" "request_end r = None"
    by auto
  have "rl_method_code mem rs (p - rs) NGX_HTTP_UNKNOWN = method_of (slice mem rs p)"
    if "mem ! p = SP"
    using rl_method_code_spec [of rs "p - rs" mem] assms(2) rs that by simp
  with rs un assms(2) show ?thesis
    by (auto simp: rl_method_def rl_inv_defs)
qed

lemma rl_ok_check_uri:
  "has_uri_start mem p r us \<Longrightarrow> clean mem us p \<Longrightarrow> rl_ok mem p (rl_check_uri p (mem ! p) r)"
  by (auto simp: rl_check_uri_def rl_inv_defs is_usual_iff)

lemma rl_ok_uri:
  "has_uri_start mem p r us \<Longrightarrow> clean mem us p \<Longrightarrow> rl_ok mem p (rl_uri p (mem ! p) r)"
  by (auto simp: rl_uri_def rl_inv_defs is_usual_iff)

lemma rl_ok_after_slash:
  "has_uri_start mem p r us \<Longrightarrow> clean mem us p \<Longrightarrow>
     rl_ok mem p (rl_after_slash_in_uri p (mem ! p) r)"
  by (auto simp: rl_after_slash_in_uri_def rl_inv_defs is_usual_iff)

lemma rl_ok_host_end:
  "has_schema mem p r \<Longrightarrow> rl_ok mem p (rl_host_end p (mem ! p) st r)"
  by (auto simp: rl_host_end_def rl_single_slash_def Let_def rl_inv_defs)

lemma has_schema_Suc: "has_schema mem p r \<Longrightarrow> has_schema mem (Suc p) r"
  by (auto simp: has_schema_def dest: has_method_Suc)

lemma rl_ok_host: "has_schema mem p r \<Longrightarrow> rl_ok mem p (rl_host p (mem ! p) r)"
  using rl_ok_host_end [of mem p r Rl_host] by (simp add: rl_host_def has_schema_Suc)

lemma has_uri_start_space [simp]:
  "has_uri_start mem p (r\<lparr>space_in_uri := b\<rparr>) us = has_uri_start mem p r us"
  "has_schema mem p (r\<lparr>host_start := q\<rparr>) = has_schema mem p r"
  by (simp_all add: has_uri_start_def has_schema_def has_method_def)

lemma rl_step_inv:
  assumes "rl_inv mem p s" and "p < length mem"
  shows "rl_ok mem p (rl_step mem p (mem ! p) s)"
proof -
  obtain st r where s: "s = (st, r)" by (cases s)
  show ?thesis
  proof (cases st)
    case Rl_method
    with assms s show ?thesis using rl_ok_method by simp
  next
    case Rl_check_uri
    with assms s show ?thesis by (auto intro: rl_ok_check_uri)
  next
    case Rl_uri
    with assms s show ?thesis by (auto intro: rl_ok_uri)
  next
    case Rl_after_slash_in_uri
    with assms s show ?thesis by (auto intro: rl_ok_after_slash)
  next
    case Rl_host_end
    with assms s show ?thesis by (auto intro: rl_ok_host_end)
  next
    case Rl_host
    with assms s show ?thesis by (auto intro: rl_ok_host)
  next
    case Rl_host_start
    with assms s show ?thesis
      by (simp add: rl_host_start_def Let_def rl_ok_host has_schema_Suc)
  next
    case Rl_check_uri_http_09
    with assms s rl_ok_check_uri [of mem p "r\<lparr>space_in_uri := True\<rparr>"] show ?thesis
      by (auto simp: rl_check_uri_http_09_def rl_spaces_http_09_def rl_inv_defs)
  next
    case Rl_http_09
    with assms s rl_ok_uri [of mem p "r\<lparr>space_in_uri := True\<rparr>"] show ?thesis
      by (auto simp: rl_http_09_def rl_spaces_http_09_def rl_inv_defs)
  qed (use assms s in \<open>auto simp: rl_state_defs rl_inv_defs Let_def\<close>)
qed

lemma scan_rl_inv:
  assumes "rl_inv mem p s"
  shows "case scan rl_step mem p (drop p mem) s of
      Ran_out q s' \<Rightarrow> rl_inv mem q s'
    | Left_at e q s' \<Rightarrow> e = Rl_done \<longrightarrow> rl_final mem q (snd s')"
  using assms rl_step_inv
  by (intro scan_invariant [where I = "rl_inv mem"]) (auto simp: rl_ok_def split: flow.splits)

lemma parse_request_line_done:
  assumes "ngx_http_parse_request_line r b = (NGX_OK, r', b')" and "b_pos b \<le> length (b_mem b)"
    and "rl_inv (b_mem b) (b_pos b) (rl_load r)"
  obtains p r0 where "rl_final (b_mem b) p r0" and "p < length (b_mem b)"
    and "rl_leave Rl_done p (Rl_start, r0) b = (NGX_OK, r', b')"
proof -
  obtain e p st r0 where
    run: "scan rl_step (b_mem b) (b_pos b) (drop (b_pos b) (b_mem b)) (rl_load r) =
      Left_at e p (st, r0)"
    and leave: "rl_leave e p (st, r0) b = (NGX_OK, r', b')"
    using assms(1)
    by (auto simp: ngx_http_parse_request_line_def drive_def rl_suspend_def
        split: scanned.splits prod.splits)
  have e: "e = Rl_done"
    using leave by (cases e) auto
  have "p < length (b_mem b)"
    using scan_Left_at_pos [OF run] assms(2) by auto
  moreover have "rl_final (b_mem b) p r0"
    using scan_rl_inv [OF assms(3)] run e by simp
  moreover have "rl_leave Rl_done p (Rl_start, r0) b = (NGX_OK, r', b')"
    using leave e by simp
  ultimately show thesis using that by blast
qed

text \<open>C2: After \<open>NGX_OK\<close> on a fresh request, the pointers the parser left are in order and inside
  the bytes received: the method, then the URI, which starts with a slash and holds no NUL,
  CR or LF, then the end of the line; and \<open>r->method\<close> is the code of the method's name.\<close>

theorem request_line_pointers:
  assumes "ngx_http_parse_request_line ngx_http_request_init b = (NGX_OK, r', b')"
    and "b_pos b \<le> length (b_mem b)"
  shows "\<exists>rs me us ue re.
      request_start r' = Some rs \<and> method_end r' = Some me \<and> uri_start r' = Some us \<and>
      uri_end r' = Some ue \<and> request_end r' = Some re \<and>
      rs \<le> me \<and> me < us \<and> us < ue \<and> ue \<le> re \<and> re < b_pos b' \<and> b_pos b' \<le> length (b_mem b) \<and>
      b_mem b ! us = SLASH \<and> clean (b_mem b) us ue \<and>
      r_method r' = method_of (slice (b_mem b) rs (Suc me))"
proof -
  have "rl_inv (b_mem b) (b_pos b) (rl_load ngx_http_request_init)"
    by (simp add: rl_load_def ngx_http_request_init_def rl_of_nat_def rl_enum_def)
  from parse_request_line_done [OF assms this] obtain p r0 where
    fin: "rl_final (b_mem b) p r0" and lt: "p < length (b_mem b)"
    and leave: "rl_leave Rl_done p (Rl_start, r0) b = (NGX_OK, r', b')" .
  from leave have r': "r' = r0\<lparr>request_end := (case request_end r0 of None \<Rightarrow> Some p | Some q \<Rightarrow> Some q),
      http_version := unat (http_major r0) * 1000 + unat (http_minor r0), r_state := 0\<rparr>"
    and b': "b_pos b' = p + 1"
    by (auto simp: Let_def)
  from fin lt show ?thesis
    unfolding rl_final_def r' b' by (auto split: option.splits)
qed

theorem request_line_pointers_witness:
  "\<exists>r' b' us ue. ngx_http_parse_request_line ngx_http_request_init
      \<lparr>b_mem = lit ''PUT http://h/a HTTP/1.0'' @ [LF], b_pos = 0\<rparr> = (NGX_OK, r', b') \<and>
     uri_start r' = Some us \<and> uri_end r' = Some ue \<and> us < ue"
proof -
  let ?b = "\<lparr>b_mem = lit ''PUT http://h/a HTTP/1.0'' @ [LF], b_pos = 0\<rparr>"
  have "fst (ngx_http_parse_request_line ngx_http_request_init ?b) = NGX_OK"
    by code_simp
  then obtain r' b' where ok: "ngx_http_parse_request_line ngx_http_request_init ?b = (NGX_OK, r', b')"
    by (metis prod.collapse)
  from request_line_pointers [OF this] have "\<exists>us ue. uri_start r' = Some us \<and> uri_end r' = Some ue \<and> us < ue"
    by force
  with ok show ?thesis by blast
qed

section \<open>The version never wraps\<close>

definition ver_ok :: "ngx_http_request \<Rightarrow> bool" where
  "ver_ok r \<longleftrightarrow> unat (http_major r) \<le> 999 \<and> unat (http_minor r) \<le> 999"

lemma version_digit:
  assumes "\<not> 99 < (v :: 16 word)" and "is_digit c"
  shows "unat (v * 10 + ucast (c - D0)) \<le> 999"
proof -
  have c: "unat (c - D0) \<le> 9"
    using assms(2) unfolding is_digit_def by unat_arith
  have v: "unat v \<le> 99"
    using assms(1) by (simp add: word_less_nat_alt not_less)
  have "unat (ucast (c - D0) :: 16 word) = unat (c - D0)"
    using c by (simp add: unsigned_ucast_eq take_bit_nat_eq_self)
  then have "unat (v * 10 + ucast (c - D0)) = unat v * 10 + unat (c - D0)"
    using c v by (simp add: unat_word_ariths)
  with c v show ?thesis by simp
qed

lemma version_first_digit: "is_digit c \<Longrightarrow> unat (ucast (c - D0) :: 16 word) \<le> 999"
  using version_digit [of 0 c] by simp

lemma first_digit_is_digit: "\<not> ch < D1 \<Longrightarrow> \<not> D9 < ch \<Longrightarrow> is_digit ch"
  unfolding is_digit_def by unat_arith

lemma rl_step_ver_ok:
  assumes "ver_ok r"
  shows "case rl_step mem p ch (st, r) of Cont s' \<Rightarrow> ver_ok (snd s') | Leave e s' \<Rightarrow> ver_ok (snd s')"
  using assms version_digit [of "http_major r" ch] version_digit [of "http_minor r" ch]
    version_first_digit [of ch] first_digit_is_digit [of ch]
  by (cases st) (auto simp: rl_state_defs Let_def ver_ok_def)

lemma scan_ver_ok:
  assumes "ver_ok (snd s)"
  shows "case scan rl_step mem p (drop p mem) s of
      Ran_out q s' \<Rightarrow> ver_ok (snd s') | Left_at e q s' \<Rightarrow> ver_ok (snd s')"
proof (rule scan_invariant [where I = "\<lambda>_ s. ver_ok (snd s)" and J = "\<lambda>_ _ s. ver_ok (snd s)"])
  fix q ch and t :: "rl_state \<times> ngx_http_request"
  assume "ver_ok (snd t)"
  then show "case rl_step mem q ch t of Cont s' \<Rightarrow> ver_ok (snd s') | Leave e s' \<Rightarrow> ver_ok (snd s')"
    using rl_step_ver_ok [of "snd t" mem q ch "fst t"] by simp
qed (rule assms)

text \<open>After \<open>NGX_OK\<close> the 16-bit major and minor version numbers are at most 999, so neither
  they nor \<open>r->http_version\<close> have wrapped, and HTTP/0.9 is only accepted for GET.\<close>

lemma request_line_version:
  assumes "ngx_http_parse_request_line r b = (NGX_OK, r', b')" and "ver_ok r"
  shows "http_version r' = unat (http_major r') * 1000 + unat (http_minor r') \<and>
    unat (http_major r') \<le> 999 \<and> unat (http_minor r') \<le> 999 \<and>
    (http_version r' = 9 \<longrightarrow> r_method r' = NGX_HTTP_GET)"
proof -
  obtain e p s where
    run: "scan rl_step (b_mem b) (b_pos b) (drop (b_pos b) (b_mem b)) (rl_load r) = Left_at e p s"
    and leave: "rl_leave e p s b = (NGX_OK, r', b')"
    using assms(1)
    by (auto simp: ngx_http_parse_request_line_def drive_def rl_suspend_def
        split: scanned.splits prod.splits)
  have "ver_ok (snd s)"
    using scan_ver_ok [of "rl_load r" "b_mem b" "b_pos b"] run assms(2) by (simp add: rl_load_def)
  with leave show ?thesis
    by (cases e; cases s) (auto simp: ver_ok_def Let_def split: if_splits)
qed

section \<open>Reading back what was written\<close>

lemma scan_method_chars:
  "\<forall>c \<in> set xs. method_char c \<Longrightarrow>
    scan rl_step mem p (xs @ ys) (Rl_method, r) = scan rl_step mem (p + length xs) ys (Rl_method, r)"
  by (induction xs arbitrary: p) (auto simp: rl_method_def method_char_def)

lemma version_word_step:
  assumes "v < 100"
  shows "\<not> 99 < (word_of_nat v :: 16 word)"
  using assms by (simp add: word_less_nat_alt take_bit_nat_eq_self unat_of_nat)

lemma scan_major_digits:
  assumes "\<forall>c \<in> set ds. is_digit c" and "v * 10 ^ length ds + dec_val ds < 1000"
  shows "scan rl_step mem p (ds @ ys) (Rl_major_digit, r\<lparr>http_major := word_of_nat v\<rparr>) =
    scan rl_step mem (p + length ds) ys
      (Rl_major_digit, r\<lparr>http_major := word_of_nat (v * 10 ^ length ds + dec_val ds)\<rparr>)"
  using assms version_word_step
  by (intro scan_digits [where f = "\<lambda>v. (Rl_major_digit, r\<lparr>http_major := word_of_nat v\<rparr>)" and lim = 100])
    (simp_all add: rl_major_digit_def digit_word)

lemma scan_minor_digits:
  assumes "\<forall>c \<in> set ds. is_digit c" and "v * 10 ^ length ds + dec_val ds < 1000"
  shows "scan rl_step mem p (ds @ ys) (Rl_minor_digit, r\<lparr>http_minor := word_of_nat v\<rparr>) =
    scan rl_step mem (p + length ds) ys
      (Rl_minor_digit, r\<lparr>http_minor := word_of_nat (v * 10 ^ length ds + dec_val ds)\<rparr>)"
  using assms version_word_step
  by (intro scan_digits [where f = "\<lambda>v. (Rl_minor_digit, r\<lparr>http_minor := word_of_nat v\<rparr>)" and lim = 100])
    (simp_all add: rl_minor_digit_def digit_word)

text \<open>A request line in origin form.\<close>

definition request_line :: "bytes \<Rightarrow> bytes \<Rightarrow> bytes \<Rightarrow> bytes \<Rightarrow> bytes" where
  "request_line meth path maj mnr =
     meth @ [SP, SLASH] @ path @ [SP] @ lit ''HTTP/'' @ maj @ [DOT] @ mnr @ [CR, LF]"

lemma scan_meth:
  assumes "meth \<noteq> []" and "\<forall>c \<in> set meth. method_char c" and "request_start r = None"
  shows "scan rl_step mem p (meth @ ys) (Rl_start, r) =
    scan rl_step mem (p + length meth) ys (Rl_method, r\<lparr>request_start := Some p\<rparr>)"
proof -
  obtain c cs where m: "meth = c # cs" using assms(1) by (cases meth) auto
  have "c \<noteq> CR" "c \<noteq> LF"
    using assms(2) by (auto simp: m method_char_def)
  then show ?thesis
    using assms(2) scan_method_chars [of cs mem "Suc p" ys "r\<lparr>request_start := Some p\<rparr>"]
    by (simp add: m rl_start_def Let_def)
qed

text \<open>A byte that may stand in a request target.\<close>

definition target_char :: "u_char \<Rightarrow> bool" where
  "target_char c \<longleftrightarrow> c \<noteq> NUL \<and> c \<noteq> SP \<and> c \<noteq> CR \<and> c \<noteq> LF"

text \<open>What the parser notes about the target: the flags for the normalisation, the arguments, the extension.\<close>

type_synonym uri_marks = "bool \<times> bool \<times> bool \<times> nat option \<times> nat option"

fun set_marks :: "uri_marks \<Rightarrow> ngx_http_request \<Rightarrow> ngx_http_request" where
  "set_marks (cu, qu, pl, args, ext) r =
     r\<lparr>quoted_uri := qu, plus_in_uri := pl, args_start := args, uri_ext := ext, complex_uri := cu\<rparr>"

definition marks_of :: "ngx_http_request \<Rightarrow> uri_marks" where
  "marks_of r = (complex_uri r, quoted_uri r, plus_in_uri r, args_start r, uri_ext r)"

lemma set_marks_of: "set_marks (marks_of r) r = r"
  by (simp add: marks_of_def)

lemma set_marks_twice: "set_marks mk (set_marks mk' r) = set_marks mk r"
  by (cases mk; cases mk') simp

text \<open>Unless a target at \<open>p\<close> is marked for normalisation, there is no escape in front of its first question mark and no fragment,
  the arguments begin behind that question mark, and the flag for the plus is exact.\<close>

definition marks_ok :: "nat \<Rightarrow> bytes \<Rightarrow> uri_marks \<Rightarrow> uri_marks \<Rightarrow> bool" where
  "marks_ok p path mk mk' \<longleftrightarrow>
     (case (mk, mk') of ((_, _, pl, args, _), (cu', qu', pl', args', _)) \<Rightarrow>
        let front = takeWhile (\<lambda>c. c \<noteq> QUEST) path in
        \<not> cu' \<and> \<not> qu' \<longrightarrow>
          PERCENT \<notin> set front \<and> HASH \<notin> set path \<and> pl' = (pl \<or> PLUS \<in> set front)
          \<and> args' = (if QUEST \<in> set path then Some (p + length front + 1) else args))"

lemma scan_uri:
  "\<forall>c \<in> set path. target_char c \<Longrightarrow>
    scan rl_step mem p (path @ ys) (Rl_uri, r) =
    scan rl_step mem (p + length path) ys (Rl_uri, r\<lparr>complex_uri := complex_uri r \<or> HASH \<in> set path\<rparr>)"
proof (induction path arbitrary: p r)
  case (Cons c path)
  have "rl_step mem p c (Rl_uri, r) = Cont (Rl_uri, r\<lparr>complex_uri := complex_uri r \<or> c = HASH\<rparr>)"
    using Cons.prems by (auto simp: rl_uri_def target_char_def is_usual_iff)
  then show ?case using Cons by (simp add: disj_assoc)
qed simp

lemma scan_front:
  assumes "\<forall>c \<in> set path. target_char c" and "st \<in> {Rl_after_slash_in_uri, Rl_check_uri}"
  shows "\<exists>st' mk. scan rl_step mem p (path @ ys) (st, r) = scan rl_step mem (p + length path) ys (st', set_marks mk r)
    \<and> st' \<in> {Rl_after_slash_in_uri, Rl_check_uri, Rl_uri} \<and> marks_ok p path (marks_of r) mk"
  using assms
proof (induction path arbitrary: p r st)
  case Nil
  then show ?case by (intro exI [of _ st] exI [of _ "marks_of r"]) (auto simp: set_marks_of marks_ok_def marks_of_def)
next
  case (Cons c path)
  have c: "target_char c" "\<forall>c \<in> set path. target_char c" using Cons.prems(1) by simp_all
  have stay: ?case if step: "rl_step mem p c (st, r) = Cont (st1, set_marks mk r)"
      and st1: "st1 \<in> {Rl_after_slash_in_uri, Rl_check_uri}"
      and ok: "c \<noteq> QUEST" "c \<noteq> PERCENT" "c \<noteq> HASH" "\<exists>cu qu ext. mk = (cu, qu, plus_in_uri r \<or> c = PLUS, args_start r, ext)" for st1 mk
  proof -
    from Cons.IH [OF c(2) st1, of "Suc p" "set_marks mk r"] obtain st' mk' where
      f: "scan rl_step mem (Suc p) (path @ ys) (st1, set_marks mk r) = scan rl_step mem (Suc p + length path) ys (st', set_marks mk' r)"
        "st' \<in> {Rl_after_slash_in_uri, Rl_check_uri, Rl_uri}" "marks_ok (Suc p) path (marks_of (set_marks mk r)) mk'"
      by (auto simp: set_marks_twice)
    have "marks_ok p (c # path) (marks_of r) mk'"
      using f(3) ok by (auto simp: marks_ok_def marks_of_def Let_def split: prod.splits)
    then show ?thesis using f(1,2) step by (intro exI [of _ st'] exI [of _ mk']) simp
  qed
  have leave: ?case if step: "rl_step mem p c (st, r) = Cont (Rl_uri, set_marks mk r)"
      and ok: "marks_ok p (c # path) (marks_of r) (fst mk \<or> HASH \<in> set path, snd mk)" for mk
    using scan_uri [OF c(2), of mem "Suc p" ys "set_marks mk r"] step ok
    by (intro exI [of _ Rl_uri] exI [of _ "(fst mk \<or> HASH \<in> set path, snd mk)"]) (cases mk; simp)
  have marked: ?case if "rl_step mem p c (st, r) = Cont (Rl_uri, set_marks (cu, qu, mk) r)" and "cu \<or> qu" for cu qu mk
    using that by (intro leave [of "(cu, qu, mk)"]; cases mk) (auto simp: marks_ok_def marks_of_def)
  have quest: ?case if "c = QUEST"
    using Cons.prems(2) that
    by (intro leave [of "(complex_uri r, quoted_uri r, plus_in_uri r, Some (p + 1), uri_ext r)"])
      (auto simp: rl_after_slash_in_uri_def rl_check_uri_def is_usual_iff marks_ok_def marks_of_def)
  have flag: ?case if "c = PERCENT \<or> c = HASH"
    using Cons.prems(2) that
    by (intro marked [of "complex_uri r \<or> c = HASH" "quoted_uri r \<or> c = PERCENT" "(plus_in_uri r, args_start r, uri_ext r)"])
      (auto simp: rl_after_slash_in_uri_def rl_check_uri_def is_usual_iff)
  have plus: ?case if "c = PLUS"
    using Cons.prems(2) that
    by (intro stay [of st "(complex_uri r, quoted_uri r, True, args_start r, uri_ext r)"])
      (auto simp: rl_after_slash_in_uri_def rl_check_uri_def is_usual_iff)
  have dot: ?case if "c = DOT \<or> c = SLASH"
  proof (cases "st = Rl_check_uri")
    case True
    then show ?thesis using that
      by (intro stay [of "if c = DOT then Rl_check_uri else Rl_after_slash_in_uri"
            "(complex_uri r, quoted_uri r, plus_in_uri r, args_start r, if c = DOT then Some (p + 1) else None)"])
        (auto simp: rl_check_uri_def is_usual_iff)
  next
    case False
    then show ?thesis using that Cons.prems(2)
      by (intro marked [of True "quoted_uri r" "(plus_in_uri r, args_start r, uri_ext r)"]) (auto simp: rl_after_slash_in_uri_def is_usual_iff)
  qed
  have rest: ?case if "c \<noteq> QUEST" "c \<noteq> PERCENT" "c \<noteq> HASH" "c \<noteq> PLUS" "c \<noteq> DOT" "c \<noteq> SLASH"
    using Cons.prems(2) that c(1)
    by (intro stay [of Rl_check_uri "marks_of r"])
      (auto simp: rl_after_slash_in_uri_def rl_check_uri_def target_char_def set_marks_of marks_of_def)
  show ?case using quest flag plus dot rest by blast
qed

lemma scan_target:
  assumes "\<forall>c \<in> set path. target_char c"
  shows "\<exists>mk. scan rl_step mem p (path @ SP # lit ''HTTP/'' @ ys) (Rl_after_slash_in_uri, r) =
      scan rl_step mem (p + length path + 6) ys
        (Rl_first_major_digit, set_marks mk r\<lparr>uri_end := Some (p + length path), http_protocol_data := Some (p + length path + 1)\<rparr>)
    \<and> marks_ok p path (marks_of r) mk"
proof -
  obtain st mk where f: "scan rl_step mem p (path @ SP # lit ''HTTP/'' @ ys) (Rl_after_slash_in_uri, r) =
      scan rl_step mem (p + length path) (SP # lit ''HTTP/'' @ ys) (st, set_marks mk r)"
    "st \<in> {Rl_after_slash_in_uri, Rl_check_uri, Rl_uri}" "marks_ok p path (marks_of r) mk"
    using scan_front [OF assms insertI1, of mem p "SP # lit ''HTTP/'' @ ys" r] by (elim exE conjE)
  have "scan rl_step mem q (SP # lit ''HTTP/'' @ ys) (st, r) =
      scan rl_step mem (Suc (Suc (Suc (Suc (Suc (Suc q)))))) ys (Rl_first_major_digit, r\<lparr>uri_end := Some q, http_protocol_data := Some (q + 1)\<rparr>)" for q and r :: ngx_http_request
    using f(2)
    by (auto simp: rl_after_slash_in_uri_def rl_check_uri_def rl_uri_def is_usual_iff rl_check_uri_http_09_def rl_http_09_def
        rl_spaces_http_09_def rl_expect_def)
  moreover have "Suc (Suc (Suc (Suc (Suc (Suc q))))) = q + 6" for q by simp
  ultimately show ?thesis using f(1,3) by (intro exI [of _ mk]) (simp only: simp_thms)
qed

lemma scan_version:
  assumes "\<forall>c \<in> set maj. is_digit c" and "\<forall>c \<in> set mnr. is_digit c"
    and "maj \<noteq> []" and "hd maj \<noteq> D0" and "length maj \<le> 3" and "mnr \<noteq> []" and "length mnr \<le> 3"
  shows "scan rl_step mem p (maj @ DOT # mnr @ ys) (Rl_first_major_digit, r) =
    scan rl_step mem (p + length maj + length mnr + 1) ys
      (Rl_minor_digit, r\<lparr>http_major := word_of_nat (dec_val maj),
                         http_minor := word_of_nat (dec_val mnr)\<rparr>)"
proof -
  obtain a as where maj: "maj = a # as" using assms(3) by (cases maj) auto
  obtain b bs where mnr: "mnr = b # bs" using assms(6) by (cases mnr) auto
  have lim: "digit_val a * 10 ^ length as + dec_val as < 1000"
      "digit_val b * 10 ^ length bs + dec_val bs < 1000"
    using dec_val_bound [of maj] dec_val_bound [of mnr] assms(1,2,5,7)
    by (simp_all add: maj mnr dec_val_Cons)
  have a: "\<not> (a < D1 \<or> D9 < a)"
    using assms(1,4) by (auto simp: maj is_digit_def) unat_arith
  have "scan rl_step mem p (maj @ DOT # mnr @ ys) (Rl_first_major_digit, r) =
      scan rl_step mem (Suc p) (as @ DOT # mnr @ ys)
        (Rl_major_digit, r\<lparr>http_major := word_of_nat (digit_val a)\<rparr>)"
    using a by (simp add: maj rl_first_major_digit_def digit_word)
  also have "\<dots> = scan rl_step mem (p + length maj) (DOT # mnr @ ys)
        (Rl_major_digit, r\<lparr>http_major := word_of_nat (dec_val maj)\<rparr>)"
    using assms(1) lim(1) by (simp add: scan_major_digits maj dec_val_Cons)
  also have "\<dots> = scan rl_step mem (p + length maj + 2) (bs @ ys)
      (Rl_minor_digit, r\<lparr>http_major := word_of_nat (dec_val maj),
         http_minor := word_of_nat (digit_val b)\<rparr>)"
    using assms(2) by (simp add: mnr rl_major_digit_def rl_first_minor_digit_def digit_word)
  also have "\<dots> = scan rl_step mem (p + length maj + length mnr + 1) ys
      (Rl_minor_digit, r\<lparr>http_major := word_of_nat (dec_val maj),
                         http_minor := word_of_nat (dec_val mnr)\<rparr>)"
    using assms(2) lim(2) by (simp add: scan_minor_digits mnr dec_val_Cons)
  finally show ?thesis .
qed

text \<open>C3: A request line in origin form is read back exactly: a method of capital letters, underscores and dashes, a target that is
  a slash and any bytes but NUL, space, CR and LF, and a version whose numbers have at most three digits, the first not
  beginning with 0. The parser stops behind the last byte of the line, whatever follows in the buffer, and leaves the
  method's code, the ends of the method, the target and the line, and the version. What it notes about the target is
  right where it does not ask for normalisation: there is no escape in front of the first question mark and no \<open>#\<close>, the
  arguments begin behind that question mark, and the plus flag says if there is a plus in front of it.\<close>

theorem request_line_roundtrip:
  assumes "meth \<noteq> []" and "\<forall>c \<in> set meth. method_char c" and "\<forall>c \<in> set path. target_char c"
    and "\<forall>c \<in> set maj. is_digit c" and "\<forall>c \<in> set mnr. is_digit c"
    and "maj \<noteq> []" and "hd maj \<noteq> D0" and "length maj \<le> 3" and "mnr \<noteq> []" and "length mnr \<le> 3"
  shows "\<exists>mk. ngx_http_parse_request_line ngx_http_request_init
      \<lparr>b_mem = request_line meth path maj mnr @ rest, b_pos = 0\<rparr> =
    (NGX_OK,
     set_marks mk ngx_http_request_init\<lparr>
       request_start := Some 0, method_end := Some (length meth - 1),
       r_method := method_of meth,
       uri_start := Some (length meth + 1), uri_end := Some (length meth + 2 + length path),
       http_protocol_data := Some (length meth + 3 + length path),
       http_major := word_of_nat (dec_val maj), http_minor := word_of_nat (dec_val mnr),
       request_end := Some (length (request_line meth path maj mnr) - 2),
       http_version := dec_val maj * 1000 + dec_val mnr\<rparr>,
     \<lparr>b_mem = request_line meth path maj mnr @ rest,
      b_pos = length (request_line meth path maj mnr)\<rparr>)
    \<and> marks_ok (length meth + 2) path (False, False, False, None, None) mk"
proof -
  let ?mem = "request_line meth path maj mnr @ rest"
  let ?n = "length meth"
  let ?r = "ngx_http_request_init\<lparr>request_start := Some 0, method_end := Some (?n - 1), r_method := method_of meth,
      uri_start := Some (?n + 1)\<rparr>"
  let ?vers = "maj @ DOT # mnr @ CR # LF # rest"
  have mem: "?mem = meth @ SP # SLASH # path @ SP # lit ''HTTP/'' @ ?vers"
    by (simp add: request_line_def)
  have code: "rl_method_code ?mem 0 ?n NGX_HTTP_UNKNOWN = method_of meth"
    using rl_method_code_spec [of 0 ?n ?mem] by (simp add: mem nth_append slice_def)
  have front: "scan rl_step ?mem 0 ?mem (Rl_start, ngx_http_request_init) =
      scan rl_step ?mem (?n + 2) (path @ SP # lit ''HTTP/'' @ ?vers) (Rl_after_slash_in_uri, ?r)"
    using code scan_meth [OF assms(1,2), of ngx_http_request_init ?mem 0 "SP # SLASH # path @ SP # lit ''HTTP/'' @ ?vers", folded mem]
    by (simp add: rl_method_def rl_spaces_before_uri_def ngx_http_request_init_def Let_def)
  obtain mk where t: "scan rl_step ?mem (?n + 2) (path @ SP # lit ''HTTP/'' @ ?vers) (Rl_after_slash_in_uri, ?r) =
      scan rl_step ?mem (?n + 2 + length path + 6) ?vers
        (Rl_first_major_digit, set_marks mk ?r\<lparr>uri_end := Some (?n + 2 + length path), http_protocol_data := Some (?n + 2 + length path + 1)\<rparr>)"
    "marks_ok (?n + 2) path (marks_of ?r) mk"
    using scan_target [OF assms(3)] by blast
  let ?q = "?n + length path + length maj + length mnr + 9"
  let ?r4 = "set_marks mk ?r\<lparr>uri_end := Some (?n + 2 + length path), http_protocol_data := Some (?n + 2 + length path + 1),
      http_major := word_of_nat (dec_val maj), http_minor := word_of_nat (dec_val mnr)\<rparr>"
  have run: "scan rl_step ?mem 0 ?mem (Rl_start, ngx_http_request_init) =
      Left_at Rl_done (?q + 1) (Rl_almost_done, ?r4\<lparr>request_end := Some ?q\<rparr>)"
    unfolding front t(1) using scan_version [OF assms(4-10), of ?mem "?n + 2 + length path + 6" "CR # LF # rest"]
    by (simp add: rl_minor_digit_def rl_almost_done_def Let_def)
  have maj: "0 < dec_val maj" "dec_val maj < 1000" and mnr: "dec_val mnr < 1000"
    using assms(4-10) by (auto intro: dec_val_pos dec_val_bound)
  have v: "unat (word_of_nat (dec_val maj) :: 16 word) * 1000 + unat (word_of_nat (dec_val mnr) :: 16 word) = dec_val maj * 1000 + dec_val mnr"
    using maj mnr by (simp add: unat_of_nat)
  have load: "rl_load ngx_http_request_init = (Rl_start, ngx_http_request_init)"
    by (simp add: rl_load_def ngx_http_request_init_def rl_of_nat_def rl_enum_def)
  have len: "length (request_line meth path maj mnr) = ?q + 2" by (simp add: request_line_def)
  have mk: "marks_ok (?n + 2) path (False, False, False, None, None) mk" using t(2) by (simp add: marks_of_def ngx_http_request_init_def)
  show ?thesis
    using run maj v mk
    by (intro exI [of _ mk]; cases mk)
      (simp add: ngx_http_parse_request_line_def drive_def load len Let_def, simp add: ngx_http_request_init_def)
qed

theorem request_line_roundtrip_witness:
  "\<exists>r b. ngx_http_parse_request_line ngx_http_request_init
      \<lparr>b_mem = request_line (lit ''GET'') (lit ''a/b.html?x'') (lit ''1'') (lit ''1'') @ [], b_pos = 0\<rparr> = (NGX_OK, r, b)
    \<and> uri_start r = Some 4 \<and> uri_end r = Some 15"
  using request_line_roundtrip [of "lit ''GET''" "lit ''a/b.html?x''" "lit ''1''" "lit ''1''" "[]"]
  by (auto simp: method_char_def target_char_def is_digit_def)

end
