(* ===== verification/Ngx_Hash.thy ===== *)
theory Ngx_Hash
  imports Ngx_Base
begin

unbundle bit_operations_syntax

text \<open>
  The string hash of src/core/ngx_hash.h and ngx_hash.c: a 64-bit \<open>ngx_uint_t\<close> that wraps.
  The header parser computes it on the fly, and the lookup tables are built with it.
\<close>

definition ngx_hash :: "64 word \<Rightarrow> u_char \<Rightarrow> 64 word" where
  "ngx_hash key c = key * 31 + ucast c"

text \<open>The loops of \<open>ngx_hash_key\<close>, \<open>ngx_hash_key_lc\<close> and \<open>ngx_hash_strlow\<close>; the last also
  writes the lower-case copy, returned here before the key.\<close>

primrec hash_loop :: "64 word \<Rightarrow> bytes \<Rightarrow> 64 word" where
  "hash_loop key [] = key"
| "hash_loop key (c # cs) = hash_loop (ngx_hash key c) cs"

definition ngx_hash_key :: "bytes \<Rightarrow> 64 word" where
  "ngx_hash_key data = hash_loop 0 data"

primrec hash_lc_loop :: "64 word \<Rightarrow> bytes \<Rightarrow> 64 word" where
  "hash_lc_loop key [] = key"
| "hash_lc_loop key (c # cs) = hash_lc_loop (ngx_hash key (ngx_tolower c)) cs"

definition ngx_hash_key_lc :: "bytes \<Rightarrow> 64 word" where
  "ngx_hash_key_lc data = hash_lc_loop 0 data"

primrec hash_strlow_loop :: "bytes \<Rightarrow> 64 word \<Rightarrow> bytes \<Rightarrow> bytes \<times> 64 word" where
  "hash_strlow_loop dst key [] = (dst, key)"
| "hash_strlow_loop dst key (c # cs) =
     (let d = ngx_tolower c in hash_strlow_loop (dst @ [d]) (ngx_hash key d) cs)"

definition ngx_hash_strlow :: "bytes \<Rightarrow> bytes \<times> 64 word" where
  "ngx_hash_strlow src = hash_strlow_loop [] 0 src"

lemma hash_loop_append: "hash_loop k (xs @ ys) = hash_loop (hash_loop k xs) ys"
  by (induction xs arbitrary: k) simp_all

lemma hash_lc_loop_map: "hash_lc_loop k xs = hash_loop k (map ngx_tolower xs)"
  by (induction xs arbitrary: k) simp_all

lemma hash_strlow_loop_eq:
  "hash_strlow_loop d k xs = (d @ map ngx_tolower xs, hash_loop k (map ngx_tolower xs))"
  by (induction xs arbitrary: d k) (simp_all add: Let_def)

lemma ngx_hash_key_lc_map: "ngx_hash_key_lc xs = ngx_hash_key (map ngx_tolower xs)"
  by (simp add: ngx_hash_key_lc_def ngx_hash_key_def hash_lc_loop_map)

lemma ngx_hash_key_snoc: "ngx_hash_key (xs @ [x]) = ngx_hash (ngx_hash_key xs) x"
  by (simp add: ngx_hash_key_def hash_loop_append)

lemma ngx_hash_key_lc_snoc:
  "ngx_hash_key_lc (xs @ [x]) = ngx_hash (ngx_hash_key_lc xs) (ngx_tolower x)"
  by (simp add: ngx_hash_key_lc_map ngx_hash_key_snoc)

text \<open>The three ways the sources hash a name without regard to case agree, and
  \<open>ngx_hash_strlow\<close> writes the lower-case name: case-insensitive lookups may mix them.\<close>

lemma hash_functions_agree:
  "ngx_hash_strlow src = (map ngx_tolower src, ngx_hash_key_lc src) \<and>
   ngx_hash_key_lc src = ngx_hash_key (map ngx_tolower src)"
  by (simp add: ngx_hash_strlow_def hash_strlow_loop_eq ngx_hash_key_lc_map) 
    (simp add: ngx_hash_key_def)

end
