(* ===== verification/Http_Header_Line.thy ===== *)
theory Http_Header_Line
  imports Http_Request Ngx_Hash
begin

unbundle bit_operations_syntax

text \<open>
  \<open>ngx_http_parse_header_line\<close> (src/http/ngx_http_parse.c): one header line, or the empty line
  that ends the header. Besides finding the name and the value it hashes the lower-case name
  and keeps it in a ring of 32 bytes.
\<close>

section \<open>The lower-case table\<close>

definition lowcase :: bytes where
  "lowcase =
     replicate 32 0 @
     replicate 13 0 @ [MINUS] @ replicate 2 0 @ lit ''0123456789'' @ replicate 6 0 @
     [0] @ lit ''abcdefghijklmnopqrstuvwxyz'' @ replicate 5 0 @
     [0] @ lit ''abcdefghijklmnopqrstuvwxyz'' @ replicate 5 0 @
     replicate 32 0 @ replicate 32 0 @ replicate 32 0 @ replicate 32 0"

definition lowcase_of :: "u_char \<Rightarrow> u_char" where
  "lowcase_of ch = lowcase ! unat ch"

section \<open>States and exits\<close>

datatype hl_state =
    Hl_start | Hl_name | Hl_space_before_value | Hl_value | Hl_space_after_value
  | Hl_ignore_line | Hl_almost_done | Hl_header_almost_done
  | Hl_no_case nat

definition hl_enum :: "hl_state list" where
  "hl_enum = [Hl_start, Hl_name, Hl_space_before_value, Hl_value, Hl_space_after_value,
     Hl_ignore_line, Hl_almost_done, Hl_header_almost_done]"

definition hl_of_nat :: "nat \<Rightarrow> hl_state" where
  "hl_of_nat n = (if n < 8 then hl_enum ! n else Hl_no_case (n - 8))"

fun hl_to_nat :: "hl_state \<Rightarrow> nat" where
  "hl_to_nat Hl_start = 0" | "hl_to_nat Hl_name = 1" | "hl_to_nat Hl_space_before_value = 2"
| "hl_to_nat Hl_value = 3" | "hl_to_nat Hl_space_after_value = 4"
| "hl_to_nat Hl_ignore_line = 5" | "hl_to_nat Hl_almost_done = 6"
| "hl_to_nat Hl_header_almost_done = 7" | "hl_to_nat (Hl_no_case k) = 8 + k"

text \<open>\<open>return NGX_HTTP_PARSE_INVALID_HEADER\<close>, \<open>goto done\<close> and \<open>goto header_done\<close>.\<close>

datatype hl_exit = Hl_invalid | Hl_done | Hl_header_done

text \<open>The local variables \<open>state\<close>, \<open>hash\<close> and \<open>i\<close>, and the request.\<close>

record hl_locals =
  hl_st :: hl_state
  hl_hash :: "64 word"
  hl_i :: nat
  hl_r :: ngx_http_request

type_synonym hl_flow = "(hl_locals, hl_exit) flow"

abbreviation (input) hl_req :: "(ngx_http_request \<Rightarrow> ngx_http_request) \<Rightarrow> hl_locals \<Rightarrow> hl_locals" where
  "hl_req f s \<equiv> s\<lparr>hl_r := f (hl_r s)\<rparr>"

section \<open>One round of the loop, state by state\<close>

text \<open>\<open>hash = ngx_hash(0, c); r->lowcase_header[0] = c; i = 1;\<close>\<close>

definition hl_first :: "u_char \<Rightarrow> hl_locals \<Rightarrow> hl_locals" where
  "hl_first c s = s\<lparr>hl_hash := ngx_hash 0 c, hl_i := 1,
     hl_r := (hl_r s)\<lparr>lowcase_header := (lowcase_header (hl_r s))[0 := c]\<rparr>\<rparr>"

text \<open>\<open>hash = ngx_hash(hash, c); r->lowcase_header[i++] = c; i &= NGX_HTTP_LC_HEADER_LEN - 1;\<close>\<close>

definition hl_next :: "u_char \<Rightarrow> hl_locals \<Rightarrow> hl_locals" where
  "hl_next c s = s\<lparr>hl_hash := ngx_hash (hl_hash s) c, hl_i := (hl_i s + 1) AND (LC_HEADER_LEN - 1),
     hl_r := (hl_r s)\<lparr>lowcase_header := (lowcase_header (hl_r s))[hl_i s := c]\<rparr>\<rparr>"

abbreviation (input) hl_bad :: "hl_locals \<Rightarrow> hl_locals" where
  "hl_bad s \<equiv> hl_req (\<lambda>r. r\<lparr>invalid_header := True\<rparr>) s"

definition hl_start :: "bool \<Rightarrow> nat \<Rightarrow> u_char \<Rightarrow> hl_locals \<Rightarrow> hl_flow" where
  "hl_start allow_underscores p ch s0 =
     (let s = hl_req (\<lambda>r. r\<lparr>header_name_start := Some p, invalid_header := False\<rparr>) s0 in
      if ch = CR then
        Cont (hl_req (\<lambda>r. r\<lparr>header_end := Some p\<rparr>) (s\<lparr>hl_st := Hl_header_almost_done\<rparr>))
      else if ch = LF then Leave Hl_header_done (hl_req (\<lambda>r. r\<lparr>header_end := Some p\<rparr>) s)
      else
        (let s' = s\<lparr>hl_st := Hl_name\<rparr>; c = lowcase_of ch in
         if c \<noteq> 0 then Cont (hl_first c s')
         else if ch = UNDER then
           (if allow_underscores then Cont (hl_first ch s') else Cont (hl_bad s'))
         else if ch = NUL then Leave Hl_invalid s'
         else Cont (hl_bad s')))"

text \<open>The header ends where its name does: it has no colon.\<close>

abbreviation (input) hl_no_value :: "nat \<Rightarrow> hl_locals \<Rightarrow> hl_locals" where
  "hl_no_value p s \<equiv> hl_req (\<lambda>r. r\<lparr>header_name_end := Some p, header_start := Some p,
     header_end := Some p\<rparr>) s"

text \<open>\<open>p - r->header_name_start == 4 && ngx_strncmp(r->header_name_start, "HTTP", 4) == 0\<close>\<close>

definition hl_dup_status_line :: "bytes \<Rightarrow> nat \<Rightarrow> ngx_http_request \<Rightarrow> bool" where
  "hl_dup_status_line mem p r \<longleftrightarrow>
     (case header_name_start r of
        None \<Rightarrow> False
      | Some n \<Rightarrow> n + 4 = p \<and> [rd mem n, rd mem (n + 1), rd mem (n + 2), rd mem (n + 3)] = lit ''HTTP'')"

definition hl_name :: "bool \<Rightarrow> bytes \<Rightarrow> nat \<Rightarrow> u_char \<Rightarrow> hl_locals \<Rightarrow> hl_flow" where
  "hl_name allow_underscores mem p ch s =
     (let c = lowcase_of ch in
      if c \<noteq> 0 then Cont (hl_next c s)
      else if ch = UNDER then
        (if allow_underscores then Cont (hl_next ch s) else Cont (hl_bad s))
      else if ch = COLON then
        Cont (hl_req (\<lambda>r. r\<lparr>header_name_end := Some p\<rparr>) (s\<lparr>hl_st := Hl_space_before_value\<rparr>))
      else if ch = CR then Cont (hl_no_value p (s\<lparr>hl_st := Hl_almost_done\<rparr>))
      else if ch = LF then Leave Hl_done (hl_no_value p s)
      else if ch = SLASH \<and> r_upstream (hl_r s) \<and> hl_dup_status_line mem p (hl_r s) then
        Cont (s\<lparr>hl_st := Hl_ignore_line\<rparr>)
      else if ch = NUL then Leave Hl_invalid s
      else Cont (hl_bad s))"

abbreviation (input) hl_empty_value :: "nat \<Rightarrow> hl_locals \<Rightarrow> hl_locals" where
  "hl_empty_value p s \<equiv> hl_req (\<lambda>r. r\<lparr>header_start := Some p, header_end := Some p\<rparr>) s"

definition hl_space_before_value :: "nat \<Rightarrow> u_char \<Rightarrow> hl_locals \<Rightarrow> hl_flow" where
  "hl_space_before_value p ch s =
     (if ch = SP then Cont s
      else if ch = CR then Cont (hl_empty_value p (s\<lparr>hl_st := Hl_almost_done\<rparr>))
      else if ch = LF then Leave Hl_done (hl_empty_value p s)
      else if ch = NUL then Leave Hl_invalid s
      else Cont (hl_req (\<lambda>r. r\<lparr>header_start := Some p\<rparr>) (s\<lparr>hl_st := Hl_value\<rparr>)))"

definition hl_value :: "nat \<Rightarrow> u_char \<Rightarrow> hl_locals \<Rightarrow> hl_flow" where
  "hl_value p ch s =
     (let ends = hl_req (\<lambda>r. r\<lparr>header_end := Some p\<rparr>) in
      if ch = SP then Cont (ends (s\<lparr>hl_st := Hl_space_after_value\<rparr>))
      else if ch = CR then Cont (ends (s\<lparr>hl_st := Hl_almost_done\<rparr>))
      else if ch = LF then Leave Hl_done (ends s)
      else if ch = NUL then Leave Hl_invalid s
      else Cont s)"

definition hl_space_after_value :: "u_char \<Rightarrow> hl_locals \<Rightarrow> hl_flow" where
  "hl_space_after_value ch s =
     (if ch = SP then Cont s
      else if ch = CR then Cont (s\<lparr>hl_st := Hl_almost_done\<rparr>)
      else if ch = LF then Leave Hl_done s
      else if ch = NUL then Leave Hl_invalid s
      else Cont (s\<lparr>hl_st := Hl_value\<rparr>))"

definition hl_ignore_line :: "u_char \<Rightarrow> hl_locals \<Rightarrow> hl_flow" where
  "hl_ignore_line ch s = (if ch = LF then Cont (s\<lparr>hl_st := Hl_start\<rparr>) else Cont s)"

definition hl_almost_done :: "u_char \<Rightarrow> hl_locals \<Rightarrow> hl_flow" where
  "hl_almost_done ch s =
     (if ch = LF then Leave Hl_done s else if ch = CR then Cont s else Leave Hl_invalid s)"

definition hl_header_almost_done :: "u_char \<Rightarrow> hl_locals \<Rightarrow> hl_flow" where
  "hl_header_almost_done ch s = (if ch = LF then Leave Hl_header_done s else Leave Hl_invalid s)"

definition hl_step :: "bool \<Rightarrow> bytes \<Rightarrow> nat \<Rightarrow> u_char \<Rightarrow> hl_locals \<Rightarrow> hl_flow" where
  "hl_step allow_underscores mem p ch s =
     (case hl_st s of
        Hl_start \<Rightarrow> hl_start allow_underscores p ch s
      | Hl_name \<Rightarrow> hl_name allow_underscores mem p ch s
      | Hl_space_before_value \<Rightarrow> hl_space_before_value p ch s
      | Hl_value \<Rightarrow> hl_value p ch s
      | Hl_space_after_value \<Rightarrow> hl_space_after_value ch s
      | Hl_ignore_line \<Rightarrow> hl_ignore_line ch s
      | Hl_almost_done \<Rightarrow> hl_almost_done ch s
      | Hl_header_almost_done \<Rightarrow> hl_header_almost_done ch s
      | Hl_no_case k \<Rightarrow> Cont s)"

section \<open>The parser\<close>

definition hl_load :: "ngx_http_request \<Rightarrow> hl_locals" where
  "hl_load r = \<lparr>hl_st = hl_of_nat (r_state r), hl_hash = header_hash r, hl_i = lowcase_index r,
     hl_r = r\<rparr>"

definition hl_store :: "hl_locals \<Rightarrow> ngx_http_request" where
  "hl_store s = (hl_r s)\<lparr>header_hash := hl_hash s, lowcase_index := hl_i s\<rparr>"

definition hl_suspend :: "nat \<Rightarrow> hl_locals \<Rightarrow> ngx_buf \<Rightarrow> ngx_rc \<times> ngx_http_request \<times> ngx_buf" where
  "hl_suspend p s b =
     (NGX_AGAIN, (hl_store s)\<lparr>r_state := hl_to_nat (hl_st s)\<rparr>, b\<lparr>b_pos := p\<rparr>)"

text \<open>The code behind \<open>done:\<close> and \<open>header_done:\<close>; the latter does not store the hash.\<close>

fun hl_leave :: "hl_exit \<Rightarrow> nat \<Rightarrow> hl_locals \<Rightarrow> ngx_buf \<Rightarrow>
    ngx_rc \<times> ngx_http_request \<times> ngx_buf" where
  "hl_leave Hl_invalid p s b = (NGX_HTTP_PARSE_INVALID_HEADER, hl_r s, b)"
| "hl_leave Hl_done p s b = (NGX_OK, (hl_store s)\<lparr>r_state := 0\<rparr>, b\<lparr>b_pos := p + 1\<rparr>)"
| "hl_leave Hl_header_done p s b =
     (NGX_HTTP_PARSE_HEADER_DONE, (hl_r s)\<lparr>r_state := 0\<rparr>, b\<lparr>b_pos := p + 1\<rparr>)"

definition ngx_http_parse_header_line ::
    "bool \<Rightarrow> ngx_http_request \<Rightarrow> ngx_buf \<Rightarrow> ngx_rc \<times> ngx_http_request \<times> ngx_buf" where
  "ngx_http_parse_header_line allow_underscores =
     drive (hl_step allow_underscores) hl_load hl_suspend hl_leave"

section \<open>The parser is resumable\<close>

lemma hl_of_to_nat [simp]: "hl_of_nat (hl_to_nat s) = s"
  by (cases s) (simp_all add: hl_of_nat_def hl_enum_def)

lemmas hl_state_defs = hl_first_def hl_next_def hl_start_def hl_name_def
  hl_space_before_value_def hl_value_def hl_space_after_value_def hl_ignore_line_def
  hl_almost_done_def hl_header_almost_done_def

text \<open>The saved copies of the local variables play no part until the next call.\<close>

definition hl_core :: "hl_locals \<Rightarrow> hl_locals" where
  "hl_core s = s\<lparr>hl_r := (hl_r s)\<lparr>r_state := 0, header_hash := 0, lowcase_index := 0\<rparr>\<rparr>"

text \<open>What a caller relies on: nothing of a rejected header; at the end of the header, not the hash
  and the length of a name, since there is none.\<close>

fun hl_view :: "ngx_rc \<times> ngx_http_request \<times> ngx_buf \<Rightarrow>
    ngx_rc \<times> (ngx_http_request \<times> ngx_buf) option" where
  "hl_view (rc, r, b) =
     (rc, if rc = NGX_HTTP_PARSE_INVALID_HEADER then None
          else if rc = NGX_HTTP_PARSE_HEADER_DONE then
            Some (r\<lparr>header_hash := 0, lowcase_index := 0\<rparr>, b)
          else Some (r, b))"

lemma hl_core_simps [simp]:
  "hl_st (hl_core s) = hl_st s" "hl_dup_status_line mem p (hl_r (hl_core s)) = hl_dup_status_line mem p (hl_r s)"
  "r_upstream (hl_r (hl_core s)) = r_upstream (hl_r s)"
  by (simp_all add: hl_core_def hl_dup_status_line_def)

lemma hl_core_updates:
  "hl_first c (hl_core s) = hl_core (hl_first c s)" "hl_next c (hl_core s) = hl_core (hl_next c s)"
  "(hl_core s)\<lparr>hl_st := st\<rparr> = hl_core (s\<lparr>hl_st := st\<rparr>)"
  "hl_req (\<lambda>r. r\<lparr>header_name_start := a, invalid_header := i\<rparr>) (hl_core s) =
     hl_core (hl_req (\<lambda>r. r\<lparr>header_name_start := a, invalid_header := i\<rparr>) s)"
  "hl_bad (hl_core s) = hl_core (hl_bad s)"
  "hl_req (\<lambda>r. r\<lparr>header_end := a\<rparr>) (hl_core s) = hl_core (hl_req (\<lambda>r. r\<lparr>header_end := a\<rparr>) s)"
  "hl_req (\<lambda>r. r\<lparr>header_start := a\<rparr>) (hl_core s) = hl_core (hl_req (\<lambda>r. r\<lparr>header_start := a\<rparr>) s)"
  "hl_req (\<lambda>r. r\<lparr>header_name_end := a\<rparr>) (hl_core s) = hl_core (hl_req (\<lambda>r. r\<lparr>header_name_end := a\<rparr>) s)"
  "hl_no_value p (hl_core s) = hl_core (hl_no_value p s)"
  "hl_empty_value p (hl_core s) = hl_core (hl_empty_value p s)"
  by (simp_all add: hl_core_def hl_first_def hl_next_def)

lemma hl_step_core:
  "hl_step au mem p ch (hl_core s) = map_flow hl_core id (hl_step au mem p ch s)"
  by (cases "hl_st s")
    (simp_all add: hl_step_def hl_start_def hl_name_def
  hl_space_before_value_def hl_value_def hl_space_after_value_def hl_ignore_line_def
  hl_almost_done_def hl_header_almost_done_def hl_core_updates Let_def)

lemma hl_dup_status_line_causal:
  "p < length mem \<Longrightarrow> hl_dup_status_line (mem @ rest) p r = hl_dup_status_line mem p r"
  by (auto simp: hl_dup_status_line_def split: option.split)

lemma hl_core_store:
  assumes "hl_core s = hl_core t"
  shows "hl_st s = hl_st t" and "(hl_store s)\<lparr>r_state := n\<rparr> = (hl_store t)\<lparr>r_state := n\<rparr>"
    and "(hl_r s)\<lparr>r_state := 0, header_hash := 0, lowcase_index := 0\<rparr> =
      (hl_r t)\<lparr>r_state := 0, header_hash := 0, lowcase_index := 0\<rparr>"
proof -
  have h: "hl_st s = hl_st t" "hl_hash s = hl_hash t" "hl_i s = hl_i t"
    using arg_cong [OF assms, of hl_st] arg_cong [OF assms, of hl_hash]
      arg_cong [OF assms, of hl_i] by (simp_all add: hl_core_def)
  then show "hl_st s = hl_st t" by simp
  show "(hl_store s)\<lparr>r_state := n\<rparr> = (hl_store t)\<lparr>r_state := n\<rparr>"
    using arg_cong [OF assms, of "\<lambda>s. (hl_store s)\<lparr>r_state := n\<rparr>"] h
    by (simp add: hl_core_def hl_store_def)
  show "(hl_r s)\<lparr>r_state := 0, header_hash := 0, lowcase_index := 0\<rparr> =
      (hl_r t)\<lparr>r_state := 0, header_hash := 0, lowcase_index := 0\<rparr>"
    using arg_cong [OF assms, of hl_r] by (simp add: hl_core_def)
qed

interpretation hl: suspending_parser "hl_step au" hl_load hl_suspend hl_leave
  "\<lambda>_. True" "\<lambda>_. True" hl_core hl_view for au
proof (unfold_locales, goal_cases)
  case (1 p mem ch rest s)
  then show ?case
    by (simp add: hl_step_def hl_name_def hl_dup_status_line_causal cong: if_cong split del: if_split
        split: hl_state.split)
next
  case (4 s t mem p ch)
  then show ?case by (simp flip: hl_step_core)
next
  case (5 s p b r' b')
  then show ?case by (auto simp: hl_suspend_def hl_load_def hl_store_def hl_core_def)
next
  case (6 s t p b q)
  then show ?case by (simp add: hl_suspend_def hl_core_store [OF 6])
next
  case (7 e p s b rc r' b' rest)
  then show ?case by (cases e) auto
next
  case (8 s t e p b q)
  then show ?case by (cases e) (simp_all add: hl_core_store [OF 8])
next
  case (9 p s b)
  then show ?case by (simp add: hl_suspend_def)
qed auto

text \<open>C5: How the network cuts a header line into pieces does not matter: resuming the parser
  with more bytes while it answers \<open>NGX_AGAIN\<close> gives the result of one call on all of them,
  the hash and the lower-case name included.\<close>

theorem header_line_fragmentation:
  assumes "b_pos b \<le> length (b_mem b)"
  shows "hl_view (feed (ngx_http_parse_header_line au) r b pieces) =
    hl_view (ngx_http_parse_header_line au r (recv b (concat pieces)))"
  unfolding ngx_http_parse_header_line_def using assms by (intro hl.feed_concat) simp_all


theorem header_line_fragmentation_witness:
  "b_pos \<lparr>b_mem = lit ''Ho'', b_pos = 0\<rparr> \<le> length (b_mem \<lparr>b_mem = lit ''Ho'', b_pos = 0\<rparr>) \<and>
   hl_view (feed (ngx_http_parse_header_line False) ngx_http_request_init \<lparr>b_mem = lit ''Ho'', b_pos = 0\<rparr>
      [lit ''st: '', lit ''a '', lit ''b'', [CR], [LF]]) =
   hl_view (ngx_http_parse_header_line False ngx_http_request_init
      (recv \<lparr>b_mem = lit ''Ho'', b_pos = 0\<rparr> (concat [lit ''st: '', lit ''a '', lit ''b'', [CR], [LF]]))) \<and>
   fst (feed (ngx_http_parse_header_line False) ngx_http_request_init \<lparr>b_mem = lit ''Ho'', b_pos = 0\<rparr>
      [lit ''st: '', lit ''a '', lit ''b'', [CR], [LF]]) = NGX_OK"
  (is "?H \<and> ?eq \<and> ?ok")
proof (intro conjI)
  show h: ?H by simp
  show ?eq by (rule header_line_fragmentation [OF h])
  show ?ok by code_simp
qed

section \<open>Names\<close>

text \<open>The bytes of a valid name.\<close>

definition name_char :: "bool \<Rightarrow> u_char \<Rightarrow> bool" where
  "name_char au c \<longleftrightarrow> is_digit c \<or> c = MINUS \<or> is_alpha c \<or> (au \<and> c = UNDER)"

lemma lowcase_of_spec:
  "lowcase_of c = (if is_digit c \<or> c = MINUS \<or> is_alpha c then ngx_tolower c else 0)"
  by (rule byte_cases [where x = c]) code_simp

lemma ngx_tolower_nonzero: "c \<noteq> 0 \<Longrightarrow> ngx_tolower c \<noteq> 0"
  by (rule byte_cases [where P = "\<lambda>c. c \<noteq> 0 \<longrightarrow> ngx_tolower c \<noteq> 0", THEN mp]) code_simp

lemma ngx_tolower_UNDER [simp]: "ngx_tolower UNDER = UNDER"
  by (simp add: ngx_tolower_def)

text \<open>
  What the parser knows of the name \<open>nm\<close> read so far, unless it has marked it invalid.
\<close>

definition named :: "bool \<Rightarrow> bytes \<Rightarrow> hl_locals \<Rightarrow> bool" where
  "named au nm s \<longleftrightarrow> invalid_header (hl_r s) \<or>
     (\<forall>c \<in> set nm. name_char au c) \<and> hl_hash s = ngx_hash_key_lc nm \<and>
     hl_i s = length nm mod LC_HEADER_LEN \<and>
     (length nm < LC_HEADER_LEN \<longrightarrow>
        take (length nm) (lowcase_header (hl_r s)) = map ngx_tolower nm)"

definition ring_ok :: "hl_locals \<Rightarrow> bool" where
  "ring_ok s \<longleftrightarrow> hl_i s < LC_HEADER_LEN \<and> length (lowcase_header (hl_r s)) = LC_HEADER_LEN"

lemma ring_ok_first: "ring_ok s \<Longrightarrow> ring_ok (hl_first c s)"
  by (simp add: ring_ok_def hl_first_def)

lemma and_31: "n AND 31 = n mod (32::nat)"
  using take_bit_eq_mask [of 5 n] by (simp add: take_bit_eq_mod mask_eq_exp_minus_1)

lemma ring_ok_next: "ring_ok s \<Longrightarrow> ring_ok (hl_next c s)"
  by (simp add: ring_ok_def hl_next_def and_31)

lemma named_first:
  assumes "ring_ok s" and "name_char au c"
  shows "named au [c] (hl_first (ngx_tolower c) s)"
  using assms by (cases "lowcase_header (hl_r s)")
    (simp_all add: named_def ring_ok_def hl_first_def ngx_hash_key_lc_def ngx_hash_def)

lemma named_next:
  assumes "ring_ok s" and "name_char au c" and "named au nm s"
  shows "named au (nm @ [c]) (hl_next (ngx_tolower c) s)"
proof -
  have *: "take (Suc (length nm)) ((lowcase_header (hl_r s))[length nm := ngx_tolower c]) =
      take (length nm) (lowcase_header (hl_r s)) @ [ngx_tolower c]" if "Suc (length nm) < 32"
    using that assms(1) by (simp add: ring_ok_def take_Suc_conv_app_nth)
  show ?thesis
    using assms * by (auto simp: named_def hl_next_def and_31 ngx_hash_key_lc_snoc mod_Suc_eq)
qed

lemma named_bad [simp]: "invalid_header (hl_r s) \<Longrightarrow> named au nm s"
  by (simp add: named_def)

lemma slice_Suc: "n \<le> p \<Longrightarrow> p < length mem \<Longrightarrow> slice mem n (Suc p) = slice mem n p @ [mem ! p]"
  by (simp add: slice_def Suc_diff_le take_Suc_conv_app_nth)

text \<open>The name lies between \<open>n\<close> and \<open>e\<close>; with a value, that begins at \<open>vs\<close>.\<close>

definition has_name :: "bool \<Rightarrow> bytes \<Rightarrow> nat \<Rightarrow> nat \<Rightarrow> hl_locals \<Rightarrow> bool" where
  "has_name au mem n e s \<longleftrightarrow> header_name_start (hl_r s) = Some n \<and>
     header_name_end (hl_r s) = Some e \<and> n < e \<and> named au (slice mem n e) s"

definition trimmed :: "bytes \<Rightarrow> nat \<Rightarrow> nat \<Rightarrow> bool" where
  "trimmed mem vs ve \<longleftrightarrow> clean mem vs ve \<and>
     (vs < ve \<longrightarrow> mem ! vs \<noteq> SP \<and> mem ! (ve - 1) \<noteq> SP)"

definition has_field :: "bool \<Rightarrow> bytes \<Rightarrow> nat \<Rightarrow> hl_locals \<Rightarrow> bool" where
  "has_field au mem p s \<longleftrightarrow> (\<exists>n e vs ve. has_name au mem n e s \<and>
     header_start (hl_r s) = Some vs \<and> header_end (hl_r s) = Some ve \<and>
     e \<le> vs \<and> vs \<le> ve \<and> ve \<le> p \<and> trimmed mem vs ve)"

definition hl_inv :: "bool \<Rightarrow> bytes \<Rightarrow> nat \<Rightarrow> hl_locals \<Rightarrow> bool" where
  "hl_inv au mem p s \<longleftrightarrow> ring_ok s \<and>
     (case hl_st s of
        Hl_name \<Rightarrow> \<exists>n<p. header_name_start (hl_r s) = Some n \<and> named au (slice mem n p) s
      | Hl_space_before_value \<Rightarrow> \<exists>n. \<exists>e<p. has_name au mem n e s
      | Hl_value \<Rightarrow> \<exists>n e vs. has_name au mem n e s \<and> header_start (hl_r s) = Some vs \<and>
          e \<le> vs \<and> vs < p \<and> trimmed mem vs p
      | Hl_space_after_value \<Rightarrow> has_field au mem p s \<and>
          (\<exists>vs. header_start (hl_r s) = Some vs \<and> vs < p \<and> mem ! vs \<noteq> SP \<and> clean mem vs p)
      | Hl_almost_done \<Rightarrow> has_field au mem p s
      | _ \<Rightarrow> True)"

definition hl_final :: "bool \<Rightarrow> bytes \<Rightarrow> hl_exit \<Rightarrow> nat \<Rightarrow> hl_locals \<Rightarrow> bool" where
  "hl_final au mem e p s \<longleftrightarrow> ring_ok s \<and> (e = Hl_done \<longrightarrow> has_field au mem p s)"

lemma named_cong:
  "hl_hash s = hl_hash t \<Longrightarrow> hl_i s = hl_i t \<Longrightarrow>
   lowcase_header (hl_r s) = lowcase_header (hl_r t) \<Longrightarrow>
   invalid_header (hl_r s) = invalid_header (hl_r t) \<Longrightarrow> named au nm s = named au nm t"
  by (simp add: named_def)

lemma name_char_cases:
  assumes "name_char au c"
  shows "c \<noteq> CR" "c \<noteq> LF" "lowcase_of c \<noteq> 0 \<and> lowcase_of c = ngx_tolower c \<or> lowcase_of c = 0 \<and> c = UNDER \<and> au"
proof -
  have "list_all (\<lambda>c. is_digit c \<or> c = MINUS \<or> is_alpha c \<or> c = UNDER \<longrightarrow> c \<noteq> CR \<and> c \<noteq> LF \<and> ngx_tolower c \<noteq> 0) all_bytes"
    by code_simp
  from byte_cases [OF this, of c] assms
  have "c \<noteq> CR \<and> c \<noteq> LF \<and> ngx_tolower c \<noteq> 0"
    unfolding name_char_def by blast
  then show "c \<noteq> CR" "c \<noteq> LF"
    "lowcase_of c \<noteq> 0 \<and> lowcase_of c = ngx_tolower c \<or> lowcase_of c = 0 \<and> c = UNDER \<and> au"
    using assms by (auto simp: name_char_def lowcase_of_spec)
qed

lemma not_name_char: "\<not> name_char au c \<Longrightarrow> lowcase_of c = 0 \<and> (c = UNDER \<longrightarrow> \<not> au)"
  by (auto simp: lowcase_of_spec name_char_def)

lemma hl_start_name_char:
  "name_char au ch \<Longrightarrow> hl_start au p ch s = Cont (hl_first (ngx_tolower ch)
     (s\<lparr>hl_r := (hl_r s)\<lparr>header_name_start := Some p, invalid_header := False\<rparr>, hl_st := Hl_name\<rparr>))"
  using name_char_cases [of au ch] ngx_tolower_UNDER by (auto simp: hl_start_def Let_def)

lemma hl_name_name_char:
  "name_char au ch \<Longrightarrow> hl_name au mem p ch s = Cont (hl_next (ngx_tolower ch) s)"
  using name_char_cases [of au ch] ngx_tolower_UNDER by (auto simp: hl_name_def Let_def)

lemma hl_inv_intros:
  "ring_ok s \<Longrightarrow> hl_st s = Hl_name \<Longrightarrow> header_name_start (hl_r s) = Some n \<Longrightarrow> n < p \<Longrightarrow>
     named au (slice mem n p) s \<Longrightarrow> hl_inv au mem p s"
  by (auto simp: hl_inv_def)

lemma ring_ok_cong:
  "ring_ok s \<Longrightarrow> hl_i s = hl_i t \<Longrightarrow> lowcase_header (hl_r s) = lowcase_header (hl_r t) \<Longrightarrow> ring_ok t"
  by (simp add: ring_ok_def)

lemma hl_ok_start:
  assumes "ring_ok s" and "p < length mem" and "ch = mem ! p"
  shows "case hl_start au p ch s of Cont s' \<Rightarrow> hl_inv au mem (Suc p) s' | Leave e s' \<Rightarrow> hl_final au mem e p s'"
proof -
  have sl: "slice mem p (Suc p) = [ch]"
    using assms(2,3) slice_Suc [of p p mem] by (simp add: slice_def)
  let ?s = "s\<lparr>hl_r := (hl_r s)\<lparr>header_name_start := Some p, invalid_header := False\<rparr>, hl_st := Hl_name\<rparr>"
  have r: "ring_ok ?s" using assms(1) by (rule ring_ok_cong) simp_all
  have first: "hl_inv au mem (Suc p) (hl_first (ngx_tolower ch) ?s)" if "name_char au ch"
    using ring_ok_first [OF r] named_first [OF r that]
    by (intro hl_inv_intros [of _ p]) (simp_all add: sl hl_first_def)
  show ?thesis
  proof (cases "name_char au ch")
    case True
    with first show ?thesis by (simp add: hl_start_name_char)
  next
    case False
    then show ?thesis
      using assms(1) not_name_char [of au ch]
      by (auto simp: hl_start_def Let_def hl_inv_def hl_final_def ring_ok_def)
  qed
qed

lemma hl_ok_name:
  assumes "hl_inv au mem p s" and "hl_st s = Hl_name" and "p < length mem" and "ch = mem ! p"
  shows "case hl_name au mem p ch s of Cont s' \<Rightarrow> hl_inv au mem (Suc p) s' | Leave e s' \<Rightarrow> hl_final au mem e p s'"
proof -
  from assms(1,2) obtain n where n: "n < p" "header_name_start (hl_r s) = Some n"
    and nm: "named au (slice mem n p) s" and r: "ring_ok s"
    by (auto simp: hl_inv_def)
  have sl: "slice mem n (Suc p) = slice mem n p @ [ch]"
    using n assms(3,4) slice_Suc [of n p mem] by simp
  have next_char: "hl_inv au mem (Suc p) (hl_next (ngx_tolower ch) s)" if "name_char au ch"
    using ring_ok_next [OF r] named_next [OF r that nm] n assms(2)
    by (intro hl_inv_intros [of _ n]) (simp_all add: sl hl_next_def)
  have nm': "has_name au mem n p t" if "hl_hash s = hl_hash t" "hl_i s = hl_i t"
     "lowcase_header (hl_r s) = lowcase_header (hl_r t)" "invalid_header (hl_r s) = invalid_header (hl_r t)"
     "header_name_start (hl_r t) = Some n" "header_name_end (hl_r t) = Some p" for t
    using n nm named_cong [OF that(1-4)] that(5,6) by (simp add: has_name_def)
  have field: "has_field au mem q (hl_no_value p (s\<lparr>hl_st := st\<rparr>))" if "p \<le> q" for st q
    using n that unfolding has_field_def
    by (intro exI [of _ n] exI [of _ p]) (simp add: nm' trimmed_def)
  from field [of p "hl_st s"] have field': "has_field au mem p (hl_no_value p s)" by simp
  have colon: "\<exists>n. \<exists>e<Suc p. has_name au mem n e
      (hl_req (\<lambda>r. r\<lparr>header_name_end := Some p\<rparr>) (s\<lparr>hl_st := Hl_space_before_value\<rparr>))"
    using n by (intro exI [of _ n] exI [of _ p]) (simp add: nm')
  show ?thesis
  proof (cases "name_char au ch")
    case True
    with next_char show ?thesis by (simp add: hl_name_name_char)
  next
    case False
    then show ?thesis
      using r n assms(2) field field' colon not_name_char [of au ch]
      by (auto simp: hl_name_def Let_def hl_inv_def hl_final_def ring_ok_def)
  qed
qed

lemma has_name_cong:
  "has_name au mem n e s \<Longrightarrow> hl_hash s = hl_hash t \<Longrightarrow> hl_i s = hl_i t \<Longrightarrow>
   lowcase_header (hl_r s) = lowcase_header (hl_r t) \<Longrightarrow>
   invalid_header (hl_r s) = invalid_header (hl_r t) \<Longrightarrow>
   header_name_start (hl_r s) = header_name_start (hl_r t) \<Longrightarrow>
   header_name_end (hl_r s) = header_name_end (hl_r t) \<Longrightarrow> has_name au mem n e t"
  by (simp add: has_name_def named_cong [of s t])

lemma hl_ok_space_before_value:
  assumes "hl_inv au mem p s" and "hl_st s = Hl_space_before_value" and "ch = mem ! p"
  shows "case hl_space_before_value p ch s of
    Cont s' \<Rightarrow> hl_inv au mem (Suc p) s' | Leave e s' \<Rightarrow> hl_final au mem e p s'"
proof -
  from assms(1,2) obtain n e where e: "e < p" and nm: "has_name au mem n e s" and r: "ring_ok s"
    by (auto simp: hl_inv_def)
  note keep = has_name_cong [OF nm]
  have field: "has_field au mem (Suc p) (hl_empty_value p (s\<lparr>hl_st := st\<rparr>))"
    "has_field au mem p (hl_empty_value p s)" for st
    using e unfolding has_field_def
    by (intro exI [of _ n] exI [of _ e] exI [of _ p]; auto intro: keep simp: trimmed_def)+
  have v: "has_name au mem n e (hl_req (\<lambda>r. r\<lparr>header_start := Some p\<rparr>) (s\<lparr>hl_st := Hl_value\<rparr>))"
    by (rule keep) simp_all
  show ?thesis
    using r assms(2,3) field e nm v
    by (auto simp: hl_space_before_value_def trimmed_def hl_inv_def hl_final_def ring_ok_def
        intro: less_SucI less_imp_le)
qed

lemma hl_ok_value:
  assumes "hl_inv au mem p s" and "hl_st s = Hl_value" and "ch = mem ! p"
  shows "case hl_value p ch s of
    Cont s' \<Rightarrow> hl_inv au mem (Suc p) s' | Leave e s' \<Rightarrow> hl_final au mem e p s'"
proof -
  from assms(1,2) obtain n e vs where vs: "e \<le> vs" "vs < p" "header_start (hl_r s) = Some vs"
    "trimmed mem vs p" and nm: "has_name au mem n e s" and r: "ring_ok s"
    by (auto simp: hl_inv_def)
  note keep = has_name_cong [OF nm]
  have field: "has_field au mem (Suc p) (hl_req (\<lambda>r. r\<lparr>header_end := Some p\<rparr>) (s\<lparr>hl_st := st\<rparr>))"
    "has_field au mem p (hl_req (\<lambda>r. r\<lparr>header_end := Some p\<rparr>) s)" for st
    using vs unfolding has_field_def
    by (intro exI [of _ n] exI [of _ e] exI [of _ vs] exI [of _ p]; auto intro: keep)+
  show ?thesis
    using r vs nm assms(2,3) keep field
    by (auto simp: hl_value_def Let_def hl_inv_def hl_final_def ring_ok_def trimmed_def intro: keep)
qed

lemma has_field_cong:
  "has_field au mem p s \<Longrightarrow> p \<le> q \<Longrightarrow> hl_hash s = hl_hash t \<Longrightarrow> hl_i s = hl_i t \<Longrightarrow> hl_r s = hl_r t \<Longrightarrow>
   has_field au mem q t"
  unfolding has_field_def by (force intro: has_name_cong)

lemma hl_ok_space_after_value:
  assumes "hl_inv au mem p s" and "hl_st s = Hl_space_after_value" and "ch = mem ! p"
  shows "case hl_space_after_value ch s of
    Cont s' \<Rightarrow> hl_inv au mem (Suc p) s' | Leave e s' \<Rightarrow> hl_final au mem e p s'"
proof -
  from assms(1,2) obtain vs where f: "has_field au mem p s" and r: "ring_ok s"
    and vs: "header_start (hl_r s) = Some vs" "vs < p" "mem ! vs \<noteq> SP" "clean mem vs p"
    by (auto simp: hl_inv_def)
  from f vs(1) obtain n e where nm: "has_name au mem n e s" "e \<le> vs"
    by (auto simp: has_field_def)
  note keep = has_name_cong [OF nm(1)] and keepf = has_field_cong [OF f]
  have v: "has_name au mem n e (s\<lparr>hl_st := Hl_value\<rparr>)"
    by (rule keep) simp_all
  show ?thesis
    using r vs nm v assms(2,3) keepf [of "Suc p"] f
    by (auto simp: hl_space_after_value_def trimmed_def hl_inv_def hl_final_def ring_ok_def
        intro: less_SucI less_imp_le)
qed

lemma hl_step_ok:
  assumes "hl_inv au mem p s" and "p < length mem" and "ch = mem ! p"
  shows "case hl_step au mem p ch s of
    Cont s' \<Rightarrow> hl_inv au mem (Suc p) s' | Leave e s' \<Rightarrow> hl_final au mem e p s'"
proof (cases "hl_st s")
  case Hl_start
  then show ?thesis using hl_ok_start assms by (simp add: hl_step_def hl_inv_def)
next
  case Hl_name
  then show ?thesis using hl_ok_name assms by (simp add: hl_step_def)
next
  case Hl_space_before_value
  then show ?thesis using hl_ok_space_before_value assms by (simp add: hl_step_def)
next
  case Hl_value
  then show ?thesis using hl_ok_value assms by (simp add: hl_step_def)
next
  case Hl_space_after_value
  then show ?thesis using hl_ok_space_after_value assms by (simp add: hl_step_def)
next
  case Hl_almost_done
  then have "has_field au mem p s" using assms(1) by (simp add: hl_inv_def)
  with Hl_almost_done show ?thesis
    using assms(1) has_field_cong [of au mem p s "Suc p" s]
    by (simp add: hl_step_def hl_almost_done_def hl_inv_def hl_final_def)
qed (use assms in \<open>auto simp: hl_step_def hl_ignore_line_def hl_header_almost_done_def
      hl_inv_def hl_final_def ring_ok_def\<close>)

text \<open>C4: After \<open>NGX_OK\<close> the header's name and value are in order and inside the bytes received;
  the value is trimmed of spaces and holds no NUL, CR or LF. Unless the header is marked
  invalid, every byte of its name is a letter, a digit, a hyphen or, where they are allowed, an
  underscore, \<open>r->header_hash\<close> is the case-insensitive hash of the name, and whenever
  \<open>r->lowcase_index\<close> is the length of the name (the test the callers make),
  \<open>r->lowcase_header\<close> holds the name in lower case. The ring index stays below 32, so no write
  goes beyond \<open>lowcase_header\<close>.\<close>

theorem header_line_fields:
  assumes "ngx_http_parse_header_line au r b = (NGX_OK, r', b')"
    and "b_pos b \<le> length (b_mem b)" and "r_state r = 0"
    and "lowcase_index r < LC_HEADER_LEN" and "length (lowcase_header r) = LC_HEADER_LEN"
  shows "\<exists>n e vs ve.
      header_name_start r' = Some n \<and> header_name_end r' = Some e \<and>
      header_start r' = Some vs \<and> header_end r' = Some ve \<and>
      n < e \<and> e \<le> vs \<and> vs \<le> ve \<and> ve < b_pos b' \<and> b_pos b' \<le> length (b_mem b) \<and>
      clean (b_mem b) vs ve \<and>
      (vs < ve \<longrightarrow> b_mem b ! vs \<noteq> SP \<and> b_mem b ! (ve - 1) \<noteq> SP) \<and>
      lowcase_index r' < LC_HEADER_LEN \<and> length (lowcase_header r') = LC_HEADER_LEN \<and>
      (\<not> invalid_header r' \<longrightarrow>
         (\<forall>c \<in> set (slice (b_mem b) n e). name_char au c) \<and>
         header_hash r' = ngx_hash_key_lc (slice (b_mem b) n e) \<and>
         (lowcase_index r' = e - n \<longrightarrow>
            take (lowcase_index r') (lowcase_header r') = map ngx_tolower (slice (b_mem b) n e)))"
proof -
  let ?mem = "b_mem b"
  have "hl_inv au ?mem (b_pos b) (hl_load r)"
    using assms(3-5) by (simp add: hl_load_def hl_inv_def ring_ok_def hl_of_nat_def hl_enum_def)
  then have run: "case scan (hl_step au) ?mem (b_pos b) (drop (b_pos b) ?mem) (hl_load r) of
      Ran_out q s' \<Rightarrow> hl_inv au ?mem q s' | Left_at e q s' \<Rightarrow> hl_final au ?mem e q s'"
    by (intro scan_invariant [where I = "hl_inv au ?mem" and J = "hl_final au ?mem" and step = "hl_step au"
          and mem = ?mem] hl_step_ok)
  from assms(1) obtain e p s where
    left: "scan (hl_step au) ?mem (b_pos b) (drop (b_pos b) ?mem) (hl_load r) = Left_at e p s"
    and leave: "hl_leave e p s b = (NGX_OK, r', b')"
    by (auto simp: ngx_http_parse_header_line_def drive_def hl_suspend_def split: scanned.splits)
  from leave have e: "e = Hl_done" and r': "r' = (hl_store s)\<lparr>r_state := 0\<rparr>"
    and b': "b_pos b' = p + 1" by (cases e; auto)+
  have p: "p < length ?mem"
    using scan_Left_at_pos [OF left] assms(2) by simp
  have "has_field au ?mem p s" and ok: "ring_ok s"
    using run left e by (auto simp: hl_final_def)
  then obtain n e vs ve where nm: "has_name au ?mem n e s"
    and v: "header_start (hl_r s) = Some vs" "header_end (hl_r s) = Some ve"
     "e \<le> vs" "vs \<le> ve" "ve \<le> p" "trimmed ?mem vs ve"
    by (auto simp: has_field_def)
  have len: "length (slice ?mem n e) = e - n"
    using v p by (intro length_slice) linarith
  have n: "header_name_start (hl_r s) = Some n" "header_name_end (hl_r s) = Some e" "n < e"
    and nmd: "named au (slice ?mem n e) s"
    using nm by (auto simp: has_name_def)
  have low: "take (hl_i s) (lowcase_header (hl_r s)) = map ngx_tolower (slice ?mem n e)"
    if "\<not> invalid_header (hl_r s)" and "hl_i s = e - n"
    using nmd ok that by (simp add: named_def len ring_ok_def)
  from nmd have named: "\<not> invalid_header (hl_r s) \<longrightarrow>
      (\<forall>c \<in> set (slice ?mem n e). name_char au c) \<and> hl_hash s = ngx_hash_key_lc (slice ?mem n e)"
    by (auto simp: named_def)
  show ?thesis
    using n v p ok low named
    by (intro exI [of _ n] exI [of _ e] exI [of _ vs] exI [of _ ve])
      (simp add: r' b' hl_store_def ring_ok_def trimmed_def)
qed

theorem header_line_fields_witness:
  "\<exists>r' b' n e. ngx_http_parse_header_line False ngx_http_request_init
      \<lparr>b_mem = lit ''Ab-1: x y '' @ [CR, LF], b_pos = 0\<rparr> = (NGX_OK, r', b') \<and>
      header_name_start r' = Some n \<and> header_name_end r' = Some e \<and> n < e"
proof -
  let ?b = "\<lparr>b_mem = lit ''Ab-1: x y '' @ [CR, LF], b_pos = 0\<rparr>"
  have "fst (ngx_http_parse_header_line False ngx_http_request_init ?b) = NGX_OK"
    by code_simp
  then obtain r' b' where ok: "ngx_http_parse_header_line False ngx_http_request_init ?b = (NGX_OK, r', b')"
    by (metis prod.collapse)
  from header_line_fields [OF ok] ok show ?thesis
    by (auto simp: ngx_http_request_init_def)
qed

section \<open>Reading back what was written\<close>

definition header_line :: "bytes \<Rightarrow> bytes \<Rightarrow> bytes" where
  "header_line name val = name @ [COLON, SP] @ val @ [CR, LF]"

lemma length_header_line [simp]: "length (header_line name val) = length name + 4 + length val"
  by (simp add: header_line_def)

lemma scan_name_chars:
  "\<forall>c \<in> set xs. name_char au c \<Longrightarrow> hl_st s = Hl_name \<Longrightarrow>
   scan (hl_step au) mem p (xs @ ys) s =
   scan (hl_step au) mem (p + length xs) ys (fold (\<lambda>c. hl_next (ngx_tolower c)) xs s)"
  by (induction xs arbitrary: p s) (simp_all add: hl_step_def hl_name_name_char, simp add: hl_next_def)

lemma fold_hl_next:
  assumes "ring_ok s" and "named au nm s" and "\<forall>c \<in> set xs. name_char au c"
  shows "\<exists>h i l. fold (\<lambda>c. hl_next (ngx_tolower c)) xs s =
      s\<lparr>hl_hash := h, hl_i := i, hl_r := (hl_r s)\<lparr>lowcase_header := l\<rparr>\<rparr> \<and>
      named au (nm @ xs) (s\<lparr>hl_hash := h, hl_i := i, hl_r := (hl_r s)\<lparr>lowcase_header := l\<rparr>\<rparr>)"
  using assms
proof (induction xs arbitrary: s nm)
  case Nil
  then show ?case
    by (intro exI [of _ "hl_hash s"] exI [of _ "hl_i s"] exI [of _ "lowcase_header (hl_r s)"]) simp
next
  case (Cons x xs)
  have "ring_ok (hl_next (ngx_tolower x) s)" "named au (nm @ [x]) (hl_next (ngx_tolower x) s)"
    using Cons.prems by (simp_all add: ring_ok_next named_next)
  from Cons.IH [OF this] Cons.prems(3) show ?case
    by (auto simp: hl_next_def)
qed

text \<open>Inside a value the parser goes to and fro between two states; only \<open>header_end\<close> changes.\<close>

lemma hl_step_value:
  assumes "c \<notin> {NUL, CR, LF}" and "hl_st s \<in> {Hl_value, Hl_space_after_value}"
  shows "\<exists>st he. hl_step au mem p c s = Cont (s\<lparr>hl_st := st, hl_r := (hl_r s)\<lparr>header_end := he\<rparr>\<rparr>) \<and>
      st \<in> {Hl_value, Hl_space_after_value} \<and> (c \<noteq> SP \<longrightarrow> st = Hl_value)"
proof (cases "c = SP \<and> hl_st s = Hl_value")
  case True
  then show ?thesis by (auto simp: hl_step_def hl_value_def Let_def)
next
  case False
  have "hl_step au mem p c s = Cont (s\<lparr>hl_st := if c = SP then hl_st s else Hl_value,
      hl_r := (hl_r s)\<lparr>header_end := header_end (hl_r s)\<rparr>\<rparr>)"
    using assms False by (cases s) (auto simp: hl_step_def hl_value_def hl_space_after_value_def Let_def)
  moreover have "(if c = SP then hl_st s else Hl_value) \<in> {Hl_value, Hl_space_after_value}"
    using assms(2) by simp
  moreover have "c \<noteq> SP \<longrightarrow> (if c = SP then hl_st s else Hl_value) = Hl_value" by simp
  ultimately show ?thesis by blast
qed

lemma scan_value:
  assumes "\<forall>c \<in> set xs. c \<notin> {NUL, CR, LF}" and "xs \<noteq> []" and "last xs \<noteq> SP"
    and "hl_st s \<in> {Hl_value, Hl_space_after_value}"
  shows "\<exists>he. scan (hl_step au) mem p (xs @ ys) s =
    scan (hl_step au) mem (p + length xs) ys
      (s\<lparr>hl_st := Hl_value, hl_r := (hl_r s)\<lparr>header_end := he\<rparr>\<rparr>)"
  using assms
proof (induction xs arbitrary: p s)
  case (Cons x xs)
  then obtain st he where st: "st \<in> {Hl_value, Hl_space_after_value}" "x \<noteq> SP \<longrightarrow> st = Hl_value"
    and one: "hl_step au mem p x s = Cont (s\<lparr>hl_st := st, hl_r := (hl_r s)\<lparr>header_end := he\<rparr>\<rparr>)"
    using hl_step_value [of x s au mem p] by auto
  show ?case
  proof (cases "xs = []")
    case True
    with Cons.prems st one show ?thesis by auto
  next
    case False
    then show ?thesis
      using Cons.IH [of "s\<lparr>hl_st := st, hl_r := (hl_r s)\<lparr>header_end := he\<rparr>\<rparr>" "Suc p"]
        Cons.prems st(1) one by auto
  qed
qed simp

lemma scan_header_value:
  assumes "\<forall>c \<in> set val. c \<notin> {NUL, CR, LF}" and "val \<noteq> [] \<longrightarrow> hd val \<noteq> SP \<and> last val \<noteq> SP"
    and "hl_st s = Hl_space_before_value"
  shows "scan (hl_step au) mem p (val @ CR # LF # rest) s =
    Left_at Hl_done (p + length val + 1) (s\<lparr>hl_st := Hl_almost_done,
      hl_r := (hl_r s)\<lparr>header_start := Some p, header_end := Some (p + length val)\<rparr>\<rparr>)"
proof (cases val)
  case Nil
  then show ?thesis using assms(3) by (simp add: hl_step_def hl_space_before_value_def hl_almost_done_def)
next
  case (Cons x xs)
  let ?s = "s\<lparr>hl_st := Hl_value, hl_r := (hl_r s)\<lparr>header_start := Some p\<rparr>\<rparr>"
  have one: "hl_step au mem p x s = Cont ?s"
    using assms Cons by (simp add: hl_step_def hl_space_before_value_def)
  have "\<exists>he. scan (hl_step au) mem (Suc p) (xs @ CR # LF # rest) ?s =
    scan (hl_step au) mem (Suc p + length xs) (CR # LF # rest)
      (?s\<lparr>hl_st := Hl_value, hl_r := (hl_r ?s)\<lparr>header_end := he\<rparr>\<rparr>)"
  proof (cases "xs = []")
    case True
    then show ?thesis by (intro exI [of _ "header_end (hl_r ?s)"]) simp
  next
    case False
    then show ?thesis
      using assms Cons by (intro scan_value) auto
  qed
  then show ?thesis
    using Cons one by (auto simp: hl_step_def [of au mem "Suc (p + length xs)"] hl_value_def
        hl_step_def [of au mem "Suc (Suc (p + length xs))"] hl_almost_done_def Let_def)
qed

lemma hl_step_colon:
  assumes "hl_st s = Hl_name"
  shows "hl_step au mem p COLON s =
    Cont (hl_req (\<lambda>r. r\<lparr>header_name_end := Some p\<rparr>) (s\<lparr>hl_st := Hl_space_before_value\<rparr>))"
proof -
  have "lowcase_of COLON = 0" by code_simp
  then show ?thesis using assms by (simp add: hl_step_def hl_name_def Let_def)
qed

lemma hl_step_sp: "hl_st s = Hl_space_before_value \<Longrightarrow> hl_step au mem p SP s = Cont s"
  by (simp add: hl_step_def hl_space_before_value_def)

text \<open>C6: A well-formed header line (a name of letters, digits, hyphens and, where allowed,
  underscores; a value without NUL, CR and LF that neither begins nor ends with a space) is
  accepted and read back: the name and the value are found where they were written, the
  header is not marked invalid and its hash is that of the lower-case name.\<close>

theorem header_line_roundtrip:
  assumes "name \<noteq> []" and "\<forall>c \<in> set name. name_char au c"
    and "\<forall>c \<in> set val. c \<notin> {NUL, CR, LF}" and "val \<noteq> [] \<longrightarrow> hd val \<noteq> SP \<and> last val \<noteq> SP"
  shows "\<exists>r'. ngx_http_parse_header_line au ngx_http_request_init
      \<lparr>b_mem = header_line name val @ rest, b_pos = 0\<rparr> =
      (NGX_OK, r', \<lparr>b_mem = header_line name val @ rest, b_pos = length (header_line name val)\<rparr>) \<and>
    header_name_start r' = Some 0 \<and> header_name_end r' = Some (length name) \<and>
    header_start r' = Some (length name + 2) \<and> header_end r' = Some (length name + 2 + length val) \<and>
    \<not> invalid_header r' \<and> header_hash r' = ngx_hash_key_lc name \<and> r_state r' = 0"
proof -
  let ?mem = "header_line name val @ rest"
  let ?b = "\<lparr>b_mem = ?mem, b_pos = 0\<rparr>"
  obtain c cs where name: "name = c # cs" using assms(1) by (cases name) auto
  have mem: "?mem = c # cs @ COLON # SP # val @ CR # LF # rest"
    by (simp add: header_line_def name)
  have load: "hl_st (hl_load ngx_http_request_init) = Hl_start" "ring_ok (hl_load ngx_http_request_init)"
    by (simp_all add: hl_load_def ngx_http_request_init_def hl_of_nat_def hl_enum_def ring_ok_def)
  let ?s0 = "(hl_load ngx_http_request_init)
    \<lparr>hl_r := (hl_r (hl_load ngx_http_request_init))\<lparr>header_name_start := Some 0, invalid_header := False\<rparr>, hl_st := Hl_name\<rparr>"
  let ?s1 = "hl_first (ngx_tolower c) ?s0"
  have c: "name_char au c" using assms(2) name by simp
  have r0: "ring_ok ?s0" by (rule ring_ok_cong [OF load(2)]) simp_all
  have cs: "\<forall>c \<in> set cs. name_char au c" using assms(2) name by simp
  obtain h i l where fold: "fold (\<lambda>c. hl_next (ngx_tolower c)) cs ?s1 =
      ?s1\<lparr>hl_hash := h, hl_i := i, hl_r := (hl_r ?s1)\<lparr>lowcase_header := l\<rparr>\<rparr>"
    and nm: "named au ([c] @ cs) (?s1\<lparr>hl_hash := h, hl_i := i, hl_r := (hl_r ?s1)\<lparr>lowcase_header := l\<rparr>\<rparr>)"
    using fold_hl_next [OF ring_ok_first [OF r0] named_first [OF r0 c] cs] by blast
  let ?s2 = "?s1\<lparr>hl_hash := h, hl_i := i, hl_r := (hl_r ?s1)\<lparr>lowcase_header := l\<rparr>\<rparr>"
  have st: "hl_st ?s1 = Hl_name" by (simp add: hl_first_def)
  have "scan (hl_step au) ?mem 0 ?mem (hl_load ngx_http_request_init) =
      scan (hl_step au) ?mem 1 (cs @ COLON # SP # val @ CR # LF # rest) ?s1"
    unfolding mem using load(1) hl_start_name_char [OF c] by (simp add: hl_step_def [of au _ 0])
  also have "\<dots> = scan (hl_step au) ?mem (1 + length cs) (COLON # SP # val @ CR # LF # rest) ?s2"
    by (simp only: scan_name_chars [OF cs st] fold)
  also have "\<dots> = Left_at Hl_done (length name + 3 + length val)
      (?s2\<lparr>hl_st := Hl_almost_done, hl_r := (hl_r ?s2)\<lparr>header_name_end := Some (length name),
        header_start := Some (length name + 2), header_end := Some (length name + 2 + length val)\<rparr>\<rparr>)"
    using st assms(3,4) by (simp add: hl_step_colon hl_step_sp scan_header_value name)
  finally have run: "scan (hl_step au) ?mem 0 ?mem (hl_load ngx_http_request_init) = \<dots>" .
  have "\<not> invalid_header (hl_r ?s2)" "header_name_start (hl_r ?s2) = Some 0"
    by (simp_all add: hl_first_def)
  with run nm show ?thesis
    by (simp add: ngx_http_parse_header_line_def drive_def hl_store_def named_def name)
qed

theorem header_line_roundtrip_witness:
  "\<exists>r'. ngx_http_parse_header_line True ngx_http_request_init
      \<lparr>b_mem = header_line (lit ''X_y'') (lit ''a b'') @ [], b_pos = 0\<rparr> =
      (NGX_OK, r', \<lparr>b_mem = header_line (lit ''X_y'') (lit ''a b'') @ [],
        b_pos = length (header_line (lit ''X_y'') (lit ''a b''))\<rparr>)"
  using header_line_roundtrip [of "lit ''X_y''" True "lit ''a b''" "[]"]
  by (auto simp: name_char_def is_alpha_def Let_def)

end
