(* ===== verification/Http_Uri.thy ===== *)
theory Http_Uri
  imports Http_Request "HOL-Library.Sublist"
begin

unbundle bit_operations_syntax

text \<open>
  URIs (src/http/ngx_http_parse.c): \<open>ngx_http_parse_uri\<close> classifies a URI,
  \<open>ngx_http_parse_complex_uri\<close> decodes and normalises one. Neither is resumable; both scan
  the bytes between \<open>uri_start\<close> and \<open>uri_end\<close> of the request buffer \<open>mem\<close>.
\<close>

definition the_ptr :: "ptr \<Rightarrow> nat" where
  "the_ptr q = (case q of Some i \<Rightarrow> i | None \<Rightarrow> 0)"

lemma the_ptr_Some [simp]: "the_ptr (Some i) = i"
  by (simp add: the_ptr_def)

section \<open>Classifying a URI\<close>

datatype pu_state = Pu_start | Pu_after_slash_in_uri | Pu_check_uri | Pu_uri

type_synonym pu_flow = "(pu_state \<times> ngx_http_request, unit) flow"

abbreviation (input) pu_goto :: "pu_state \<Rightarrow> ngx_http_request \<Rightarrow> pu_flow" where
  "pu_goto st r \<equiv> Cont (st, r)"

definition pu_start :: "u_char \<Rightarrow> ngx_http_request \<Rightarrow> pu_flow" where
  "pu_start ch r =
     (if ch \<noteq> SLASH then Leave () (Pu_start, r) else pu_goto Pu_after_slash_in_uri r)"

definition pu_after_slash_in_uri :: "nat \<Rightarrow> u_char \<Rightarrow> ngx_http_request \<Rightarrow> pu_flow" where
  "pu_after_slash_in_uri p ch r =
     (if is_usual ch then pu_goto Pu_check_uri r
      else if ch = SP then pu_goto Pu_check_uri (r\<lparr>space_in_uri := True\<rparr>)
      else if ch = DOT then pu_goto Pu_uri (r\<lparr>complex_uri := True\<rparr>)
      else if ch = PERCENT then pu_goto Pu_uri (r\<lparr>quoted_uri := True\<rparr>)
      else if ch = SLASH then pu_goto Pu_uri (r\<lparr>complex_uri := True\<rparr>)
      else if ch = QUEST then pu_goto Pu_uri (r\<lparr>args_start := Some (p + 1)\<rparr>)
      else if ch = HASH then pu_goto Pu_uri (r\<lparr>complex_uri := True\<rparr>)
      else if ch = PLUS then pu_goto Pu_after_slash_in_uri (r\<lparr>plus_in_uri := True\<rparr>)
      else pu_goto Pu_check_uri r)"

definition pu_check_uri :: "nat \<Rightarrow> u_char \<Rightarrow> ngx_http_request \<Rightarrow> pu_flow" where
  "pu_check_uri p ch r =
     (if is_usual ch then pu_goto Pu_check_uri r
      else if ch = SLASH then pu_goto Pu_after_slash_in_uri (r\<lparr>uri_ext := None\<rparr>)
      else if ch = DOT then pu_goto Pu_check_uri (r\<lparr>uri_ext := Some (p + 1)\<rparr>)
      else if ch = SP then pu_goto Pu_check_uri (r\<lparr>space_in_uri := True\<rparr>)
      else if ch = PERCENT then pu_goto Pu_uri (r\<lparr>quoted_uri := True\<rparr>)
      else if ch = QUEST then pu_goto Pu_uri (r\<lparr>args_start := Some (p + 1)\<rparr>)
      else if ch = HASH then pu_goto Pu_uri (r\<lparr>complex_uri := True\<rparr>)
      else if ch = PLUS then pu_goto Pu_check_uri (r\<lparr>plus_in_uri := True\<rparr>)
      else pu_goto Pu_check_uri r)"

definition pu_uri :: "u_char \<Rightarrow> ngx_http_request \<Rightarrow> pu_flow" where
  "pu_uri ch r =
     (if is_usual ch then pu_goto Pu_uri r
      else if ch = SP then pu_goto Pu_uri (r\<lparr>space_in_uri := True\<rparr>)
      else if ch = HASH then pu_goto Pu_uri (r\<lparr>complex_uri := True\<rparr>)
      else pu_goto Pu_uri r)"

fun pu_step :: "bytes \<Rightarrow> nat \<Rightarrow> u_char \<Rightarrow> pu_state \<times> ngx_http_request \<Rightarrow> pu_flow" where
  "pu_step mem p ch (Pu_start, r) = pu_start ch r"
| "pu_step mem p ch (Pu_after_slash_in_uri, r) = pu_after_slash_in_uri p ch r"
| "pu_step mem p ch (Pu_check_uri, r) = pu_check_uri p ch r"
| "pu_step mem p ch (Pu_uri, r) = pu_uri ch r"

definition uri_bytes :: "bytes \<Rightarrow> ngx_http_request \<Rightarrow> bytes" where
  "uri_bytes mem r = slice mem (the_ptr (uri_start r)) (the_ptr (uri_end r))"

definition ngx_http_parse_uri :: "bytes \<Rightarrow> ngx_http_request \<Rightarrow> ngx_rc \<times> ngx_http_request" where
  "ngx_http_parse_uri mem r =
     (case scan pu_step mem (the_ptr (uri_start r)) (uri_bytes mem r) (Pu_start, r) of
        Ran_out p (st, r') \<Rightarrow> (NGX_OK, r')
      | Left_at e p (st, r') \<Rightarrow> (NGX_ERROR, r'))"

section \<open>Decoding and normalising a URI\<close>

text \<open>
  The states of \<open>ngx_http_parse_complex_uri\<close>. \<open>quoted_state\<close> only ever holds one of the
  four states of \<open>cu_base\<close>, those in which a byte of the path is examined.
\<close>

datatype cu_base = Cu_usual | Cu_slash | Cu_dot | Cu_dot_dot

datatype cu_state = Cu_base cu_base | Cu_quoted | Cu_quoted_second

datatype cu_exit = Cu_invalid | Cu_args | Cu_done

text \<open>\<open>cu_u\<close> is what has been written: the bytes from \<open>r->uri.data\<close> up to \<open>u\<close>.\<close>

record cu_locals =
  cu_st :: cu_state
  cu_quoted_state :: cu_base
  cu_decoded :: u_char
  cu_u :: bytes
  cu_r :: ngx_http_request

type_synonym cu_flow = "(cu_locals, cu_exit) flow"

definition cu_put :: "u_char \<Rightarrow> cu_locals \<Rightarrow> cu_locals" where
  "cu_put ch s = s\<lparr>cu_u := cu_u s @ [ch]\<rparr>"

definition cu_goto :: "cu_base \<Rightarrow> cu_locals \<Rightarrow> cu_locals" where
  "cu_goto st s = s\<lparr>cu_st := Cu_base st\<rparr>"

definition cu_plus :: "cu_locals \<Rightarrow> cu_locals" where
  "cu_plus s = s\<lparr>cu_r := (cu_r s)\<lparr>plus_in_uri := True\<rparr>\<rparr>"

text \<open>\<open>quoted_state = state; state = sw_quoted;\<close> and \<open>r->args_start = p; goto args;\<close>\<close>

definition cu_quote :: "cu_base \<Rightarrow> cu_locals \<Rightarrow> cu_flow" where
  "cu_quote st s = Cont (s\<lparr>cu_quoted_state := st, cu_st := Cu_quoted\<rparr>)"

definition cu_to_args :: "nat \<Rightarrow> cu_locals \<Rightarrow> cu_flow" where
  "cu_to_args p s = Leave Cu_args (s\<lparr>cu_r := (cu_r s)\<lparr>args_start := Some (p + 1)\<rparr>\<rparr>)"

definition cu_usual :: "nat \<Rightarrow> u_char \<Rightarrow> cu_locals \<Rightarrow> cu_flow" where
  "cu_usual p ch s =
     (if is_usual ch then Cont (cu_put ch s)
      else if ch = SLASH then
        Cont (cu_put ch (cu_goto Cu_slash (s\<lparr>cu_r := (cu_r s)\<lparr>uri_ext := None\<rparr>\<rparr>)))
      else if ch = PERCENT then cu_quote Cu_usual s
      else if ch = QUEST then cu_to_args p s
      else if ch = HASH then Leave Cu_done s
      else if ch = DOT then
        Cont (cu_put ch (s\<lparr>cu_r := (cu_r s)\<lparr>uri_ext := Some (length (cu_u s) + 1)\<rparr>\<rparr>))
      else if ch = PLUS then Cont (cu_put ch (cu_plus s))
      else Cont (cu_put ch s))"

definition cu_slash :: "bool \<Rightarrow> nat \<Rightarrow> u_char \<Rightarrow> cu_locals \<Rightarrow> cu_flow" where
  "cu_slash merge_slashes p ch s =
     (if is_usual ch then Cont (cu_put ch (cu_goto Cu_usual s))
      else if ch = SLASH then Cont (if \<not> merge_slashes then cu_put ch s else s)
      else if ch = DOT then Cont (cu_put ch (cu_goto Cu_dot s))
      else if ch = PERCENT then cu_quote Cu_slash s
      else if ch = QUEST then cu_to_args p s
      else if ch = HASH then Leave Cu_done s
      else if ch = PLUS then Cont (cu_put ch (cu_goto Cu_usual (cu_plus s)))
      else Cont (cu_put ch (cu_goto Cu_usual s)))"

definition cu_dot :: "nat \<Rightarrow> u_char \<Rightarrow> cu_locals \<Rightarrow> cu_flow" where
  "cu_dot p ch s =
     (if is_usual ch then Cont (cu_put ch (cu_goto Cu_usual s))
      else if ch = SLASH then Cont (cu_goto Cu_slash (s\<lparr>cu_u := butlast (cu_u s)\<rparr>))
      else if ch = DOT then Cont (cu_put ch (cu_goto Cu_dot_dot s))
      else if ch = PERCENT then cu_quote Cu_dot s
      else if ch = QUEST then cu_to_args p s
      else if ch = HASH then Leave Cu_done s
      else if ch = PLUS then Cont (cu_put ch (cu_goto Cu_usual (cu_plus s)))
      else Cont (cu_put ch (cu_goto Cu_usual s)))"

text \<open>
  The inner loop \<open>u -= 5; for ( ;; ) ...\<close>: from offset \<open>k - 1\<close> down to the nearest slash, which
  is kept; \<open>None\<close> when \<open>u\<close> falls below \<open>r->uri.data\<close>.
\<close>

fun back_to_slash :: "bytes \<Rightarrow> nat \<Rightarrow> bytes option" where
  "back_to_slash u 0 = None"
| "back_to_slash u (Suc k) = (if rd u k = SLASH then Some (take (Suc k) u) else back_to_slash u k)"

definition cu_up :: "bytes \<Rightarrow> bytes option" where
  "cu_up u = back_to_slash u (length u - 4)"

definition cu_dot_dot :: "nat \<Rightarrow> u_char \<Rightarrow> cu_locals \<Rightarrow> cu_flow" where
  "cu_dot_dot p ch s =
     (if is_usual ch then Cont (cu_put ch (cu_goto Cu_usual s))
      else if ch = SLASH then
        (case cu_up (cu_u s) of
           None \<Rightarrow> Leave Cu_invalid (cu_goto Cu_slash s)
         | Some u \<Rightarrow> Cont (cu_goto Cu_slash (s\<lparr>cu_u := u\<rparr>)))
      else if ch = PERCENT then cu_quote Cu_dot_dot s
      else if ch = QUEST then cu_to_args p s
      else if ch = HASH then Leave Cu_done s
      else if ch = PLUS then Cont (cu_put ch (cu_goto Cu_usual (cu_plus s)))
      else Cont (cu_put ch (cu_goto Cu_usual s)))"

definition cu_plain :: "bool \<Rightarrow> nat \<Rightarrow> u_char \<Rightarrow> cu_base \<Rightarrow> cu_locals \<Rightarrow> cu_flow" where
  "cu_plain merge_slashes p ch st s =
     (case st of
        Cu_usual \<Rightarrow> cu_usual p ch s
      | Cu_slash \<Rightarrow> cu_slash merge_slashes p ch s
      | Cu_dot \<Rightarrow> cu_dot p ch s
      | Cu_dot_dot \<Rightarrow> cu_dot_dot p ch s)"

text \<open>A hexadecimal digit: \<open>c = (u_char) (ch | 0x20)\<close>.\<close>

definition is_hex_alpha :: "u_char \<Rightarrow> bool" where
  "is_hex_alpha ch \<longleftrightarrow> (let c = ch OR 0x20 in c_a \<le> c \<and> c \<le> c_f)"

definition cu_quoted :: "u_char \<Rightarrow> cu_locals \<Rightarrow> cu_flow" where
  "cu_quoted ch s0 =
     (let s = s0\<lparr>cu_r := (cu_r s0)\<lparr>quoted_uri := True\<rparr>\<rparr> in
      if is_digit ch then Cont (s\<lparr>cu_decoded := ch - D0, cu_st := Cu_quoted_second\<rparr>)
      else if is_hex_alpha ch then
        Cont (s\<lparr>cu_decoded := (ch OR 0x20) - c_a + 10, cu_st := Cu_quoted_second\<rparr>)
      else Leave Cu_invalid s)"

text \<open>
  With the second digit the byte is known. It is either written as it is, or, without reading
  on, the loop goes round once more with that byte in the state the escape interrupted.
\<close>

definition cu_quoted_second :: "bool \<Rightarrow> nat \<Rightarrow> u_char \<Rightarrow> cu_locals \<Rightarrow> cu_flow" where
  "cu_quoted_second merge_slashes p ch0 s =
     (if is_digit ch0 then
        (let ch = push_bit 4 (cu_decoded s) + ch0 - D0 in
         if ch = PERCENT \<or> ch = HASH then Cont (cu_put ch (cu_goto Cu_usual s))
         else if ch = NUL then Leave Cu_invalid s
         else cu_plain merge_slashes p ch (cu_quoted_state s) (cu_goto (cu_quoted_state s) s))
      else if is_hex_alpha ch0 then
        (let ch = push_bit 4 (cu_decoded s) + (ch0 OR 0x20) - c_a + 10 in
         if ch = QUEST then Cont (cu_put ch (cu_goto Cu_usual s))
         else
           (let s' = (if ch = PLUS then cu_plus s else s) in
            cu_plain merge_slashes p ch (cu_quoted_state s) (cu_goto (cu_quoted_state s) s')))
      else Leave Cu_invalid s)"

definition cu_step :: "bool \<Rightarrow> bytes \<Rightarrow> nat \<Rightarrow> u_char \<Rightarrow> cu_locals \<Rightarrow> cu_flow" where
  "cu_step merge_slashes mem p ch s =
     (case cu_st s of
        Cu_base st \<Rightarrow> cu_plain merge_slashes p ch st s
      | Cu_quoted \<Rightarrow> cu_quoted ch s
      | Cu_quoted_second \<Rightarrow> cu_quoted_second merge_slashes p ch s)"

text \<open>The code behind \<open>done:\<close> and \<open>args:\<close>.\<close>

definition cu_finish :: "cu_locals \<Rightarrow> ngx_http_request" where
  "cu_finish s =
     (cu_r s)\<lparr>r_uri := cu_u s,
       r_exten := (case uri_ext (cu_r s) of None \<Rightarrow> r_exten (cu_r s) | Some e \<Rightarrow> drop e (cu_u s)),
       uri_ext := None\<rparr>"

fun cu_args_loop :: "nat \<Rightarrow> bytes \<Rightarrow> nat option" where
  "cu_args_loop p [] = None"
| "cu_args_loop p (c # cs) = (if c \<noteq> HASH then cu_args_loop (Suc p) cs else Some p)"

definition cu_args :: "bytes \<Rightarrow> ngx_http_request \<Rightarrow> ngx_http_request" where
  "cu_args mem r =
     (let a = the_ptr (args_start r) in
      case cu_args_loop a (slice mem a (the_ptr (uri_end r))) of
        None \<Rightarrow> r
      | Some p \<Rightarrow> r\<lparr>r_args := slice mem a p, args_start := None\<rparr>)"

definition cu_leave :: "bytes \<Rightarrow> cu_exit \<Rightarrow> cu_locals \<Rightarrow> ngx_rc \<times> ngx_http_request" where
  "cu_leave mem e s =
     (case e of
        Cu_invalid \<Rightarrow> (NGX_HTTP_PARSE_INVALID_REQUEST, cu_r s)
      | Cu_done \<Rightarrow> (NGX_OK, cu_finish s)
      | Cu_args \<Rightarrow> (NGX_OK, cu_finish (s\<lparr>cu_r := cu_args mem (cu_r s)\<rparr>)))"

definition cu_init :: "ngx_http_request \<Rightarrow> cu_locals" where
  "cu_init r = \<lparr>cu_st = Cu_base Cu_usual, cu_quoted_state = Cu_usual, cu_decoded = 0, cu_u = [],
     cu_r = r\<lparr>uri_ext := None, args_start := None\<rparr>\<rparr>"

definition ngx_http_parse_complex_uri ::
    "bytes \<Rightarrow> bool \<Rightarrow> ngx_http_request \<Rightarrow> ngx_rc \<times> ngx_http_request" where
  "ngx_http_parse_complex_uri mem merge_slashes r =
     (case scan (cu_step merge_slashes) mem (the_ptr (uri_start r)) (uri_bytes mem r) (cu_init r) of
        Ran_out p s \<Rightarrow> cu_leave mem Cu_done s
      | Left_at e p s \<Rightarrow> cu_leave mem e s)"

section \<open>No way up\<close>

text \<open>The written URI holds no \<open>/../\<close> and no \<open>/./\<close>, and with \<open>merge_slashes\<close> no \<open>//\<close>.\<close>

definition uri_safe :: "bool \<Rightarrow> bytes \<Rightarrow> bool" where
  "uri_safe merge_slashes u \<longleftrightarrow>
     \<not> sublist [SLASH, DOT, DOT, SLASH] u \<and> \<not> sublist [SLASH, DOT, SLASH] u \<and>
     (merge_slashes \<longrightarrow> \<not> sublist [SLASH, SLASH] u)"

lemma snoc_patterns [simp]:
  "suffix [a] (u @ [c]) \<longleftrightarrow> a = c"
  "suffix [a, b] (u @ [c]) \<longleftrightarrow> b = c \<and> suffix [a] u"
  "suffix [a, b, d] (u @ [c]) \<longleftrightarrow> d = c \<and> suffix [a, b] u"
  "sublist [a, b] (u @ [c]) \<longleftrightarrow> b = c \<and> suffix [a] u \<or> sublist [a, b] u"
  "sublist [a, b, d] (u @ [c]) \<longleftrightarrow> d = c \<and> suffix [a, b] u \<or> sublist [a, b, d] u"
  "sublist [a, b, d, e] (u @ [c]) \<longleftrightarrow> e = c \<and> suffix [a, b, d] u \<or> sublist [a, b, d, e] u"
  using snoc_suffix_snoc [of "[]" a u c] snoc_suffix_snoc [of "[a]" b u c]
    snoc_suffix_snoc [of "[a, b]" d u c] snoc_sublist_snoc [of "[a]" b u c]
    snoc_sublist_snoc [of "[a, b]" d u c] snoc_sublist_snoc [of "[a, b, d]" e u c]
  by simp_all

lemma suffix_last: "suffix (xs @ [a]) u \<Longrightarrow> u = butlast u @ [a] \<and> suffix xs (butlast u)"
  by (cases u rule: rev_cases) simp_all

lemma uri_safe_prefix: "uri_safe m u \<Longrightarrow> prefix v u \<Longrightarrow> uri_safe m v"
  by (meson prefix_imp_sublist sublist_order.order_trans uri_safe_def)

text \<open>What the state says about the end of the written URI.\<close>

fun cu_tail :: "cu_base \<Rightarrow> bytes \<Rightarrow> bool" where
  "cu_tail Cu_usual u \<longleftrightarrow>
     \<not> suffix [SLASH] u \<and> \<not> suffix [SLASH, DOT] u \<and> \<not> suffix [SLASH, DOT, DOT] u"
| "cu_tail Cu_slash u \<longleftrightarrow> suffix [SLASH] u"
| "cu_tail Cu_dot u \<longleftrightarrow> suffix [SLASH, DOT] u"
| "cu_tail Cu_dot_dot u \<longleftrightarrow> suffix [SLASH, DOT, DOT] u"

lemma tail_dot: "suffix [SLASH, DOT] u \<Longrightarrow> \<not> suffix [SLASH] u"
  by (cases u rule: rev_cases) auto

lemma tail_dot_dot: "suffix [SLASH, DOT, DOT] u \<Longrightarrow> \<not> suffix [SLASH] u \<and> \<not> suffix [SLASH, DOT] u"
  by (cases u rule: rev_cases) (auto dest: tail_dot)

lemmas tails_exclusive = tail_dot tail_dot_dot

lemma back_to_slash_prefix:
  "back_to_slash u k = Some v \<Longrightarrow> k \<le> length u \<Longrightarrow> prefix v u \<and> suffix [SLASH] v \<and> length v \<le> k"
proof (induction k)
  case (Suc k)
  then show ?case
    using take_is_prefix [of "Suc k" u]
    by (auto simp: rd_nth take_Suc_conv_app_nth split: if_splits)
qed simp

lemma cu_up_prefix: "cu_up u = Some v \<Longrightarrow> prefix v u \<and> suffix [SLASH] v"
  using back_to_slash_prefix [of u "length u - 4" v] by (simp add: cu_up_def)

text \<open>The state of the path: an escape suspends it.\<close>

definition cu_path_st :: "cu_locals \<Rightarrow> cu_base" where
  "cu_path_st s = (case cu_st s of Cu_base st \<Rightarrow> st | _ \<Rightarrow> cu_quoted_state s)"

definition cu_inv :: "bool \<Rightarrow> cu_locals \<Rightarrow> bool" where
  "cu_inv m s \<longleftrightarrow> uri_safe m (cu_u s) \<and> cu_tail (cu_path_st s) (cu_u s)"

lemmas cu_moves = cu_put_def cu_goto_def cu_plus_def cu_quote_def cu_to_args_def

lemma cu_inv_put_usual:
  assumes "uri_safe m (cu_u s)" and "cu_tail st (cu_u s)" and "ch \<noteq> SLASH" and "ch = DOT \<longrightarrow> st = Cu_usual"
  shows "cu_inv m (cu_put ch (cu_goto Cu_usual s))"
  using assms by (cases st)
    (auto simp: cu_inv_def cu_moves cu_path_st_def uri_safe_def dest: tails_exclusive)

lemma cu_plain_inv:
  assumes "uri_safe m (cu_u s)" and "cu_tail st (cu_u s)" and "cu_st s = Cu_base st"
  shows "case cu_plain m p ch st s of Cont s' \<Rightarrow> cu_inv m s' | Leave e s' \<Rightarrow> uri_safe m (cu_u s')"
proof (cases st)
  case Cu_usual
  then show ?thesis
    using assms by (auto simp: cu_plain_def cu_usual_def cu_inv_def cu_moves cu_path_st_def uri_safe_def
        is_usual_iff dest: tails_exclusive)
next
  case Cu_slash
  then show ?thesis
    using assms by (auto simp: cu_plain_def cu_slash_def cu_inv_def cu_moves cu_path_st_def uri_safe_def
        is_usual_iff dest: tails_exclusive)
next
  case Cu_dot
  have "prefix (butlast (cu_u s)) (cu_u s)" by (simp add: prefixeq_butlast)
  with Cu_dot show ?thesis
    using assms suffix_last [of "[SLASH]" DOT "cu_u s"] uri_safe_prefix [OF assms(1), of "butlast (cu_u s)"]
    by (auto simp: cu_plain_def cu_dot_def cu_inv_def cu_moves cu_path_st_def uri_safe_def
        is_usual_iff dest: tails_exclusive)
next
  case Cu_dot_dot
  then show ?thesis
    using assms cu_up_prefix [of "cu_u s"] uri_safe_prefix [OF assms(1)]
    by (auto simp: cu_plain_def cu_dot_dot_def cu_inv_def cu_moves cu_path_st_def uri_safe_def
        is_usual_iff dest: tails_exclusive split: option.split)
qed

lemma cu_step_inv:
  assumes "cu_inv m s"
  shows "case cu_step m mem p ch s of Cont s' \<Rightarrow> cu_inv m s' | Leave e s' \<Rightarrow> uri_safe m (cu_u s')"
proof -
  have safe: "uri_safe m (cu_u s)" and tail: "cu_tail (cu_path_st s) (cu_u s)"
    using assms by (simp_all add: cu_inv_def)
  have resume: "case cu_plain m p c (cu_quoted_state s) (cu_goto (cu_quoted_state s) t) of
      Cont s' \<Rightarrow> cu_inv m s' | Leave e s' \<Rightarrow> uri_safe m (cu_u s')"
    if "cu_st s = Cu_quoted_second" and "cu_u t = cu_u s" for c t
    using safe tail that by (intro cu_plain_inv) (simp_all add: cu_path_st_def cu_goto_def)
  have put: "cu_inv m (cu_put c (cu_goto Cu_usual s))" if "c \<notin> {SLASH, DOT}" for c
    using cu_inv_put_usual [OF safe tail] that by auto
  show ?thesis
  proof (cases "cu_st s")
    case (Cu_base st)
    then show ?thesis
      using cu_plain_inv [OF safe _ Cu_base] tail by (simp add: cu_step_def cu_path_st_def)
  next
    case Cu_quoted
    then show ?thesis
      using safe tail by (simp add: cu_step_def cu_quoted_def cu_inv_def cu_path_st_def Let_def)
  next
    case Cu_quoted_second
    then show ?thesis
      using safe put resume [OF Cu_quoted_second]
      by (simp add: cu_step_def cu_quoted_second_def Let_def cu_plus_def)
  qed
qed

lemma scan_cu_inv:
  assumes "cu_inv m s"
  shows "case scan (cu_step m) mem p xs s of
      Ran_out q s' \<Rightarrow> cu_inv m s' | Left_at e q s' \<Rightarrow> uri_safe m (cu_u s')"
  using assms
proof (induction xs arbitrary: p s)
  case (Cons x xs)
  then show ?case
    using cu_step_inv [of m s mem p x] by (auto split: flow.split)
qed simp

lemma cu_init_inv: "cu_inv m (cu_init r)"
  by (simp add: cu_inv_def cu_init_def cu_path_st_def uri_safe_def)

text \<open>C8: Whatever the bytes of the request, and however they are escaped, a URI that
  \<open>ngx_http_parse_complex_uri\<close> accepts contains no \<open>/../\<close> and no \<open>/./\<close>, and with \<open>merge_slashes\<close>
  no \<open>//\<close> either.\<close>

theorem complex_uri_safe:
  assumes "ngx_http_parse_complex_uri mem merge_slashes r = (NGX_OK, r')"
  shows "uri_safe merge_slashes (r_uri r')"
proof -
  let ?run = "scan (cu_step merge_slashes) mem (the_ptr (uri_start r)) (uri_bytes mem r) (cu_init r)"
  have inv: "case ?run of Ran_out q s' \<Rightarrow> cu_inv merge_slashes s' | Left_at e q s' \<Rightarrow> uri_safe merge_slashes (cu_u s')"
    by (rule scan_cu_inv [OF cu_init_inv])
  then show ?thesis
    using assms by (auto simp: ngx_http_parse_complex_uri_def cu_leave_def cu_finish_def cu_inv_def
        split: scanned.splits cu_exit.splits)
qed

theorem complex_uri_safe_witness:
  "\<exists>r'. ngx_http_parse_complex_uri (lit ''/a/%2e%2E//b/./c'') True
      (ngx_http_request_init\<lparr>uri_start := Some 0, uri_end := Some 16\<rparr>) = (NGX_OK, r') \<and>
    r_uri r' = lit ''/b/c'' \<and> uri_safe True (r_uri r')"
proof -
  let ?x = "ngx_http_parse_complex_uri (lit ''/a/%2e%2E//b/./c'') True
      (ngx_http_request_init\<lparr>uri_start := Some 0, uri_end := Some 16\<rparr>)"
  have "(fst ?x = NGX_OK \<and> r_uri (snd ?x) = lit ''/b/c'') = True"
    by code_simp
  then obtain r' where "?x = (NGX_OK, r')" and "r_uri r' = lit ''/b/c''"
    by (cases ?x) simp
  with complex_uri_safe [OF this(1)] show ?thesis by blast
qed

section \<open>The output fits\<close>

text \<open>One round writes at most one byte more, and reads on only behind a byte other than \<open>?\<close>.\<close>

definition grows :: "nat \<Rightarrow> cu_flow \<Rightarrow> bool" where
  "grows n fl = (case fl of Cont s' \<Rightarrow> length (cu_u s') \<le> Suc n | Leave e s' \<Rightarrow> length (cu_u s') \<le> n)"

lemma cu_plain_grows: "length (cu_u s) = n \<Longrightarrow> grows n (cu_plain m p ch st s)"
proof -
  assume n: "length (cu_u s) = n"
  have "length v \<le> n" if "cu_up (cu_u s) = Some v" for v
    using cu_up_prefix [OF that] prefix_length_le [of v "cu_u s"] n by simp
  with n show ?thesis
    by (cases st) (auto simp: grows_def cu_plain_def cu_usual_def cu_slash_def cu_dot_def cu_dot_dot_def
        cu_moves le_Suc_eq split: option.split)
qed

lemma cu_step_grows: "grows (length (cu_u s)) (cu_step m mem p ch s)"
proof (cases "cu_st s")
  case (Cu_base st)
  then show ?thesis by (simp add: cu_step_def cu_plain_grows)
next
  case Cu_quoted
  then show ?thesis by (simp add: cu_step_def cu_quoted_def Let_def grows_def)
next
  case Cu_quoted_second
  have "grows (length (cu_u s)) (Cont (cu_put c (cu_goto st s)))" "grows (length (cu_u s)) (Leave e s)" for c st e
    by (simp_all add: grows_def cu_put_def cu_goto_def)
  with Cu_quoted_second show ?thesis
    by (simp add: cu_step_def cu_quoted_second_def Let_def cu_plain_grows cu_goto_def cu_plus_def)
qed

lemma cu_step_quest: "cu_step m mem p QUEST s \<noteq> Cont s'"
  by (auto simp: cu_step_def cu_quoted_def cu_quoted_second_def is_digit_def is_hex_alpha_def
      cu_plain_def cu_usual_def cu_slash_def cu_dot_def cu_dot_dot_def cu_to_args_def is_usual_iff
      split: cu_state.split cu_base.split)

lemma scan_cu_length:
  "case scan (cu_step m) mem p xs s of
     Ran_out q s' \<Rightarrow> length (cu_u s') \<le> length (cu_u s) + length (takeWhile (\<lambda>c. c \<noteq> QUEST) xs)
   | Left_at e q s' \<Rightarrow> length (cu_u s') \<le> length (cu_u s) + length (takeWhile (\<lambda>c. c \<noteq> QUEST) xs)"
proof (induction xs arbitrary: p s)
  case (Cons x xs)
  show ?case
  proof (cases "cu_step m mem p x s")
    case (Cont s')
    then have "x \<noteq> QUEST" "length (cu_u s') \<le> Suc (length (cu_u s))"
      using cu_step_grows [of s m mem p x] cu_step_quest [of m mem p s] by (auto simp: grows_def)
    with Cont Cons [of s' "Suc p"] show ?thesis by (auto split: scanned.splits)
  next
    case (Leave e s')
    then show ?thesis using cu_step_grows [of s m mem p x] by (simp add: grows_def)
  qed
qed simp

lemma length_takeWhile_take: "length (takeWhile P (take k xs)) \<le> length (takeWhile P xs)"
  by (induction xs arbitrary: k) (simp_all add: take_Cons split: nat.split)

text \<open>At every moment of the loop, what has been written is no longer than what has been read
  of the path: the output never outgrows the part of the request before the first unescaped
  \<open>?\<close>, for which the caller has allocated \<open>r->uri.data\<close>.\<close>

lemma complex_uri_fits:
  "case scan (cu_step merge_slashes) mem (the_ptr (uri_start r)) (take k (uri_bytes mem r)) (cu_init r) of
     Ran_out q s \<Rightarrow> length (cu_u s) \<le> length (takeWhile (\<lambda>c. c \<noteq> QUEST) (uri_bytes mem r))
   | Left_at e q s \<Rightarrow> length (cu_u s) \<le> length (takeWhile (\<lambda>c. c \<noteq> QUEST) (uri_bytes mem r))"
  using scan_cu_length [where m = merge_slashes and mem = mem and p = "the_ptr (uri_start r)"
      and xs = "take k (uri_bytes mem r)" and s = "cu_init r"]
    length_takeWhile_take [of "\<lambda>c. c \<noteq> QUEST" k "uri_bytes mem r"]
  by (auto simp: cu_init_def split: scanned.splits)

section \<open>What the normal form is\<close>



text \<open>
  Then the decoded path is cut at its slashes, and the segments are kept on a stack: an empty
  segment and \<open>.\<close> are dropped, \<open>..\<close> pops one and fails on the empty stack. The segment behind the
  last slash is not closed and stays as it is.
\<close>

definition norm_step :: "u_char \<Rightarrow> (bytes list \<times> bytes) \<Rightarrow> (bytes list \<times> bytes) option" where
  "norm_step c sc =
     (case sc of (stack, cur) \<Rightarrow>
        if c \<noteq> SLASH then Some (stack, cur @ [c])
        else if cur = [] \<or> cur = [DOT] then Some (stack, [])
        else if cur = [DOT, DOT] then
          (case stack of [] \<Rightarrow> None | seg # segs \<Rightarrow> Some (segs, []))
        else Some (cur # stack, []))"





fun segs_ok :: "bytes list \<times> bytes \<Rightarrow> bool" where
  "segs_ok (stack, cur) \<longleftrightarrow> SLASH \<notin> set cur \<and> (\<forall>seg \<in> set stack. seg \<noteq> [] \<and> SLASH \<notin> set seg)"


lemma back_to_slash_le: "k \<le> length xs \<Longrightarrow> back_to_slash (xs @ ys) k = back_to_slash xs k"
  by (induction k) auto



lemma norm_step_segs_ok: "segs_ok sc \<Longrightarrow> norm_step c sc = Some sc' \<Longrightarrow> segs_ok sc'"
  by (cases sc) (auto simp: norm_step_def split: if_splits list.splits)







lemma digit_not_hex_alpha: "is_digit c \<Longrightarrow> \<not> is_hex_alpha c"
  by (erule byte_imp [where P = is_digit, rotated]) code_simp



definition outcome :: "(cu_locals, cu_exit) scanned \<Rightarrow> bytes option" where
  "outcome x = (case x of Ran_out p s \<Rightarrow> Some (cu_u s)
     | Left_at e p s \<Rightarrow> if e = Cu_invalid then None else Some (cu_u s))"









section \<open>A URI that needs no normalising\<close>

text \<open>
  While \<open>ngx_http_parse_uri\<close> sees nothing complex or quoted, \<open>ngx_http_parse_complex_uri\<close> copies
  what it reads.
\<close>

lemma pu_step_sticky:
  "pu_step mem p ch (st, r) = Cont (st', r') \<Longrightarrow>
    (complex_uri r \<longrightarrow> complex_uri r') \<and> (quoted_uri r \<longrightarrow> quoted_uri r')"
  by (cases st) (auto simp: pu_start_def pu_after_slash_in_uri_def pu_check_uri_def pu_uri_def split: if_splits)

lemma scan_pu_sticky:
  "scan pu_step mem p xs (st, r) = Ran_out q (st', r') \<Longrightarrow>
    (complex_uri r \<longrightarrow> complex_uri r') \<and> (quoted_uri r \<longrightarrow> quoted_uri r')"
proof (induction xs arbitrary: p st r)
  case (Cons x xs)
  then show ?case
    using pu_step_sticky [of mem p x st r] by (fastforce split: flow.splits)
qed simp

lemma scan_pu_ends: "st \<noteq> Pu_start \<Longrightarrow> \<exists>q st' r'. scan pu_step mem p xs (st, r) = Ran_out q (st', r')"
proof (induction xs arbitrary: p st r)
  case (Cons x xs)
  have "case pu_step mem p x (st, r) of Cont (st1, r1) \<Rightarrow> st1 \<noteq> Pu_start | Leave e s \<Rightarrow> False"
    using Cons.prems by (cases st) (simp_all add: pu_after_slash_in_uri_def pu_check_uri_def pu_uri_def)
  then obtain st1 r1 where "pu_step mem p x (st, r) = Cont (st1, r1)" "st1 \<noteq> Pu_start"
    by (auto split: flow.splits)
  with Cons.IH [of st1 "Suc p" r1] show ?case by simp
qed auto

text \<open>The states of the two machines that correspond.\<close>

fun pu_rel :: "pu_state \<Rightarrow> cu_base \<Rightarrow> bool" where
  "pu_rel Pu_after_slash_in_uri st \<longleftrightarrow> st \<in> {Cu_slash, Cu_usual}"
| "pu_rel Pu_check_uri st \<longleftrightarrow> st = Cu_usual"
| "pu_rel _ st \<longleftrightarrow> False"

lemma pu_cu_step:
  assumes "pu_rel pst st" and "cu_st s = Cu_base st" and "ch \<noteq> QUEST"
    and "pu_step mem p ch (pst, r) = Cont (pst', r')" and "\<not> complex_uri r'" and "\<not> quoted_uri r'"
  shows "\<exists>s' st'. cu_step m mem p ch s = Cont s' \<and> cu_st s' = Cu_base st' \<and> pu_rel pst' st' \<and>
    cu_u s' = cu_u s @ [ch]"
proof (cases pst)
  case Pu_after_slash_in_uri
  then show ?thesis
    using assms by (auto simp: pu_after_slash_in_uri_def cu_step_def cu_plain_def cu_usual_def cu_slash_def
        cu_moves split: if_splits)
next
  case Pu_check_uri
  then show ?thesis
    using assms by (auto simp: pu_check_uri_def cu_step_def cu_plain_def cu_usual_def cu_slash_def
        cu_moves split: if_splits)
qed (use assms in auto)

lemma scan_simple:
  assumes "pu_rel pst st" and "cu_st s = Cu_base st"
    and "scan pu_step mem p xs (pst, r) = Ran_out q (pst', r')" and "\<not> complex_uri r'" and "\<not> quoted_uri r'"
  shows "outcome (scan (cu_step m) mem p xs s) = Some (cu_u s @ takeWhile (\<lambda>c. c \<noteq> QUEST) xs)"
  using assms
proof (induction xs arbitrary: p pst st s r)
  case Nil
  then show ?case by (simp add: outcome_def)
next
  case (Cons x xs)
  show ?case
  proof (cases "x = QUEST")
    case True
    then show ?thesis
      using Cons.prems(1,2) by (cases st)
        (auto simp: outcome_def cu_step_def cu_plain_def cu_usual_def cu_slash_def cu_to_args_def is_usual_iff
          elim!: pu_rel.elims)
  next
    case False
    obtain pst1 r1 where one: "pu_step mem p x (pst, r) = Cont (pst1, r1)"
      and rest: "scan pu_step mem (Suc p) xs (pst1, r1) = Ran_out q (pst', r')"
      using Cons.prems(3) by (auto split: flow.splits)
    have "\<not> complex_uri r1" "\<not> quoted_uri r1"
      using scan_pu_sticky [OF rest] Cons.prems(4,5) by auto
    from pu_cu_step [OF Cons.prems(1,2) False one this, of m]
    obtain s' st' where "cu_step m mem p x s = Cont s'" "cu_st s' = Cu_base st'" "pu_rel pst1 st'"
      "cu_u s' = cu_u s @ [x]" by blast
    with Cons.IH [OF _ _ rest, of st' s'] Cons.prems(4,5) False show ?thesis by simp
  qed
qed

text \<open>When \<open>ngx_http_parse_uri\<close> accepts a URI and finds it neither complex nor quoted, the
  path is already normal: \<open>ngx_http_parse_complex_uri\<close>, which is skipped for such a URI, would
  accept it and leave the bytes before the first \<open>?\<close> as they are.\<close>

lemma simple_uri_is_normal:
  assumes "ngx_http_parse_uri mem r = (NGX_OK, r')" and "\<not> complex_uri r'" and "\<not> quoted_uri r'"
  shows "fst (ngx_http_parse_complex_uri mem merge_slashes r) = NGX_OK \<and>
    r_uri (snd (ngx_http_parse_complex_uri mem merge_slashes r)) =
      takeWhile (\<lambda>c. c \<noteq> QUEST) (uri_bytes mem r)"
proof -
  let ?p = "the_ptr (uri_start r)"
  let ?run = "scan (cu_step merge_slashes) mem ?p (uri_bytes mem r) (cu_init r)"
  have run: "outcome ?run = Some (takeWhile (\<lambda>c. c \<noteq> QUEST) (uri_bytes mem r))"
  proof (cases "uri_bytes mem r")
    case Nil
    then show ?thesis by (simp add: outcome_def cu_init_def)
  next
    case (Cons x xs)
    with assms(1) have x: "x = SLASH"
      by (auto simp: ngx_http_parse_uri_def pu_start_def split: if_splits)
    obtain q st where rest: "scan pu_step mem (Suc ?p) xs (Pu_after_slash_in_uri, r) = Ran_out q (st, r')"
      using assms(1) Cons x scan_pu_ends [of Pu_after_slash_in_uri mem "Suc ?p" xs r]
      by (auto simp: ngx_http_parse_uri_def pu_start_def)
    obtain s where s: "cu_step merge_slashes mem ?p SLASH (cu_init r) = Cont s"
      "cu_st s = Cu_base Cu_slash" "cu_u s = [SLASH]"
      by (simp add: cu_step_def cu_init_def cu_plain_def cu_usual_def is_usual_iff cu_moves)
    show ?thesis
      using scan_simple [OF _ s(2) rest assms(2,3), of merge_slashes] Cons x s by simp
  qed
  then show ?thesis
    by (auto simp: ngx_http_parse_complex_uri_def outcome_def cu_leave_def cu_finish_def
        split: scanned.splits cu_exit.splits if_splits)
qed

section \<open>What the code leaves unresolved\<close>

text \<open>Three inputs the normalisation does not resolve: a trailing \<open>/..\<close> is accepted and kept, an
  escape cut off by the end of the URI is silently dropped, and without \<open>merge_slashes\<close> a \<open>..\<close>
  behind an empty segment removes two segments, because \<open>u -= 5\<close> skips the empty one.\<close>

lemma complex_uri_unresolved:
  "(case ngx_http_parse_complex_uri (lit ''/..'') True
      (ngx_http_request_init\<lparr>uri_start := Some 0, uri_end := Some 3\<rparr>) of (rc, r) \<Rightarrow>
      rc = NGX_OK \<and> r_uri r = lit ''/..'') \<and>
   (case ngx_http_parse_complex_uri (lit ''/a%4'') True
      (ngx_http_request_init\<lparr>uri_start := Some 0, uri_end := Some 4\<rparr>) of (rc, r) \<Rightarrow>
      rc = NGX_OK \<and> r_uri r = lit ''/a'') \<and>
   (case ngx_http_parse_complex_uri (lit ''/a//../b'') False
      (ngx_http_request_init\<lparr>uri_start := Some 0, uri_end := Some 8\<rparr>) of (rc, r) \<Rightarrow>
      rc = NGX_OK \<and> r_uri r = lit ''/b'')"
  by code_simp

end
