(* ===== verification/Http_Status_Line.thy ===== *)
theory Http_Status_Line
  imports Http_Request
begin

text \<open>
  \<open>ngx_http_parse_status_line\<close> (src/http/ngx_http_parse.c): the status line of an upstream's
  response. It works on the request and on an \<open>ngx_http_status_t\<close>.
\<close>

section \<open>States and exits\<close>

record ngx_http_status =
  st_http_version :: nat
  st_code :: "64 word"
  st_count :: nat
  st_start :: ptr
  st_end :: ptr

datatype sl_state =
    Sl_start | Sl_H | Sl_HT | Sl_HTT | Sl_HTTP | Sl_first_major_digit | Sl_major_digit
  | Sl_first_minor_digit | Sl_minor_digit | Sl_status | Sl_space_after_status
  | Sl_status_text | Sl_almost_done
  | Sl_no_case nat

definition sl_enum :: "sl_state list" where
  "sl_enum = [Sl_start, Sl_H, Sl_HT, Sl_HTT, Sl_HTTP, Sl_first_major_digit, Sl_major_digit,
     Sl_first_minor_digit, Sl_minor_digit, Sl_status, Sl_space_after_status, Sl_status_text,
     Sl_almost_done]"

definition sl_of_nat :: "nat \<Rightarrow> sl_state" where
  "sl_of_nat n = (if n < 13 then sl_enum ! n else Sl_no_case (n - 13))"

fun sl_to_nat :: "sl_state \<Rightarrow> nat" where
  "sl_to_nat Sl_start = 0" | "sl_to_nat Sl_H = 1" | "sl_to_nat Sl_HT = 2"
| "sl_to_nat Sl_HTT = 3" | "sl_to_nat Sl_HTTP = 4" | "sl_to_nat Sl_first_major_digit = 5"
| "sl_to_nat Sl_major_digit = 6" | "sl_to_nat Sl_first_minor_digit = 7"
| "sl_to_nat Sl_minor_digit = 8" | "sl_to_nat Sl_status = 9"
| "sl_to_nat Sl_space_after_status = 10" | "sl_to_nat Sl_status_text = 11"
| "sl_to_nat Sl_almost_done = 12" | "sl_to_nat (Sl_no_case k) = 13 + k"

datatype sl_exit = Sl_error | Sl_done

record sl_locals =
  sl_st :: sl_state
  sl_r :: ngx_http_request
  sl_status :: ngx_http_status

type_synonym sl_flow = "(sl_locals, sl_exit) flow"

abbreviation (input) sl_goto :: "sl_state \<Rightarrow> sl_locals \<Rightarrow> sl_flow" where
  "sl_goto st s \<equiv> Cont (s\<lparr>sl_st := st\<rparr>)"

section \<open>One round of the loop, state by state\<close>

text \<open>The states that spell \<open>HTTP/\<close>.\<close>

definition sl_expect :: "u_char \<Rightarrow> sl_state \<Rightarrow> u_char \<Rightarrow> sl_locals \<Rightarrow> sl_flow" where
  "sl_expect c nxt ch s = (if ch = c then sl_goto nxt s else Leave Sl_error s)"

definition sl_first_major_digit :: "u_char \<Rightarrow> sl_locals \<Rightarrow> sl_flow" where
  "sl_first_major_digit ch s =
     (if ch < D1 \<or> D9 < ch then Leave Sl_error s
      else sl_goto Sl_major_digit (s\<lparr>sl_r := (sl_r s)\<lparr>http_major := ucast (ch - D0)\<rparr>\<rparr>))"

definition sl_major_digit :: "u_char \<Rightarrow> sl_locals \<Rightarrow> sl_flow" where
  "sl_major_digit ch s =
     (if ch = DOT then sl_goto Sl_first_minor_digit s
      else if \<not> is_digit ch then Leave Sl_error s
      else if 99 < http_major (sl_r s) then Leave Sl_error s
      else Cont (s\<lparr>sl_r := (sl_r s)\<lparr>http_major := http_major (sl_r s) * 10 + ucast (ch - D0)\<rparr>\<rparr>))"

definition sl_first_minor_digit :: "u_char \<Rightarrow> sl_locals \<Rightarrow> sl_flow" where
  "sl_first_minor_digit ch s =
     (if \<not> is_digit ch then Leave Sl_error s
      else sl_goto Sl_minor_digit (s\<lparr>sl_r := (sl_r s)\<lparr>http_minor := ucast (ch - D0)\<rparr>\<rparr>))"

definition sl_minor_digit :: "u_char \<Rightarrow> sl_locals \<Rightarrow> sl_flow" where
  "sl_minor_digit ch s =
     (if ch = SP then sl_goto Sl_status s
      else if \<not> is_digit ch then Leave Sl_error s
      else if 99 < http_minor (sl_r s) then Leave Sl_error s
      else Cont (s\<lparr>sl_r := (sl_r s)\<lparr>http_minor := http_minor (sl_r s) * 10 + ucast (ch - D0)\<rparr>\<rparr>))"

definition sl_digit_of_status :: "nat \<Rightarrow> u_char \<Rightarrow> sl_locals \<Rightarrow> sl_flow" where
  "sl_digit_of_status p ch s =
     (if ch = SP then Cont s
      else if \<not> is_digit ch then Leave Sl_error s
      else
        (let x = sl_status s;
             n = st_count x + 1;
             x' = x\<lparr>st_code := st_code x * 10 + ucast (ch - D0), st_count := n\<rparr>
         in if n = 3 then sl_goto Sl_space_after_status (s\<lparr>sl_status := x'\<lparr>st_start := Some (p - 2)\<rparr>\<rparr>)
            else Cont (s\<lparr>sl_status := x'\<rparr>)))"

definition sl_space_after_status :: "u_char \<Rightarrow> sl_locals \<Rightarrow> sl_flow" where
  "sl_space_after_status ch s =
     (if ch = SP then sl_goto Sl_status_text s
      else if ch = DOT then sl_goto Sl_status_text s
      else if ch = CR then sl_goto Sl_almost_done s
      else if ch = LF then Leave Sl_done s
      else Leave Sl_error s)"

definition sl_status_text :: "u_char \<Rightarrow> sl_locals \<Rightarrow> sl_flow" where
  "sl_status_text ch s =
     (if ch = CR then sl_goto Sl_almost_done s
      else if ch = LF then Leave Sl_done s
      else Cont s)"

definition sl_almost_done :: "nat \<Rightarrow> u_char \<Rightarrow> sl_locals \<Rightarrow> sl_flow" where
  "sl_almost_done p ch s0 =
     (let s = s0\<lparr>sl_status := (sl_status s0)\<lparr>st_end := Some (p - 1)\<rparr>\<rparr> in
      if ch = LF then Leave Sl_done s else Leave Sl_error s)"

definition sl_step :: "bytes \<Rightarrow> nat \<Rightarrow> u_char \<Rightarrow> sl_locals \<Rightarrow> sl_flow" where
  "sl_step mem p ch s =
     (case sl_st s of
        Sl_start \<Rightarrow> sl_expect c_H Sl_H ch s
      | Sl_H \<Rightarrow> sl_expect c_T Sl_HT ch s
      | Sl_HT \<Rightarrow> sl_expect c_T Sl_HTT ch s
      | Sl_HTT \<Rightarrow> sl_expect c_P Sl_HTTP ch s
      | Sl_HTTP \<Rightarrow> sl_expect SLASH Sl_first_major_digit ch s
      | Sl_first_major_digit \<Rightarrow> sl_first_major_digit ch s
      | Sl_major_digit \<Rightarrow> sl_major_digit ch s
      | Sl_first_minor_digit \<Rightarrow> sl_first_minor_digit ch s
      | Sl_minor_digit \<Rightarrow> sl_minor_digit ch s
      | Sl_status \<Rightarrow> sl_digit_of_status p ch s
      | Sl_space_after_status \<Rightarrow> sl_space_after_status ch s
      | Sl_status_text \<Rightarrow> sl_status_text ch s
      | Sl_almost_done \<Rightarrow> sl_almost_done p ch s
      | Sl_no_case k \<Rightarrow> Cont s)"

section \<open>The parser\<close>

definition sl_load :: "ngx_http_request \<times> ngx_http_status \<Rightarrow> sl_locals" where
  "sl_load rs = \<lparr>sl_st = sl_of_nat (r_state (fst rs)), sl_r = fst rs, sl_status = snd rs\<rparr>"

definition sl_suspend :: "nat \<Rightarrow> sl_locals \<Rightarrow> ngx_buf \<Rightarrow>
    ngx_rc \<times> (ngx_http_request \<times> ngx_http_status) \<times> ngx_buf" where
  "sl_suspend p s b =
     (NGX_AGAIN, ((sl_r s)\<lparr>r_state := sl_to_nat (sl_st s)\<rparr>, sl_status s), b\<lparr>b_pos := p\<rparr>)"

fun sl_leave :: "sl_exit \<Rightarrow> nat \<Rightarrow> sl_locals \<Rightarrow> ngx_buf \<Rightarrow>
    ngx_rc \<times> (ngx_http_request \<times> ngx_http_status) \<times> ngx_buf" where
  "sl_leave Sl_error p s b = (NGX_ERROR, (sl_r s, sl_status s), b)"
| "sl_leave Sl_done p s b =
     (NGX_OK,
      ((sl_r s)\<lparr>r_state := 0\<rparr>,
       (sl_status s)\<lparr>st_end := (case st_end (sl_status s) of None \<Rightarrow> Some p | Some q \<Rightarrow> Some q),
         st_http_version := unat (http_major (sl_r s)) * 1000 + unat (http_minor (sl_r s))\<rparr>),
      b\<lparr>b_pos := p + 1\<rparr>)"

definition ngx_http_parse_status_line :: "ngx_http_request \<times> ngx_http_status \<Rightarrow> ngx_buf \<Rightarrow>
    ngx_rc \<times> (ngx_http_request \<times> ngx_http_status) \<times> ngx_buf" where
  "ngx_http_parse_status_line = drive sl_step sl_load sl_suspend sl_leave"

text \<open>A status as its callers zero it.\<close>

definition ngx_http_status_init :: ngx_http_status where
  "ngx_http_status_init =
     \<lparr>st_http_version = 0, st_code = 0, st_count = 0, st_start = None, st_end = None\<rparr>"

section \<open>The parser is resumable\<close>

lemma sl_of_to_nat [simp]: "sl_of_nat (sl_to_nat s) = s"
  by (cases s) (simp_all add: sl_of_nat_def sl_enum_def)

lemmas sl_state_defs = sl_expect_def sl_first_major_digit_def sl_major_digit_def
  sl_first_minor_digit_def sl_minor_digit_def sl_digit_of_status_def sl_space_after_status_def
  sl_status_text_def sl_almost_done_def

definition sl_core :: "sl_locals \<Rightarrow> sl_locals" where
  "sl_core s = s\<lparr>sl_r := (sl_r s)\<lparr>r_state := 0\<rparr>\<rparr>"

fun sl_view :: "ngx_rc \<times> (ngx_http_request \<times> ngx_http_status) \<times> ngx_buf \<Rightarrow>
    ngx_rc \<times> ((ngx_http_request \<times> ngx_http_status) \<times> ngx_buf) option" where
  "sl_view (rc, rs, b) = (rc, if rc = NGX_ERROR then None else Some (rs, b))"

lemma sl_step_core: "sl_step mem p ch (sl_core s) = map_flow sl_core id (sl_step mem p ch s)"
  by (cases "sl_st s") (simp_all add: sl_step_def sl_core_def sl_state_defs Let_def)

lemma sl_coreD:
  assumes "sl_core s = sl_core t"
  shows "sl_st s = sl_st t" and "sl_status s = sl_status t"
    and "(sl_r s)\<lparr>r_state := n\<rparr> = (sl_r t)\<lparr>r_state := n\<rparr>"
    and "http_major (sl_r s) = http_major (sl_r t)" and "http_minor (sl_r s) = http_minor (sl_r t)"
  using arg_cong [OF assms, of sl_st] arg_cong [OF assms, of sl_status]
    arg_cong [OF assms, of "\<lambda>s. (sl_r s)\<lparr>r_state := n\<rparr>"]
    arg_cong [OF assms, of "\<lambda>s. http_major (sl_r s)"] arg_cong [OF assms, of "\<lambda>s. http_minor (sl_r s)"]
  by (simp_all add: sl_core_def)

interpretation sl: suspending_parser sl_step sl_load sl_suspend sl_leave
  "\<lambda>_. True" "\<lambda>_. True" sl_core sl_view
proof (unfold_locales, goal_cases)
  case (1 p mem ch rest s)
  then show ?case by (simp add: sl_step_def)
next
  case (4 s t mem p ch)
  then show ?case by (simp flip: sl_step_core)
next
  case (5 s p b r' b')
  then show ?case by (auto simp: sl_suspend_def sl_load_def sl_core_def)
next
  case (6 s t p b q)
  then show ?case by (simp add: sl_suspend_def sl_coreD [OF 6])
next
  case (7 e p s b rc r' b' rest)
  then show ?case by (cases e) auto
next
  case (8 s t e p b q)
  then show ?case by (cases e) (simp_all add: sl_coreD [OF 8])
next
  case (9 p s b)
  then show ?case by (simp add: sl_suspend_def)
qed auto

text \<open>However an upstream's status line arrives in pieces, resuming the parser gives the
  result of one call on all of the bytes, in the request and in the status.\<close>

lemma status_line_fragmentation:
  assumes "b_pos b \<le> length (b_mem b)"
  shows "sl_view (feed ngx_http_parse_status_line rs b pieces) =
    sl_view (ngx_http_parse_status_line rs (recv b (concat pieces)))"
  unfolding ngx_http_parse_status_line_def using assms by (intro sl.feed_concat) simp_all

section \<open>Reading back what was written\<close>

text \<open>The order in which the fields were updated does not matter.\<close>

lemma sl_update_order [simp]:
  "s\<lparr>sl_r := r, sl_st := st\<rparr> = s\<lparr>sl_st := st, sl_r := r\<rparr>"
  "s\<lparr>sl_status := x, sl_st := st\<rparr> = s\<lparr>sl_st := st, sl_status := x\<rparr>"
  "s\<lparr>sl_status := x, sl_r := r\<rparr> = s\<lparr>sl_r := r, sl_status := x\<rparr>"
  for s :: sl_locals
  by simp_all

lemma scan_sl_http:
  "sl_st s = Sl_start \<Longrightarrow> scan sl_step mem p (lit ''HTTP/'' @ ys) s =
    scan sl_step mem (p + 5) ys (s\<lparr>sl_st := Sl_first_major_digit\<rparr>)"
  by (simp add: sl_step_def [of mem p] sl_step_def [of mem "Suc _"] sl_expect_def numeral_eq_Suc)

lemma version_below: "v < 100 \<Longrightarrow> \<not> 99 < (word_of_nat v :: 16 word)"
  by (simp add: word_less_nat_alt take_bit_nat_eq_self unat_of_nat)

lemma scan_sl_major:
  assumes "\<forall>c \<in> set ds. is_digit c" and "v * 10 ^ length ds + dec_val ds < 1000" and "sl_st s = Sl_major_digit"
  shows "scan sl_step mem p (ds @ ys) (s\<lparr>sl_r := (sl_r s)\<lparr>http_major := word_of_nat v\<rparr>\<rparr>) =
    scan sl_step mem (p + length ds) ys
      (s\<lparr>sl_r := (sl_r s)\<lparr>http_major := word_of_nat (v * 10 ^ length ds + dec_val ds)\<rparr>\<rparr>)"
  using assms version_below
  by (intro scan_digits [where f = "\<lambda>v. s\<lparr>sl_r := (sl_r s)\<lparr>http_major := word_of_nat v\<rparr>\<rparr>" and lim = 100])
    (simp_all add: sl_step_def sl_major_digit_def digit_word)

lemma scan_sl_minor:
  assumes "\<forall>c \<in> set ds. is_digit c" and "v * 10 ^ length ds + dec_val ds < 1000" and "sl_st s = Sl_minor_digit"
  shows "scan sl_step mem p (ds @ ys) (s\<lparr>sl_r := (sl_r s)\<lparr>http_minor := word_of_nat v\<rparr>\<rparr>) =
    scan sl_step mem (p + length ds) ys
      (s\<lparr>sl_r := (sl_r s)\<lparr>http_minor := word_of_nat (v * 10 ^ length ds + dec_val ds)\<rparr>\<rparr>)"
  using assms version_below
  by (intro scan_digits [where f = "\<lambda>v. s\<lparr>sl_r := (sl_r s)\<lparr>http_minor := word_of_nat v\<rparr>\<rparr>" and lim = 100])
    (simp_all add: sl_step_def sl_minor_digit_def digit_word)

lemma scan_sl_version:
  assumes "\<forall>c \<in> set maj. is_digit c" and "\<forall>c \<in> set mnr. is_digit c"
    and "maj \<noteq> []" and "hd maj \<noteq> D0" and "length maj \<le> 3" and "mnr \<noteq> []" and "length mnr \<le> 3"
    and "sl_st s = Sl_first_major_digit"
  shows "scan sl_step mem p (maj @ DOT # mnr @ SP # ys) s =
    scan sl_step mem (p + length maj + length mnr + 2) ys
      (s\<lparr>sl_st := Sl_status, sl_r := (sl_r s)\<lparr>http_major := word_of_nat (dec_val maj),
                         http_minor := word_of_nat (dec_val mnr)\<rparr>\<rparr>)"
proof -
  obtain a as where maj: "maj = a # as" using assms(3) by (cases maj) auto
  obtain b bs where mnr: "mnr = b # bs" using assms(6) by (cases mnr) auto
  have lim: "digit_val a * 10 ^ length as + dec_val as < 1000"
      "digit_val b * 10 ^ length bs + dec_val bs < 1000"
    using dec_val_bound [of maj] dec_val_bound [of mnr] assms(1,2,5,7)
    by (simp_all add: maj mnr dec_val_Cons)
  have a: "\<not> (a < D1 \<or> D9 < a)"
    using assms(1,4) by (auto simp: maj is_digit_def) unat_arith
  let ?s1 = "s\<lparr>sl_st := Sl_major_digit\<rparr>"
  let ?s2 = "s\<lparr>sl_st := Sl_minor_digit, sl_r := (sl_r s)\<lparr>http_major := word_of_nat (dec_val maj)\<rparr>\<rparr>"
  have "scan sl_step mem p (maj @ DOT # mnr @ SP # ys) s =
      scan sl_step mem (Suc p) (as @ DOT # mnr @ SP # ys)
        (?s1\<lparr>sl_r := (sl_r ?s1)\<lparr>http_major := word_of_nat (digit_val a)\<rparr>\<rparr>)"
    using a assms(8) by (simp add: maj sl_step_def [of mem p] sl_first_major_digit_def digit_word)
  also have "\<dots> = scan sl_step mem (p + length maj) (DOT # mnr @ SP # ys)
        (?s1\<lparr>sl_r := (sl_r ?s1)\<lparr>http_major := word_of_nat (dec_val maj)\<rparr>\<rparr>)"
    using assms(1) lim(1) by (subst scan_sl_major) (simp_all add: maj dec_val_Cons)
  also have "\<dots> = scan sl_step mem (p + length maj + 2) (bs @ SP # ys)
      (?s2\<lparr>sl_r := (sl_r ?s2)\<lparr>http_minor := word_of_nat (digit_val b)\<rparr>\<rparr>)"
    using assms(2) by (simp add: mnr sl_step_def [of mem "p + length maj"]
        sl_step_def [of mem "Suc (p + length maj)"] sl_major_digit_def sl_first_minor_digit_def digit_word)
  also have "\<dots> = scan sl_step mem (p + length maj + length mnr + 1) (SP # ys)
      (?s2\<lparr>sl_r := (sl_r ?s2)\<lparr>http_minor := word_of_nat (dec_val mnr)\<rparr>\<rparr>)"
    using assms(2) lim(2) by (subst scan_sl_minor) (simp_all add: mnr dec_val_Cons)
  finally show ?thesis
    by (simp add: sl_step_def [of mem "Suc (p + length maj + length mnr)"] sl_minor_digit_def)
qed

lemma scan_sl_code:
  assumes "is_digit a" and "is_digit b" and "is_digit c" and "sl_st s = Sl_status"
    and "st_code (sl_status s) = 0" and "st_count (sl_status s) = 0"
  shows "scan sl_step mem p (a # b # c # ys) s =
    scan sl_step mem (p + 3) ys (s\<lparr>sl_st := Sl_space_after_status,
      sl_status := (sl_status s)\<lparr>st_code := word_of_nat (dec_val [a, b, c]), st_count := 3, st_start := Some p\<rparr>\<rparr>)"
  using assms
  by (simp add: sl_step_def [of mem p] sl_step_def [of mem "Suc p"] sl_step_def [of mem "Suc (Suc p)"]
      sl_digit_of_status_def Let_def digit_word dec_val_def algebra_simps eval_nat_numeral)

lemma scan_sl_text:
  "\<forall>c \<in> set reason. c \<noteq> CR \<and> c \<noteq> LF \<Longrightarrow> sl_st s = Sl_status_text \<Longrightarrow>
   scan sl_step mem p (reason @ ys) s = scan sl_step mem (p + length reason) ys s"
  by (induction reason arbitrary: p) (simp_all add: sl_step_def sl_status_text_def)

definition status_line :: "bytes \<Rightarrow> bytes \<Rightarrow> bytes \<Rightarrow> bytes \<Rightarrow> bytes" where
  "status_line maj mnr code reason =
     lit ''HTTP/'' @ maj @ [DOT] @ mnr @ [SP] @ code @ [SP] @ reason @ [CR, LF]"

text \<open>A status line is read back exactly: the version, the three-digit code, where the code
  starts and where the line ends, whatever follows it in the buffer.\<close>

lemma status_line_roundtrip:
  assumes "\<forall>c \<in> set maj. is_digit c" and "\<forall>c \<in> set mnr. is_digit c"
    and "maj \<noteq> []" and "hd maj \<noteq> D0" and "length maj \<le> 3" and "mnr \<noteq> []" and "length mnr \<le> 3"
    and "\<forall>c \<in> set code. is_digit c" and "length code = 3"
    and "\<forall>c \<in> set reason. c \<noteq> CR \<and> c \<noteq> LF"
  shows "ngx_http_parse_status_line (ngx_http_request_init, ngx_http_status_init)
      \<lparr>b_mem = status_line maj mnr code reason @ rest, b_pos = 0\<rparr> =
    (NGX_OK,
     (ngx_http_request_init\<lparr>http_major := word_of_nat (dec_val maj), http_minor := word_of_nat (dec_val mnr)\<rparr>,
      \<lparr>st_http_version = dec_val maj * 1000 + dec_val mnr, st_code = word_of_nat (dec_val code),
       st_count = 3, st_start = Some (length maj + length mnr + 7),
       st_end = Some (length (status_line maj mnr code reason) - 2)\<rparr>),
     \<lparr>b_mem = status_line maj mnr code reason @ rest, b_pos = length (status_line maj mnr code reason)\<rparr>)"
proof -
  let ?mem = "status_line maj mnr code reason @ rest"
  let ?n = "length maj + length mnr"
  have "\<exists>a b c. code = [a, b, c]"
    using assms(9) by (auto simp: length_Suc_conv eval_nat_numeral)
  then obtain a b c where code: "code = [a, b, c]" by blast
  let ?s0 = "\<lparr>sl_st = Sl_first_major_digit, sl_r = ngx_http_request_init, sl_status = ngx_http_status_init\<rparr>"
  let ?r = "ngx_http_request_init\<lparr>http_major := word_of_nat (dec_val maj), http_minor := word_of_nat (dec_val mnr)\<rparr>"
  let ?x = "ngx_http_status_init\<lparr>st_code := word_of_nat (dec_val code), st_count := 3, st_start := Some (?n + 7)\<rparr>"
  let ?tail = "a # b # c # SP # reason @ CR # LF # rest"
  have mem: "?mem = lit ''HTTP/'' @ maj @ DOT # mnr @ SP # ?tail"
    by (simp add: status_line_def code)
  have load: "sl_load (ngx_http_request_init, ngx_http_status_init) = ?s0\<lparr>sl_st := Sl_start\<rparr>"
    by (simp add: sl_load_def sl_of_nat_def sl_enum_def ngx_http_request_init_def)
  have "scan sl_step ?mem 0 ?mem (sl_load (ngx_http_request_init, ngx_http_status_init)) =
      scan sl_step ?mem 5 (maj @ DOT # mnr @ SP # ?tail) ?s0"
    unfolding mem by (subst scan_sl_http) (simp_all add: load)
  also have "\<dots> = scan sl_step ?mem (?n + 7) ?tail (?s0\<lparr>sl_st := Sl_status, sl_r := ?r\<rparr>)"
    using assms(1-7) by (subst scan_sl_version) (simp_all add: ac_simps)
  also have "\<dots> = scan sl_step ?mem (?n + 10) (SP # reason @ CR # LF # rest)
      (?s0\<lparr>sl_st := Sl_space_after_status, sl_r := ?r, sl_status := ?x\<rparr>)"
    using assms(8) by (subst scan_sl_code) (simp_all add: code ngx_http_status_init_def add.commute)
  also have "\<dots> = scan sl_step ?mem (?n + 11) (reason @ CR # LF # rest)
      (?s0\<lparr>sl_st := Sl_status_text, sl_r := ?r, sl_status := ?x\<rparr>)"
    by (simp add: sl_step_def [of _ "?n + 10"] sl_space_after_status_def add.commute)
  also have "\<dots> = Left_at Sl_done (?n + length reason + 12)
      (?s0\<lparr>sl_st := Sl_almost_done, sl_r := ?r, sl_status := ?x\<lparr>st_end := Some (?n + length reason + 11)\<rparr>\<rparr>)"
    using assms(10) by (simp add: scan_sl_text sl_step_def sl_status_text_def sl_almost_done_def Let_def ac_simps)
  finally have run: "scan sl_step ?mem 0 ?mem (sl_load (ngx_http_request_init, ngx_http_status_init)) = \<dots>" .
  have len: "length (status_line maj mnr code reason) = ?n + length reason + 13"
    by (simp add: status_line_def code)
  have "dec_val maj < 1000" "dec_val mnr < 1000"
    using assms(1,2,5,7) by (auto intro: dec_val_bound)
  then show ?thesis
    using run by (simp add: ngx_http_parse_status_line_def drive_def len unat_of_nat)
      (simp add: ngx_http_request_init_def ngx_http_status_init_def)
qed

end
