(* ===== verification/Http_Chunked.thy ===== *)
theory Http_Chunked
  imports Http_Request
begin

unbundle bit_operations_syntax

text \<open>
  \<open>ngx_http_parse_chunked\<close> (src/http/ngx_http_parse.c), which finds the chunks of a chunked
  body, and the two loops that use it (src/http/ngx_http_request_body.c):
  \<open>ngx_http_request_body_chunked_filter\<close>, which cuts the data out of the buffers received, and
  \<open>ngx_http_discard_request_body_filter\<close>, which skips it.

  The sizes are \<open>off_t\<close>s that are never negative, so they are natural numbers here; that they
  stay below \<open>NGX_MAX_OFF_T_VALUE\<close>, so that the machine's arithmetic does not overflow, is proved.
\<close>

section \<open>The parser\<close>

abbreviation (input) NGX_MAX_OFF_T_VALUE :: int where
  "NGX_MAX_OFF_T_VALUE \<equiv> 9223372036854775807"

record ngx_http_chunked =
  ck_state :: nat
  ck_size :: nat
  ck_length :: nat

datatype ck_sw =
    Ck_chunk_start | Ck_chunk_size | Ck_chunk_extension | Ck_chunk_extension_almost_done
  | Ck_chunk_data | Ck_after_data | Ck_after_data_almost_done | Ck_last_chunk_extension
  | Ck_last_chunk_extension_almost_done | Ck_trailer | Ck_trailer_almost_done
  | Ck_trailer_header | Ck_trailer_header_almost_done
  | Ck_no_case nat

definition ck_enum :: "ck_sw list" where
  "ck_enum = [Ck_chunk_start, Ck_chunk_size, Ck_chunk_extension, Ck_chunk_extension_almost_done,
     Ck_chunk_data, Ck_after_data, Ck_after_data_almost_done, Ck_last_chunk_extension,
     Ck_last_chunk_extension_almost_done, Ck_trailer, Ck_trailer_almost_done,
     Ck_trailer_header, Ck_trailer_header_almost_done]"

definition ck_of_nat :: "nat \<Rightarrow> ck_sw" where
  "ck_of_nat n = (if n < 13 then ck_enum ! n else Ck_no_case (n - 13))"

fun ck_to_nat :: "ck_sw \<Rightarrow> nat" where
  "ck_to_nat Ck_chunk_start = 0" | "ck_to_nat Ck_chunk_size = 1"
| "ck_to_nat Ck_chunk_extension = 2" | "ck_to_nat Ck_chunk_extension_almost_done = 3"
| "ck_to_nat Ck_chunk_data = 4" | "ck_to_nat Ck_after_data = 5"
| "ck_to_nat Ck_after_data_almost_done = 6" | "ck_to_nat Ck_last_chunk_extension = 7"
| "ck_to_nat Ck_last_chunk_extension_almost_done = 8" | "ck_to_nat Ck_trailer = 9"
| "ck_to_nat Ck_trailer_almost_done = 10" | "ck_to_nat Ck_trailer_header = 11"
| "ck_to_nat Ck_trailer_header_almost_done = 12" | "ck_to_nat (Ck_no_case k) = 13 + k"

datatype ck_exit = Ck_data | Ck_done | Ck_invalid

type_synonym ck_flow = "(ck_sw \<times> ngx_http_chunked, ck_exit) flow"

abbreviation (input) ck_fail :: "ck_sw \<Rightarrow> ngx_http_chunked \<Rightarrow> ck_flow" where
  "ck_fail st ctx \<equiv> Leave Ck_invalid (st, ctx)"

definition is_hex_letter :: "u_char \<Rightarrow> bool" where
  "is_hex_letter ch \<longleftrightarrow> (let c = ch OR 0x20 in c_a \<le> c \<and> c \<le> c_f)"

definition hex_letter_val :: "u_char \<Rightarrow> nat" where
  "hex_letter_val ch = unat ((ch OR 0x20) - c_a) + 10"

definition ck_chunk_start :: "u_char \<Rightarrow> ngx_http_chunked \<Rightarrow> ck_flow" where
  "ck_chunk_start ch ctx =
     (if is_digit ch then Cont (Ck_chunk_size, ctx\<lparr>ck_size := digit_val ch\<rparr>)
      else if is_hex_letter ch then Cont (Ck_chunk_size, ctx\<lparr>ck_size := hex_letter_val ch\<rparr>)
      else ck_fail Ck_chunk_start ctx)"

definition ck_chunk_size :: "u_char \<Rightarrow> ngx_http_chunked \<Rightarrow> ck_flow" where
  "ck_chunk_size ch ctx =
     (if NGX_MAX_OFF_T_VALUE div 16 < int (ck_size ctx) then ck_fail Ck_chunk_size ctx
      else if is_digit ch then Cont (Ck_chunk_size, ctx\<lparr>ck_size := ck_size ctx * 16 + digit_val ch\<rparr>)
      else if is_hex_letter ch then
        Cont (Ck_chunk_size, ctx\<lparr>ck_size := ck_size ctx * 16 + hex_letter_val ch\<rparr>)
      else if ck_size ctx = 0 then
        (if ch = CR then Cont (Ck_last_chunk_extension_almost_done, ctx)
         else if ch = LF then Cont (Ck_trailer, ctx)
         else if ch \<in> {SEMI, SP, TAB} then Cont (Ck_last_chunk_extension, ctx)
         else ck_fail Ck_chunk_size ctx)
      else if ch = CR then Cont (Ck_chunk_extension_almost_done, ctx)
      else if ch = LF then Cont (Ck_chunk_data, ctx)
      else if ch \<in> {SEMI, SP, TAB} then Cont (Ck_chunk_extension, ctx)
      else ck_fail Ck_chunk_size ctx)"

text \<open>
  The states that skip a line: \<open>to_cr\<close> behind a CR, \<open>to_lf\<close> behind a LF, else stay;
  and the states behind a CR, that accept a LF only.
\<close>

definition ck_skip_line :: "ck_sw \<Rightarrow> ck_sw \<Rightarrow> ck_sw \<Rightarrow> u_char \<Rightarrow> ngx_http_chunked \<Rightarrow> ck_flow" where
  "ck_skip_line st to_cr to_lf ch ctx =
     (if ch = CR then Cont (to_cr, ctx) else if ch = LF then Cont (to_lf, ctx) else Cont (st, ctx))"

definition ck_expect_lf :: "ck_sw \<Rightarrow> ck_sw \<Rightarrow> u_char \<Rightarrow> ngx_http_chunked \<Rightarrow> ck_flow" where
  "ck_expect_lf st nxt ch ctx = (if ch = LF then Cont (nxt, ctx) else ck_fail st ctx)"

definition ck_trailer :: "u_char \<Rightarrow> ngx_http_chunked \<Rightarrow> ck_flow" where
  "ck_trailer ch ctx =
     (if ch = CR then Cont (Ck_trailer_almost_done, ctx)
      else if ch = LF then Leave Ck_done (Ck_trailer, ctx)
      else Cont (Ck_trailer_header, ctx))"

definition ck_trailer_almost_done :: "u_char \<Rightarrow> ngx_http_chunked \<Rightarrow> ck_flow" where
  "ck_trailer_almost_done ch ctx =
     (if ch = LF then Leave Ck_done (Ck_trailer_almost_done, ctx)
      else ck_fail Ck_trailer_almost_done ctx)"

fun ck_step :: "bytes \<Rightarrow> nat \<Rightarrow> u_char \<Rightarrow> ck_sw \<times> ngx_http_chunked \<Rightarrow> ck_flow" where
  "ck_step mem p ch (Ck_chunk_start, ctx) = ck_chunk_start ch ctx"
| "ck_step mem p ch (Ck_chunk_size, ctx) = ck_chunk_size ch ctx"
| "ck_step mem p ch (Ck_chunk_extension, ctx) =
     ck_skip_line Ck_chunk_extension Ck_chunk_extension_almost_done Ck_chunk_data ch ctx"
| "ck_step mem p ch (Ck_chunk_extension_almost_done, ctx) =
     ck_expect_lf Ck_chunk_extension_almost_done Ck_chunk_data ch ctx"
| "ck_step mem p ch (Ck_chunk_data, ctx) = Leave Ck_data (Ck_chunk_data, ctx)"
| "ck_step mem p ch (Ck_after_data, ctx) =
     ck_skip_line Ck_after_data Ck_after_data_almost_done Ck_chunk_start ch ctx"
| "ck_step mem p ch (Ck_after_data_almost_done, ctx) =
     ck_expect_lf Ck_after_data_almost_done Ck_chunk_start ch ctx"
| "ck_step mem p ch (Ck_last_chunk_extension, ctx) =
     ck_skip_line Ck_last_chunk_extension Ck_last_chunk_extension_almost_done Ck_trailer ch ctx"
| "ck_step mem p ch (Ck_last_chunk_extension_almost_done, ctx) =
     ck_expect_lf Ck_last_chunk_extension_almost_done Ck_trailer ch ctx"
| "ck_step mem p ch (Ck_trailer, ctx) = ck_trailer ch ctx"
| "ck_step mem p ch (Ck_trailer_almost_done, ctx) = ck_trailer_almost_done ch ctx"
| "ck_step mem p ch (Ck_trailer_header, ctx) =
     ck_skip_line Ck_trailer_header Ck_trailer_header_almost_done Ck_trailer ch ctx"
| "ck_step mem p ch (Ck_trailer_header_almost_done, ctx) =
     ck_expect_lf Ck_trailer_header_almost_done Ck_trailer ch ctx"
| "ck_step mem p ch (Ck_no_case k, ctx) = Cont (Ck_no_case k, ctx)"

definition ck_load :: "ngx_http_chunked \<Rightarrow> ck_sw \<times> ngx_http_chunked" where
  "ck_load ctx =
     (let st = ck_of_nat (ck_state ctx) in
      (if st = Ck_chunk_data \<and> ck_size ctx = 0 then Ck_after_data else st, ctx))"

text \<open>The last \<open>switch\<close>: how many bytes the shortest rest of the body still has.\<close>

fun ck_rest :: "ck_sw \<Rightarrow> ngx_http_chunked \<Rightarrow> nat" where
  "ck_rest Ck_chunk_start ctx = 3"
| "ck_rest Ck_chunk_size ctx = 1 + (if ck_size ctx \<noteq> 0 then ck_size ctx + 4 else 1)"
| "ck_rest Ck_chunk_extension ctx = 1 + ck_size ctx + 4"
| "ck_rest Ck_chunk_extension_almost_done ctx = 1 + ck_size ctx + 4"
| "ck_rest Ck_chunk_data ctx = ck_size ctx + 4"
| "ck_rest Ck_after_data ctx = 4"
| "ck_rest Ck_after_data_almost_done ctx = 4"
| "ck_rest Ck_last_chunk_extension ctx = 2"
| "ck_rest Ck_last_chunk_extension_almost_done ctx = 2"
| "ck_rest Ck_trailer ctx = 1"
| "ck_rest Ck_trailer_almost_done ctx = 1"
| "ck_rest Ck_trailer_header ctx = 2"
| "ck_rest Ck_trailer_header_almost_done ctx = 2"
| "ck_rest (Ck_no_case k) ctx = ck_length ctx"

definition ck_at_data :: "ngx_rc \<Rightarrow> nat \<Rightarrow> ck_sw \<times> ngx_http_chunked \<Rightarrow> ngx_buf \<Rightarrow>
    ngx_rc \<times> ngx_http_chunked \<times> ngx_buf" where
  "ck_at_data rc p s b0 =
     (case s of (st, ctx0) \<Rightarrow>
        let ctx = ctx0\<lparr>ck_state := ck_to_nat st\<rparr>; b = b0\<lparr>b_pos := p\<rparr> in
        if NGX_MAX_OFF_T_VALUE - 5 < int (ck_size ctx) then (NGX_ERROR, ctx, b)
        else (rc, ctx\<lparr>ck_length := ck_rest st ctx\<rparr>, b))"

definition ck_leave :: "ck_exit \<Rightarrow> nat \<Rightarrow> ck_sw \<times> ngx_http_chunked \<Rightarrow> ngx_buf \<Rightarrow>
    ngx_rc \<times> ngx_http_chunked \<times> ngx_buf" where
  "ck_leave e p s b =
     (case e of
        Ck_data \<Rightarrow> ck_at_data NGX_OK p s b
      | Ck_done \<Rightarrow> (NGX_DONE, (snd s)\<lparr>ck_state := 0\<rparr>, b\<lparr>b_pos := p + 1\<rparr>)
      | Ck_invalid \<Rightarrow> (NGX_ERROR, snd s, b))"

definition ngx_http_parse_chunked :: "ngx_http_chunked \<Rightarrow> ngx_buf \<Rightarrow>
    ngx_rc \<times> ngx_http_chunked \<times> ngx_buf" where
  "ngx_http_parse_chunked = drive ck_step ck_load (ck_at_data NGX_AGAIN) ck_leave"

section \<open>Progress\<close>

lemma ck_of_to_nat [simp]: "ck_of_nat (ck_to_nat s) = s"
  by (cases s) (simp_all add: ck_of_nat_def ck_enum_def)

lemma ck_step_data:
  "ck_step mem p ch s = Leave Ck_data s' \<Longrightarrow> fst s = Ck_chunk_data \<and> s' = s"
  by (cases s; cases "fst s")
    (auto simp: ck_chunk_start_def ck_chunk_size_def ck_skip_line_def ck_expect_lf_def ck_trailer_def
      ck_trailer_almost_done_def split: if_splits)

lemma scan_ck_data:
  "scan ck_step mem p xs s = Left_at Ck_data q s' \<Longrightarrow>
    p \<le> q \<and> q < p + length xs \<and> fst s' = Ck_chunk_data \<and> (q = p \<longrightarrow> fst s = Ck_chunk_data \<and> s' = s)"
proof (induction xs arbitrary: p s)
  case (Cons x xs)
  show ?case
  proof (cases "ck_step mem p x s")
    case (Cont s1)
    with Cons.IH [of "Suc p" s1] Cons.prems show ?thesis by auto
  next
    case (Leave e s1)
    with Cons.prems ck_step_data [of mem p x s s1] show ?thesis by auto
  qed
qed simp

text \<open>\<open>NGX_OK\<close>: there is data to take, and taking it moves the buffer on.\<close>

lemma parse_chunked_ok:
  assumes "ngx_http_parse_chunked ctx b = (NGX_OK, ctx', b')"
  shows "b_mem b' = b_mem b" and "b_pos b \<le> b_pos b'" and "b_pos b' < length (b_mem b)"
    and "b_pos b' = b_pos b \<longrightarrow> ck_size ctx' \<noteq> 0"
    and "ck_of_nat (ck_state ctx') = Ck_chunk_data"
proof -
  from assms obtain p s where
    run: "scan ck_step (b_mem b) (b_pos b) (drop (b_pos b) (b_mem b)) (ck_load ctx) = Left_at Ck_data p s"
    and at: "ck_at_data NGX_OK p s b = (NGX_OK, ctx', b')"
    by (auto simp: ngx_http_parse_chunked_def drive_def ck_at_data_def ck_leave_def Let_def
        split: scanned.splits ck_exit.splits if_splits prod.splits)
  obtain st c where s: "s = (st, c)" by (cases s)
  have r: "b' = b\<lparr>b_pos := p\<rparr>" "ck_size ctx' = ck_size c" "ck_state ctx' = ck_to_nat st"
    using at by (auto simp: ck_at_data_def s Let_def split: if_splits)
  note d = scan_ck_data [OF run]
  show "b_mem b' = b_mem b" "b_pos b \<le> b_pos b'" "b_pos b' < length (b_mem b)"
    using d r by auto
  show "ck_of_nat (ck_state ctx') = Ck_chunk_data"
    using d r s by (metis ck_of_to_nat fst_conv)
  show "b_pos b' = b_pos b \<longrightarrow> ck_size ctx' \<noteq> 0"
    using d r s by (auto simp: ck_load_def Let_def split: if_splits)
qed

section \<open>Cutting out the data\<close>

datatype cf_rc = Cf_again | Cf_done | Cf_bad_request | Cf_too_large

text \<open>
  The part of the request the filter changes: \<open>rb->chunked\<close>, \<open>rb->rest\<close>,
  \<open>r->headers_in.content_length_n\<close>, \<open>r->lingering_close\<close>, and the list \<open>out\<close> of the buffers it hands
  on, each as its bytes. \<open>rb_last\<close> is whether the buffer marked \<open>last_buf\<close> has been added.
  Allocation is taken to succeed.
\<close>

record ngx_body =
  rb_chunked :: ngx_http_chunked
  rb_rest :: int
  content_length_n :: nat
  lingering_close :: bool
  rb_out :: "bytes list"
  rb_last :: bool

text \<open>
  One buffer holding data of a chunk: take \<open>n\<close> bytes, the rest of the chunk or all there are.
\<close>

definition cf_take :: "nat \<Rightarrow> nat \<Rightarrow> ngx_body \<Rightarrow> ngx_buf \<Rightarrow> ngx_body \<times> ngx_buf" where
  "cf_take n left body b =
     (body\<lparr>rb_chunked := (rb_chunked body)\<lparr>ck_size := left\<rparr>,
        content_length_n := content_length_n body + n,
        rb_out := rb_out body @ [slice (b_mem b) (b_pos b) (b_pos b + n)]\<rparr>,
      b\<lparr>b_pos := b_pos b + n\<rparr>)"

definition cf_chunk :: "ngx_body \<Rightarrow> ngx_buf \<Rightarrow> ngx_body \<times> ngx_buf" where
  "cf_chunk body b =
     (let size = length (b_mem b) - b_pos b; csize = ck_size (rb_chunked body) in
      if csize < size then cf_take csize 0 body b else cf_take size (csize - size) body b)"

lemma cf_chunk_pos:
  "b_mem (snd (cf_chunk body b)) = b_mem b"
  "b_pos b < length (b_mem b) \<Longrightarrow> ck_size (rb_chunked body) \<noteq> 0 \<Longrightarrow> b_pos b < b_pos (snd (cf_chunk body b))"
  "b_pos b \<le> b_pos (snd (cf_chunk body b))"
  by (simp_all add: cf_chunk_def cf_take_def Let_def)

lemma cf_progress:
  assumes "ngx_http_parse_chunked (rb_chunked body) b = (NGX_OK, ctx, b')"
    and "cf_chunk (body\<lparr>rb_chunked := ctx\<rparr>) b' = (body'', b'')"
  shows "length (b_mem b'') - b_pos b'' < length (b_mem b) - b_pos b"
proof -
  note p = parse_chunked_ok [OF assms(1)]
  have "b_mem b'' = b_mem b" "b_pos b' \<le> b_pos b''"
    "ck_size ctx \<noteq> 0 \<longrightarrow> b_pos b' < b_pos b''"
    using cf_chunk_pos [where body = "body\<lparr>rb_chunked := ctx\<rparr>" and b = b'] assms(2) p(1,3) by auto
  with p show ?thesis by auto
qed

text \<open>The loop \<open>for ( ;; )\<close> over one buffer.\<close>

function cf_loop :: "nat \<Rightarrow> ngx_body \<Rightarrow> ngx_buf \<Rightarrow> cf_rc \<times> ngx_body \<times> ngx_buf" where
  "cf_loop max_size body b =
     (case ngx_http_parse_chunked (rb_chunked body) b of (rc, ctx, b') \<Rightarrow>
        let body' = body\<lparr>rb_chunked := ctx\<rparr> in
        if rc = NGX_OK then
          (if max_size \<noteq> 0 \<and> int max_size - int (content_length_n body) < int (ck_size ctx)
           then (Cf_too_large, body'\<lparr>lingering_close := True\<rparr>, b')
           else (case cf_chunk body' b' of (body'', b'') \<Rightarrow> cf_loop max_size body'' b''))
        else if rc = NGX_DONE then (Cf_done, body'\<lparr>rb_rest := 0, rb_last := True\<rparr>, b')
        else if rc = NGX_AGAIN then (Cf_again, body'\<lparr>rb_rest := int (ck_length ctx)\<rparr>, b')
        else (Cf_bad_request, body', b'))"
  by pat_completeness auto
termination
  by (relation "measure (\<lambda>(m, body, b). length (b_mem b) - b_pos b)")
    (auto intro: cf_progress simp: eq_commute [of _ "ngx_http_parse_chunked _ _"] eq_commute [of _ "cf_chunk _ _"])

declare cf_loop.simps [simp del]

text \<open>The filter on a chain of buffers.\<close>

definition ngx_http_chunked_zero :: ngx_http_chunked where
  "ngx_http_chunked_zero = \<lparr>ck_state = 0, ck_size = 0, ck_length = 0\<rparr>"

definition cf_start :: "ngx_body \<Rightarrow> ngx_body" where
  "cf_start body =
     (if rb_rest body = -1 then
        body\<lparr>rb_chunked := ngx_http_chunked_zero, content_length_n := 0, rb_rest := 3\<rparr>
      else body)"

fun cf_chain :: "nat \<Rightarrow> ngx_body \<Rightarrow> ngx_buf list \<Rightarrow> cf_rc option \<times> ngx_body" where
  "cf_chain max_size body [] = (None, body)"
| "cf_chain max_size body (b # bs) =
     (case cf_loop max_size body b of (rc, body', b') \<Rightarrow>
        if rc = Cf_bad_request \<or> rc = Cf_too_large then (Some rc, body')
        else cf_chain max_size body' bs)"

definition ngx_http_request_body_chunked_filter ::
    "nat \<Rightarrow> ngx_body \<Rightarrow> ngx_buf list \<Rightarrow> cf_rc option \<times> ngx_body" where
  "ngx_http_request_body_chunked_filter max_size body bufs = cf_chain max_size (cf_start body) bufs"

section \<open>Skipping the data\<close>

definition discard_chunk :: "ngx_http_chunked \<Rightarrow> ngx_buf \<Rightarrow> ngx_http_chunked \<times> ngx_buf" where
  "discard_chunk ctx b =
     (let size = length (b_mem b) - b_pos b in
      if ck_size ctx < size then (ctx\<lparr>ck_size := 0\<rparr>, b\<lparr>b_pos := b_pos b + ck_size ctx\<rparr>)
      else (ctx\<lparr>ck_size := ck_size ctx - size\<rparr>, b\<lparr>b_pos := length (b_mem b)\<rparr>))"

lemma discard_chunk_pos:
  "b_mem (snd (discard_chunk ctx b)) = b_mem b"
  "b_pos b < length (b_mem b) \<Longrightarrow> ck_size ctx \<noteq> 0 \<Longrightarrow> b_pos b < b_pos (snd (discard_chunk ctx b))"
  "b_pos b < length (b_mem b) \<Longrightarrow> b_pos b \<le> b_pos (snd (discard_chunk ctx b))"
  by (simp_all add: discard_chunk_def Let_def)

lemma discard_progress:
  assumes "ngx_http_parse_chunked ctx b = (NGX_OK, ctx', b')" and "discard_chunk ctx' b' = (ctx'', b'')"
  shows "length (b_mem b'') - b_pos b'' < length (b_mem b) - b_pos b"
proof -
  note p = parse_chunked_ok [OF assms(1)]
  have "b_mem b'' = b_mem b" "b_pos b' \<le> b_pos b''" "ck_size ctx' \<noteq> 0 \<longrightarrow> b_pos b' < b_pos b''"
    using discard_chunk_pos [where ctx = ctx' and b = b'] assms(2) p(1,3) by auto
  with p show ?thesis by auto
qed

function discard_loop :: "ngx_http_chunked \<Rightarrow> ngx_buf \<Rightarrow> cf_rc \<times> nat \<times> ngx_http_chunked \<times> ngx_buf" where
  "discard_loop ctx b =
     (case ngx_http_parse_chunked ctx b of (rc, ctx', b') \<Rightarrow>
        if rc = NGX_OK then
          (case discard_chunk ctx' b' of (ctx'', b'') \<Rightarrow> discard_loop ctx'' b'')
        else if rc = NGX_DONE then (Cf_done, 0, ctx', b')
        else if rc = NGX_AGAIN then (Cf_again, ck_length ctx', ctx', b')
        else (Cf_bad_request, 0, ctx', b'))"
  by pat_completeness auto
termination
  by (relation "measure (\<lambda>(ctx, b). length (b_mem b) - b_pos b)")
    (auto intro: discard_progress simp: eq_commute [of _ "ngx_http_parse_chunked _ _"]
      eq_commute [of _ "discard_chunk _ _"])

declare discard_loop.simps [simp del]

text \<open>
  The whole filter: \<open>None\<close> is its \<open>NGX_OK\<close>. Without chunks the rest of the body is counted by
  \<open>r->headers_in.content_length_n\<close>.
\<close>

definition ngx_http_discard_request_body_filter ::
    "bool \<Rightarrow> nat \<Rightarrow> ngx_http_chunked \<Rightarrow> ngx_buf \<Rightarrow> cf_rc option \<times> nat \<times> ngx_http_chunked \<times> ngx_buf" where
  "ngx_http_discard_request_body_filter chunked cl ctx b =
     (if chunked then
        (case discard_loop ctx b of (rc, cl', ctx', b') \<Rightarrow>
           if rc = Cf_bad_request then (Some rc, cl, ctx', b') else (None, cl', ctx', b'))
      else
        (let size = length (b_mem b) - b_pos b in
         if cl < size then (None, 0, ctx, b\<lparr>b_pos := b_pos b + cl\<rparr>)
         else (None, cl - size, ctx, b\<lparr>b_pos := length (b_mem b)\<rparr>)))"

section \<open>One byte at a time\<close>

text \<open>
  The reference decoder takes one byte at a time: a byte of framing moves the state machine, a
  byte of data is handed on and counted down. \<open>n\<close> is how much has been received.
\<close>

datatype ref_out = Ref_bad | Ref_too_large | Ref_fin | Ref_go ck_sw nat "u_char option"

definition huge :: "nat \<Rightarrow> bool" where
  "huge sz \<longleftrightarrow> NGX_MAX_OFF_T_VALUE - 5 < int sz"

definition ref_byte :: "nat \<Rightarrow> nat \<Rightarrow> ck_sw \<times> nat \<Rightarrow> u_char \<Rightarrow> ref_out" where
  "ref_byte max_size n s c =
     (case s of (st, sz) \<Rightarrow>
        if st = Ck_chunk_data then
          (if max_size \<noteq> 0 \<and> max_size < n + sz then Ref_too_large
           else Ref_go (if sz = 1 then Ck_after_data else Ck_chunk_data) (sz - 1) (Some c))
        else
          (case ck_step [] 0 c (st, \<lparr>ck_state = 0, ck_size = sz, ck_length = 0\<rparr>) of
             Cont (st', ctx) \<Rightarrow> if huge (ck_size ctx) then Ref_bad else Ref_go st' (ck_size ctx) None
           | Leave e s' \<Rightarrow> if e = Ck_done then Ref_fin else Ref_bad))"

datatype ref_res = Ref_error | Ref_large | Ref_more "ck_sw \<times> nat" bytes | Ref_done bytes bytes

fun ref_run :: "nat \<Rightarrow> nat \<Rightarrow> ck_sw \<times> nat \<Rightarrow> bytes \<Rightarrow> bytes \<Rightarrow> ref_res" where
  "ref_run max_size n s acc [] = Ref_more s acc"
| "ref_run max_size n s acc (c # cs) =
     (case ref_byte max_size n s c of
        Ref_bad \<Rightarrow> Ref_error
      | Ref_too_large \<Rightarrow> Ref_large
      | Ref_fin \<Rightarrow> Ref_done acc cs
      | Ref_go st sz None \<Rightarrow> ref_run max_size n (st, sz) acc cs
      | Ref_go st sz (Some d) \<Rightarrow> ref_run max_size (n + 1) (st, sz) (acc @ [d]) cs)"

text \<open>The chunk size is known and not zero in the states behind it.\<close>

definition ck_ok :: "ck_sw \<times> nat \<Rightarrow> bool" where
  "ck_ok s \<longleftrightarrow> (fst s \<in> {Ck_chunk_extension, Ck_chunk_extension_almost_done, Ck_chunk_data} \<longrightarrow> snd s \<noteq> 0)"

definition ck_abs :: "ngx_http_chunked \<Rightarrow> ck_sw \<times> nat" where
  "ck_abs ctx = (fst (ck_load ctx), ck_size ctx)"

lemmas ck_state_defs = ck_chunk_start_def ck_chunk_size_def ck_skip_line_def ck_expect_lf_def
  ck_trailer_def ck_trailer_almost_done_def

lemma ck_step_frame:
  "ck_step mem p c (st, ctx) =
     map_flow (\<lambda>(st', x). (st', ctx\<lparr>ck_size := ck_size x\<rparr>)) id
       (ck_step [] 0 c (st, \<lparr>ck_state = 0, ck_size = ck_size ctx, ck_length = 0\<rparr>))"
  by (cases st) (simp_all add: ck_state_defs)

lemma ck_step_ok:
  "ck_ok (st, ck_size ctx) \<Longrightarrow> ck_step mem p c (st, ctx) = Cont (st', ctx') \<Longrightarrow> ck_ok (st', ck_size ctx')"
  by (cases st) (auto simp: ck_ok_def ck_state_defs split: if_splits)

text \<open>A size that is too large stays too large until the parser looks.\<close>

definition sizing :: "ck_sw \<Rightarrow> bool" where
  "sizing st \<longleftrightarrow> st \<in> {Ck_chunk_size, Ck_chunk_extension, Ck_chunk_extension_almost_done, Ck_chunk_data}"

lemma ck_step_huge:
  assumes "huge (ck_size ctx)" and "sizing st"
  shows "case ck_step mem p c (st, ctx) of
      Cont (st', ctx') \<Rightarrow> sizing st' \<and> ctx' = ctx
    | Leave e (st', ctx') \<Rightarrow> e \<noteq> Ck_done \<and> ctx' = ctx"
  using assms by (auto simp: sizing_def huge_def ck_state_defs)

lemma scan_huge:
  assumes "huge (ck_size ctx)" and "sizing st"
  shows "case scan ck_step mem p xs (st, ctx) of
      Ran_out q s \<Rightarrow> huge (ck_size (snd s))
    | Left_at e q s \<Rightarrow> e \<noteq> Ck_done \<and> huge (ck_size (snd s))"
  using assms
proof (induction xs arbitrary: p st)
  case (Cons x xs)
  show ?case
  proof (cases "ck_step mem p x (st, ctx)")
    case (Cont s)
    with Cons.IH [of "fst s" "Suc p"] ck_step_huge [OF Cons.prems, of mem p x] Cons.prems(1)
    show ?thesis by (cases s) auto
  next
    case (Leave e s)
    with ck_step_huge [OF Cons.prems, of mem p x] Cons.prems(1) show ?thesis by (cases s) auto
  qed
qed simp

lemma becomes_huge:
  assumes "ck_step mem p c (st, ctx) = Cont (st', ctx')" and "\<not> huge (ck_size ctx)" and "huge (ck_size ctx')"
  shows "sizing st'"
  using assms by (cases st) (auto simp: sizing_def ck_state_defs split: if_splits)

text \<open>What a scan over framing bytes is for the reference.\<close>

fun scan_means :: "nat \<Rightarrow> nat \<Rightarrow> bytes \<Rightarrow> nat \<Rightarrow> bytes \<Rightarrow> (ck_sw \<times> ngx_http_chunked, ck_exit) scanned \<Rightarrow> ref_res \<Rightarrow> bool" where
  "scan_means m n acc p xs (Ran_out q (st, ctx)) res \<longleftrightarrow>
     res = (if huge (ck_size ctx) then Ref_error else Ref_more (st, ck_size ctx) acc) \<and> ck_ok (st, ck_size ctx)"
| "scan_means m n acc p xs (Left_at e q (st, ctx)) res \<longleftrightarrow>
     p \<le> q \<and> res = (case e of
       Ck_invalid \<Rightarrow> Ref_error
     | Ck_done \<Rightarrow> Ref_done acc (drop (Suc q - p) xs)
     | Ck_data \<Rightarrow> if huge (ck_size ctx) then Ref_error
         else ref_run m n (Ck_chunk_data, ck_size ctx) acc (drop (q - p) xs)) \<and>
     (e = Ck_data \<longrightarrow> st = Ck_chunk_data \<and> ck_size ctx \<noteq> 0)"

lemma scan_means_Cons:
  assumes "scan_means m n acc (Suc p) xs x res"
  shows "scan_means m n acc p (c # xs) x res"
  using assms by (cases x rule: scanned.exhaust; cases "(case x of Ran_out q s \<Rightarrow> s | Left_at e q s \<Rightarrow> s)")
    (auto simp: Suc_diff_le Suc_le_eq drop_Cons' split: ck_exit.splits)


lemma ref_byte_frame:
  assumes "st \<noteq> Ck_chunk_data"
  shows "ref_byte m n (st, ck_size ctx) c =
    (case ck_step mem p c (st, ctx) of
       Cont (st', ctx') \<Rightarrow> if huge (ck_size ctx') then Ref_bad else Ref_go st' (ck_size ctx') None
     | Leave e s' \<Rightarrow> if e = Ck_done then Ref_fin else Ref_bad)"
  using assms by (subst ck_step_frame) (auto simp: ref_byte_def split: flow.split)

lemma scan_means_huge:
  assumes "huge (ck_size ctx)" and "sizing st" and "ck_ok (st, ck_size ctx)"
  shows "scan_means m n acc p xs (scan ck_step mem p xs (st, ctx)) Ref_error"
  using assms(2,3)
proof (induction xs arbitrary: p st)
  case Nil
  then show ?case using assms(1) by simp
next
  case (Cons x xs)
  note one = ck_step_huge [OF assms(1) Cons.prems(1), of mem p x]
  show ?case
  proof (cases "ck_step mem p x (st, ctx)")
    case (Cont s)
    then obtain st' where s: "s = (st', ctx)" "sizing st'" using one by (cases s) auto
    have "ck_ok (st', ck_size ctx)" using ck_step_ok [OF Cons.prems(2)] Cont s by simp
    from Cons.IH [OF s(2) this, of "Suc p"] show ?thesis
      using Cont s by (auto intro: scan_means_Cons)
  next
    case (Leave e s)
    have data: "e = Ck_data \<longrightarrow> fst s = Ck_chunk_data \<and> s = (st, ctx)"
      using ck_step_data [of mem p x "(st, ctx)" s] Leave by auto
    show ?thesis
      using one Leave assms(1) data Cons.prems(2)
      by (cases s) (auto simp: ck_ok_def split: ck_exit.split)
  qed
qed

lemma scan_ref:
  assumes "ck_ok (st, ck_size ctx)" and "\<not> huge (ck_size ctx)"
  shows "scan_means m n acc p xs (scan ck_step mem p xs (st, ctx)) (ref_run m n (st, ck_size ctx) acc xs)"
  using assms
proof (induction xs arbitrary: p st ctx)
  case Nil
  then show ?case by simp
next
  case (Cons x xs)
  show ?case
  proof (cases "st = Ck_chunk_data")
    case True
    with Cons.prems show ?thesis by (simp add: ck_ok_def)
  next
    case False
    note byte = ref_byte_frame [OF False, of m n ctx x mem p]
    show ?thesis
    proof (cases "ck_step mem p x (st, ctx)")
      case (Cont s)
      obtain st' ctx' where s: "s = (st', ctx')" by (cases s)
      have ok: "ck_ok (st', ck_size ctx')" using ck_step_ok [OF Cons.prems(1)] Cont s by simp
      show ?thesis
      proof (cases "huge (ck_size ctx')")
        case True
        then have "sizing st'" using becomes_huge Cont s Cons.prems(2) by blast
        from scan_means_huge [OF True this ok] show ?thesis
          using byte Cont s True by (auto intro: scan_means_Cons)
      next
        case False
        from Cons.IH [OF ok this] show ?thesis
          using byte Cont s False by (auto intro: scan_means_Cons)
      qed
    next
      case (Leave e s)
      have "e \<noteq> Ck_data"
        using ck_step_data [of mem p x "(st, ctx)" s] Leave False by auto
      then show ?thesis
        using byte Leave by (cases s) (auto split: ck_exit.split)
    qed
  qed
qed

text \<open>Taking the data of a chunk at once.\<close>

definition data_left :: "nat \<Rightarrow> ck_sw \<times> nat" where
  "data_left k = (if k = 0 then Ck_after_data else Ck_chunk_data, k)"

lemma ref_run_data:
  assumes "m = 0 \<or> n + sz \<le> m" and "k \<le> sz" and "k \<le> length xs"
  shows "ref_run m n (data_left sz) acc xs =
    ref_run m (n + k) (data_left (sz - k)) (acc @ take k xs) (drop k xs)"
  using assms
proof (induction k arbitrary: n sz acc xs)
  case (Suc k)
  then obtain x xs' where xs: "xs = x # xs'" by (cases xs) auto
  have sz: "0 < sz" using Suc.prems by simp
  then have "ref_run m n (data_left sz) acc xs = ref_run m (n + 1) (data_left (sz - 1)) (acc @ [x]) xs'"
    using Suc.prems(1) by (auto simp: xs data_left_def ref_byte_def)
  also have "\<dots> = ref_run m (n + 1 + k) (data_left (sz - 1 - k)) ((acc @ [x]) @ take k xs') (drop k xs')"
    using Suc.prems sz by (intro Suc.IH) (auto simp: xs)
  finally show ?case by (simp add: xs)
qed simp


lemma ck_abs_saved:
  "ck_ok (st, ck_size ctx) \<Longrightarrow> ck_state ctx = ck_to_nat st \<Longrightarrow> ck_abs ctx = (st, ck_size ctx)"
  by (auto simp: ck_abs_def ck_load_def ck_ok_def Let_def simp del: ck_to_nat.simps)

lemma ck_rest_saved:
  "ck_rest st (ctx\<lparr>ck_state := i, ck_length := ck_rest st (ctx\<lparr>ck_state := j\<rparr>)\<rparr>) = ck_rest st (ctx\<lparr>ck_state := j\<rparr>)"
  by (cases st) simp_all

lemma parse_chunked_mem: "ngx_http_parse_chunked ctx b = (rc, ctx', b') \<Longrightarrow> b_mem b' = b_mem b"
  by (auto simp: ngx_http_parse_chunked_def drive_def ck_at_data_def ck_leave_def Let_def
      split: scanned.splits prod.splits ck_exit.splits if_splits)

lemma ck_at_data_cases:
  assumes "ck_ok (st, ck_size ctx)"
  shows "ck_at_data rc p (st, ctx) b =
    (if huge (ck_size ctx) then (NGX_ERROR, ctx\<lparr>ck_state := ck_to_nat st\<rparr>, b\<lparr>b_pos := p\<rparr>)
     else (rc, ctx\<lparr>ck_state := ck_to_nat st, ck_length := ck_rest st (ctx\<lparr>ck_state := ck_to_nat st\<rparr>)\<rparr>, b\<lparr>b_pos := p\<rparr>))"
  by (simp add: ck_at_data_def huge_def Let_def)

lemma parse_chunked_ref:
  assumes "ck_ok (ck_abs ctx)" and "\<not> huge (ck_size ctx)" and "b_pos b \<le> length (b_mem b)"
    and "ngx_http_parse_chunked ctx b = (rc, ctx', b')"
    and "res = ref_run m n (ck_abs ctx) acc (drop (b_pos b) (b_mem b))"
  shows "case rc of
      NGX_AGAIN \<Rightarrow> res = Ref_more (ck_abs ctx') acc \<and> ck_ok (ck_abs ctx') \<and> \<not> huge (ck_size ctx') \<and>
        b_pos b' = length (b_mem b) \<and> ck_length ctx' = ck_rest (fst (ck_abs ctx')) ctx'
    | NGX_OK \<Rightarrow> res = ref_run m n (Ck_chunk_data, ck_size ctx') acc (drop (b_pos b') (b_mem b)) \<and>
        \<not> huge (ck_size ctx') \<and> ck_size ctx' \<noteq> 0 \<and> ck_of_nat (ck_state ctx') = Ck_chunk_data
    | NGX_DONE \<Rightarrow> res = Ref_done acc (drop (b_pos b') (b_mem b))
    | NGX_ERROR \<Rightarrow> res = Ref_error
    | _ \<Rightarrow> False"
proof -
  let ?xs = "drop (b_pos b) (b_mem b)"
  have load: "ck_load ctx = (fst (ck_abs ctx), ctx)"
    by (simp add: ck_abs_def ck_load_def Let_def)
  have abs: "ck_abs ctx = (fst (ck_abs ctx), ck_size ctx)"
    by (simp add: ck_abs_def)
  have means: "scan_means m n acc (b_pos b) ?xs (scan ck_step (b_mem b) (b_pos b) ?xs (ck_load ctx)) res"
    using scan_ref [of "fst (ck_abs ctx)" ctx m n acc "b_pos b" ?xs "b_mem b"] assms(1,2)
    by (simp add: assms(5) load flip: abs)
  show ?thesis
  proof (cases "scan ck_step (b_mem b) (b_pos b) ?xs (ck_load ctx)")
    case (Ran_out q s)
    obtain st c where s: "s = (st, c)" by (cases s)
    have ok: "ck_ok (st, ck_size c)" and res: "res = (if huge (ck_size c) then Ref_error else Ref_more (st, ck_size c) acc)"
      using means Ran_out s by simp_all
    have "q = length (b_mem b)" using scan_Ran_out_pos [OF Ran_out] assms(3) by simp
    then show ?thesis
      using assms(4) Ran_out s ok res ck_at_data_cases [OF ok] ck_abs_saved [of st ctx'] ck_rest_saved [where st = st and ctx = c]
      by (auto simp: ngx_http_parse_chunked_def drive_def simp del: ck_to_nat.simps split: if_splits)
  next
    case (Left_at e q s)
    obtain st c where s: "s = (st, c)" by (cases s)
    have le: "b_pos b \<le> q" using means Left_at s by simp
    show ?thesis
    proof (cases e)
      case Ck_data
      then have st: "st = Ck_chunk_data" "ck_size c \<noteq> 0"
        and res: "res = (if huge (ck_size c) then Ref_error
           else ref_run m n (Ck_chunk_data, ck_size c) acc (drop q (b_mem b)))"
        using means Left_at s le by simp_all
      have ok: "ck_ok (st, ck_size c)" using st by (simp add: ck_ok_def)
      show ?thesis
        using assms(4) Left_at s st res ck_at_data_cases [OF ok] Ck_data
        by (auto simp: ngx_http_parse_chunked_def drive_def ck_leave_def simp del: ck_to_nat.simps split: if_splits)
    next
      case Ck_done
      then show ?thesis
        using assms(4) means Left_at s le
        by (auto simp: ngx_http_parse_chunked_def drive_def ck_leave_def Suc_diff_le)
    next
      case Ck_invalid
      then show ?thesis
        using assms(4) means Left_at s
        by (auto simp: ngx_http_parse_chunked_def drive_def ck_leave_def)
    qed
  qed
qed


text \<open>What the filter's result on a buffer has to be for a result of the reference.\<close>

definition cf_means :: "ref_res \<Rightarrow> cf_rc \<times> ngx_body \<times> ngx_buf \<Rightarrow> bool" where
  "cf_means res x =
     (case x of (rc, body, b) \<Rightarrow>
        case res of
          Ref_error \<Rightarrow> rc = Cf_bad_request
        | Ref_large \<Rightarrow> rc = Cf_too_large
        | Ref_more s data \<Rightarrow> rc = Cf_again \<and> concat (rb_out body) = data \<and> ck_abs (rb_chunked body) = s \<and>
            b_pos b = length (b_mem b) \<and> ck_ok s \<and> \<not> huge (snd s) \<and>
            rb_rest body = int (ck_rest (fst s) (rb_chunked body))
        | Ref_done data rest \<Rightarrow> rc = Cf_done \<and> concat (rb_out body) = data \<and>
            rest = drop (b_pos b) (b_mem b) \<and> rb_last body \<and> rb_rest body = 0)"

lemma ck_abs_size [simp]: "snd (ck_abs ctx) = ck_size ctx"
  by (simp add: ck_abs_def)

lemma cf_chunk_data:
  assumes "ck_of_nat (ck_state (rb_chunked body)) = Ck_chunk_data" and "\<not> huge (ck_size (rb_chunked body))"
    and "b_pos b < length (b_mem b)" and "m = 0 \<or> content_length_n body + ck_size (rb_chunked body) \<le> m"
    and "cf_chunk body b = (body', b')"
  shows "ref_run m (content_length_n body) (data_left (ck_size (rb_chunked body))) (concat (rb_out body))
      (drop (b_pos b) (b_mem b)) =
    ref_run m (content_length_n body') (ck_abs (rb_chunked body')) (concat (rb_out body')) (drop (b_pos b') (b_mem b'))"
    and "ck_ok (ck_abs (rb_chunked body'))" and "\<not> huge (ck_size (rb_chunked body'))"
    and "b_pos b' \<le> length (b_mem b')"
proof -
  let ?sz = "ck_size (rb_chunked body)"
  let ?xs = "drop (b_pos b) (b_mem b)"
  let ?k = "min ?sz (length ?xs)"
  have r: "(body', b') = cf_take ?k (?sz - ?k) body b"
    using assms(5) by (auto simp: cf_chunk_def Let_def split: if_splits)
  then have b': "b_mem b' = b_mem b" "b_pos b' = b_pos b + ?k"
    and body': "content_length_n body' = content_length_n body + ?k"
      "rb_chunked body' = (rb_chunked body)\<lparr>ck_size := ?sz - ?k\<rparr>"
      "rb_out body' = rb_out body @ [take ?k ?xs]"
    by (simp_all add: cf_take_def slice_def)
  have abs: "ck_abs (rb_chunked body') = data_left (?sz - ?k)"
    using assms(1) by (simp add: ck_abs_def ck_load_def body' data_left_def)
  show "ref_run m (content_length_n body) (data_left ?sz) (concat (rb_out body)) ?xs =
      ref_run m (content_length_n body') (ck_abs (rb_chunked body')) (concat (rb_out body')) (drop (b_pos b') (b_mem b'))"
    using ref_run_data [of m "content_length_n body" ?sz ?k ?xs "concat (rb_out body)"] assms(4)
    unfolding abs by (simp add: b' body' add.commute)
  show "ck_ok (ck_abs (rb_chunked body'))"
    unfolding abs by (simp add: data_left_def ck_ok_def)
  show "\<not> huge (ck_size (rb_chunked body'))" using assms(2) by (simp add: body' huge_def)
  show "b_pos b' \<le> length (b_mem b')" using assms(3) by (simp add: b')
qed

lemma cf_loop_ref:
  assumes "ck_ok (ck_abs (rb_chunked body))" and "\<not> huge (ck_size (rb_chunked body))"
    and "b_pos b \<le> length (b_mem b)"
  shows "cf_means (ref_run m (content_length_n body) (ck_abs (rb_chunked body)) (concat (rb_out body))
    (drop (b_pos b) (b_mem b))) (cf_loop m body b)"
  using assms
proof (induction m body b rule: cf_loop.induct)
  case (1 m body b)
  let ?n = "content_length_n body" and ?acc = "concat (rb_out body)" and ?xs = "drop (b_pos b) (b_mem b)"
  let ?res = "ref_run m ?n (ck_abs (rb_chunked body)) ?acc ?xs"
  obtain rc ctx b' where parse: "ngx_http_parse_chunked (rb_chunked body) b = (rc, ctx, b')"
    by (cases "ngx_http_parse_chunked (rb_chunked body) b") auto
  note ref = parse_chunked_ref [OF "1.prems" parse refl, of m ?n ?acc]
  have mem: "b_mem b' = b_mem b" by (rule parse_chunked_mem [OF parse])
  show ?case
  proof (cases "rc = NGX_OK")
    case True
    with ref have res: "?res = ref_run m ?n (Ck_chunk_data, ck_size ctx) ?acc (drop (b_pos b') (b_mem b))"
      and ctx: "\<not> huge (ck_size ctx)" "ck_size ctx \<noteq> 0" "ck_of_nat (ck_state ctx) = Ck_chunk_data" by simp_all
    have lt: "b_pos b' < length (b_mem b)"
      using parse_chunked_ok(3) [of "rb_chunked body" b ctx b'] parse True by simp
    show ?thesis
    proof (cases "m \<noteq> 0 \<and> int m - int ?n < int (ck_size ctx)")
      case large: True
      obtain x xs where "drop (b_pos b') (b_mem b) = x # xs"
        using lt by (cases "drop (b_pos b') (b_mem b)") auto
      with large have "?res = Ref_large" unfolding res by (auto simp: ref_byte_def)
      then show ?thesis
        using parse True large by (subst cf_loop.simps) (simp add: cf_means_def Let_def)
    next
      case small: False
      obtain body'' b'' where chunk: "cf_chunk (body\<lparr>rb_chunked := ctx\<rparr>) b' = (body'', b'')"
        by (cases "cf_chunk (body\<lparr>rb_chunked := ctx\<rparr>) b'")
      have "m = 0 \<or> ?n + ck_size ctx \<le> m" using small by auto
      then have data: "?res = ref_run m (content_length_n body'') (ck_abs (rb_chunked body''))
          (concat (rb_out body'')) (drop (b_pos b'') (b_mem b''))"
        "ck_ok (ck_abs (rb_chunked body''))" "\<not> huge (ck_size (rb_chunked body''))"
        "b_pos b'' \<le> length (b_mem b'')"
        using cf_chunk_data [OF _ _ _ _ chunk, of m] ctx lt mem res by (simp_all add: data_left_def)
      have "cf_loop m body b = cf_loop m body'' b''"
        using parse True small chunk by (subst cf_loop.simps) (auto simp: Let_def)
      with "1.IH" [OF parse [symmetric] refl refl True small chunk [symmetric] data(2-4)] data(1)
      show ?thesis by simp
    qed
  next
    case False
    then show ?thesis
      using ref parse mem
      by (subst cf_loop.simps) (auto simp: cf_means_def Let_def ck_abs_def split: ngx_rc.splits)
  qed
qed

section \<open>What the filter guarantees\<close>

text \<open>A context the parser may be called with: zeroed, or left by an earlier call.\<close>

definition ck_good :: "ngx_http_chunked \<Rightarrow> bool" where
  "ck_good ctx \<longleftrightarrow> ck_ok (ck_abs ctx) \<and> \<not> huge (ck_size ctx)"

lemma ck_good_zero: "ck_good ngx_http_chunked_zero"
  by (simp add: ck_good_def ngx_http_chunked_zero_def ck_abs_def ck_load_def ck_of_nat_def ck_enum_def
      ck_ok_def huge_def)

text \<open>C9: Taking the data of the chunks out of a buffer in as large pieces as possible is the same
  as decoding it one byte at a time: the filter reports an error, a body that is too large, the
  end of the body or the need for more bytes exactly when the byte-wise decoder does, hands on the
  same data, and leaves the same bytes unread and the same state for the next buffer.\<close>

theorem chunked_filter_refines:
  assumes "ck_good (rb_chunked body)" and "b_pos b \<le> length (b_mem b)"
  shows "cf_means (ref_run max_size (content_length_n body) (ck_abs (rb_chunked body)) (concat (rb_out body))
    (drop (b_pos b) (b_mem b))) (cf_loop max_size body b)"
  using assms cf_loop_ref by (simp add: ck_good_def)

definition ngx_body_init :: ngx_body where
  "ngx_body_init = \<lparr>rb_chunked = ngx_http_chunked_zero, rb_rest = 3, content_length_n = 0,
     lingering_close = False, rb_out = [], rb_last = False\<rparr>"

theorem chunked_filter_refines_witness:
  "ck_good (rb_chunked ngx_body_init) \<and>
   cf_means (Ref_done (lit ''abc'') (lit ''X''))
     (cf_loop 0 ngx_body_init \<lparr>b_mem = lit ''3'' @ [LF] @ lit ''abc'' @ [LF] @ lit ''0'' @ [LF, LF] @ lit ''X'', b_pos = 0\<rparr>)"
proof -
  let ?b = "\<lparr>b_mem = lit ''3'' @ [LF] @ lit ''abc'' @ [LF] @ lit ''0'' @ [LF, LF] @ lit ''X'', b_pos = 0\<rparr>"
  have good: "ck_good (rb_chunked ngx_body_init)"
    by (simp add: ngx_body_init_def ck_good_zero)
  have "ref_run 0 (content_length_n ngx_body_init) (ck_abs (rb_chunked ngx_body_init))
      (concat (rb_out ngx_body_init)) (drop (b_pos ?b) (b_mem ?b)) = Ref_done (lit ''abc'') (lit ''X'')"
    by code_simp
  with chunked_filter_refines [OF good, of ?b 0] good show ?thesis by simp
qed

lemma cf_loop_mem: "cf_loop m body b = (rc, body', b') \<Longrightarrow> b_mem b' = b_mem b"
proof (induction m body b rule: cf_loop.induct)
  case (1 m body b)
  obtain c ctx b1 where parse: "ngx_http_parse_chunked (rb_chunked body) b = (c, ctx, b1)"
    by (cases "ngx_http_parse_chunked (rb_chunked body) b") auto
  have mem: "b_mem b1 = b_mem b" by (rule parse_chunked_mem [OF parse])
  let ?large = "m \<noteq> 0 \<and> int m - int (content_length_n body) < int (ck_size ctx)"
  show ?case
  proof (cases "c = NGX_OK \<and> \<not> ?large")
    case True
    obtain body2 b2 where chunk: "cf_chunk (body\<lparr>rb_chunked := ctx\<rparr>) b1 = (body2, b2)"
      by (cases "cf_chunk (body\<lparr>rb_chunked := ctx\<rparr>) b1")
    have "cf_loop m body2 b2 = (rc, body', b')"
      using "1.prems" parse True chunk by (subst (asm) cf_loop.simps) (auto simp: Let_def split: if_splits)
    from "1.IH" [OF parse [symmetric] refl refl _ _ chunk [symmetric] this] True
    have "b_mem b' = b_mem b2" by blast
    then show ?thesis using cf_chunk_pos(1) [of "body\<lparr>rb_chunked := ctx\<rparr>" b1] chunk mem by simp
  next
    case False
    then show ?thesis
      using "1.prems" parse mem by (subst (asm) cf_loop.simps) (auto simp: Let_def split: if_splits)
  qed
qed

lemma cf_chunk_count:
  "cf_chunk body b = (body', b') \<Longrightarrow> b_pos b < length (b_mem b) \<Longrightarrow>
    content_length_n body' + length (concat (rb_out body)) = content_length_n body + length (concat (rb_out body'))"
  by (auto simp: cf_chunk_def cf_take_def Let_def slice_def split: if_splits)

lemma cf_loop_count:
  assumes "cf_loop m body b = (rc, body', b')"
  shows "content_length_n body' + length (concat (rb_out body)) = content_length_n body + length (concat (rb_out body'))"
  using assms
proof (induction m body b rule: cf_loop.induct)
  case (1 m body b)
  obtain c ctx b1 where parse: "ngx_http_parse_chunked (rb_chunked body) b = (c, ctx, b1)"
    by (cases "ngx_http_parse_chunked (rb_chunked body) b") auto
  let ?large = "m \<noteq> 0 \<and> int m - int (content_length_n body) < int (ck_size ctx)"
  show ?case
  proof (cases "c = NGX_OK \<and> \<not> ?large")
    case True
    obtain body2 b2 where chunk: "cf_chunk (body\<lparr>rb_chunked := ctx\<rparr>) b1 = (body2, b2)"
      by (cases "cf_chunk (body\<lparr>rb_chunked := ctx\<rparr>) b1")
    have "cf_loop m body2 b2 = (rc, body', b')"
      using "1.prems" parse True chunk by (subst (asm) cf_loop.simps) (auto simp: Let_def split: if_splits)
    from "1.IH" [OF parse [symmetric] refl refl _ _ chunk [symmetric] this] True
    have "content_length_n body' + length (concat (rb_out body2)) =
        content_length_n body2 + length (concat (rb_out body'))" by blast
    moreover have "b_pos b1 < length (b_mem b1)"
      using parse_chunked_ok [of "rb_chunked body" b ctx b1] parse True by simp
    ultimately show ?thesis using cf_chunk_count [OF chunk] by simp
  next
    case False
    then show ?thesis
      using "1.prems" parse by (subst (asm) cf_loop.simps) (auto simp: Let_def split: if_splits)
  qed
qed

lemma cf_loop_count':
  "content_length_n (fst (snd (cf_loop m body b))) + length (concat (rb_out body)) =
    content_length_n body + length (concat (rb_out (fst (snd (cf_loop m body b)))))"
  using cf_loop_count [of m body b] by (cases "cf_loop m body b") auto

lemma named_state: "ck_state ctx < 13 \<Longrightarrow> fst (ck_abs ctx) \<noteq> Ck_no_case k"
proof -
  assume "ck_state ctx < 13"
  moreover have "length ck_enum = 13" by (simp add: ck_enum_def)
  ultimately have "ck_of_nat (ck_state ctx) \<in> set ck_enum"
    by (simp add: ck_of_nat_def)
  then show ?thesis by (auto simp: ck_abs_def ck_load_def ck_enum_def Let_def)
qed

lemma ref_run_append:
  "ref_run m n s acc (xs @ ys) =
    (case ref_run m n s acc xs of
       Ref_more s' acc' \<Rightarrow> ref_run m (n + length acc' - length acc) s' acc' ys
     | Ref_done d rest \<Rightarrow> Ref_done d (rest @ ys)
     | r \<Rightarrow> r)"
  and ref_run_acc: "ref_run m n s acc xs = Ref_more s' acc' \<Longrightarrow> length acc \<le> length acc'"
proof (induction xs arbitrary: n s acc)
  case (Cons x xs)
  { case 1
    show ?case
    proof (cases "ref_byte m n s x")
      case (Ref_go st k d)
      then show ?thesis
        using Cons.IH(1) Cons.IH(2) by (auto split: option.split ref_res.split dest: Cons.IH(2) simp: Suc_diff_le) 
    qed simp_all
  next
    case 2
    then show ?case using Cons.IH(2) by (auto split: ref_out.splits option.splits dest: Cons.IH(2))
  }
qed simp_all

text \<open>What a caller relies on in a result: not how the data is cut into buffers, nor where in the
  buffer of input the parser stopped.\<close>

definition cf_view :: "cf_rc \<times> ngx_body \<times> ngx_buf \<Rightarrow> cf_rc \<times> (bytes \<times> nat \<times> int \<times> (ck_sw \<times> nat) option \<times> bytes) option" where
  "cf_view x =
     (case x of (rc, body, b) \<Rightarrow>
        (rc, if rc = Cf_bad_request \<or> rc = Cf_too_large then None
             else Some (concat (rb_out body), content_length_n body, rb_rest body,
               if rc = Cf_again then Some (ck_abs (rb_chunked body)) else None, drop (b_pos b) (b_mem b))))"

lemma cf_means_view:
  assumes "cf_means res x" and "cf_means res y"
    and "content_length_n (fst (snd x)) + length (concat (rb_out (fst (snd y)))) =
      content_length_n (fst (snd y)) + length (concat (rb_out (fst (snd x))))"
    and "\<forall>s d k. res = Ref_more s d \<longrightarrow> fst s \<noteq> Ck_no_case k"
  shows "cf_view x = cf_view y"
proof -
  obtain rc body b where x: "x = (rc, body, b)" by (cases x)
  obtain rc' body' b' where y: "y = (rc', body', b')" by (cases y)
  have rest: "ck_rest st c = ck_rest st d" if "ck_size c = ck_size d" "\<forall>k. st \<noteq> Ck_no_case k" for st c d
    using that by (cases st) simp_all
  show ?thesis
    using assms rest [of "rb_chunked body" "rb_chunked body'" "fst (ck_abs (rb_chunked body))"]
    by (cases res) (auto simp: x y cf_means_def cf_view_def ck_abs_def)
qed

lemma no_case_stays: "ref_run m n s acc xs = Ref_more s' d \<Longrightarrow> fst s' = Ck_no_case k \<Longrightarrow> fst s = Ck_no_case k"
proof (induction xs arbitrary: n s acc)
  case (Cons x xs)
  show ?case
  proof (cases "ref_byte m n s x")
    case (Ref_go st sz c)
    with Cons have "st = Ck_no_case k" by (cases c) auto
    with Ref_go show ?thesis
      by (cases s; cases "fst s") (auto simp: ref_byte_def ck_state_defs split: if_splits)
  qed (use Cons.prems in auto)
qed simp

text \<open>However a chunked body is cut into buffers, the filter gives the same data, the same count of
  bytes, the same verdict and the same expectation of what is to come: if it asks for more
  behind \<open>xs\<close>, filtering \<open>ys\<close> next is the same as filtering \<open>xs @ ys\<close> at once.\<close>

lemma chunked_filter_fragmentation:
  assumes "ck_good (rb_chunked body)" and "ck_state (rb_chunked body) < 13"
    and "cf_loop max_size body \<lparr>b_mem = xs, b_pos = 0\<rparr> = (Cf_again, body1, b1)"
  shows "cf_view (cf_loop max_size body1 \<lparr>b_mem = ys, b_pos = 0\<rparr>) =
    cf_view (cf_loop max_size body \<lparr>b_mem = xs @ ys, b_pos = 0\<rparr>)"
proof -
  let ?n = "content_length_n body" and ?acc = "concat (rb_out body)" and ?s = "ck_abs (rb_chunked body)"
  let ?r1 = "ref_run max_size ?n ?s ?acc xs"
  have good: "ck_ok ?s" "\<not> huge (ck_size (rb_chunked body))" using assms(1) by (simp_all add: ck_good_def)
  have "cf_means ?r1 (Cf_again, body1, b1)"
    using cf_loop_ref [OF good, of "\<lparr>b_mem = xs, b_pos = 0\<rparr>" max_size] assms(3) by simp
  then have r1: "?r1 = Ref_more (ck_abs (rb_chunked body1)) (concat (rb_out body1))"
    and good1: "ck_ok (ck_abs (rb_chunked body1))" "\<not> huge (ck_size (rb_chunked body1))"
    by (auto simp: cf_means_def split: ref_res.splits)
  have count: "content_length_n body1 = ?n + length (concat (rb_out body1)) - length ?acc"
    using cf_loop_count [OF assms(3)] by simp
  let ?res = "ref_run max_size ?n ?s ?acc (xs @ ys)"
  have "?res = ref_run max_size (content_length_n body1) (ck_abs (rb_chunked body1)) (concat (rb_out body1)) ys"
    by (simp add: ref_run_append r1 count)
  then have "cf_means ?res (cf_loop max_size body1 \<lparr>b_mem = ys, b_pos = 0\<rparr>)"
    using cf_loop_ref [OF good1, of "\<lparr>b_mem = ys, b_pos = 0\<rparr>" max_size] by simp
  moreover have "cf_means ?res (cf_loop max_size body \<lparr>b_mem = xs @ ys, b_pos = 0\<rparr>)"
    using cf_loop_ref [OF good, of "\<lparr>b_mem = xs @ ys, b_pos = 0\<rparr>" max_size] by simp
  moreover have "content_length_n (fst (snd (cf_loop max_size body1 \<lparr>b_mem = ys, b_pos = 0\<rparr>))) +
      length (concat (rb_out (fst (snd (cf_loop max_size body \<lparr>b_mem = xs @ ys, b_pos = 0\<rparr>))))) =
      content_length_n (fst (snd (cf_loop max_size body \<lparr>b_mem = xs @ ys, b_pos = 0\<rparr>))) +
      length (concat (rb_out (fst (snd (cf_loop max_size body1 \<lparr>b_mem = ys, b_pos = 0\<rparr>)))))"
    using cf_loop_count [OF assms(3)] cf_loop_count' [of max_size body1 "\<lparr>b_mem = ys, b_pos = 0\<rparr>"]
      cf_loop_count' [of max_size body "\<lparr>b_mem = xs @ ys, b_pos = 0\<rparr>"] by simp
  moreover have "fst ?s \<noteq> Ck_no_case k" for k
    using assms(2) by (rule named_state)
  ultimately show ?thesis using no_case_stays by (intro cf_means_view) blast+
qed

section \<open>Sizes do not overflow\<close>

lemma hex_letter_val_less: "is_hex_letter c \<Longrightarrow> hex_letter_val c < 16"
  by (erule byte_imp [where P = is_hex_letter, rotated]) code_simp

lemma digit_val_hex: "is_digit c \<Longrightarrow> digit_val c < 16"
  using digit_val_less [of c] by simp

lemma ck_step_bound:
  assumes "int (ck_size ctx) \<le> NGX_MAX_OFF_T_VALUE"
  shows "case ck_step mem p c (st, ctx) of
      Cont s' \<Rightarrow> int (ck_size (snd s')) \<le> NGX_MAX_OFF_T_VALUE
    | Leave e s' \<Rightarrow> int (ck_size (snd s')) \<le> NGX_MAX_OFF_T_VALUE"
  using assms hex_letter_val_less [of c] digit_val_hex [of c]
  by (cases st) (auto simp: ck_state_defs)

lemma scan_ck_bound:
  assumes "int (ck_size (snd s)) \<le> NGX_MAX_OFF_T_VALUE"
  shows "case scan ck_step mem p xs s of
      Ran_out q s' \<Rightarrow> int (ck_size (snd s')) \<le> NGX_MAX_OFF_T_VALUE
    | Left_at e q s' \<Rightarrow> int (ck_size (snd s')) \<le> NGX_MAX_OFF_T_VALUE"
  using assms
proof (induction xs arbitrary: p s)
  case (Cons x xs)
  then show ?case
    using ck_step_bound [of "snd s" mem p x "fst s"] by (auto split: flow.split)
qed simp

lemma ck_step_named:
  assumes "\<forall>k. fst s \<noteq> Ck_no_case k"
  shows "case ck_step mem p c s of
      Cont s' \<Rightarrow> \<forall>k. fst s' \<noteq> Ck_no_case k | Leave e s' \<Rightarrow> \<forall>k. fst s' \<noteq> Ck_no_case k"
  using assms by (cases s; cases "fst s") (auto simp: ck_state_defs)

lemma scan_named:
  assumes "\<forall>k. fst s \<noteq> Ck_no_case k"
  shows "case scan ck_step mem p xs s of
      Ran_out q s' \<Rightarrow> \<forall>k. fst s' \<noteq> Ck_no_case k | Left_at e q s' \<Rightarrow> \<forall>k. fst s' \<noteq> Ck_no_case k"
  using assms
proof (induction xs arbitrary: p s)
  case (Cons x xs)
  then show ?case using ck_step_named [of s mem p x] by (auto split: flow.split)
qed simp

text \<open>C11: No arithmetic of the chunked parser overflows: before every byte and in every result
  \<open>ctx->size\<close> is at most \<open>NGX_MAX_OFF_T_VALUE\<close>, and so is the \<open>ctx->length\<close> computed from it.\<close>

theorem chunked_no_overflow:
  assumes "int (ck_size ctx) \<le> NGX_MAX_OFF_T_VALUE" and "ck_state ctx < 13"
  shows "(\<forall>k. case scan ck_step (b_mem b) (b_pos b) (take k (drop (b_pos b) (b_mem b))) (ck_load ctx) of
        Ran_out q s \<Rightarrow> int (ck_size (snd s)) \<le> NGX_MAX_OFF_T_VALUE
      | Left_at e q s \<Rightarrow> int (ck_size (snd s)) \<le> NGX_MAX_OFF_T_VALUE) \<and>
    (case ngx_http_parse_chunked ctx b of (rc, ctx', b') \<Rightarrow>
      int (ck_size ctx') \<le> NGX_MAX_OFF_T_VALUE \<and>
      (rc \<in> {NGX_OK, NGX_AGAIN} \<longrightarrow> int (ck_length ctx') \<le> NGX_MAX_OFF_T_VALUE))"
proof -
  have load: "int (ck_size (snd (ck_load ctx))) \<le> NGX_MAX_OFF_T_VALUE"
    using assms(1) by (simp add: ck_load_def Let_def)
  have named: "\<forall>k. fst (ck_load ctx) \<noteq> Ck_no_case k"
    using named_state [OF assms(2)] by (simp add: ck_abs_def)
  have rest: "int (ck_rest st c) \<le> NGX_MAX_OFF_T_VALUE" if "int (ck_size c) \<le> NGX_MAX_OFF_T_VALUE - 5"
    "\<forall>k. st \<noteq> Ck_no_case k" for st c
    using that by (cases st) auto
  show ?thesis
  proof (intro conjI allI)
    fix k
    show "case scan ck_step (b_mem b) (b_pos b) (take k (drop (b_pos b) (b_mem b))) (ck_load ctx) of
        Ran_out q s \<Rightarrow> int (ck_size (snd s)) \<le> NGX_MAX_OFF_T_VALUE
      | Left_at e q s \<Rightarrow> int (ck_size (snd s)) \<le> NGX_MAX_OFF_T_VALUE"
      by (rule scan_ck_bound [OF load])
    show "case ngx_http_parse_chunked ctx b of (rc, ctx', b') \<Rightarrow>
      int (ck_size ctx') \<le> NGX_MAX_OFF_T_VALUE \<and>
      (rc \<in> {NGX_OK, NGX_AGAIN} \<longrightarrow> int (ck_length ctx') \<le> NGX_MAX_OFF_T_VALUE)"
      using scan_ck_bound [OF load, of "b_mem b" "b_pos b" "drop (b_pos b) (b_mem b)"]
        scan_named [OF named, of "b_mem b" "b_pos b" "drop (b_pos b) (b_mem b)"] rest
      by (auto simp: ngx_http_parse_chunked_def drive_def ck_at_data_def ck_leave_def Let_def
          split: scanned.split ck_exit.split prod.split)
  qed
qed
theorem chunked_no_overflow_witness:
  "int (ck_size ngx_http_chunked_zero) \<le> NGX_MAX_OFF_T_VALUE \<and> ck_state ngx_http_chunked_zero < 13 \<and>
   (case ngx_http_parse_chunked ngx_http_chunked_zero \<lparr>b_mem = lit ''7ffffffffffffff'', b_pos = 0\<rparr> of (rc, ctx', b') \<Rightarrow>
      int (ck_size ctx') \<le> NGX_MAX_OFF_T_VALUE \<and>
      (rc \<in> {NGX_OK, NGX_AGAIN} \<longrightarrow> int (ck_length ctx') \<le> NGX_MAX_OFF_T_VALUE))"
proof -
  have h: "int (ck_size ngx_http_chunked_zero) \<le> NGX_MAX_OFF_T_VALUE" "ck_state ngx_http_chunked_zero < 13"
    by (simp_all add: ngx_http_chunked_zero_def)
  from chunked_no_overflow [OF h, of "\<lparr>b_mem = lit ''7ffffffffffffff'', b_pos = 0\<rparr>"] h show ?thesis by simp
qed

section \<open>How much is still to come\<close>

definition rest_of :: "ck_sw \<times> nat \<Rightarrow> nat" where
  "rest_of s = ck_rest (fst s) \<lparr>ck_state = 0, ck_size = snd s, ck_length = 0\<rparr>"

text \<open>A byte brings the end at most one byte nearer.\<close>

lemma ref_byte_rest:
  assumes "ck_ok s"
  shows "case ref_byte m n s c of
      Ref_go st sz d \<Rightarrow> rest_of s \<le> Suc (rest_of (st, sz)) \<and> ck_ok (st, sz)
    | Ref_fin \<Rightarrow> rest_of s \<le> 1
    | _ \<Rightarrow> True"
proof -
  obtain st sz where s: "s = (st, sz)" by (cases s)
  show ?thesis
    using assms by (cases st) (auto simp: s ref_byte_def rest_of_def ck_ok_def ck_state_defs)
qed

lemma ref_done_rest:
  "ref_run m n s acc xs = Ref_done d rest \<Longrightarrow> ck_ok s \<Longrightarrow> rest_of s + length rest \<le> length xs"
proof (induction xs arbitrary: n s acc)
  case (Cons x xs)
  show ?case
  proof (cases "ref_byte m n s x")
    case (Ref_go st sz c)
    have "rest_of s \<le> Suc (rest_of (st, sz))" "ck_ok (st, sz)"
      using ref_byte_rest [OF Cons.prems(2), of m n x] Ref_go by simp_all
    moreover have "rest_of (st, sz) + length rest \<le> length xs"
      using Cons.IH Cons.prems Ref_go \<open>ck_ok (st, sz)\<close> by (cases c) auto
    ultimately show ?thesis by simp
  next
    case Ref_fin
    then show ?thesis
      using ref_byte_rest [OF Cons.prems(2), of m n x] Cons.prems by auto
  qed (use Cons.prems in auto)
qed simp

text \<open>The shortest end of a body.\<close>

definition last_lf :: bytes where
  "last_lf = [LF, D0, LF, LF]"

fun shortest :: "ck_sw \<times> nat \<Rightarrow> bytes" where
  "shortest (Ck_chunk_start, sz) = [D0, LF, LF]"
| "shortest (Ck_chunk_size, sz) = LF # (if sz \<noteq> 0 then replicate sz 0 @ last_lf else [LF])"
| "shortest (Ck_chunk_extension, sz) = LF # replicate sz 0 @ last_lf"
| "shortest (Ck_chunk_extension_almost_done, sz) = LF # replicate sz 0 @ last_lf"
| "shortest (Ck_chunk_data, sz) = replicate sz 0 @ last_lf"
| "shortest (Ck_after_data, sz) = last_lf"
| "shortest (Ck_after_data_almost_done, sz) = last_lf"
| "shortest (Ck_last_chunk_extension, sz) = [LF, LF]"
| "shortest (Ck_last_chunk_extension_almost_done, sz) = [LF, LF]"
| "shortest (Ck_trailer, sz) = [LF]"
| "shortest (Ck_trailer_almost_done, sz) = [LF]"
| "shortest (Ck_trailer_header, sz) = [LF, LF]"
| "shortest (Ck_trailer_header_almost_done, sz) = [LF, LF]"
| "shortest (Ck_no_case k, sz) = []"

lemma ref_run_last_lf: "sz = 0 \<Longrightarrow> ref_run 0 n (Ck_after_data, sz) acc last_lf = Ref_done acc []"
  by (simp add: last_lf_def ref_byte_def ck_state_defs huge_def is_digit_def is_hex_letter_def digit_val_def)

lemma ref_run_data_end:
  "sz \<noteq> 0 \<Longrightarrow> ref_run 0 n (Ck_chunk_data, sz) acc (replicate sz 0 @ last_lf) =
     Ref_done (acc @ replicate sz 0) []"
  using ref_run_data [of 0 n sz sz "replicate sz 0 @ last_lf" acc] ref_run_last_lf [of 0 "n + sz"]
  by (simp add: data_left_def)

lemma shortest_done:
  assumes "ck_ok (st, sz)" and "\<forall>k. st \<noteq> Ck_no_case k" and "int sz \<le> NGX_MAX_OFF_T_VALUE div 16"
  shows "\<exists>d. ref_run 0 n (st, sz) acc (shortest (st, sz)) = Ref_done d []"
    and "length (shortest (st, sz)) = rest_of (st, sz)"
proof -
  show "length (shortest (st, sz)) = rest_of (st, sz)"
    using assms(2) by (cases st) (simp_all add: rest_of_def last_lf_def)
  show "\<exists>d. ref_run 0 n (st, sz) acc (shortest (st, sz)) = Ref_done d []"
    using assms ref_run_data_end [of sz] ref_run_last_lf [of 0]
    by (cases st) (auto simp: ref_byte_def ck_state_defs ck_ok_def huge_def is_digit_def is_hex_letter_def digit_val_def last_lf_def)
qed

lemma rest_of_abs: "ck_state ctx < 13 \<Longrightarrow> ck_rest (fst (ck_abs ctx)) ctx = rest_of (ck_abs ctx)"
  using named_state [of ctx] by (cases "fst (ck_abs ctx)") (auto simp: rest_of_def)

lemma named_rest: "\<forall>k. fst s \<noteq> Ck_no_case k \<Longrightarrow> snd s = ck_size ctx \<Longrightarrow> ck_rest (fst s) ctx = rest_of s"
  by (cases "fst s") (auto simp: rest_of_def)

text \<open>\<open>rb->rest\<close> is exactly the number of bytes the shortest end of the body still has. When the
  filter asks for more, no continuation of the body ends within fewer than \<open>rb->rest\<close> bytes, so
  reading that many never reads into the next request; and unless the size of the current chunk
  is going to be rejected, there is a continuation of that length that ends the body.\<close>

lemma chunked_rest_exact:
  assumes "ck_good (rb_chunked body)" and "ck_state (rb_chunked body) < 13" and "b_pos b \<le> length (b_mem b)"
    and "cf_loop max_size body b = (Cf_again, body1, b1)"
  shows "(\<forall>ys body2 b2. cf_loop max_size body1 \<lparr>b_mem = ys, b_pos = 0\<rparr> = (Cf_done, body2, b2) \<longrightarrow>
      rb_rest body1 \<le> int (b_pos b2)) \<and>
    (int (ck_size (rb_chunked body1)) \<le> NGX_MAX_OFF_T_VALUE div 16 \<longrightarrow>
      (\<exists>ys. int (length ys) = rb_rest body1 \<and> fst (cf_loop 0 body1 \<lparr>b_mem = ys, b_pos = 0\<rparr>) = Cf_done))"
proof -
  let ?s = "ck_abs (rb_chunked body1)"
  have good: "ck_ok (ck_abs (rb_chunked body))" "\<not> huge (ck_size (rb_chunked body))"
    using assms(1) by (simp_all add: ck_good_def)
  have r1: "ref_run max_size (content_length_n body) (ck_abs (rb_chunked body)) (concat (rb_out body))
      (drop (b_pos b) (b_mem b)) = Ref_more ?s (concat (rb_out body1))"
    and ok: "ck_ok ?s" "\<not> huge (ck_size (rb_chunked body1))"
    and rest: "rb_rest body1 = int (ck_rest (fst ?s) (rb_chunked body1))"
    using cf_loop_ref [OF good assms(3), of max_size] assms(4) by (auto simp: cf_means_def split: ref_res.splits)
  have named: "\<forall>k. fst ?s \<noteq> Ck_no_case k"
    using no_case_stays [OF r1] named_state [OF assms(2)] by blast
  have rest': "rb_rest body1 = int (rest_of ?s)"
    using rest named_rest [OF named] by simp
  have lower: "rb_rest body1 \<le> int (b_pos b2)"
    if "cf_loop max_size body1 \<lparr>b_mem = ys, b_pos = 0\<rparr> = (Cf_done, body2, b2)" for ys body2 b2
  proof -
    let ?r = "ref_run max_size (content_length_n body1) ?s (concat (rb_out body1)) ys"
    have "b_mem b2 = ys" using cf_loop_mem [OF that] by simp
    moreover have "cf_means ?r (Cf_done, body2, b2)"
      using cf_loop_ref [OF ok, of "\<lparr>b_mem = ys, b_pos = 0\<rparr>" max_size] that by simp
    ultimately obtain d where "?r = Ref_done d (drop (b_pos b2) ys)"
      by (cases ?r) (auto simp: cf_means_def)
    from ref_done_rest [OF this ok(1)] show ?thesis unfolding rest' by simp
  qed
  have upper: "\<exists>ys. int (length ys) = rb_rest body1 \<and> fst (cf_loop 0 body1 \<lparr>b_mem = ys, b_pos = 0\<rparr>) = Cf_done"
    if "int (ck_size (rb_chunked body1)) \<le> NGX_MAX_OFF_T_VALUE div 16"
  proof -
    obtain st sz where s: "?s = (st, sz)" by (cases ?s)
    have sz: "int sz \<le> NGX_MAX_OFF_T_VALUE div 16" using that arg_cong [OF s, of snd] by simp
    obtain d where "ref_run 0 (content_length_n body1) ?s (concat (rb_out body1)) (shortest ?s) = Ref_done d []"
      and len: "length (shortest ?s) = rest_of ?s"
      using shortest_done(1) [of st sz "content_length_n body1" "concat (rb_out body1)"]
        shortest_done(2) [of st sz] ok(1) named sz s by auto
    then have "fst (cf_loop 0 body1 \<lparr>b_mem = shortest ?s, b_pos = 0\<rparr>) = Cf_done"
      using cf_loop_ref [OF ok, of "\<lparr>b_mem = shortest ?s, b_pos = 0\<rparr>" 0]
      by (auto simp: cf_means_def split: prod.splits)
    with len rest' show ?thesis by auto
  qed
  from lower upper show ?thesis by blast
qed

section \<open>Decoding what was encoded\<close>

definition hex_digit :: "nat \<Rightarrow> u_char" where
  "hex_digit d = (if d < 10 then D0 + word_of_nat d else c_a + word_of_nat (d - 10))"

fun hex_str :: "nat \<Rightarrow> bytes" where
  "hex_str n = (if n < 16 then [hex_digit n] else hex_str (n div 16) @ [hex_digit (n mod 16)])"

declare hex_str.simps [simp del]

definition chunk :: "bytes \<Rightarrow> bytes" where
  "chunk data = hex_str (length data) @ [CR, LF] @ data @ [CR, LF]"

definition chunked_body :: "bytes list \<Rightarrow> bytes" where
  "chunked_body chunks = concat (map chunk chunks) @ [D0, CR, LF, CR, LF]"

lemma hex_digit_cases:
  assumes "d < 16"
  shows "is_digit (hex_digit d) \<and> digit_val (hex_digit d) = d \<or>
    \<not> is_digit (hex_digit d) \<and> is_hex_letter (hex_digit d) \<and> hex_letter_val (hex_digit d) = d"
proof -
  have "list_all (\<lambda>d. is_digit (hex_digit d) \<and> digit_val (hex_digit d) = d \<or>
    \<not> is_digit (hex_digit d) \<and> is_hex_letter (hex_digit d) \<and> hex_letter_val (hex_digit d) = d) [0..<16]"
    by code_simp
  then show ?thesis using assms by (simp add: list_all_iff)
qed

lemma ref_run_first_digit:
  "d < 16 \<Longrightarrow> ref_run m n (Ck_chunk_start, sz) acc (hex_digit d # ys) = ref_run m n (Ck_chunk_size, d) acc ys"
  using hex_digit_cases [of d] by (auto simp: ref_byte_def ck_state_defs huge_def)

lemma ref_run_next_digit:
  "d < 16 \<Longrightarrow> int (sz * 16 + d) \<le> NGX_MAX_OFF_T_VALUE - 5 \<Longrightarrow>
   ref_run m n (Ck_chunk_size, sz) acc (hex_digit d # ys) = ref_run m n (Ck_chunk_size, sz * 16 + d) acc ys"
  using hex_digit_cases [of d] by (auto simp: ref_byte_def ck_state_defs huge_def)

lemma ref_run_hex_str:
  "int k \<le> NGX_MAX_OFF_T_VALUE - 5 \<Longrightarrow>
   ref_run m n (Ck_chunk_start, sz) acc (hex_str k @ ys) = ref_run m n (Ck_chunk_size, k) acc ys"
proof (induction k arbitrary: ys rule: hex_str.induct)
  case (1 k)
  show ?case
  proof (cases "k < 16")
    case True
    then show ?thesis by (simp add: hex_str.simps [of k] ref_run_first_digit del: ref_run.simps)
  next
    case False
    then have "ref_run m n (Ck_chunk_start, sz) acc (hex_str k @ ys) =
        ref_run m n (Ck_chunk_size, k div 16) acc (hex_digit (k mod 16) # ys)"
      using 1 by (subst hex_str.simps) (simp del: ref_run.simps)
    also have "\<dots> = ref_run m n (Ck_chunk_size, k) acc ys"
      using 1(2) by (subst ref_run_next_digit) (simp_all del: ref_run.simps)
    finally show ?thesis .
  qed
qed

lemma ref_run_chunk:
  assumes "data \<noteq> []" and "int (length data) \<le> NGX_MAX_OFF_T_VALUE div 16"
  shows "ref_run m n (Ck_chunk_start, sz) acc (chunk data @ ys) =
    (if m = 0 \<or> n + length data \<le> m then ref_run m (n + length data) (Ck_chunk_start, 0) (acc @ data) ys else Ref_large)"
proof -
  have crlf: "ref_run m n (Ck_chunk_size, length data) acc (CR # LF # zs) =
      ref_run m n (Ck_chunk_data, length data) acc zs" for zs
    using assms by (simp add: ref_byte_def ck_state_defs huge_def is_digit_def is_hex_letter_def)
  have large: "ref_run m n (Ck_chunk_data, length data) acc (data @ zs) = Ref_large" if "\<not> (m = 0 \<or> n + length data \<le> m)" for zs
    using that assms(1) by (cases data) (auto simp: ref_byte_def)
  have data: "ref_run m n (Ck_chunk_data, length data) acc (data @ zs) =
      ref_run m (n + length data) (Ck_after_data, 0) (acc @ data) zs" if "m = 0 \<or> n + length data \<le> m" for zs
    using ref_run_data [OF that, of "length data" "data @ zs" acc] assms(1) by (simp add: data_left_def)
  have "ref_run m (n + length data) (Ck_after_data, 0) (acc @ data) (CR # LF # ys) =
      ref_run m (n + length data) (Ck_chunk_start, 0) (acc @ data) ys"
    by (simp add: ref_byte_def ck_state_defs huge_def)
  then show ?thesis
    using assms(2) by (auto simp: chunk_def ref_run_hex_str crlf data large simp del: ref_run.simps)
qed

lemma ref_run_chunks:
  assumes "\<forall>data \<in> set chunks. data \<noteq> [] \<and> int (length data) \<le> NGX_MAX_OFF_T_VALUE div 16" and "m = 0 \<or> n \<le> m"
  shows "ref_run m n (Ck_chunk_start, sz) acc (chunked_body chunks @ rest) =
    (if m = 0 \<or> n + length (concat chunks) \<le> m then Ref_done (acc @ concat chunks) rest else Ref_large)"
  using assms
proof (induction chunks arbitrary: n sz acc)
  case Nil
  then show ?case
    by (simp add: chunked_body_def ref_byte_def ck_state_defs huge_def is_digit_def is_hex_letter_def digit_val_def)
next
  case (Cons data chunks)
  have "ref_run m n (Ck_chunk_start, sz) acc (chunked_body (data # chunks) @ rest) =
      (if m = 0 \<or> n + length data \<le> m then ref_run m (n + length data) (Ck_chunk_start, 0) (acc @ data) (chunked_body chunks @ rest) else Ref_large)"
    using ref_run_chunk [of data m n sz acc "chunked_body chunks @ rest"] Cons.prems(1) by (simp add: chunked_body_def del: ref_run.simps)
  then show ?case using Cons.IH [of "n + length data" 0 "acc @ data"] Cons.prems(1) by (auto simp del: ref_run.simps)
qed

text \<open>C10: A chunked body is decoded to what was encoded. The chunks are not empty and not longer than a sixteenth of the largest
  offset, and the body is in one buffer. If there is no limit on the size (\<open>max_size\<close> is 0) or the data is not
  longer than the limit, the filter ends with \<open>NGX_DONE\<close>, hands on the concatenation of the chunks, counts their bytes, and stops
  right behind the last chunk, at whatever follows in the buffer. Otherwise it answers that the body is too large.\<close>

theorem chunked_roundtrip:
  assumes "\<forall>data \<in> set chunks. data \<noteq> [] \<and> int (length data) \<le> NGX_MAX_OFF_T_VALUE div 16"
  shows "\<exists>rc body b. cf_loop max_size ngx_body_init \<lparr>b_mem = chunked_body chunks @ rest, b_pos = 0\<rparr> = (rc, body, b) \<and>
    (if max_size = 0 \<or> length (concat chunks) \<le> max_size then
       rc = Cf_done \<and> concat (rb_out body) = concat chunks \<and> content_length_n body = length (concat chunks) \<and>
       rb_rest body = 0 \<and> rb_last body \<and> drop (b_pos b) (b_mem b) = rest
     else rc = Cf_too_large)"
proof -
  let ?b = "\<lparr>b_mem = chunked_body chunks @ rest, b_pos = 0\<rparr>"
  obtain rc body b where x: "cf_loop max_size ngx_body_init ?b = (rc, body, b)"
    by (cases "cf_loop max_size ngx_body_init ?b") auto
  have good: "ck_ok (ck_abs (rb_chunked ngx_body_init))" "\<not> huge (ck_size (rb_chunked ngx_body_init))"
    using ck_good_zero by (simp_all add: ck_good_def ngx_body_init_def)
  have "ck_abs (rb_chunked ngx_body_init) = (Ck_chunk_start, 0)"
    by (simp add: ngx_body_init_def ngx_http_chunked_zero_def ck_abs_def ck_load_def ck_of_nat_def ck_enum_def)
  then have "cf_means (if max_size = 0 \<or> length (concat chunks) \<le> max_size then Ref_done (concat chunks) rest else Ref_large) (rc, body, b)"
    using cf_loop_ref [OF good, of ?b max_size] x ref_run_chunks [OF assms, of max_size 0 0 "[]" rest, unfolded append_Nil]
    by (simp add: ngx_body_init_def split del: if_split)
  moreover have "content_length_n body = length (concat (rb_out body))"
    using cf_loop_count [OF x] by (simp add: ngx_body_init_def)
  ultimately show ?thesis using x by (auto simp: cf_means_def)
qed

theorem chunked_roundtrip_witness:
  "(\<exists>body b. cf_loop 1048576 ngx_body_init
     \<lparr>b_mem = chunked_body [lit ''hello, wide world!'', lit ''x''] @ lit ''GET'', b_pos = 0\<rparr> = (Cf_done, body, b) \<and>
    concat (rb_out body) = lit ''hello, wide world!x'' \<and> drop (b_pos b) (b_mem b) = lit ''GET'')
   \<and> (\<exists>body b. cf_loop 18 ngx_body_init
     \<lparr>b_mem = chunked_body [lit ''hello, wide world!'', lit ''x''] @ lit ''GET'', b_pos = 0\<rparr> = (Cf_too_large, body, b))"
  using chunked_roundtrip [of "[lit ''hello, wide world!'', lit ''x'']" 1048576 "lit ''GET''"]
    chunked_roundtrip [of "[lit ''hello, wide world!'', lit ''x'']" 18 "lit ''GET''"] by fastforce

section \<open>Skipping is filtering without the data\<close>

lemma discard_chunk_eq:
  assumes "cf_chunk body b = (body', b')" and "b_pos b < length (b_mem b)"
  shows "discard_chunk (rb_chunked body) b = (rb_chunked body', b')"
  using assms by (auto simp: cf_chunk_def cf_take_def discard_chunk_def Let_def split: if_splits)

text \<open>Skipping a chunked body consumes the same bytes and leaves the same state as filtering it
  without a limit on its size, and has the same verdict.\<close>

lemma discard_agrees:
  "discard_loop (rb_chunked body) b =
    (case cf_loop 0 body b of (rc, body', b') \<Rightarrow>
       (rc, if rc = Cf_again then ck_length (rb_chunked body') else 0, rb_chunked body', b'))"
proof (induction "0::nat" body b rule: cf_loop.induct)
  case (1 body b)
  obtain c ctx b1 where parse: "ngx_http_parse_chunked (rb_chunked body) b = (c, ctx, b1)"
    by (cases "ngx_http_parse_chunked (rb_chunked body) b") auto
  show ?case
  proof (cases "c = NGX_OK")
    case True
    obtain body2 b2 where chunk: "cf_chunk (body\<lparr>rb_chunked := ctx\<rparr>) b1 = (body2, b2)"
      by (cases "cf_chunk (body\<lparr>rb_chunked := ctx\<rparr>) b1")
    have "b_pos b1 < length (b_mem b1)"
      using parse_chunked_ok [of "rb_chunked body" b ctx b1] parse True by simp
    then have "discard_chunk ctx b1 = (rb_chunked body2, b2)"
      using discard_chunk_eq [OF chunk] by simp
    then show ?thesis
      using "1" [OF parse [symmetric] refl refl True _ chunk [symmetric]] parse True chunk
      by (subst discard_loop.simps, subst cf_loop.simps) (simp add: Let_def)
  next
    case False
    then show ?thesis
      using parse by (subst discard_loop.simps, subst cf_loop.simps) (simp add: Let_def)
  qed
qed

text \<open>The bytes between the data of a chunk and the end of its line are not checked: here \<open>junk\<close>
  is skipped.\<close>

lemma chunked_skips_junk:
  "(case cf_loop 0 ngx_body_init
      \<lparr>b_mem = lit ''1'' @ [LF] @ lit ''ajunk'' @ [LF] @ lit ''0'' @ [LF, LF], b_pos = 0\<rparr> of (rc, body, b) \<Rightarrow>
    rc = Cf_done \<and> concat (rb_out body) = lit ''a'')"
  by code_simp

end
