(* ===== verification/Ngx_Number.thy ===== *)
theory Ngx_Number
  imports Ngx_Base
begin

unbundle bit_operations_syntax

text \<open>
  Numbers in text, after src/core/ngx_string.c: the decimal readers \<open>ngx_atoi\<close>, \<open>ngx_atosz\<close>,
  \<open>ngx_atoof\<close>, \<open>ngx_atotm\<close>, the fixed point reader \<open>ngx_atofp\<close>, the hexadecimal reader
  \<open>ngx_hextoi\<close>, and the writers \<open>ngx_sprintf_num\<close> and \<open>ngx_hex_dump\<close>. Signed 64-bit arithmetic
  wraps in the model; the theorems show that it never does. The locale \<open>decimal_reader\<close> is the
  contract the readers keep and src/core/ngx_parse.c relies on.
\<close>

section \<open>Signed 64-bit arithmetic\<close>

text \<open>\<open>ngx_int_t\<close>, \<open>ssize_t\<close>, \<open>off_t\<close> and \<open>time_t\<close> are signed 64-bit integers. A value is an
  \<open>int\<close>; every product and sum of the sources is brought back to 64 bits by \<open>s64\<close>, so that
  a missing overflow check changes the result.\<close>

definition s64 :: "int \<Rightarrow> int" where
  "s64 x = signed_take_bit 63 x"

lemma s64_id: "-9223372036854775808 \<le> x \<Longrightarrow> x \<le> 9223372036854775807 \<Longrightarrow> s64 x = x"
  unfolding s64_def by (rule signed_take_bit_int_eq_self) simp_all

definition NGX_MAX_INT_T_VALUE :: int where "NGX_MAX_INT_T_VALUE = 9223372036854775807"
definition NGX_MAX_SIZE_T_VALUE :: int where "NGX_MAX_SIZE_T_VALUE = 9223372036854775807"
definition NGX_MAX_OFF_T_VALUE :: int where "NGX_MAX_OFF_T_VALUE = 9223372036854775807"
definition NGX_MAX_TIME_T_VALUE :: int where "NGX_MAX_TIME_T_VALUE = 9223372036854775807"

lemmas ngx_max_values =
  NGX_MAX_INT_T_VALUE_def NGX_MAX_SIZE_T_VALUE_def NGX_MAX_OFF_T_VALUE_def NGX_MAX_TIME_T_VALUE_def

section \<open>Decimal numbers\<close>

text \<open>The loops of \<open>ngx_atoi\<close>, \<open>ngx_atosz\<close>, \<open>ngx_atoof\<close> and \<open>ngx_atotm\<close>, which differ in the
  limit only. \<open>None\<close> is \<open>NGX_ERROR\<close>; \<open>line\<close> is the list of the \<open>n\<close> bytes.\<close>

primrec ato_loop :: "int \<Rightarrow> int \<Rightarrow> int \<Rightarrow> bytes \<Rightarrow> int option" where
  "ato_loop cutoff cutlim v [] = Some v"
| "ato_loop cutoff cutlim v (c # line) =
     (if c < D0 \<or> c > D9 then None
      else if v \<ge> cutoff \<and> (v > cutoff \<or> uint c - 0x30 > cutlim) then None
      else ato_loop cutoff cutlim (s64 (v * 10 + (uint c - 0x30))) line)"

definition ngx_atoi :: "bytes \<Rightarrow> int option" where
  "ngx_atoi line =
     (if line = [] then None
      else ato_loop (NGX_MAX_INT_T_VALUE div 10) (NGX_MAX_INT_T_VALUE mod 10) 0 line)"

definition ngx_atosz :: "bytes \<Rightarrow> int option" where
  "ngx_atosz line =
     (if line = [] then None
      else ato_loop (NGX_MAX_SIZE_T_VALUE div 10) (NGX_MAX_SIZE_T_VALUE mod 10) 0 line)"

definition ngx_atoof :: "bytes \<Rightarrow> int option" where
  "ngx_atoof line =
     (if line = [] then None
      else ato_loop (NGX_MAX_OFF_T_VALUE div 10) (NGX_MAX_OFF_T_VALUE mod 10) 0 line)"

definition ngx_atotm :: "bytes \<Rightarrow> int option" where
  "ngx_atotm line =
     (if line = [] then None
      else ato_loop (NGX_MAX_TIME_T_VALUE div 10) (NGX_MAX_TIME_T_VALUE mod 10) 0 line)"

text \<open>\<open>ngx_atofp\<close>: the loop over the line, then the loop that appends the missing zeros.\<close>

primrec atofp_scale :: "nat \<Rightarrow> int \<Rightarrow> int option" where
  "atofp_scale 0 v = Some v"
| "atofp_scale (Suc point) v =
     (if v > NGX_MAX_INT_T_VALUE div 10 then None else atofp_scale point (s64 (v * 10)))"

primrec atofp_loop :: "nat \<Rightarrow> bool \<Rightarrow> int \<Rightarrow> bytes \<Rightarrow> int option" where
  "atofp_loop point dot v [] = atofp_scale point v"
| "atofp_loop point dot v (c # line) =
     (if point = 0 then None
      else if c = DOT then (if dot then None else atofp_loop point True v line)
      else if c < D0 \<or> c > D9 then None
      else if v \<ge> NGX_MAX_INT_T_VALUE div 10 \<and>
          (v > NGX_MAX_INT_T_VALUE div 10 \<or> uint c - 0x30 > NGX_MAX_INT_T_VALUE mod 10) then None
      else atofp_loop (point - (if dot then 1 else 0)) dot (s64 (v * 10 + (uint c - 0x30))) line)"

definition ngx_atofp :: "bytes \<Rightarrow> nat \<Rightarrow> int option" where
  "ngx_atofp line point = (if line = [] then None else atofp_loop point False 0 line)"

section \<open>Hexadecimal numbers\<close>

primrec hextoi_loop :: "int \<Rightarrow> bytes \<Rightarrow> int option" where
  "hextoi_loop v [] = Some v"
| "hextoi_loop v (ch # line) =
     (if v > NGX_MAX_INT_T_VALUE div 16 then None
      else if D0 \<le> ch \<and> ch \<le> D9 then hextoi_loop (s64 (v * 16 + (uint ch - 0x30))) line
      else let c = ch OR 0x20 in
        if c_a \<le> c \<and> c \<le> c_f then hextoi_loop (s64 (v * 16 + (uint c - 0x61 + 10))) line
        else None)"

definition ngx_hextoi :: "bytes \<Rightarrow> int option" where
  "ngx_hextoi line = (if line = [] then None else hextoi_loop 0 line)"

definition hex_lower :: bytes where
  "hex_lower = lit ''0123456789abcdef''"

definition hex_upper :: bytes where
  "hex_upper = lit ''0123456789ABCDEF''"

primrec ngx_hex_dump :: "bytes \<Rightarrow> bytes" where
  "ngx_hex_dump [] = []"
| "ngx_hex_dump (c # src) =
     hex_lower ! unat (drop_bit 4 c) # hex_lower ! unat (c AND 0xf) # ngx_hex_dump src"

section \<open>Printing\<close>

text \<open>
  \<open>ngx_sprintf_num\<close>. The digits are stored downwards from the end of \<open>temp\<close>; \<open>digits\<close> is what
  is there already. Numbers that fit 32 bits are divided in 32 bits.
\<close>

definition NGX_MAX_UINT32_VALUE :: "64 word" where "NGX_MAX_UINT32_VALUE = 0xffffffff"

lemma word_div_ten_nz: "v div 10 \<noteq> 0 \<Longrightarrow> 0 < unat (v :: 'a::len word)"
  by (cases "v = 0") (auto simp: unat_gt_0)

function dec32_digits :: "32 word \<Rightarrow> bytes \<Rightarrow> bytes" where
  "dec32_digits v temp =
     (let temp = (ucast (v mod 10) + D0) # temp; v = v div 10
      in if v = 0 then temp else dec32_digits v temp)"
  by auto

termination dec32_digits
  by (relation "measure (\<lambda>(v, _). unat v)")
    (auto simp: Let_def unat_div dest: word_div_ten_nz)

function dec64_digits :: "64 word \<Rightarrow> bytes \<Rightarrow> bytes" where
  "dec64_digits v temp =
     (let temp = (ucast (v mod 10) + D0) # temp; v = v div 10
      in if v = 0 then temp else dec64_digits v temp)"
  by auto

termination dec64_digits
  by (relation "measure (\<lambda>(v, _). unat v)")
    (auto simp: Let_def unat_div dest: word_div_ten_nz)

lemma word_drop_less: "drop_bit 4 v \<noteq> 0 \<Longrightarrow> unat (drop_bit 4 v) < unat (v :: 'a::len word)"
proof -
  assume nz: "drop_bit 4 v \<noteq> 0"
  then have "0 < unat v" by (cases "v = 0") (simp_all add: unat_gt_0)
  moreover have "unat (drop_bit 4 v) = unat v div 16"
    using drop_bit_eq_div [of 4 "unat v"] unat_drop_bit_eq [of 4 v] by simp
  ultimately show ?thesis by simp
qed

function hex64_digits :: "bytes \<Rightarrow> 64 word \<Rightarrow> bytes \<Rightarrow> bytes" where
  "hex64_digits tab v temp =
     (let temp = tab ! unat (ucast (v AND 0xf) :: 32 word) # temp; v = drop_bit 4 v
      in if v = 0 then temp else hex64_digits tab v temp)"
  by auto

termination hex64_digits
  by (relation "measure (\<lambda>(_, v, _). unat v)") (auto simp: Let_def word_drop_less)

definition NGX_INT64_LEN :: nat where "NGX_INT64_LEN = 20"

text \<open>\<open>room\<close> is \<open>last - buf\<close>; the result is the bytes written from \<open>buf\<close> on.\<close>

definition num_digits :: "64 word \<Rightarrow> nat \<Rightarrow> bytes" where
  "num_digits ui64 hexadecimal =
     (if hexadecimal = 0 then
        (if ui64 \<le> NGX_MAX_UINT32_VALUE then dec32_digits (ucast ui64) [] else dec64_digits ui64 [])
      else if hexadecimal = 1 then hex64_digits hex_lower ui64 []
      else hex64_digits hex_upper ui64 [])"

definition ngx_sprintf_num :: "nat \<Rightarrow> 64 word \<Rightarrow> u_char \<Rightarrow> nat \<Rightarrow> nat \<Rightarrow> bytes" where
  "ngx_sprintf_num room ui64 zero hexadecimal width =
     (let p = num_digits ui64 hexadecimal;
          pad = replicate (min (width - length p) room) zero;
          len = (if length pad + length p > room then room - length pad else length p)
      in pad @ take len p)"




section \<open>Reading decimal numbers is exact\<close>

definition decimal :: "bytes \<Rightarrow> bool" where
  "decimal line \<longleftrightarrow> line \<noteq> [] \<and> list_all is_digit line"

lemma uint_digit: "is_digit c \<Longrightarrow> uint c - 0x30 = int (digit_val c)"
  by (erule byte_imp [where P = is_digit, rotated]) code_simp

lemma not_digit: "(c < D0 \<or> c > D9) = (\<not> is_digit c)"
  by (auto simp: is_digit_def)

text \<open>The overflow check of the sources says exactly that the new value is within the limit.\<close>

lemma cutoff_check:
  fixes v :: int
  assumes "0 \<le> d" and "d < 10"
  shows "(v \<ge> lim div 10 \<and> (v > lim div 10 \<or> d > lim mod 10)) = (v * 10 + d > lim)"
proof -
  define q r where "q = lim div 10" and "r = lim mod 10"
  then have "lim = q * 10 + r" and "0 \<le> r" and "r < 10" by simp_all
  with assms show ?thesis unfolding q_def [symmetric] r_def [symmetric] by (cases "v < q"; cases "v = q") simp_all
qed

lemma div_less_iff_int:
  fixes v :: int
  assumes "0 < scale"
  shows "(lim div scale < v) = (lim < v * scale)"
proof -
  define q r where "q = lim div scale" and "r = lim mod scale"
  then have lim: "lim = q * scale + r" and r: "0 \<le> r" "r < scale" using assms by simp_all
  show ?thesis
  proof (cases "q < v")
    case True
    then have "(q + 1) * scale \<le> v * scale" using assms by (intro mult_right_mono) simp_all
    with r have "lim < v * scale" unfolding lim distrib_right by linarith
    with True show ?thesis by (simp add: q_def)
  next
    case False
    then have "v * scale \<le> q * scale" using assms by (intro mult_right_mono) simp_all
    with r have "\<not> lim < v * scale" unfolding lim by linarith
    with False show ?thesis by (simp add: q_def)
  qed
qed

lemma ato_loop_exact:
  assumes "0 \<le> v" and "v \<le> lim" and "lim \<le> 9223372036854775807"
  shows "ato_loop (lim div 10) (lim mod 10) v line =
    (if list_all is_digit line \<and> v * 10 ^ length line + int (dec_val line) \<le> lim
     then Some (v * 10 ^ length line + int (dec_val line)) else None)"
  using assms(1,2)
proof (induction line arbitrary: v)
  case (Cons c line)
  show ?case
  proof (cases "is_digit c")
    case True
    define w where "w = v * 10 + int (digit_val c)"
    have d: "0 \<le> int (digit_val c)" "int (digit_val c) < 10"
      using digit_val_less [OF True] by simp_all
    have eq: "v * 10 ^ length (c # line) + int (dec_val (c # line)) =
        w * 10 ^ length line + int (dec_val line)"
      by (simp add: dec_val_Cons w_def algebra_simps)
    have step: "ato_loop (lim div 10) (lim mod 10) v (c # line) =
        (if w > lim then None else ato_loop (lim div 10) (lim mod 10) (s64 w) line)"
      using True by (simp only: ato_loop.simps not_digit uint_digit cutoff_check [OF d] w_def not_True_eq_False if_False)
    have "0 \<le> w" using Cons.prems by (simp add: w_def)
    show ?thesis
    proof (cases "w > lim")
      case True
      have "w * 1 \<le> w * 10 ^ length line"
        using \<open>0 \<le> w\<close> by (intro mult_left_mono) simp_all
      then have "\<not> w * 10 ^ length line + int (dec_val line) \<le> lim"
        using True by linarith
      then show ?thesis unfolding step eq using True by simp
    next
      case False
      then have "s64 w = w" using \<open>0 \<le> w\<close> assms(3) by (intro s64_id) simp_all
      then show ?thesis
        unfolding step eq using False \<open>0 \<le> w\<close> Cons.IH [of w] \<open>is_digit c\<close> by simp
    qed
  qed (simp add: not_digit)
qed simp

text \<open>
  The contract of a decimal reader with a limit, and the loop of the sources as a provider of it.
  The clients of src/core/ngx_parse.c rest on the contract.
\<close>

locale decimal_reader =
  fixes read :: "bytes \<Rightarrow> int option" and lim :: int
  assumes lim_range: "0 \<le> lim" "lim \<le> 9223372036854775807"
    and read_exact: "read line =
      (if decimal line \<and> int (dec_val line) \<le> lim then Some (int (dec_val line)) else None)"
begin

text \<open>A number scaled by a unit, as in \<open>10k\<close>: the check against \<open>lim / scale\<close> is exact.\<close>

lemma read_scaled:
  assumes "0 < scale"
  shows "(case read line of None \<Rightarrow> None
      | Some v \<Rightarrow> if v > lim div scale then None else Some (s64 (v * scale))) =
    (if decimal line \<and> int (dec_val line) * scale \<le> lim
     then Some (int (dec_val line) * scale) else None)"
proof -
  define v where "v = int (dec_val line)"
  have le: "(v > lim div scale) = (v * scale > lim)"
    by (rule div_less_iff_int [OF assms])
  have "v * 1 \<le> v * scale" using assms by (intro mult_left_mono) (simp_all add: v_def)
  then have "v * scale \<le> lim \<Longrightarrow> v \<le> lim" by simp
  moreover have "0 \<le> v * scale" using assms by (simp add: v_def)
  then have "v * scale \<le> lim \<Longrightarrow> s64 (v * scale) = v * scale"
    using lim_range by (intro s64_id) linarith+
  ultimately show ?thesis
    unfolding read_exact v_def [symmetric] using le by auto
qed

end

locale decimal_loop =
  fixes read :: "bytes \<Rightarrow> int option" and lim :: int
  assumes loop_range: "0 \<le> lim" "lim \<le> 9223372036854775807"
    and read_loop: "read line = (if line = [] then None else ato_loop (lim div 10) (lim mod 10) 0 line)"
begin

lemma loop_exact: "read line =
    (if decimal line \<and> int (dec_val line) \<le> lim then Some (int (dec_val line)) else None)"
  unfolding read_loop decimal_def using ato_loop_exact [of 0 lim line] loop_range by simp

end

sublocale decimal_loop \<subseteq> decimal_reader read lim
  by unfold_locales (simp_all add: loop_range loop_exact)

interpretation atoi: decimal_loop ngx_atoi NGX_MAX_INT_T_VALUE
  by unfold_locales (simp_all add: ngx_max_values ngx_atoi_def)

interpretation atosz: decimal_loop ngx_atosz NGX_MAX_SIZE_T_VALUE
  by unfold_locales (simp_all add: ngx_max_values ngx_atosz_def)

interpretation atoof: decimal_loop ngx_atoof NGX_MAX_OFF_T_VALUE
  by unfold_locales (simp_all add: ngx_max_values ngx_atoof_def)

interpretation atotm: decimal_loop ngx_atotm NGX_MAX_TIME_T_VALUE
  by unfold_locales (simp_all add: ngx_max_values ngx_atotm_def)

text \<open>\<open>ngx_atoi\<close>, \<open>ngx_atosz\<close>, \<open>ngx_atoof\<close> and \<open>ngx_atotm\<close> return the number the line writes if the
  line is a non-empty string of decimal digits and the number is within the limit of the type,
  and \<open>NGX_ERROR\<close> otherwise: no overflow, and no number in range refused.\<close>

lemma decimal_numbers_exact:
  "ngx_atoi line = (if decimal line \<and> int (dec_val line) \<le> NGX_MAX_INT_T_VALUE
     then Some (int (dec_val line)) else None)
   \<and> ngx_atosz line = (if decimal line \<and> int (dec_val line) \<le> NGX_MAX_SIZE_T_VALUE
     then Some (int (dec_val line)) else None)
   \<and> ngx_atoof line = (if decimal line \<and> int (dec_val line) \<le> NGX_MAX_OFF_T_VALUE
     then Some (int (dec_val line)) else None)
   \<and> ngx_atotm line = (if decimal line \<and> int (dec_val line) \<le> NGX_MAX_TIME_T_VALUE
     then Some (int (dec_val line)) else None)"
  using atoi.read_exact atosz.read_exact atoof.read_exact atotm.read_exact by blast

section \<open>Fixed point numbers\<close>

text \<open>What a fixed point line means: the digits before the dot, those after it, the value scaled
  to \<open>point\<close> decimals.\<close>

definition fp_int :: "bytes \<Rightarrow> bytes" where
  "fp_int line = takeWhile (\<lambda>c. c \<noteq> DOT) line"

definition fp_frac :: "bytes \<Rightarrow> bytes" where
  "fp_frac line = drop 1 (dropWhile (\<lambda>c. c \<noteq> DOT) line)"

definition fp_value :: "bytes \<Rightarrow> nat \<Rightarrow> int" where
  "fp_value line point =
     int (dec_val (fp_int line @ fp_frac line)) * 10 ^ (point - length (fp_frac line))"

lemma MAX_INT_T: "NGX_MAX_INT_T_VALUE = 9223372036854775807"
  by (rule NGX_MAX_INT_T_VALUE_def)

lemma scale_grows: "0 \<le> v \<Longrightarrow> (v :: int) \<le> v * 10 ^ n"
  using mult_left_mono [of 1 "10 ^ n" v] by simp

lemma atofp_scale_exact:
  assumes "0 \<le> v" and "v \<le> NGX_MAX_INT_T_VALUE"
  shows "atofp_scale point v =
    (if v * 10 ^ point \<le> NGX_MAX_INT_T_VALUE then Some (v * 10 ^ point) else None)"
  using assms
proof (induction point arbitrary: v)
  case (Suc point)
  have chk: "(v > NGX_MAX_INT_T_VALUE div 10) = (v * 10 > NGX_MAX_INT_T_VALUE)"
    by (rule div_less_iff_int) simp
  have eq: "v * 10 ^ Suc point = v * 10 * 10 ^ point" by simp
  show ?case
  proof (cases "v * 10 > NGX_MAX_INT_T_VALUE")
    case True
    moreover have "v * 10 \<le> v * 10 * 10 ^ point" using Suc.prems by (intro scale_grows) simp
    ultimately have "\<not> v * 10 * 10 ^ point \<le> NGX_MAX_INT_T_VALUE" by linarith
    with True chk show ?thesis unfolding eq by simp
  next
    case False
    then have "s64 (v * 10) = v * 10" using Suc.prems by (intro s64_id) (simp_all add: MAX_INT_T)
    with False chk Suc.IH [of "v * 10"] Suc.prems show ?thesis unfolding eq by simp
  qed
qed simp

text \<open>The rest of the loop once the dot has been seen, and before.\<close>

definition fp_result :: "bool \<Rightarrow> int \<Rightarrow> int option" where
  "fp_result ok v = (if ok \<and> v \<le> NGX_MAX_INT_T_VALUE then Some v else None)"

lemma atofp_digit:
  assumes "0 \<le> v" and "v \<le> NGX_MAX_INT_T_VALUE" and "is_digit c" and "0 < point"
  defines "w \<equiv> v * 10 + int (digit_val c)"
  shows "atofp_loop point dot v (c # line) =
    (if w > NGX_MAX_INT_T_VALUE then None else atofp_loop (point - (if dot then 1 else 0)) dot w line)"
    and "0 \<le> w"
proof -
  have d: "0 \<le> int (digit_val c)" "int (digit_val c) < 10"
    using digit_val_less [OF assms(3)] by simp_all
  show "0 \<le> w" using assms(1) by (simp add: w_def)
  then have "\<not> w > NGX_MAX_INT_T_VALUE \<Longrightarrow> s64 w = w" by (intro s64_id) (simp_all add: MAX_INT_T)
  moreover have "c \<noteq> DOT" using assms(3) by simp
  ultimately show "atofp_loop point dot v (c # line) =
    (if w > NGX_MAX_INT_T_VALUE then None else atofp_loop (point - (if dot then 1 else 0)) dot w line)"
    using assms(3,4) by (simp add: not_digit uint_digit cutoff_check [OF d] w_def [symmetric] del: linorder_not_less)
qed

lemma atofp_after_dot:
  assumes "0 \<le> v" and "v \<le> NGX_MAX_INT_T_VALUE"
  shows "atofp_loop point True v line =
    fp_result (list_all is_digit line \<and> length line \<le> point)
      ((v * 10 ^ length line + int (dec_val line)) * 10 ^ (point - length line))"
  using assms
proof (induction line arbitrary: v point)
  case Nil
  then show ?case by (simp add: atofp_scale_exact fp_result_def)
next
  case (Cons c line)
  show ?case
  proof (cases "is_digit c \<and> 0 < point")
    case True
    define w where "w = v * 10 + int (digit_val c)"
    have eq: "v * 10 ^ length (c # line) + int (dec_val (c # line)) =
        w * 10 ^ length line + int (dec_val line)"
      by (simp add: dec_val_Cons w_def algebra_simps)
    note step = atofp_digit [OF Cons.prems conjunct1 [OF True] conjunct2 [OF True], folded w_def]
    have len: "length (c # line) \<le> point \<longleftrightarrow> length line \<le> point - 1"
      "point - length (c # line) = point - 1 - length line" using True by auto
    have "w \<le> (w * 10 ^ length line + int (dec_val line)) * 10 ^ k" for k
      using scale_grows [of w "length line"] scale_grows [of "w * 10 ^ length line + int (dec_val line)" k] step(2) by simp
    then have "w > NGX_MAX_INT_T_VALUE \<Longrightarrow> fp_result ok ((w * 10 ^ length line + int (dec_val line)) * 10 ^ k) = None" for ok k
      by (simp add: fp_result_def not_le) (meson less_le_trans)
    then show ?thesis
      using True step Cons.IH [of w "point - 1"] unfolding eq len by simp
  qed (auto simp: fp_result_def not_digit)
qed


lemma atofp_before_dot:
  assumes "0 \<le> v" and "v \<le> NGX_MAX_INT_T_VALUE" and "0 < point"
  shows "atofp_loop point False v line =
    fp_result (list_all is_digit (fp_int line) \<and> list_all is_digit (fp_frac line) \<and>
        length (fp_frac line) \<le> point)
      ((v * 10 ^ length (fp_int line @ fp_frac line) + int (dec_val (fp_int line @ fp_frac line)))
        * 10 ^ (point - length (fp_frac line)))"
  using assms
proof (induction line arbitrary: v)
  case Nil
  then show ?case by (simp add: atofp_scale_exact fp_result_def fp_int_def fp_frac_def)
next
  case (Cons c line)
  consider (dot) "c = DOT" | (digit) "is_digit c" | (bad) "c \<noteq> DOT" "\<not> is_digit c" by blast
  then show ?case
  proof cases
    case dot
    then have "fp_int (c # line) = []" and "fp_frac (c # line) = line"
      by (simp_all add: fp_int_def fp_frac_def)
    with dot Cons.prems show ?thesis by (simp add: atofp_after_dot)
  next
    case digit
    define w where "w = v * 10 + int (digit_val c)"
    define ds where "ds = fp_int line @ fp_frac line"
    have parts: "fp_int (c # line) = c # fp_int line" "fp_frac (c # line) = fp_frac line"
      using digit by (simp_all add: fp_int_def fp_frac_def)
    have eq: "v * 10 ^ length (c # ds) + int (dec_val (c # ds)) = w * 10 ^ length ds + int (dec_val ds)"
      by (simp add: dec_val_Cons w_def algebra_simps)
    note step = atofp_digit [OF Cons.prems(1,2) digit Cons.prems(3), folded w_def]
    have "w \<le> (w * 10 ^ length ds + int (dec_val ds)) * 10 ^ k" for k
      using scale_grows [of w "length ds"] scale_grows [of "w * 10 ^ length ds + int (dec_val ds)" k] step(2)
      by simp
    then have "w > NGX_MAX_INT_T_VALUE \<Longrightarrow>
        fp_result ok ((w * 10 ^ length ds + int (dec_val ds)) * 10 ^ k) = None" for ok k
      by (simp add: fp_result_def not_le) (meson less_le_trans)
    then show ?thesis
      using digit step Cons.prems(3) Cons.IH [of w] ds_def eq unfolding parts append_Cons ds_def [symmetric]
      by simp
  next
    case bad
    then have "fp_int (c # line) = c # fp_int line" by (simp add: fp_int_def)
    with bad Cons.prems show ?thesis by (simp add: fp_result_def not_digit)
  qed
qed

text \<open>\<open>ngx_atofp\<close> (\<open>ngx_atofp("10.5", 4, 2)\<close> is 1050) reads digits with at most one dot
  and at most \<open>point\<close> digits after it, scales by \<open>point\<close> decimals exactly, and refuses anything
  else and every number whose scaled value exceeds the range.\<close>

lemma atofp_exact:
  "ngx_atofp line point =
    (if line \<noteq> [] \<and> 0 < point \<and> list_all is_digit (fp_int line) \<and> list_all is_digit (fp_frac line)
        \<and> length (fp_frac line) \<le> point \<and> fp_value line point \<le> NGX_MAX_INT_T_VALUE
     then Some (fp_value line point) else None)"
proof (cases "line \<noteq> [] \<and> 0 < point")
  case True
  then show ?thesis
    using atofp_before_dot [of 0 point line]
    by (simp add: ngx_atofp_def fp_result_def fp_value_def MAX_INT_T)
next
  case False
  then show ?thesis by (cases line) (auto simp: ngx_atofp_def)
qed

section \<open>Reading hexadecimal numbers is exact\<close>

definition is_xdigit :: "u_char \<Rightarrow> bool" where
  "is_xdigit c \<longleftrightarrow> is_digit c \<or> c_a \<le> c OR 0x20 \<and> c OR 0x20 \<le> c_f"

definition xdigit_val :: "u_char \<Rightarrow> nat" where
  "xdigit_val c = (if is_digit c then digit_val c else unat (c OR 0x20) - 0x61 + 10)"

definition hex_num :: "bytes \<Rightarrow> nat" where
  "hex_num ds = foldl (\<lambda>v c. v * 16 + xdigit_val c) 0 ds"

definition hexadecimal :: "bytes \<Rightarrow> bool" where
  "hexadecimal line \<longleftrightarrow> line \<noteq> [] \<and> list_all is_xdigit line"

lemma hex_num_foldl: "foldl (\<lambda>v c. v * 16 + xdigit_val c) a ds = a * 16 ^ length ds + hex_num ds"
proof (induction ds arbitrary: a)
  case Nil
  show ?case by (simp add: hex_num_def)
next
  case (Cons d ds)
  have "hex_num (d # ds) = xdigit_val d * 16 ^ length ds + hex_num ds"
    using Cons [of "xdigit_val d"] by (simp add: hex_num_def)
  with Cons [of "a * 16 + xdigit_val d"] show ?case by (simp add: algebra_simps)
qed

lemma hex_num_Nil [simp]: "hex_num [] = 0"
  by (simp add: hex_num_def)

lemma hex_num_Cons: "hex_num (d # ds) = xdigit_val d * 16 ^ length ds + hex_num ds"
  using hex_num_foldl [of "xdigit_val d" ds] by (simp add: hex_num_def)

lemma hex_num_snoc: "hex_num (ds @ [d]) = hex_num ds * 16 + xdigit_val d"
  by (simp add: hex_num_def)

lemma xdigit_val_less: "is_xdigit c \<Longrightarrow> xdigit_val c < 16"
  by (erule byte_imp [where P = is_xdigit, rotated]) code_simp

lemma uint_xdigit:
  "is_xdigit c \<Longrightarrow> \<not> is_digit c \<Longrightarrow> uint (c OR 0x20) - 0x61 + 10 = int (xdigit_val c)"
proof -
  have "is_xdigit c \<longrightarrow> \<not> is_digit c \<longrightarrow> uint (c OR 0x20) - 0x61 + 10 = int (xdigit_val c)"
    by (rule byte_cases) code_simp
  then show "is_xdigit c \<Longrightarrow> \<not> is_digit c \<Longrightarrow> uint (c OR 0x20) - 0x61 + 10 = int (xdigit_val c)" by simp
qed

lemma hextoi_step:
  "hextoi_loop v (c # line) =
    (if v > NGX_MAX_INT_T_VALUE div 16 \<or> \<not> is_xdigit c then None
     else hextoi_loop (s64 (v * 16 + int (xdigit_val c))) line)"
proof (cases "is_digit c")
  case True
  then have "D0 \<le> c \<and> c \<le> D9" and "is_xdigit c" and "xdigit_val c = digit_val c"
    by (simp_all add: is_digit_def is_xdigit_def xdigit_val_def)
  then show ?thesis using uint_digit [OF True] by simp
next
  case False
  then have "\<not> (D0 \<le> c \<and> c \<le> D9)" and x: "is_xdigit c \<longleftrightarrow> c_a \<le> c OR 0x20 \<and> c OR 0x20 \<le> c_f"
    unfolding is_digit_def is_xdigit_def by blast+
  then show ?thesis
    using uint_xdigit [OF _ False] by (cases "is_xdigit c") (auto simp: Let_def)
qed

lemma hextoi_loop_exact:
  assumes "0 \<le> v" and "v \<le> NGX_MAX_INT_T_VALUE"
  shows "hextoi_loop v line =
    (if list_all is_xdigit line \<and> v * 16 ^ length line + int (hex_num line) \<le> NGX_MAX_INT_T_VALUE
     then Some (v * 16 ^ length line + int (hex_num line)) else None)"
  using assms
proof (induction line arbitrary: v)
  case (Cons c line)
  define w where "w = v * 16 + int (xdigit_val c)"
  have eq: "v * 16 ^ length (c # line) + int (hex_num (c # line)) =
      w * 16 ^ length line + int (hex_num line)"
    by (simp add: hex_num_Cons w_def algebra_simps)
  have "0 \<le> w" using Cons.prems by (simp add: w_def)
  then have "w * 1 \<le> w * 16 ^ length line" by (intro mult_left_mono) simp_all
  then have w: "w \<le> w * 16 ^ length line + int (hex_num line)" by simp
  have small: "xdigit_val c < 16" if "is_xdigit c" using that by (rule xdigit_val_less)
  have chk: "(v > NGX_MAX_INT_T_VALUE div 16) = (w > NGX_MAX_INT_T_VALUE)" if "is_xdigit c"
    using small [OF that] unfolding w_def MAX_INT_T by auto
  have "s64 w = w" if "\<not> w > NGX_MAX_INT_T_VALUE"
    using that \<open>0 \<le> w\<close> by (intro s64_id) (simp_all add: MAX_INT_T)
  then show ?case
    unfolding eq hextoi_step w_def [symmetric] using w chk Cons.IH [of w] \<open>0 \<le> w\<close>
    by (cases "is_xdigit c") auto
qed simp

lemma hextoi_exact:
  "ngx_hextoi line = (if hexadecimal line \<and> int (hex_num line) \<le> NGX_MAX_INT_T_VALUE
     then Some (int (hex_num line)) else None)"
  unfolding ngx_hextoi_def hexadecimal_def using hextoi_loop_exact [of 0 line] MAX_INT_T by simp

section \<open>Printing numbers\<close>

text \<open>The reference: the digits of \<open>n\<close> in base \<open>b\<close>, the most significant first.\<close>

fun base_digits :: "nat \<Rightarrow> bytes \<Rightarrow> nat \<Rightarrow> bytes" where
  "base_digits b tab n = (if n < b \<or> b \<le> 1 then [] else base_digits b tab (n div b)) @ [tab ! (n mod b)]"

declare base_digits.simps [simp del]

lemma dec_digit_table: "n < 10 \<Longrightarrow> word_of_nat n + D0 = hex_lower ! n"
  unfolding hex_lower_def by (auto simp: less_Suc_eq numeral_eq_Suc)


declare dec32_digits.simps [simp del] dec64_digits.simps [simp del] hex64_digits.simps [simp del]

lemma dec32_digits_base: "dec32_digits v temp = base_digits 10 hex_lower (unat v) @ temp"
proof (induction v temp rule: dec32_digits.induct)
  case (1 v temp)
  have d: "unat (v div 10) = unat v div 10" and z: "v div 10 = 0 \<longleftrightarrow> unat v < 10"
    by (simp_all add: unat_div unat_eq_0 [symmetric] div_eq_0_iff)
  have "unat (v mod 10) = unat v mod 10" by (simp add: unat_mod)
  then have "(ucast (v mod 10) :: u_char) = word_of_nat (unat v mod 10)"
    using of_nat_unat [of "v mod 10"] by metis
  then have m: "ucast (v mod 10) + D0 = hex_lower ! (unat v mod 10)"
    using dec_digit_table [of "unat v mod 10"] by simp
  show ?case
    using 1 d z unfolding dec32_digits.simps [of v] base_digits.simps [of 10 _ "unat v"] Let_def m
    by simp
qed

lemma dec64_digits_base: "dec64_digits v temp = base_digits 10 hex_lower (unat v) @ temp"
proof (induction v temp rule: dec64_digits.induct)
  case (1 v temp)
  have d: "unat (v div 10) = unat v div 10" and z: "v div 10 = 0 \<longleftrightarrow> unat v < 10"
    by (simp_all add: unat_div unat_eq_0 [symmetric] div_eq_0_iff)
  have "unat (v mod 10) = unat v mod 10" by (simp add: unat_mod)
  then have "(ucast (v mod 10) :: u_char) = word_of_nat (unat v mod 10)"
    using of_nat_unat [of "v mod 10"] by metis
  then have m: "ucast (v mod 10) + D0 = hex_lower ! (unat v mod 10)"
    using dec_digit_table [of "unat v mod 10"] by simp
  show ?case
    using 1 d z unfolding dec64_digits.simps [of v] base_digits.simps [of 10 _ "unat v"] Let_def m
    by simp
qed

lemma hex64_digits_base: "hex64_digits tab v temp = base_digits 16 tab (unat v) @ temp"
proof (induction tab v temp rule: hex64_digits.induct)
  case (1 tab v temp)
  have d: "unat (drop_bit 4 v) = unat v div 16"
    using drop_bit_eq_div [of 4 "unat v"] unat_drop_bit_eq [of 4 v] by simp
  then have z: "drop_bit 4 v = 0 \<longleftrightarrow> unat v < 16"
    by (metis div_eq_0_iff unat_eq_0 zero_neq_numeral)
  have a: "v AND 0xf = take_bit 4 v" by (simp add: take_bit_eq_mask mask_eq_exp_minus_1)
  have "unat (take_bit 4 v) = unat v mod 16"
    using take_bit_eq_mod [of 4 "unat v"] by (simp add: unsigned_take_bit_eq)
  then have m: "unat (ucast (v AND 0xf) :: 32 word) = unat v mod 16"
    unfolding a by (simp add: unsigned_ucast_eq take_bit_nat_eq_self)
  show ?case
    using 1 d z unfolding hex64_digits.simps [of tab v] base_digits.simps [of 16 _ "unat v"] Let_def m
    by simp
qed

lemma length_base_digits: "2 \<le> b \<Longrightarrow> n < b ^ Suc k \<Longrightarrow> length (base_digits b tab n) \<le> Suc k"
proof (induction k arbitrary: n)
  case (Suc k)
  have "n div b < b ^ Suc k" using Suc.prems by (intro less_mult_imp_div_less) (simp add: mult.commute)
  then have "length (base_digits b tab (n div b)) \<le> Suc k" using Suc by blast
  then show ?case by (simp add: base_digits.simps [of b tab n])
qed (simp add: base_digits.simps)

lemma num_digits_base:
  "num_digits v h = (if h = 0 then base_digits 10 hex_lower (unat v)
     else base_digits 16 (if h = 1 then hex_lower else hex_upper) (unat v))"
proof -
  have "unat (ucast v :: 32 word) = unat v" if "v \<le> NGX_MAX_UINT32_VALUE"
  proof -
    have "unat v < 2 ^ 32" using that by (simp add: NGX_MAX_UINT32_VALUE_def word_le_nat_alt)
    then show ?thesis by (simp add: unsigned_ucast_eq take_bit_nat_eq_self)
  qed
  then show ?thesis
    by (simp add: num_digits_def dec32_digits_base dec64_digits_base hex64_digits_base)
qed

text \<open>The digits fit into \<open>temp\<close>.\<close>

lemma length_num_digits: "length (num_digits v h) \<le> NGX_INT64_LEN"
proof -
  have v: "unat v < 2 ^ 64" using unsigned_less [of v] by simp
  then have "unat v < 10 ^ Suc 19" and "unat v < 16 ^ Suc 15" by simp_all
  then have "length (base_digits 10 tab (unat v)) \<le> 20" and "length (base_digits 16 tab (unat v)) \<le> 20" for tab
    using length_base_digits [of 10 "unat v" 19 tab] length_base_digits [of 16 "unat v" 15 tab] by simp_all
  then show ?thesis by (simp add: num_digits_base NGX_INT64_LEN_def)
qed


lemma ngx_sprintf_num_take:
  "ngx_sprintf_num room v zero h width =
    take room (replicate (width - length (num_digits v h)) zero @ num_digits v h)"
  by (auto simp: ngx_sprintf_num_def Let_def min_def)

text \<open>\<open>ngx_sprintf_num\<close> writes at most \<open>last - buf\<close> bytes and never more than its \<open>temp\<close> array
  holds, for every 64-bit number, format and width; what it writes is the number in the base
  asked for, padded on the left to the width, cut off where the buffer ends.\<close>

lemma sprintf_num_bounds:
  "length (ngx_sprintf_num room v zero h width) \<le> room
   \<and> length (num_digits v h) \<le> NGX_INT64_LEN
   \<and> ngx_sprintf_num room v zero h width =
     take room (let ds = (if h = 0 then base_digits 10 hex_lower (unat v)
         else base_digits 16 (if h = 1 then hex_lower else hex_upper) (unat v))
       in replicate (width - length ds) zero @ ds)"
  using length_num_digits [of v h]
  by (simp add: ngx_sprintf_num_take num_digits_base Let_def)

lemma hex_table_digit:
  assumes "n < 16"
  shows "is_xdigit (hex_lower ! n)" "is_xdigit (hex_upper ! n)"
    "xdigit_val (hex_lower ! n) = n" "xdigit_val (hex_upper ! n) = n"
proof -
  have "list_all (\<lambda>n. is_xdigit (hex_lower ! n) \<and> is_xdigit (hex_upper ! n) \<and>
      xdigit_val (hex_lower ! n) = n \<and> xdigit_val (hex_upper ! n) = n) [0..<16]"
    by code_simp
  with assms show "is_xdigit (hex_lower ! n)" "is_xdigit (hex_upper ! n)"
    "xdigit_val (hex_lower ! n) = n" "xdigit_val (hex_upper ! n) = n"
    by (simp_all add: list_all_iff)
qed

lemma dec_table_digit:
  assumes "n < 10"
  shows "is_digit (hex_lower ! n)" "digit_val (hex_lower ! n) = n"
proof -
  have "list_all (\<lambda>n. is_digit (hex_lower ! n) \<and> digit_val (hex_lower ! n) = n) [0..<10]"
    by code_simp
  with assms show "is_digit (hex_lower ! n)" "digit_val (hex_lower ! n) = n"
    by (simp_all add: list_all_iff)
qed

lemma dec_val_snoc: "dec_val (ds @ [d]) = dec_val ds * 10 + digit_val d"
  by (simp add: dec_val_def)

lemma base_digits_dec:
  "decimal (base_digits 10 hex_lower n)" "dec_val (base_digits 10 hex_lower n) = n"
proof (induction n rule: less_induct)
  case (less n)
  have d: "n mod 10 < 10" by simp
  case 1
  show ?case using less(1) [of "n div 10"] dec_table_digit [OF d]
    by (subst base_digits.simps) (auto simp: decimal_def)
  case 2
  show ?case using less(2) [of "n div 10"] dec_table_digit [OF d]
    by (subst base_digits.simps) (auto simp: dec_val_snoc)
qed

lemma base_digits_hex:
  assumes "tab = hex_lower \<or> tab = hex_upper"
  shows "hexadecimal (base_digits 16 tab n)" "hex_num (base_digits 16 tab n) = n"
proof (induction n rule: less_induct)
  case (less n)
  have d: "n mod 16 < 16" by simp
  case 1
  show ?case using less(1) [of "n div 16"] hex_table_digit [OF d] assms
    by (subst base_digits.simps) (auto simp: hexadecimal_def)
  case 2
  show ?case using less(2) [of "n div 16"] hex_table_digit [OF d] assms
    by (subst base_digits.simps) (auto simp: hex_num_snoc)
qed

lemma decimal_zeros: "decimal ds \<Longrightarrow> decimal (replicate n D0 @ ds)"
  by (auto simp: decimal_def list_all_iff is_digit_def)

lemma dec_val_zeros [simp]: "dec_val (replicate n D0 @ ds) = dec_val ds"
  by (induction n) (simp_all add: dec_val_Cons digit_val_def)

lemma hexadecimal_zeros: "hexadecimal ds \<Longrightarrow> hexadecimal (replicate n D0 @ ds)"
  by (auto simp: hexadecimal_def list_all_iff is_xdigit_def is_digit_def)

lemma hex_num_zeros [simp]: "hex_num (replicate n D0 @ ds) = hex_num ds"
  by (induction n) (simp_all add: hex_num_Cons xdigit_val_def is_digit_def digit_val_def)

text \<open>A number printed by \<open>ngx_sprintf_num\<close>, padded with zeros or not, is read back as the
  same number: in decimal by \<open>ngx_atoi\<close>, in hexadecimal, of either case, by \<open>ngx_hextoi\<close>.\<close>

lemma sprintf_num_roundtrip:
  assumes "uint v \<le> NGX_MAX_INT_T_VALUE" and "NGX_INT64_LEN \<le> room" and "width \<le> room"
  shows "ngx_atoi (ngx_sprintf_num room v D0 0 width) = Some (uint v)
    \<and> ngx_hextoi (ngx_sprintf_num room v D0 1 width) = Some (uint v)
    \<and> ngx_hextoi (ngx_sprintf_num room v D0 2 width) = Some (uint v)"
proof -
  have "ngx_sprintf_num room v D0 h width =
      replicate (width - length (num_digits v h)) D0 @ num_digits v h" for h
    using assms(2,3) length_num_digits [of v h] by (simp add: ngx_sprintf_num_take)
  then show ?thesis
    unfolding atoi.read_exact hextoi_exact using assms(1)
    by (simp add: num_digits_base decimal_zeros base_digits_dec hexadecimal_zeros base_digits_hex)
qed

text \<open>A dump of bytes as a number in base 256.\<close>

definition bytes_num :: "bytes \<Rightarrow> nat" where
  "bytes_num bs = foldl (\<lambda>v c. v * 256 + unat c) 0 bs"

lemma dump_digits:
  fixes c :: u_char
  shows "is_xdigit (hex_lower ! unat (drop_bit 4 c))" "is_xdigit (hex_lower ! unat (c AND 0xf))"
    "xdigit_val (hex_lower ! unat (drop_bit 4 c)) * 16 + xdigit_val (hex_lower ! unat (c AND 0xf)) = unat c"
  by (rule byte_cases [where x = c], code_simp)+

lemma dump_foldl:
  "foldl (\<lambda>v c. v * 16 + xdigit_val c) a (ngx_hex_dump bs) = foldl (\<lambda>v c. v * 256 + unat c) a bs"
proof (induction bs arbitrary: a)
  case (Cons c bs)
  have "(a * 16 + xdigit_val (hex_lower ! unat (drop_bit 4 c))) * 16 +
      xdigit_val (hex_lower ! unat (c AND 0xf)) = a * 256 + unat c"
    using dump_digits(3) [of c] by (simp add: algebra_simps)
  then show ?case by (simp only: ngx_hex_dump.simps foldl_Cons Cons.IH)
qed simp

lemma dump_hexadecimal: "list_all is_xdigit (ngx_hex_dump bs)"
  by (induction bs) (simp_all add: dump_digits)

lemma dump_empty: "(ngx_hex_dump bs = []) = (bs = [])"
  by (cases bs) simp_all

text \<open>\<open>ngx_atofp\<close> reads digits with at most one dot and at most \<open>point\<close> digits after it, and scales
  exactly; \<open>ngx_hextoi\<close> returns the number that a non-empty string of hexadecimal digits writes; both
  answer \<open>NGX_ERROR\<close> for anything else and for every number out of range. \<open>ngx_hextoi\<close> reads what
  \<open>ngx_hex_dump\<close> writes as the bytes dumped, most significant first.\<close>

lemma fixed_point_and_hex_exact:
  "ngx_atofp ds point =
    (if ds \<noteq> [] \<and> 0 < point \<and> list_all is_digit (fp_int ds) \<and> list_all is_digit (fp_frac ds)
        \<and> length (fp_frac ds) \<le> point \<and> fp_value ds point \<le> NGX_MAX_INT_T_VALUE
     then Some (fp_value ds point) else None)
   \<and> ngx_hextoi line = (if hexadecimal line \<and> int (hex_num line) \<le> NGX_MAX_INT_T_VALUE
     then Some (int (hex_num line)) else None)
   \<and> ngx_hextoi (ngx_hex_dump bs) =
     (if bs \<noteq> [] \<and> int (bytes_num bs) \<le> NGX_MAX_INT_T_VALUE then Some (int (bytes_num bs)) else None)"
proof -
  have "hex_num (ngx_hex_dump bs) = bytes_num bs"
    unfolding hex_num_def bytes_num_def by (rule dump_foldl)
  then show ?thesis
    unfolding hextoi_exact hexadecimal_def using atofp_exact [of ds point]
    by (simp add: dump_hexadecimal dump_empty)
qed

end
