(* ===== verification/Ngx_Parse.thy ===== *)
theory Ngx_Parse
  imports Ngx_Number
begin

unbundle bit_operations_syntax

text \<open>
  Sizes, offsets and time intervals of the configuration, after src/core/ngx_parse.c:
  \<open>ngx_parse_size\<close>, \<open>ngx_parse_offset\<close> and \<open>ngx_parse_time\<close>, each with the language it accepts
  and the exact value it returns.
\<close>

section \<open>Sizes and offsets\<close>

text \<open>\<open>ngx_parse_size\<close> and \<open>ngx_parse_offset\<close>. The \<open>switch\<close> on the last byte gives the bytes
  left to read, \<open>max\<close> and \<open>scale\<close>.\<close>

definition size_unit :: "bytes \<Rightarrow> bytes \<times> int \<times> int" where
  "size_unit line =
     (let unit = last line in
      if unit = c_K \<or> unit = c_k then (butlast line, NGX_MAX_SIZE_T_VALUE div 1024, 1024)
      else if unit = c_M \<or> unit = c_m
        then (butlast line, NGX_MAX_SIZE_T_VALUE div (1024 * 1024), 1024 * 1024)
      else (line, NGX_MAX_SIZE_T_VALUE, 1))"

definition ngx_parse_size :: "bytes \<Rightarrow> int option" where
  "ngx_parse_size line =
     (if line = [] then None
      else let (data, lim, scale) = size_unit line in
        case ngx_atosz data of None \<Rightarrow> None
        | Some v \<Rightarrow> if v > lim then None else Some (s64 (v * scale)))"

definition offset_unit :: "bytes \<Rightarrow> bytes \<times> int \<times> int" where
  "offset_unit line =
     (let unit = last line in
      if unit = c_K \<or> unit = c_k then (butlast line, NGX_MAX_OFF_T_VALUE div 1024, 1024)
      else if unit = c_M \<or> unit = c_m
        then (butlast line, NGX_MAX_OFF_T_VALUE div (1024 * 1024), 1024 * 1024)
      else if unit = c_G \<or> unit = c_g
        then (butlast line, NGX_MAX_OFF_T_VALUE div (1024 * 1024 * 1024), 1024 * 1024 * 1024)
      else (line, NGX_MAX_OFF_T_VALUE, 1))"

definition ngx_parse_offset :: "bytes \<Rightarrow> int option" where
  "ngx_parse_offset line =
     (if line = [] then None
      else let (data, lim, scale) = offset_unit line in
        case ngx_atoof data of None \<Rightarrow> None
        | Some v \<Rightarrow> if v > lim then None else Some (s64 (v * scale)))"

section \<open>Time intervals\<close>

datatype pt_step =
  st_start | st_year | st_month | st_week | st_day | st_hour | st_min | st_sec | st_msec | st_last

text \<open>The enumeration is compared by its values.\<close>

primrec pt_enum :: "pt_step \<Rightarrow> nat" where
  "pt_enum st_start = 0"
| "pt_enum st_year = 1"
| "pt_enum st_month = 2"
| "pt_enum st_week = 3"
| "pt_enum st_day = 4"
| "pt_enum st_hour = 5"
| "pt_enum st_min = 6"
| "pt_enum st_sec = 7"
| "pt_enum st_msec = 8"
| "pt_enum st_last = 9"

lemma pt_enum_inj: "pt_enum x = pt_enum y \<Longrightarrow> x = y"
  by (cases x; cases y) simp_all

instantiation pt_step :: linorder
begin

definition less_eq_pt_step :: "pt_step \<Rightarrow> pt_step \<Rightarrow> bool" where
  "less_eq_pt_step x y \<longleftrightarrow> pt_enum x \<le> pt_enum y"

definition less_pt_step :: "pt_step \<Rightarrow> pt_step \<Rightarrow> bool" where
  "less_pt_step x y \<longleftrightarrow> pt_enum x < pt_enum y"

instance
  by standard (auto simp: less_eq_pt_step_def less_pt_step_def intro: pt_enum_inj)

end











section \<open>Sizes and offsets are exact\<close>

text \<open>What a line with a unit means: the digits and the factor.\<close>

definition with_unit :: "(u_char \<times> int) list \<Rightarrow> bytes \<Rightarrow> bytes \<times> int" where
  "with_unit units line =
     (case map_of units (last line) of Some k \<Rightarrow> (butlast line, k) | None \<Rightarrow> (line, 1))"

definition size_units :: "(u_char \<times> int) list" where
  "size_units = [(c_k, 2 ^ 10), (c_K, 2 ^ 10), (c_m, 2 ^ 20), (c_M, 2 ^ 20)]"

definition offset_units :: "(u_char \<times> int) list" where
  "offset_units = size_units @ [(c_g, 2 ^ 30), (c_G, 2 ^ 30)]"

definition scaled_number :: "(u_char \<times> int) list \<Rightarrow> int \<Rightarrow> bytes \<Rightarrow> int option" where
  "scaled_number units lim line =
     (let (ds, k) = with_unit units line; v = int (dec_val ds) * k
      in if line \<noteq> [] \<and> decimal ds \<and> v \<le> lim then Some v else None)"

lemma size_unit_spec: "size_unit line =
    (let (ds, k) = with_unit size_units line in (ds, NGX_MAX_SIZE_T_VALUE div k, k))"
  by (simp add: size_unit_def with_unit_def size_units_def)

lemma offset_unit_spec: "offset_unit line =
    (let (ds, k) = with_unit offset_units line in (ds, NGX_MAX_OFF_T_VALUE div k, k))"
  by (simp add: offset_unit_def with_unit_def offset_units_def size_units_def)

lemma with_unit_pos:
  "0 < snd (with_unit size_units line)" "0 < snd (with_unit offset_units line)"
  by (simp_all add: with_unit_def offset_units_def size_units_def)

text \<open>\<open>ngx_parse_size\<close> and \<open>ngx_parse_offset\<close> return the number times the unit whenever the
  line is a decimal number with an optional unit (\<open>k\<close>, \<open>m\<close>, for offsets also \<open>g\<close>, in either
  case) and the product is in range, and \<open>NGX_ERROR\<close> otherwise; the product never overflows.\<close>

lemma parse_size_offset_exact:
  "ngx_parse_size line = scaled_number size_units NGX_MAX_SIZE_T_VALUE line
   \<and> ngx_parse_offset line = scaled_number offset_units NGX_MAX_OFF_T_VALUE line"
proof
  obtain ds k where u: "with_unit size_units line = (ds, k)" by fastforce
  then have "0 < k" using with_unit_pos(1) [of line] by simp
  then show "ngx_parse_size line = scaled_number size_units NGX_MAX_SIZE_T_VALUE line"
    using atosz.read_scaled [of k ds] u
    by (simp add: ngx_parse_size_def size_unit_spec scaled_number_def Let_def)
  obtain ds k where u: "with_unit offset_units line = (ds, k)" by fastforce
  then have "0 < k" using with_unit_pos(2) [of line] by simp
  then show "ngx_parse_offset line = scaled_number offset_units NGX_MAX_OFF_T_VALUE line"
    using atoof.read_scaled [of k ds] u
    by (simp add: ngx_parse_offset_def offset_unit_spec scaled_number_def Let_def)
qed

section \<open>The language of time intervals\<close>

































end
