(* ===== verification/Ngx_String.thy ===== *)
theory Ngx_String
  imports Ngx_Base
begin

unbundle bit_operations_syntax

text \<open>
  The string comparisons, searches and bounded copies of src/core/ngx_string.c. The locale
  \<open>byte_order\<close> is the contract of a weight for the bytes; each comparison is interpreted in it and
  shown to have the sign of a lexicographic comparison. The searches return the first occurrence.
\<close>

section \<open>C strings\<close>

text \<open>
  A pointer into a string is the list of the bytes from there on; reading where the list ends
  gives NUL, so that a list without NUL stands for the terminated string of its bytes. The string
  a pointer denotes is what comes before the first NUL.
\<close>

definition hd0 :: "bytes \<Rightarrow> u_char" where
  "hd0 s = (case s of [] \<Rightarrow> 0 | c # _ \<Rightarrow> c)"

definition cstr :: "bytes \<Rightarrow> bytes" where
  "cstr s = takeWhile (\<lambda>c. c \<noteq> 0) s"

lemma hd0_simps [simp]: "hd0 [] = 0" "hd0 (c # s) = c"
  by (simp_all add: hd0_def)

lemma hd0_nonempty: "hd0 s \<noteq> 0 \<Longrightarrow> s \<noteq> []"
  by auto

lemma cstr_simps [simp]: "cstr [] = []" "cstr (c # s) = (if c = 0 then [] else c # cstr s)"
  by (simp_all add: cstr_def)

lemma cstr_cases: "cstr s = (if hd0 s = 0 then [] else hd0 s # cstr (tl s))"
  by (cases s) simp_all

text \<open>The folding the comparisons write inline.\<close>

lemma tolower_zero [simp]: "ngx_tolower c = 0 \<longleftrightarrow> c = 0"
proof -
  have "ngx_tolower c = 0 \<longrightarrow> c = 0" by (rule byte_cases [where x = c]) code_simp
  then show ?thesis by (auto simp: ngx_tolower_def)
qed

section \<open>Copies\<close>

primrec ngx_strlow :: "bytes \<Rightarrow> bytes" where
  "ngx_strlow [] = []"
| "ngx_strlow (c # src) = ngx_tolower c # ngx_strlow src"

text \<open>\<open>ngx_cpystrn\<close>: the bytes written from \<open>dst\<close> on, the terminating NUL included, and how far
  the pointer returned is from \<open>dst\<close>.\<close>

fun cpystrn_loop :: "bytes \<Rightarrow> bytes \<Rightarrow> nat \<Rightarrow> bytes \<times> nat" where
  "cpystrn_loop dst src 0 = (dst, length dst)"
| "cpystrn_loop dst src (Suc 0) = (dst @ [0], length dst)"
| "cpystrn_loop dst src (Suc n) =
     (if hd0 src = 0 then (dst @ [0], length dst)
      else cpystrn_loop (dst @ [hd0 src]) (tl src) n)"

definition ngx_cpystrn :: "bytes \<Rightarrow> nat \<Rightarrow> bytes \<times> nat" where
  "ngx_cpystrn src n = cpystrn_loop [] src n"

section \<open>Comparisons\<close>

function ngx_strcasecmp :: "bytes \<Rightarrow> bytes \<Rightarrow> int" where
  "ngx_strcasecmp s1 s2 =
     (let c1 = ngx_tolower (hd0 s1); c2 = ngx_tolower (hd0 s2) in
      if c1 = c2 then (if c1 \<noteq> 0 then ngx_strcasecmp (tl s1) (tl s2) else 0)
      else uint c1 - uint c2)"
  by auto

termination ngx_strcasecmp
  by (relation "measure (\<lambda>(s1, _). length s1)") (auto simp: Let_def dest: hd0_nonempty)

fun ngx_strncasecmp :: "bytes \<Rightarrow> bytes \<Rightarrow> nat \<Rightarrow> int" where
  "ngx_strncasecmp s1 s2 0 = 0"
| "ngx_strncasecmp s1 s2 (Suc n) =
     (let c1 = ngx_tolower (hd0 s1); c2 = ngx_tolower (hd0 s2) in
      if c1 = c2 then (if c1 \<noteq> 0 then ngx_strncasecmp (tl s1) (tl s2) n else 0)
      else uint c1 - uint c2)"

text \<open>\<open>ngx_strlchr\<close>; the bytes are those from \<open>p\<close> up to \<open>last\<close>, the result the distance from \<open>p\<close>.\<close>

primrec ngx_strlchr :: "bytes \<Rightarrow> u_char \<Rightarrow> nat option" where
  "ngx_strlchr [] c = None"
| "ngx_strlchr (x # p) c = (if x = c then Some 0 else map_option Suc (ngx_strlchr p c))"

text \<open>\<open>strncmp\<close> and \<open>memcmp\<close> of the C library, of which the sources use the sign.\<close>

fun ngx_strncmp :: "bytes \<Rightarrow> bytes \<Rightarrow> nat \<Rightarrow> int" where
  "ngx_strncmp s1 s2 0 = 0"
| "ngx_strncmp s1 s2 (Suc n) =
     (if hd0 s1 = hd0 s2 then (if hd0 s1 \<noteq> 0 then ngx_strncmp (tl s1) (tl s2) n else 0)
      else uint (hd0 s1) - uint (hd0 s2))"

fun ngx_memcmp :: "bytes \<Rightarrow> bytes \<Rightarrow> nat \<Rightarrow> int" where
  "ngx_memcmp s1 s2 0 = 0"
| "ngx_memcmp s1 s2 (Suc n) =
     (if hd0 s1 = hd0 s2 then ngx_memcmp (tl s1) (tl s2) n else uint (hd0 s1) - uint (hd0 s2))"

fun rstrncmp_loop :: "bytes \<Rightarrow> bytes \<Rightarrow> nat \<Rightarrow> int" where
  "rstrncmp_loop s1 s2 n =
     (if rd s1 n \<noteq> rd s2 n then uint (rd s1 n) - uint (rd s2 n)
      else if n = 0 then 0 else rstrncmp_loop s1 s2 (n - 1))"

definition ngx_rstrncmp :: "bytes \<Rightarrow> bytes \<Rightarrow> nat \<Rightarrow> int" where
  "ngx_rstrncmp s1 s2 n = (if n = 0 then 0 else rstrncmp_loop s1 s2 (n - 1))"

definition rstr_upper :: "u_char \<Rightarrow> u_char" where
  "rstr_upper c = (if c_a \<le> c \<and> c \<le> c_z then c - (c_a - c_A) else c)"

fun rstrncasecmp_loop :: "bytes \<Rightarrow> bytes \<Rightarrow> nat \<Rightarrow> int" where
  "rstrncasecmp_loop s1 s2 n =
     (let c1 = rstr_upper (rd s1 n); c2 = rstr_upper (rd s2 n) in
      if c1 \<noteq> c2 then uint c1 - uint c2
      else if n = 0 then 0 else rstrncasecmp_loop s1 s2 (n - 1))"

definition ngx_rstrncasecmp :: "bytes \<Rightarrow> bytes \<Rightarrow> nat \<Rightarrow> int" where
  "ngx_rstrncasecmp s1 s2 n = (if n = 0 then 0 else rstrncasecmp_loop s1 s2 (n - 1))"

definition ngx_memn2cmp :: "bytes \<Rightarrow> bytes \<Rightarrow> nat \<Rightarrow> nat \<Rightarrow> int" where
  "ngx_memn2cmp s1 s2 n1 n2 =
     (let (n, z) = (if n1 \<le> n2 then (n1, -1) else (n2, 1)); m = ngx_memcmp s1 s2 n
      in if m \<noteq> 0 \<or> n1 = n2 then m else z)"

function ngx_dns_strcmp :: "bytes \<Rightarrow> bytes \<Rightarrow> int" where
  "ngx_dns_strcmp s1 s2 =
     (let c1 = ngx_tolower (hd0 s1); c2 = ngx_tolower (hd0 s2) in
      if c1 = c2 then (if c1 \<noteq> 0 then ngx_dns_strcmp (tl s1) (tl s2) else 0)
      else let c1 = (if c1 = DOT then SP else c1); c2 = (if c2 = DOT then SP else c2)
        in uint c1 - uint c2)"
  by auto

termination ngx_dns_strcmp
  by (relation "measure (\<lambda>(s1, _). length s1)") (auto simp: Let_def dest: hd0_nonempty)

fun ngx_filename_cmp :: "bytes \<Rightarrow> bytes \<Rightarrow> nat \<Rightarrow> int" where
  "ngx_filename_cmp s1 s2 0 = 0"
| "ngx_filename_cmp s1 s2 (Suc n) =
     (let c1 = hd0 s1; c2 = hd0 s2 in
      if c1 = c2 then (if c1 \<noteq> 0 then ngx_filename_cmp (tl s1) (tl s2) n else 0)
      else if c1 = 0 \<or> c2 = 0 then uint c1 - uint c2
      else let c1 = (if c1 = SLASH then 0 else c1); c2 = (if c2 = SLASH then 0 else c2)
        in uint c1 - uint c2)"

declare ngx_strcasecmp.simps [simp del] ngx_dns_strcmp.simps [simp del]
  rstrncmp_loop.simps [simp del] rstrncasecmp_loop.simps [simp del]

section \<open>Searches\<close>

text \<open>A pointer found is its distance from \<open>s1\<close>; \<open>None\<close> is \<open>NULL\<close>. The argument \<open>i\<close> counts the
  bytes passed.\<close>

fun strnstr_loop :: "u_char \<Rightarrow> bytes \<Rightarrow> nat \<Rightarrow> nat \<Rightarrow> bytes \<Rightarrow> nat \<Rightarrow> nat option" where
  "strnstr_loop c2 s2 n i s1 0 = None"
| "strnstr_loop c2 s2 n i s1 (Suc len) =
     (let c1 = hd0 s1; s1 = tl s1 in
      if c1 = 0 then None
      else if c1 \<noteq> c2 then strnstr_loop c2 s2 n (Suc i) s1 len
      else if n > len then None
      else if ngx_strncmp s1 s2 n \<noteq> 0 then strnstr_loop c2 s2 n (Suc i) s1 len
      else Some i)"

definition ngx_strnstr :: "bytes \<Rightarrow> bytes \<Rightarrow> nat \<Rightarrow> nat option" where
  "ngx_strnstr s1 s2 len =
     (let c2 = hd0 s2; s2 = tl s2; n = length (cstr s2) in strnstr_loop c2 s2 n 0 s1 len)"

primrec strstrn_loop :: "u_char \<Rightarrow> bytes \<Rightarrow> nat \<Rightarrow> nat \<Rightarrow> bytes \<Rightarrow> nat option" where
  "strstrn_loop c2 s2 n i [] = None"
| "strstrn_loop c2 s2 n i (c1 # s1) =
     (if c1 = 0 then None
      else if c1 \<noteq> c2 then strstrn_loop c2 s2 n (Suc i) s1
      else if ngx_strncmp s1 s2 n \<noteq> 0 then strstrn_loop c2 s2 n (Suc i) s1
      else Some i)"

definition ngx_strstrn :: "bytes \<Rightarrow> bytes \<Rightarrow> nat \<Rightarrow> nat option" where
  "ngx_strstrn s1 s2 n = (let c2 = hd0 s2; s2 = tl s2 in strstrn_loop c2 s2 n 0 s1)"

primrec strcasestrn_loop :: "u_char \<Rightarrow> bytes \<Rightarrow> nat \<Rightarrow> nat \<Rightarrow> bytes \<Rightarrow> nat option" where
  "strcasestrn_loop c2 s2 n i [] = None"
| "strcasestrn_loop c2 s2 n i (c1 # s1) =
     (if c1 = 0 then None
      else let c1 = ngx_tolower c1 in
        if c1 \<noteq> c2 then strcasestrn_loop c2 s2 n (Suc i) s1
        else if ngx_strncasecmp s1 s2 n \<noteq> 0 then strcasestrn_loop c2 s2 n (Suc i) s1
        else Some i)"

definition ngx_strcasestrn :: "bytes \<Rightarrow> bytes \<Rightarrow> nat \<Rightarrow> nat option" where
  "ngx_strcasestrn s1 s2 n =
     (let c2 = ngx_tolower (hd0 s2); s2 = tl s2 in strcasestrn_loop c2 s2 n 0 s1)"

text \<open>\<open>left\<close> is \<open>last - s1\<close>, where \<open>last\<close> has been moved back by \<open>n\<close>.\<close>

fun strlcasestrn_loop :: "u_char \<Rightarrow> bytes \<Rightarrow> nat \<Rightarrow> nat \<Rightarrow> bytes \<Rightarrow> nat \<Rightarrow> nat option" where
  "strlcasestrn_loop c2 s2 n i s1 0 = None"
| "strlcasestrn_loop c2 s2 n i s1 (Suc left) =
     (let c1 = ngx_tolower (hd0 s1); s1 = tl s1 in
      if c1 \<noteq> c2 then strlcasestrn_loop c2 s2 n (Suc i) s1 left
      else if ngx_strncasecmp s1 s2 n \<noteq> 0 then strlcasestrn_loop c2 s2 n (Suc i) s1 left
      else Some i)"

definition ngx_strlcasestrn :: "bytes \<Rightarrow> bytes \<Rightarrow> nat \<Rightarrow> nat option" where
  "ngx_strlcasestrn s1 s2 n =
     (let c2 = ngx_tolower (hd0 s2); s2 = tl s2
      in strlcasestrn_loop c2 s2 n 0 s1 (length s1 - n))"

section \<open>The comparisons are lexicographic\<close>

text \<open>The sign of a lexicographic comparison.\<close>

fun lex_sign :: "int list \<Rightarrow> int list \<Rightarrow> int" where
  "lex_sign [] [] = 0"
| "lex_sign [] (y # ys) = -1"
| "lex_sign (x # xs) [] = 1"
| "lex_sign (x # xs) (y # ys) = (if x = y then lex_sign xs ys else sgn (x - y))"

lemma lex_sign_zero: "lex_sign xs ys = 0 \<longleftrightarrow> xs = ys"
  by (induction xs ys rule: lex_sign.induct) (auto simp: sgn_if)

lemma lex_sign_swap: "lex_sign ys xs = - lex_sign xs ys"
  by (induction xs ys rule: lex_sign.induct) (auto simp: sgn_if)

lemma lex_sign_trans: "lex_sign xs ys \<le> 0 \<Longrightarrow> lex_sign ys zs \<le> 0 \<Longrightarrow> lex_sign xs zs \<le> 0"
proof (induction xs ys arbitrary: zs rule: lex_sign.induct)
  case (2 y ys)
  then show ?case by (cases zs) simp_all
next
  case (4 x xs y ys)
  then show ?case by (cases zs) (auto simp: sgn_if split: if_splits)
qed (cases zs, simp_all)+

text \<open>
  A weight for the bytes, the least for NUL, orders the C strings; a comparison that stops at the
  first difference or at NUL computes it.
\<close>

locale byte_order =
  fixes key :: "u_char \<Rightarrow> int"
  assumes key_zero: "key 0 = 0" and key_pos: "c \<noteq> 0 \<Longrightarrow> 0 < key c"
begin

lemma lex_step:
  "lex_sign (map key (cstr s1)) (map key (cstr s2)) =
    (if key (hd0 s1) = key (hd0 s2)
     then (if hd0 s1 \<noteq> 0 then lex_sign (map key (cstr (tl s1))) (map key (cstr (tl s2))) else 0)
     else sgn (key (hd0 s1) - key (hd0 s2)))"
  unfolding cstr_cases [of s1] cstr_cases [of s2]
  using key_pos [of "hd0 s1"] key_pos [of "hd0 s2"] key_zero
  by (cases "hd0 s1 = 0"; cases "hd0 s2 = 0") simp_all

lemma lex_step_n:
  "lex_sign (map key (take (Suc n) (cstr s1))) (map key (take (Suc n) (cstr s2))) =
    (if key (hd0 s1) = key (hd0 s2)
     then (if hd0 s1 \<noteq> 0
       then lex_sign (map key (take n (cstr (tl s1)))) (map key (take n (cstr (tl s2)))) else 0)
     else sgn (key (hd0 s1) - key (hd0 s2)))"
  unfolding cstr_cases [of s1] cstr_cases [of s2]
  using key_pos [of "hd0 s1"] key_pos [of "hd0 s2"] key_zero
  by (cases "hd0 s1 = 0"; cases "hd0 s2 = 0") simp_all

end

definition lower_key :: "u_char \<Rightarrow> int" where
  "lower_key c = uint (ngx_tolower c)"

definition filename_key :: "u_char \<Rightarrow> int" where
  "filename_key c = (if c = 0 then 0 else if c = SLASH then 1 else 1 + uint c)"

definition dns_key :: "u_char \<Rightarrow> int" where
  "dns_key c = (if c = DOT then 0x20 else uint (ngx_tolower c))"

lemma uint_pos: "c \<noteq> 0 \<Longrightarrow> 0 < uint (c :: 'a::len word)"
  using uint_0_iff [of c] uint_ge_0 [of c] by linarith

interpretation lower: byte_order lower_key
  by unfold_locales (simp_all add: lower_key_def uint_pos, simp add: ngx_tolower_def)

interpretation filename: byte_order filename_key
  by unfold_locales (auto simp: filename_key_def uint_pos intro: add_pos_pos)

interpretation dns: byte_order dns_key
  by unfold_locales (auto simp: dns_key_def uint_pos, simp add: ngx_tolower_def)


text \<open>The comparisons without regard to case.\<close>

lemma lower_key_eq: "lower_key c = lower_key d \<longleftrightarrow> ngx_tolower c = ngx_tolower d"
  by (simp add: lower_key_def word_uint_eq_iff)

lemma tolower_eq_zero: "ngx_tolower c = ngx_tolower d \<Longrightarrow> c = 0 \<longleftrightarrow> d = 0"
  using tolower_zero [of c] tolower_zero [of d] by simp

lemma strcasecmp_lex:
  "sgn (ngx_strcasecmp s1 s2) = lex_sign (map lower_key (cstr s1)) (map lower_key (cstr s2))"
proof (induction s1 s2 rule: ngx_strcasecmp.induct)
  case (1 s1 s2)
  show ?case
  proof (cases "ngx_tolower (hd0 s1) = ngx_tolower (hd0 s2)")
    case True
    with 1 [OF refl refl] tolower_eq_zero [OF True] show ?thesis
      unfolding ngx_strcasecmp.simps [of s1 s2] lower.lex_step [of s1 s2] lower_key_eq Let_def
      by (cases "hd0 s2 = 0") simp_all
  next
    case False
    then show ?thesis
      unfolding ngx_strcasecmp.simps [of s1 s2] lower.lex_step [of s1 s2] lower_key_eq Let_def
      by (simp only: if_False lower_key_def)
  qed
qed

lemma strncasecmp_lex:
  "sgn (ngx_strncasecmp s1 s2 n) =
    lex_sign (map lower_key (take n (cstr s1))) (map lower_key (take n (cstr s2)))"
proof (induction s1 s2 n rule: ngx_strncasecmp.induct)
  case (2 s1 s2 n)
  show ?case
  proof (cases "ngx_tolower (hd0 s1) = ngx_tolower (hd0 s2)")
    case True
    with 2 [OF refl refl] tolower_eq_zero [OF True] show ?thesis
      unfolding ngx_strncasecmp.simps lower.lex_step_n lower_key_eq Let_def
      by (cases "hd0 s2 = 0") simp_all
  next
    case False
    then show ?thesis
      unfolding ngx_strncasecmp.simps lower.lex_step_n lower_key_eq Let_def
      by (simp only: if_False lower_key_def)
  qed
qed simp

text \<open>File names, where a slash is the lowest character.\<close>

lemma filename_key_eq: "filename_key c = filename_key d \<longleftrightarrow> c = d"
  using uint_ge_0 [of c] uint_ge_0 [of d] word_uint_eq_iff [of c d] uint_pos [of c] uint_pos [of d]
  by (cases "c = 0"; cases "d = 0"; cases "c = SLASH"; cases "d = SLASH") (simp_all add: filename_key_def)

lemma filename_cmp_lex:
  "sgn (ngx_filename_cmp s1 s2 n) =
    lex_sign (map filename_key (take n (cstr s1))) (map filename_key (take n (cstr s2)))"
proof (induction s1 s2 n rule: ngx_filename_cmp.induct)
  case (2 s1 s2 n)
  show ?case
  proof (cases "hd0 s1 = hd0 s2")
    case True
    with 2 [OF refl refl] show ?thesis
      unfolding ngx_filename_cmp.simps filename.lex_step_n filename_key_eq Let_def
      by (cases "hd0 s2 = 0") simp_all
  next
    case False
    then show ?thesis
      unfolding ngx_filename_cmp.simps filename.lex_step_n filename_key_eq Let_def
      using uint_pos [of "hd0 s1"] uint_pos [of "hd0 s2"]
      by (cases "hd0 s1 = 0"; cases "hd0 s2 = 0"; cases "hd0 s1 = SLASH"; cases "hd0 s2 = SLASH")
        (simp_all add: filename_key_def sgn_if)
  qed
qed simp

text \<open>Domain names, where a dot gets the weight of a space: names with spaces are left out.\<close>

lemma tolower_punct: "ngx_tolower c = DOT \<longleftrightarrow> c = DOT" "ngx_tolower c = SP \<longleftrightarrow> c = SP"
proof -
  have "(ngx_tolower c = DOT \<longleftrightarrow> c = DOT) \<and> (ngx_tolower c = SP \<longleftrightarrow> c = SP)"
    by (rule byte_cases [where x = c]) code_simp
  then show "ngx_tolower c = DOT \<longleftrightarrow> c = DOT" "ngx_tolower c = SP \<longleftrightarrow> c = SP" by simp_all
qed

lemma dns_key_alt: "dns_key c = uint (if ngx_tolower c = DOT then SP else ngx_tolower c)"
  by (simp add: dns_key_def tolower_punct)

lemma dns_key_eq:
  assumes "c \<noteq> SP" and "d \<noteq> SP"
  shows "dns_key c = dns_key d \<longleftrightarrow> ngx_tolower c = ngx_tolower d"
  unfolding dns_key_alt word_uint_eq_iff [symmetric] 
  using assms tolower_punct(1) [of c] tolower_punct(1) [of d] tolower_punct(2) [of c] tolower_punct(2) [of d]
  by (cases "ngx_tolower c = DOT"; cases "ngx_tolower d = DOT") simp_all

lemma dns_strcmp_lex:
  "SP \<notin> set s1 \<Longrightarrow> SP \<notin> set s2 \<Longrightarrow>
    sgn (ngx_dns_strcmp s1 s2) = lex_sign (map dns_key (cstr s1)) (map dns_key (cstr s2))"
proof (induction s1 s2 rule: ngx_dns_strcmp.induct)
  case (1 s1 s2)
  have h: "hd0 s1 \<noteq> SP" "hd0 s2 \<noteq> SP" using 1(2,3) by (cases s1, simp, simp, cases s2, simp, simp)
  have t: "SP \<notin> set (tl s1)" "SP \<notin> set (tl s2)" using 1(2,3) by (metis list.set_sel(2) tl_Nil)+
  show ?case
  proof (cases "ngx_tolower (hd0 s1) = ngx_tolower (hd0 s2)")
    case True
    with 1(1) [OF refl refl True _ t] tolower_eq_zero [OF True] show ?thesis
      unfolding ngx_dns_strcmp.simps [of s1 s2] dns.lex_step [of s1 s2] dns_key_eq [OF h] Let_def
      by (cases "hd0 s2 = 0") simp_all
  next
    case False
    then show ?thesis
      unfolding ngx_dns_strcmp.simps [of s1 s2] dns.lex_step [of s1 s2] dns_key_eq [OF h] Let_def
      by (simp only: if_False dns_key_alt)
  qed
qed


text \<open>Comparisons of memory, forwards and backwards.\<close>

lemma memcmp_split:
  "n \<le> length s1 \<Longrightarrow> n \<le> length s2 \<Longrightarrow>
    lex_sign (map uint s1) (map uint s2) =
      (if ngx_memcmp s1 s2 n \<noteq> 0 then sgn (ngx_memcmp s1 s2 n)
       else lex_sign (map uint (drop n s1)) (map uint (drop n s2)))"
proof (induction n arbitrary: s1 s2)
  case (Suc n)
  obtain a as b bs where "s1 = a # as" and "s2 = b # bs" using Suc.prems by (cases s1; cases s2) simp_all
  with Suc.IH [of as bs] Suc.prems word_uint_eq_iff [of a b] show ?case by simp
qed simp

lemma memn2cmp_lex:
  "sgn (ngx_memn2cmp s1 s2 (length s1) (length s2)) = lex_sign (map uint s1) (map uint s2)"
proof -
  have tail: "lex_sign [] (map uint (drop (length s1) s2)) = (if length s1 = length s2 then 0 else -1)"
    if "length s1 \<le> length s2" using that by (cases "drop (length s1) s2") auto
  have tail': "lex_sign (map uint (drop (length s2) s1)) [] = 1" if "length s2 < length s1"
    using that by (cases "drop (length s2) s1") auto
  show ?thesis
    using memcmp_split [of "min (length s1) (length s2)" s1 s2] tail tail'
    by (cases "length s1 \<le> length s2") (simp_all add: ngx_memn2cmp_def Let_def)
qed

lemma rstrncmp_loop_lex:
  "sgn (rstrncmp_loop s1 s2 n) =
    lex_sign (map (\<lambda>i. uint (rd s1 i)) (rev [0..<Suc n])) (map (\<lambda>i. uint (rd s2 i)) (rev [0..<Suc n]))"
proof (induction n)
  case 0
  show ?case by (subst rstrncmp_loop.simps) (simp add: word_uint_eq_iff)
next
  case (Suc n)
  then show ?case by (subst rstrncmp_loop.simps) (simp add: word_uint_eq_iff)
qed

lemma rstrncasecmp_loop_lex:
  "sgn (rstrncasecmp_loop s1 s2 n) =
    lex_sign (map (\<lambda>i. uint (rstr_upper (rd s1 i))) (rev [0..<Suc n]))
      (map (\<lambda>i. uint (rstr_upper (rd s2 i))) (rev [0..<Suc n]))"
proof (induction n)
  case 0
  show ?case by (subst rstrncasecmp_loop.simps) (simp add: word_uint_eq_iff Let_def)
next
  case (Suc n)
  then show ?case by (subst rstrncasecmp_loop.simps) (simp add: word_uint_eq_iff Let_def)
qed

text \<open>Every string comparison of src/core/ngx_string.c has the sign of a lexicographic
  comparison: \<open>ngx_strcasecmp\<close> and \<open>ngx_strncasecmp\<close> of the folded C strings, \<open>ngx_filename_cmp\<close>
  with the slash as the lowest character, \<open>ngx_dns_strcmp\<close> with the dot below the letters, digits
  and the dash (for names without spaces), \<open>ngx_memn2cmp\<close> of the bytes and \<open>ngx_rstrncmp\<close> and
  \<open>ngx_rstrncasecmp\<close> from the end. Hence they are total orders, fit to sort and search with.\<close>

lemma string_comparisons:
  "sgn (ngx_strcasecmp s1 s2) = lex_sign (map lower_key (cstr s1)) (map lower_key (cstr s2))
   \<and> sgn (ngx_strncasecmp s1 s2 n) =
       lex_sign (map lower_key (take n (cstr s1))) (map lower_key (take n (cstr s2)))
   \<and> sgn (ngx_filename_cmp s1 s2 n) =
       lex_sign (map filename_key (take n (cstr s1))) (map filename_key (take n (cstr s2)))
   \<and> (SP \<notin> set s1 \<and> SP \<notin> set s2 \<longrightarrow>
       sgn (ngx_dns_strcmp s1 s2) = lex_sign (map dns_key (cstr s1)) (map dns_key (cstr s2)))
   \<and> sgn (ngx_memn2cmp s1 s2 (length s1) (length s2)) = lex_sign (map uint s1) (map uint s2)
   \<and> sgn (ngx_rstrncmp s1 s2 n) = lex_sign (map (\<lambda>i. uint (rd s1 i)) (rev [0..<n]))
       (map (\<lambda>i. uint (rd s2 i)) (rev [0..<n]))
   \<and> sgn (ngx_rstrncasecmp s1 s2 n) = lex_sign (map (\<lambda>i. uint (rstr_upper (rd s1 i))) (rev [0..<n]))
       (map (\<lambda>i. uint (rstr_upper (rd s2 i))) (rev [0..<n]))"
proof -
  have r: "sgn (ngx_rstrncmp s1 s2 n) = lex_sign (map (\<lambda>i. uint (rd s1 i)) (rev [0..<n]))
       (map (\<lambda>i. uint (rd s2 i)) (rev [0..<n]))"
    using rstrncmp_loop_lex [of s1 s2 "n - 1"] by (cases n) (simp_all add: ngx_rstrncmp_def)
  have rc: "sgn (ngx_rstrncasecmp s1 s2 n) =
       lex_sign (map (\<lambda>i. uint (rstr_upper (rd s1 i))) (rev [0..<n]))
       (map (\<lambda>i. uint (rstr_upper (rd s2 i))) (rev [0..<n]))"
    using rstrncasecmp_loop_lex [of s1 s2 "n - 1"] by (cases n) (simp_all add: ngx_rstrncasecmp_def)
  show ?thesis
    using r rc strcasecmp_lex strncasecmp_lex filename_cmp_lex dns_strcmp_lex memn2cmp_lex by blast
qed

section \<open>The searches find the first occurrence\<close>

text \<open>\<open>pat\<close> occurs in \<open>t\<close> at \<open>i\<close>, up to a folding \<open>f\<close> of the bytes; and what a search for the first
  occurrence has to return.\<close>

definition occurs :: "(u_char \<Rightarrow> u_char) \<Rightarrow> bytes \<Rightarrow> bytes \<Rightarrow> nat \<Rightarrow> bool" where
  "occurs f pat t i \<longleftrightarrow> map f (take (length pat) (drop i t)) = map f pat"

definition first_occurrence :: "(u_char \<Rightarrow> u_char) \<Rightarrow> bytes \<Rightarrow> bytes \<Rightarrow> nat option \<Rightarrow> bool" where
  "first_occurrence f pat t r \<longleftrightarrow>
     (case r of Some i \<Rightarrow> occurs f pat t i \<and> (\<forall>j<i. \<not> occurs f pat t j)
      | None \<Rightarrow> (\<forall>j. \<not> occurs f pat t j))"

text \<open>A search that tries one position after the other.\<close>

primrec first_match :: "(u_char \<Rightarrow> u_char) \<Rightarrow> bytes \<Rightarrow> nat \<Rightarrow> bytes \<Rightarrow> nat option" where
  "first_match f pat i [] = None"
| "first_match f pat i (c # t) =
     (if occurs f pat (c # t) 0 then Some i else first_match f pat (Suc i) t)"

lemma occurs_Cons_Suc [simp]: "occurs f pat (c # t) (Suc i) = occurs f pat t i"
  by (simp add: occurs_def)

lemma occurs_Nil: "pat \<noteq> [] \<Longrightarrow> \<not> occurs f pat [] i"
  by (simp add: occurs_def)

lemma all_nat_split: "(\<forall>j. P j) \<longleftrightarrow> P 0 \<and> (\<forall>j. P (Suc j))" for P :: "nat \<Rightarrow> bool"
  using not0_implies_Suc by metis

lemma first_match_shift: "first_match f pat (Suc i) t = map_option Suc (first_match f pat i t)"
  by (induction t arbitrary: i) simp_all

lemma first_match_first: "pat \<noteq> [] \<Longrightarrow> first_occurrence f pat t (first_match f pat 0 t)"
proof (induction t)
  case Nil
  then show ?case by (simp add: first_occurrence_def occurs_Nil)
next
  case (Cons c t)
  note IH = Cons.IH [OF Cons.prems]
  show ?case
  proof (cases "occurs f pat (c # t) 0")
    case True
    then show ?thesis by (simp add: first_occurrence_def)
  next
    case False
    have "first_occurrence f pat (c # t) (map_option Suc (first_match f pat 0 t))"
    proof (cases "first_match f pat 0 t")
      case None
      with IH False show ?thesis
        by (simp add: first_occurrence_def all_nat_split [of "\<lambda>j. \<not> occurs f pat (c # t) j"])
    next
      case (Some i)
      with IH False show ?thesis
        by (simp add: first_occurrence_def All_less_Suc2)
    qed
    with False show ?thesis by (simp add: first_match_shift)
  qed
qed

text \<open>A bounded comparison with a pattern without NUL says that the pattern is there.\<close>

lemma uint_diff_zero: "uint a - uint b = 0 \<longleftrightarrow> a = b" for a b :: "'a::len word"
  by (simp add: word_uint_eq_iff)

lemma strncmp_zero:
  "0 \<notin> set cs \<Longrightarrow> ngx_strncmp s (cs @ x) (length cs) = 0 \<longleftrightarrow> take (length cs) s = cs"
proof (induction cs arbitrary: s)
  case (Cons c cs)
  have "ngx_strncmp s ((c # cs) @ x) (length (c # cs)) = 0 \<longleftrightarrow>
      hd0 s = c \<and> ngx_strncmp (tl s) (cs @ x) (length cs) = 0"
    using Cons.prems uint_diff_zero [of "hd0 s" c] by simp
  with Cons show ?case by (cases s) auto
qed simp

lemma strncasecmp_zero:
  "0 \<notin> set cs \<Longrightarrow> ngx_strncasecmp s (cs @ x) (length cs) = 0 \<longleftrightarrow>
    map ngx_tolower (take (length cs) s) = map ngx_tolower cs"
proof (induction cs arbitrary: s)
  case (Cons c cs)
  have c: "ngx_tolower c \<noteq> 0" and 0: "ngx_tolower 0 = 0" using Cons.prems by auto
  then have "ngx_strncasecmp s ((c # cs) @ x) (length (c # cs)) = 0 \<longleftrightarrow>
      ngx_tolower (hd0 s) = ngx_tolower c \<and> ngx_strncasecmp (tl s) (cs @ x) (length cs) = 0"
    using uint_diff_zero [of "ngx_tolower (hd0 s)" "ngx_tolower c"] by (simp add: Let_def del: tolower_zero)
  with Cons c 0 show ?case by (cases s) (auto dest: tolower_eq_zero)
qed simp

text \<open>The bytes beyond the NUL do not matter for a pattern without NUL.\<close>

lemma take_cstr: "0 \<notin> set cs \<Longrightarrow> take (length cs) (cstr s) = cs \<longleftrightarrow> take (length cs) s = cs"
proof (induction cs arbitrary: s)
  case (Cons c cs)
  then show ?case by (cases s) auto
qed simp

lemma take_cstr_lower: "0 \<notin> set cs \<Longrightarrow>
    map ngx_tolower (take (length cs) (cstr s)) = map ngx_tolower cs \<longleftrightarrow>
    map ngx_tolower (take (length cs) s) = map ngx_tolower cs"
proof (induction cs arbitrary: s)
  case (Cons c cs)
  then have "ngx_tolower c \<noteq> ngx_tolower 0" using tolower_eq_zero by fastforce
  with Cons show ?case by (cases s) (auto simp: ngx_tolower_def [of 0])
qed simp


text \<open>Each loop tries the positions in order.\<close>

definition nul_free :: "bytes \<Rightarrow> bool" where
  "nul_free pat \<longleftrightarrow> pat \<noteq> [] \<and> 0 \<notin> set pat"

lemma occurs_head:
  "occurs f (c2 # cs) (c1 # t) 0 \<longleftrightarrow> f c1 = f c2 \<and> map f (take (length cs) t) = map f cs"
  by (simp add: occurs_def)

lemma strstrn_loop_first:
  assumes "0 \<notin> set (c2 # cs)"
  shows "strstrn_loop c2 cs (length cs) i s1 = first_match (\<lambda>c. c) (c2 # cs) i (cstr s1)"
proof (induction s1 arbitrary: i)
  case (Cons c1 s1)
  then show ?case
    using assms strncmp_zero [of cs s1 "[]"] take_cstr [of cs s1] by (auto simp: occurs_head)
qed simp

lemma strcasestrn_loop_first:
  assumes "0 \<notin> set (c2 # cs)"
  shows "strcasestrn_loop (ngx_tolower c2) cs (length cs) i s1 =
    first_match ngx_tolower (c2 # cs) i (cstr s1)"
proof (induction s1 arbitrary: i)
  case (Cons c1 s1)
  then show ?case
    using assms strncasecmp_zero [of cs s1 "[]"] take_cstr_lower [of cs s1]
    by (auto simp: occurs_head Let_def)
qed simp

lemma first_match_short: "length t < length pat \<Longrightarrow> first_match f pat i t = None"
proof (induction t arbitrary: i)
  case (Cons c t)
  then have "length (take (length pat) (c # t)) \<noteq> length pat" by simp
  then have "\<not> occurs f pat (c # t) 0" unfolding occurs_def by (metis drop0 length_map)
  with Cons show ?case by simp
qed simp

lemma strnstr_loop_first:
  assumes "0 \<notin> set (c2 # cs)"
  shows "strnstr_loop c2 cs (length cs) i s1 len = first_match (\<lambda>c. c) (c2 # cs) i (take len (cstr s1))"
proof (induction len arbitrary: i s1)
  case (Suc len)
  have cmp: "ngx_strncmp (tl s1) cs (length cs) = 0 \<longleftrightarrow> take (length cs) (cstr (tl s1)) = cs"
    using assms strncmp_zero [of cs "tl s1" "[]"] take_cstr [of cs "tl s1"] by simp
  show ?case
  proof (cases "length cs > len")
    case True
    then have "first_match (\<lambda>c. c) (c2 # cs) i (take (Suc len) (cstr s1)) = None"
      and "first_match (\<lambda>c. c) (c2 # cs) (Suc i) (take len (cstr (tl s1))) = None"
      by (simp_all add: first_match_short)
    with Suc.IH [of "Suc i" "tl s1"] True show ?thesis by (simp add: Let_def)
  next
    case False
    with Suc.IH [of "Suc i" "tl s1"] cmp show ?thesis
      by (subst cstr_cases) (auto simp: occurs_head Let_def min_def)
  qed
qed simp

lemma strlcasestrn_loop_first:
  assumes "0 \<notin> set (c2 # cs)"
  shows "strlcasestrn_loop (ngx_tolower c2) cs (length cs) i s1 (length s1 - length cs) =
    first_match ngx_tolower (c2 # cs) i s1"
proof (induction s1 arbitrary: i)
  case (Cons c1 s1)
  have cmp: "ngx_strncasecmp s1 cs (length cs) = 0 \<longleftrightarrow>
      map ngx_tolower (take (length cs) s1) = map ngx_tolower cs"
    using assms strncasecmp_zero [of cs s1 "[]"] by simp
  show ?case
  proof (cases "length s1 < length cs")
    case True
    then show ?thesis using first_match_short [of "c1 # s1" "c2 # cs"] by simp
  next
    case False
    then have "length (c1 # s1) - length cs = Suc (length s1 - length cs)" by simp
    with Cons cmp show ?thesis by (simp add: occurs_head Let_def)
  qed
qed simp

text \<open>Given a pattern without NUL and, where it is asked for, its length less one,
  \<open>ngx_strstrn\<close>, \<open>ngx_strnstr\<close>, \<open>ngx_strcasestrn\<close> and \<open>ngx_strlcasestrn\<close> return the first occurrence
  of the pattern in the C string, in its first \<open>len\<close> bytes, in the C string without regard to case
  and in the bytes up to \<open>last\<close> without regard to case, and \<open>NULL\<close> only if there is none.\<close>

lemma searches_find_first:
  assumes "nul_free pat"
  shows "first_occurrence (\<lambda>c. c) pat (cstr s1) (ngx_strstrn s1 pat (length pat - 1))
    \<and> first_occurrence (\<lambda>c. c) pat (take len (cstr s1)) (ngx_strnstr s1 pat len)
    \<and> first_occurrence ngx_tolower pat (cstr s1) (ngx_strcasestrn s1 pat (length pat - 1))
    \<and> first_occurrence ngx_tolower pat s1 (ngx_strlcasestrn s1 pat (length pat - 1))"
proof -
  obtain c2 cs where pat: "pat = c2 # cs" and z: "0 \<notin> set (c2 # cs)"
    using assms by (cases pat) (auto simp: nul_free_def)
  have "cstr cs = cs" using z by (simp add: cstr_def takeWhile_eq_all_conv) blast
  then show ?thesis
    using first_match_first [of pat] z
    by (simp add: pat ngx_strstrn_def ngx_strnstr_def ngx_strcasestrn_def ngx_strlcasestrn_def
        strstrn_loop_first strnstr_loop_first strcasestrn_loop_first strlcasestrn_loop_first)
qed

lemma cpystrn_loop_eq:
  "cpystrn_loop dst src (Suc n) =
    (dst @ take n (cstr src) @ [0], length dst + min n (length (cstr src)))"
proof (induction n arbitrary: dst src)
  case (Suc n)
  then show ?case using cstr_cases [of src] by (cases "hd0 src = 0") simp_all
qed simp

text \<open>\<open>ngx_cpystrn\<close> writes at most \<open>n\<close> bytes, always ends them with NUL and returns a pointer to it.\<close>

lemma cpystrn_terminates:
  "0 < n \<Longrightarrow> ngx_cpystrn src n = (take (n - 1) (cstr src) @ [0], min (n - 1) (length (cstr src)))"
  using cpystrn_loop_eq [of "[]" src "n - 1"] by (simp add: ngx_cpystrn_def)

lemma strlow_map: "ngx_strlow src = map ngx_tolower src"
  by (induction src) simp_all

end
