(* ===== verification/Ngx_Escape.thy ===== *)
theory Ngx_Escape
  imports Ngx_Number
begin

unbundle bit_operations_syntax

text \<open>
  The escaping routines of src/core/ngx_string.c: \<open>ngx_escape_uri\<close> with its tables,
  \<open>ngx_unescape_uri\<close> with its three states, \<open>ngx_escape_html\<close> and \<open>ngx_escape_json\<close>: the space they
  announce and use, the bytes they let through, and that they can be undone.
\<close>

section \<open>Percent encoding\<close>

text \<open>The tables of \<open>ngx_escape_uri\<close>: a bit for each byte that is escaped.\<close>

definition escape_tab_uri :: "32 word list" where
  "escape_tab_uri =
    [0xffffffff, 0x80000029, 0x00000000, 0x80000000, 0xffffffff, 0xffffffff, 0xffffffff, 0xffffffff]"

definition escape_tab_args :: "32 word list" where
  "escape_tab_args =
    [0xffffffff, 0x88000869, 0x00000000, 0x80000000, 0xffffffff, 0xffffffff, 0xffffffff, 0xffffffff]"

definition escape_tab_uri_component :: "32 word list" where
  "escape_tab_uri_component =
    [0xffffffff, 0xfc009fff, 0x78000001, 0xb8000001, 0xffffffff, 0xffffffff, 0xffffffff, 0xffffffff]"

definition escape_tab_html :: "32 word list" where
  "escape_tab_html =
    [0xffffffff, 0x000000ad, 0x00000000, 0x80000000, 0xffffffff, 0xffffffff, 0xffffffff, 0xffffffff]"

definition escape_tab_refresh :: "32 word list" where
  "escape_tab_refresh =
    [0xffffffff, 0x00000085, 0x00000000, 0x80000000, 0xffffffff, 0xffffffff, 0xffffffff, 0xffffffff]"

definition escape_tab_memcached :: "32 word list" where
  "escape_tab_memcached =
    [0xffffffff, 0x00000021, 0x00000000, 0x00000000, 0x00000000, 0x00000000, 0x00000000, 0x00000000]"

datatype escape_type =
    NGX_ESCAPE_URI | NGX_ESCAPE_ARGS | NGX_ESCAPE_URI_COMPONENT | NGX_ESCAPE_HTML
  | NGX_ESCAPE_REFRESH | NGX_ESCAPE_MEMCACHED | NGX_ESCAPE_MAIL_AUTH

primrec escape_map :: "escape_type \<Rightarrow> 32 word list" where
  "escape_map NGX_ESCAPE_URI = escape_tab_uri"
| "escape_map NGX_ESCAPE_ARGS = escape_tab_args"
| "escape_map NGX_ESCAPE_URI_COMPONENT = escape_tab_uri_component"
| "escape_map NGX_ESCAPE_HTML = escape_tab_html"
| "escape_map NGX_ESCAPE_REFRESH = escape_tab_refresh"
| "escape_map NGX_ESCAPE_MEMCACHED = escape_tab_memcached"
| "escape_map NGX_ESCAPE_MAIL_AUTH = escape_tab_memcached"

text \<open>\<open>ngx_escape_uri\<close> with \<open>dst == NULL\<close> counts; otherwise it writes.\<close>

primrec escape_uri_count :: "32 word list \<Rightarrow> nat \<Rightarrow> bytes \<Rightarrow> nat" where
  "escape_uri_count escape n [] = n"
| "escape_uri_count escape n (c # src) =
     escape_uri_count escape (if in_table escape c then n + 1 else n) src"

primrec escape_uri_write :: "32 word list \<Rightarrow> bytes \<Rightarrow> bytes" where
  "escape_uri_write escape [] = []"
| "escape_uri_write escape (c # src) =
     (if in_table escape c
      then [PERCENT, hex_upper ! unat (drop_bit 4 c), hex_upper ! unat (c AND 0xf)]
      else [c]) @ escape_uri_write escape src"

definition ngx_escape_uri_len :: "bytes \<Rightarrow> escape_type \<Rightarrow> nat" where
  "ngx_escape_uri_len src type = escape_uri_count (escape_map type) 0 src"

definition ngx_escape_uri :: "bytes \<Rightarrow> escape_type \<Rightarrow> bytes" where
  "ngx_escape_uri src type = escape_uri_write (escape_map type) src"

section \<open>Percent decoding\<close>

definition NGX_UNESCAPE_URI :: "64 word" where "NGX_UNESCAPE_URI = 1"
definition NGX_UNESCAPE_REDIRECT :: "64 word" where "NGX_UNESCAPE_REDIRECT = 2"

datatype ue_state = ue_usual | ue_quoted | ue_quoted_second

record ue_locals =
  ue_st :: ue_state
  ue_decoded :: u_char
  ue_prev :: u_char
  ue_d :: bytes

text \<open>
  One round of the loop of \<open>ngx_unescape_uri\<close> on the byte \<open>ch\<close>; \<open>ue_prev\<close> is the byte before it,
  \<open>*(s - 2)\<close>, and \<open>Inl\<close> is \<open>goto done\<close>.
\<close>

definition ue_put :: "ue_locals \<Rightarrow> bytes \<Rightarrow> ue_locals" where
  "ue_put u xs = u\<lparr>ue_d := ue_d u @ xs\<rparr>"

definition ue_redirect :: "ue_locals \<Rightarrow> u_char \<Rightarrow> u_char \<Rightarrow> ue_locals" where
  "ue_redirect u raw ch =
     (if PERCENT < ch \<and> ch < 0x7f then ue_put u [ch] else ue_put u [PERCENT, ue_prev u, raw])"

definition ue_step :: "64 word \<Rightarrow> u_char \<Rightarrow> ue_locals \<Rightarrow> ue_locals + ue_locals" where
  "ue_step type ch u =
     (case ue_st u of
        ue_usual \<Rightarrow>
          (if ch = QUEST \<and> type AND (NGX_UNESCAPE_URI OR NGX_UNESCAPE_REDIRECT) \<noteq> 0
           then Inl (ue_put u [ch])
           else if ch = PERCENT then Inr (u\<lparr>ue_st := ue_quoted\<rparr>)
           else Inr (ue_put u [ch]))
      | ue_quoted \<Rightarrow>
          (if D0 \<le> ch \<and> ch \<le> D9
           then Inr (u\<lparr>ue_decoded := ch - D0, ue_st := ue_quoted_second\<rparr>)
           else let c = ch OR 0x20 in
             if c_a \<le> c \<and> c \<le> c_f
             then Inr (u\<lparr>ue_decoded := c - c_a + 10, ue_st := ue_quoted_second\<rparr>)
             else Inr (ue_put (u\<lparr>ue_st := ue_usual\<rparr>) [ch]))
      | ue_quoted_second \<Rightarrow>
          (let u = u\<lparr>ue_st := ue_usual\<rparr> in
           if D0 \<le> ch \<and> ch \<le> D9 then
             let v = push_bit 4 (ue_decoded u) + ch - D0 in
             if type AND NGX_UNESCAPE_REDIRECT \<noteq> 0 then Inr (ue_redirect u ch v)
             else Inr (ue_put u [v])
           else let c = ch OR 0x20 in
             if c_a \<le> c \<and> c \<le> c_f then
               let v = push_bit 4 (ue_decoded u) + c - c_a + 10 in
               if type AND NGX_UNESCAPE_URI \<noteq> 0 then
                 (if v = QUEST then Inl (ue_put u [v]) else Inr (ue_put u [v]))
               else if type AND NGX_UNESCAPE_REDIRECT \<noteq> 0 then
                 (if v = QUEST then Inl (ue_put u [v]) else Inr (ue_redirect u ch v))
               else Inr (ue_put u [v])
             else Inr u))"

primrec ue_loop :: "64 word \<Rightarrow> ue_locals \<Rightarrow> bytes \<Rightarrow> bytes \<times> bytes" where
  "ue_loop type u [] = (ue_d u, [])"
| "ue_loop type u (ch # s) =
     (case ue_step type ch u of
        Inl u' \<Rightarrow> (ue_d u', s)
      | Inr u' \<Rightarrow> ue_loop type (u'\<lparr>ue_prev := ch\<rparr>) s)"

definition ue_init :: ue_locals where
  "ue_init = \<lparr>ue_st = ue_usual, ue_decoded = 0, ue_prev = 0, ue_d = []\<rparr>"

text \<open>The bytes written from \<open>*dst\<close> on, and the bytes left from \<open>*src\<close> on.\<close>

definition ngx_unescape_uri :: "bytes \<Rightarrow> 64 word \<Rightarrow> bytes \<times> bytes" where
  "ngx_unescape_uri src type = ue_loop type ue_init src"

section \<open>HTML and JSON\<close>

primrec escape_html_count :: "nat \<Rightarrow> bytes \<Rightarrow> nat" where
  "escape_html_count len [] = len"
| "escape_html_count len (c # src) =
     escape_html_count
       (if c = LESS then len + 3
        else if c = GREATER then len + 3
        else if c = AMP then len + 4
        else if c = DQUOTE then len + 5
        else len) src"

primrec ngx_escape_html :: "bytes \<Rightarrow> bytes" where
  "ngx_escape_html [] = []"
| "ngx_escape_html (ch # src) =
     (if ch = LESS then [AMP, c_l, c_t, SEMI]
      else if ch = GREATER then [AMP, c_g, c_t, SEMI]
      else if ch = AMP then [AMP, c_a, c_m, c_p, SEMI]
      else if ch = DQUOTE then [AMP, c_q, c_u, c_o, c_t, SEMI]
      else [ch]) @ ngx_escape_html src"

definition ngx_escape_html_len :: "bytes \<Rightarrow> nat" where
  "ngx_escape_html_len src = escape_html_count 0 src"

primrec escape_json_count :: "nat \<Rightarrow> bytes \<Rightarrow> nat" where
  "escape_json_count len [] = len"
| "escape_json_count len (ch # src) =
     escape_json_count
       (if ch = BSLASH \<or> ch = DQUOTE then len + 1
        else if ch \<le> 0x1f then len + 5
        else len) src"

primrec ngx_escape_json :: "bytes \<Rightarrow> bytes" where
  "ngx_escape_json [] = []"
| "ngx_escape_json (ch # src) =
     (if ch > 0x1f then (if ch = BSLASH \<or> ch = DQUOTE then [BSLASH, ch] else [ch])
      else [BSLASH, c_u, D0, D0, D0 + drop_bit 4 ch,
        (let ch = ch AND 0xf in if ch < 10 then D0 + ch else c_A + ch - 10)]) @ ngx_escape_json src"

definition ngx_escape_json_len :: "bytes \<Rightarrow> nat" where
  "ngx_escape_json_len src = escape_json_count 0 src"

section \<open>Space and safety\<close>

lemma escape_uri_count_acc: "escape_uri_count t n src = n + length (filter (in_table t) src)"
  by (induction src arbitrary: n) simp_all

lemma length_escape_uri_write:
  "length (escape_uri_write t src) = length src + 2 * length (filter (in_table t) src)"
  by (induction src) simp_all

lemma escape_html_count_acc: "escape_html_count n src + length src = n + length (ngx_escape_html src)"
proof (induction src arbitrary: n)
  case (Cons c src)
  then show ?case by (simp add: add.commute) 
qed simp

lemma escape_json_count_acc: "escape_json_count n src + length src = n + length (ngx_escape_json src)"
proof (induction src arbitrary: n)
  case (Cons c src)
  have "c = BSLASH \<or> c = DQUOTE \<Longrightarrow> c > 0x1f" by auto
  with Cons show ?case by (auto simp: add.commute not_le)
qed simp

lemma uri_output:
  assumes "x \<in> set (escape_uri_write t src)"
  shows "x = PERCENT \<or> x \<in> set hex_upper \<or> \<not> in_table t x"
  using assms
proof (induction src)
  case (Cons c src)
  have "hex_upper ! unat (drop_bit 4 c) \<in> set hex_upper" and "hex_upper ! unat (c AND 0xf) \<in> set hex_upper"
    by (rule byte_cases [where x = c], code_simp)+
  with Cons show ?case by (auto split: if_splits)
qed simp

lemma html_output:
  "x \<in> set (ngx_escape_html src) \<Longrightarrow> x \<noteq> LESS \<and> x \<noteq> GREATER \<and> x \<noteq> DQUOTE"
  by (induction src) (auto split: if_splits)

lemma json_hex: "c \<le> 0x1f \<Longrightarrow> 0x1f < D0 + drop_bit 4 c
    \<and> 0x1f < (let ch = c AND 0xf in if ch < 10 then D0 + ch else c_A + ch - 10)"
  by (erule byte_imp [where P = "\<lambda>c. c \<le> 0x1f", rotated]) code_simp

lemma json_output: "x \<in> set (ngx_escape_json src) \<Longrightarrow> x > 0x1f"
proof (induction src)
  case (Cons c src)
  then show ?case using json_hex [of c] by (auto simp: not_less split: if_splits)
qed simp

section \<open>Decoding\<close>

text \<open>The decoder never writes more than it has read, so it may decode in place.\<close>

definition ue_pending :: "ue_locals \<Rightarrow> nat" where
  "ue_pending u = (case ue_st u of ue_usual \<Rightarrow> 0 | ue_quoted \<Rightarrow> 1 | ue_quoted_second \<Rightarrow> 2)"

lemma ue_put_sel [simp]:
  "ue_d (ue_put u xs) = ue_d u @ xs" "ue_st (ue_put u xs) = ue_st u"
  by (simp_all add: ue_put_def)

lemma ue_redirect_sel [simp]:
  "length (ue_d (ue_redirect u r c)) \<le> Suc (Suc (Suc (length (ue_d u))))" "ue_st (ue_redirect u r c) = ue_st u"
  by (simp_all add: ue_redirect_def)

lemma ue_step_bound:
  "case ue_step type ch u of
     Inl u' \<Rightarrow> length (ue_d u') \<le> Suc (length (ue_d u) + ue_pending u)
   | Inr u' \<Rightarrow> length (ue_d u') + ue_pending u' \<le> Suc (length (ue_d u) + ue_pending u)"
proof (cases "ue_st u")
  case ue_quoted_second
  have "length (ue_d (ue_redirect (u\<lparr>ue_st := ue_usual\<rparr>) ch v)) \<le> Suc (Suc (Suc (length (ue_d u))))" for v
    using ue_redirect_sel(1) [of "u\<lparr>ue_st := ue_usual\<rparr>" ch v] by simp
  with ue_quoted_second show ?thesis
    by (simp add: ue_step_def ue_pending_def Let_def)
qed (simp_all add: ue_step_def ue_pending_def Let_def)

lemma ue_loop_bound:
  "length (fst (ue_loop type u s)) + length (snd (ue_loop type u s))
    \<le> length (ue_d u) + ue_pending u + length s"
proof (induction s arbitrary: u)
  case (Cons ch s)
  show ?case
  proof (cases "ue_step type ch u")
    case (Inl u')
    with ue_step_bound [where type = type and ch = ch and u = u] show ?thesis by simp
  next
    case (Inr u')
    have "ue_pending (u'\<lparr>ue_prev := ch\<rparr>) = ue_pending u'" by (simp add: ue_pending_def)
    with Inr ue_step_bound [where type = type and ch = ch and u = u] Cons [of "u'\<lparr>ue_prev := ch\<rparr>"] show ?thesis by simp
  qed
qed simp


text \<open>An escape decodes to the byte it stands for.\<close>

definition nibble :: "u_char \<Rightarrow> u_char" where
  "nibble h = (if D0 \<le> h \<and> h \<le> D9 then h - D0 else (h OR 0x20) - c_a + 10)"

lemma hex_nibbles:
  fixes c :: u_char
  shows "is_xdigit (hex_upper ! unat (drop_bit 4 c))" "is_xdigit (hex_upper ! unat (c AND 0xf))"
    "push_bit 4 (nibble (hex_upper ! unat (drop_bit 4 c))) + nibble (hex_upper ! unat (c AND 0xf)) = c"
  by (rule byte_cases [where x = c], code_simp)+

abbreviation ue :: "ue_state \<Rightarrow> u_char \<Rightarrow> u_char \<Rightarrow> bytes \<Rightarrow> ue_locals" where
  "ue st v p d \<equiv> \<lparr>ue_st = st, ue_decoded = v, ue_prev = p, ue_d = d\<rparr>"

lemma ue_quoted_hex:
  assumes "is_xdigit h"
  shows "ue_step type h (ue ue_quoted v p d) = Inr (ue ue_quoted_second (nibble h) p d)"
  using assms by (auto simp: ue_step_def nibble_def is_xdigit_def is_digit_def Let_def)

lemma ue_second_hex:
  assumes "is_xdigit l"
  shows "ue_step 0 l (ue ue_quoted_second v p d) = Inr (ue ue_usual v p (d @ [push_bit 4 v + nibble l]))"
  using assms by (auto simp: ue_step_def nibble_def is_xdigit_def is_digit_def Let_def ue_put_def
    algebra_simps)

lemma ue_loop_escape:
  "ue_loop 0 (ue ue_usual v p d)
      (PERCENT # hex_upper ! unat (drop_bit 4 c) # hex_upper ! unat (c AND 0xf) # s) =
    ue_loop 0 (ue ue_usual (nibble (hex_upper ! unat (drop_bit 4 c)))
      (hex_upper ! unat (c AND 0xf)) (d @ [c])) s"
proof -
  have "ue_step 0 PERCENT (ue ue_usual v p d) = Inr (ue ue_quoted v p d)"
    by (simp add: ue_step_def)
  then show ?thesis
    using hex_nibbles(3) [of c] by (simp add: ue_quoted_hex ue_second_hex hex_nibbles(1,2))
qed

lemma ue_loop_escaped:
  assumes "in_table t PERCENT"
  shows "ue_loop 0 (ue ue_usual v p d) (escape_uri_write t src) = (d @ src, [])"
proof (induction src arbitrary: v p d)
  case (Cons c src)
  have "ue_loop 0 (ue ue_usual v p d) (c # s) = ue_loop 0 (ue ue_usual v c (d @ [c])) s"
    if "\<not> in_table t c" for s
    using that assms by (auto simp: ue_step_def ue_put_def)
  with Cons show ?case by (cases "in_table t c") (simp_all add: ue_loop_escape del: ue_loop.simps(2))
qed simp

lemma tables_escape_percent: "type \<noteq> NGX_ESCAPE_REFRESH \<Longrightarrow> in_table (escape_map type) PERCENT"
proof -
  have "list_all (\<lambda>t. in_table t PERCENT) [escape_tab_uri, escape_tab_args, escape_tab_uri_component,
      escape_tab_html, escape_tab_memcached]"
    by code_simp
  then show "type \<noteq> NGX_ESCAPE_REFRESH \<Longrightarrow> in_table (escape_map type) PERCENT"
    by (cases type) simp_all
qed

text \<open>Reference decoders for HTML and JSON.\<close>

fun html_decode :: "bytes \<Rightarrow> bytes" where
  "html_decode [] = []"
| "html_decode (c # s) =
     (if c \<noteq> AMP then c # html_decode s
      else if take 3 s = [c_l, c_t, SEMI] then LESS # html_decode (drop 3 s)
      else if take 3 s = [c_g, c_t, SEMI] then GREATER # html_decode (drop 3 s)
      else if take 4 s = [c_a, c_m, c_p, SEMI] then AMP # html_decode (drop 4 s)
      else if take 5 s = [c_q, c_u, c_o, c_t, SEMI] then DQUOTE # html_decode (drop 5 s)
      else c # html_decode s)"

fun json_decode :: "bytes \<Rightarrow> bytes" where
  "json_decode [] = []"
| "json_decode (c # s) =
     (if c \<noteq> BSLASH then c # json_decode s
      else if s \<noteq> [] \<and> hd s = c_u
        then word_of_nat (hex_num (take 4 (tl s))) # json_decode (drop 5 s)
      else take 1 s @ json_decode (drop 1 s))"

lemma html_roundtrip: "html_decode (ngx_escape_html src) = src"
  by (induction src) simp_all

lemma json_control:
  "c \<le> 0x1f \<Longrightarrow> word_of_nat (hex_num [D0, D0, D0 + drop_bit 4 c,
    (let ch = c AND 0xf in if ch < 10 then D0 + ch else c_A + ch - 10)]) = c"
  by (erule byte_imp [where P = "\<lambda>c. c \<le> 0x1f", rotated]) code_simp

lemma json_decode_control:
  "json_decode (BSLASH # c_u # a # b # x # y # s) = word_of_nat (hex_num [a, b, x, y]) # json_decode s"
  by simp

lemma json_roundtrip: "json_decode (ngx_escape_json src) = src"
proof (induction src)
  case (Cons c src)
  show ?case
  proof (cases "c > 0x1f")
    case True
    with Cons show ?thesis by simp
  next
    case False
    then have "ngx_escape_json (c # src) = BSLASH # c_u # D0 # D0 # (D0 + drop_bit 4 c) #
        (let ch = c AND 0xf in if ch < 10 then D0 + ch else c_A + ch - 10) # ngx_escape_json src"
      by simp
    with Cons json_control [of c] False show ?thesis
      by (simp only: json_decode_control not_less)
  qed
qed simp

text \<open>C13: Escaping loses nothing: \<open>ngx_unescape_uri\<close>, with type 0, recovers the bytes \<open>ngx_escape_uri\<close> was
  given, for every table that escapes the percent sign (all but \<open>NGX_ESCAPE_REFRESH\<close>), and reference
  decoders recover them from the HTML and JSON texts.\<close>

theorem escapes_roundtrip:
  "(type \<noteq> NGX_ESCAPE_REFRESH \<longrightarrow> ngx_unescape_uri (ngx_escape_uri src type) 0 = (src, []))
   \<and> html_decode (ngx_escape_html src) = src
   \<and> json_decode (ngx_escape_json src) = src"
  using ue_loop_escaped [OF tables_escape_percent, of type 0 0 "[]" src] html_roundtrip json_roundtrip
  by (simp add: ngx_unescape_uri_def ngx_escape_uri_def ue_init_def)

theorem escapes_roundtrip_witness:
  "ngx_unescape_uri (ngx_escape_uri (lit ''a b%?'') NGX_ESCAPE_ARGS) 0 = (lit ''a b%?'', [])"
  using escapes_roundtrip [of NGX_ESCAPE_ARGS "lit ''a b%?''"] by blast

text \<open>C14: Each escaping routine, called first without a destination, announces the space the second
  call needs exactly (two bytes for each byte counted by \<open>ngx_escape_uri\<close>, the number returned by
  \<open>ngx_escape_html\<close> and \<open>ngx_escape_json\<close>), and its output is safe: percent encoding leaves no byte
  the table forbids besides the percent sign and upper-case hexadecimal digits, HTML has none of
  the bytes less, greater and double quote, JSON no control character. \<open>ngx_unescape_uri\<close>, in
  every mode, has never written more than it has read, so that it may decode in place.\<close>

theorem escapes_fit_and_safe:
  "length (ngx_escape_uri src type) = length src + 2 * ngx_escape_uri_len src type
   \<and> length (ngx_escape_html src) = length src + ngx_escape_html_len src
   \<and> length (ngx_escape_json src) = length src + ngx_escape_json_len src
   \<and> set (ngx_escape_uri src type) \<subseteq> {PERCENT} \<union> set hex_upper \<union> {c. \<not> in_table (escape_map type) c}
   \<and> set (ngx_escape_html src) \<inter> {LESS, GREATER, DQUOTE} = {}
   \<and> set (ngx_escape_json src) \<subseteq> {c. c > 0x1f}
   \<and> length (fst (ngx_unescape_uri src mode)) + length (snd (ngx_unescape_uri src mode)) \<le> length src"
proof (intro conjI)
  show "length (ngx_escape_uri src type) = length src + 2 * ngx_escape_uri_len src type"
    by (simp add: ngx_escape_uri_def ngx_escape_uri_len_def length_escape_uri_write escape_uri_count_acc)
  show "length (ngx_escape_html src) = length src + ngx_escape_html_len src"
    using escape_html_count_acc [of 0 src] by (simp add: ngx_escape_html_len_def)
  show "length (ngx_escape_json src) = length src + ngx_escape_json_len src"
    using escape_json_count_acc [of 0 src] by (simp add: ngx_escape_json_len_def)
  show "set (ngx_escape_uri src type) \<subseteq> {PERCENT} \<union> set hex_upper \<union> {c. \<not> in_table (escape_map type) c}"
    unfolding ngx_escape_uri_def using uri_output by blast
  show "set (ngx_escape_html src) \<inter> {LESS, GREATER, DQUOTE} = {}"
    using html_output by blast
  show "set (ngx_escape_json src) \<subseteq> {c. c > 0x1f}"
    using json_output by blast
  show "length (fst (ngx_unescape_uri src mode)) + length (snd (ngx_unescape_uri src mode)) \<le> length src"
    using ue_loop_bound [of mode ue_init src]
    by (simp add: ngx_unescape_uri_def ue_init_def ue_pending_def)
qed

end
