(* ===== verification/Http_Args.thy ===== *)
theory Http_Args
  imports Http_Request Ngx_String Ngx_Escape
begin

unbundle bit_operations_syntax

text \<open>
  The rest of src/http/ngx_http_parse.c: arguments (\<open>ngx_http_arg\<close>, \<open>ngx_http_split_args\<close>), the check
  of a URI that comes from outside (\<open>ngx_http_parse_unsafe_uri\<close>) and the lookup of parameters in
  header values (\<open>ngx_http_parse_multi_header_lines\<close>, \<open>ngx_http_parse_set_cookie_lines\<close>).
\<close>

section \<open>Arguments\<close>

text \<open>
  \<open>ngx_http_arg\<close>: the loop over the occurrences of the name. \<open>p\<close> is an offset into \<open>r->args\<close>; the
  result is \<open>value->data\<close>, as an offset, and \<open>value->len\<close>; \<open>None\<close> is \<open>NGX_DECLINED\<close>.
\<close>

lemma strlcasestrn_loop_bound:
  "strlcasestrn_loop c2 s2 n i s1 left = Some k \<Longrightarrow> k < i + left"
  by (induction c2 s2 n i s1 left rule: strlcasestrn_loop.induct) (auto simp: Let_def split: if_splits)

lemma strlcasestrn_bound: "ngx_strlcasestrn s1 s2 n = Some k \<Longrightarrow> k + n < length s1"
  using strlcasestrn_loop_bound [of "ngx_tolower (hd0 s2)" "tl s2" n 0 s1 "length s1 - n" k]
  by (auto simp: ngx_strlcasestrn_def Let_def)

function http_arg_loop :: "bytes \<Rightarrow> bytes \<Rightarrow> nat \<Rightarrow> nat \<Rightarrow> (nat \<times> int) option" where
  "http_arg_loop args name len p =
     (if p < length args then
        (case ngx_strlcasestrn (drop p (take (length args - 1) args)) name (len - 1) of
           None \<Rightarrow> None
         | Some k \<Rightarrow>
             let p = p + k in
             if (p = 0 \<or> rd args (p - 1) = AMP) \<and> rd args (p + len) = EQ then
               let data = p + len + 1;
                   e = (case ngx_strlchr (drop p args) AMP of None \<Rightarrow> length args | Some m \<Rightarrow> p + m)
               in Some (data, int e - int data)
             else http_arg_loop args name len (p + 1))
      else None)"
  by auto

termination http_arg_loop
  by (relation "measure (\<lambda>(args, _, _, p). length args - p)") auto

declare http_arg_loop.simps [simp del]

definition ngx_http_arg :: "bytes \<Rightarrow> bytes \<Rightarrow> nat \<Rightarrow> (nat \<times> int) option" where
  "ngx_http_arg args name len = (if args = [] then None else http_arg_loop args name len 0)"

text \<open>\<open>ngx_http_split_args\<close>: the new \<open>uri\<close> and \<open>args\<close>.\<close>

definition ngx_http_split_args :: "bytes \<Rightarrow> bytes \<times> bytes" where
  "ngx_http_split_args uri =
     (case ngx_strlchr uri QUEST of
        Some p \<Rightarrow> (take p uri, drop (p + 1) uri)
      | None \<Rightarrow> (uri, []))"

section \<open>Unsafe URIs\<close>

text \<open>
  The tests on \<open>".."\<close>: \<open>p\<close> is the list of the bytes left. Where the source reads \<open>p[1]\<close> and \<open>p[2]\<close> it
  has compared the number of bytes left first.
\<close>

definition dots_first :: "bytes \<Rightarrow> bool" where
  "dots_first p \<longleftrightarrow> rd p 0 = DOT \<and> length p > 1 \<and> rd p 1 = DOT \<and> (length p = 2 \<or> rd p 2 = SLASH)"

definition dots_after :: "u_char \<Rightarrow> bytes \<Rightarrow> bool" where
  "dots_after ch p \<longleftrightarrow> ch = SLASH \<and> Suc (length p) > 2 \<and>
     rd p 0 = DOT \<and> rd p 1 = DOT \<and> (Suc (length p) = 3 \<or> rd p 2 = SLASH)"

text \<open>The first loop: \<open>None\<close> is \<open>goto unsafe\<close>; otherwise \<open>quoted\<close> and, if a question mark ended the
  loop, what follows it.\<close>

primrec uu_scan :: "bool \<Rightarrow> bytes \<Rightarrow> (bool \<times> bytes option) option" where
  "uu_scan quoted [] = Some (quoted, None)"
| "uu_scan quoted (ch # p) =
     (if ch = PERCENT then uu_scan True p
      else if is_usual ch then uu_scan quoted p
      else if ch = QUEST then Some (quoted, Some p)
      else if ch = NUL then None
      else if dots_after ch p then None
      else uu_scan quoted p)"

text \<open>The second loop, over the decoded URI: whether it ends without \<open>goto unsafe\<close>.\<close>

primrec uu_rescan :: "bytes \<Rightarrow> bool" where
  "uu_rescan [] = True"
| "uu_rescan (ch # p) = (if ch = NUL then False else if dots_after ch p then False else uu_rescan p)"

text \<open>\<open>ngx_http_parse_unsafe_uri\<close>: \<open>None\<close> is \<open>NGX_ERROR\<close>, otherwise the new \<open>uri\<close> and, if set,
  \<open>args\<close>. The allocation of the decoded URI is taken to succeed.\<close>

definition ngx_http_parse_unsafe_uri :: "bytes \<Rightarrow> (bytes \<times> bytes option) option" where
  "ngx_http_parse_unsafe_uri uri =
     (if uri = [] \<or> rd uri 0 = QUEST then None
      else if dots_first uri then None
      else case uu_scan False uri of
        None \<Rightarrow> None
      | Some (quoted, args) \<Rightarrow>
          let uri = (case args of None \<Rightarrow> uri | Some a \<Rightarrow> take (length uri - (length a + 1)) uri)
          in if quoted then
               let uri = fst (ngx_unescape_uri uri 0)
               in if dots_first uri then None
                  else if uu_rescan uri then Some (uri, args) else None
             else Some (uri, args))"

section \<open>Header values with parameters\<close>

text \<open>\<open>ngx_http_parse_multi_header_lines\<close>. The inner loop is on the bytes from \<open>start\<close> to \<open>end\<close>; the
  result is \<open>value\<close>, if one was asked for.\<close>

definition skip_spaces :: "bytes \<Rightarrow> bytes" where
  "skip_spaces s = dropWhile (\<lambda>c. c = SP) s"

definition mh_skip :: "bytes \<Rightarrow> bytes" where
  "mh_skip s = skip_spaces (drop 1 (dropWhile (\<lambda>c. c \<noteq> SEMI \<and> c \<noteq> COMMA) s))"

lemma mh_skip_length: "length (mh_skip s) \<le> length s - 1"
proof -
  let ?d = "dropWhile (\<lambda>c. c \<noteq> SEMI \<and> c \<noteq> COMMA) s"
  have "length (mh_skip s) \<le> length ?d - 1"
    unfolding mh_skip_def skip_spaces_def by (rule order_trans [OF length_dropWhile_le]) simp
  also have "\<dots> \<le> length s - 1" by (intro diff_le_mono length_dropWhile_le)
  finally show ?thesis .
qed

function mh_line :: "bytes \<Rightarrow> bool \<Rightarrow> bytes \<Rightarrow> bytes option option" where
  "mh_line name want s =
     (if s = [] then None
      else if ngx_strncasecmp s name (length name) \<noteq> 0 then mh_line name want (mh_skip s)
      else let t = skip_spaces (drop (length name) s) in
        if \<not> want then
          (if t = [] \<or> hd t = COMMA then Some None else mh_line name want (mh_skip t))
        else if t = [] then mh_line name want (mh_skip t)
        else if hd t \<noteq> EQ then mh_line name want (mh_skip (tl t))
        else Some (Some (takeWhile (\<lambda>c. c \<noteq> SEMI) (skip_spaces (tl t)))))"
  by auto

lemma skip_spaces_length: "length (skip_spaces s) \<le> length s"
  unfolding skip_spaces_def by (rule length_dropWhile_le)

lemma mh_skip_less: "s \<noteq> [] \<Longrightarrow> length x \<le> length s \<Longrightarrow> length (mh_skip x) < length s"
  using mh_skip_length [of x] by (cases s) auto

lemma skip_name_length: "length (skip_spaces (drop k s)) \<le> length s"
  using skip_spaces_length [of "drop k s"] by simp

termination mh_line
  by (relation "measure (\<lambda>(_, _, s). length s)")
    (auto intro!: mh_skip_less skip_name_length intro: order_trans [OF diff_le_self skip_name_length])

declare mh_line.simps [simp del]

text \<open>The outer loop, over the headers; the result is the index of the header and the value, \<open>None\<close> is
  \<open>NGX_DECLINED\<close>.\<close>

primrec mh_headers :: "nat \<Rightarrow> bytes list \<Rightarrow> bytes \<Rightarrow> bool \<Rightarrow> (nat \<times> bytes option) option" where
  "mh_headers i [] name want = None"
| "mh_headers i (h # headers) name want =
     (if length name > length h then mh_headers (Suc i) headers name want
      else case mh_line name want h of
          Some v \<Rightarrow> Some (i, v)
        | None \<Rightarrow> mh_headers (Suc i) headers name want)"

definition ngx_http_parse_multi_header_lines ::
    "bytes list \<Rightarrow> bytes \<Rightarrow> bool \<Rightarrow> (nat \<times> bytes option) option" where
  "ngx_http_parse_multi_header_lines headers name want = mh_headers 0 headers name want"

text \<open>\<open>ngx_http_parse_set_cookie_lines\<close> looks at the start of each header only.\<close>

definition sc_line :: "bytes \<Rightarrow> bytes \<Rightarrow> bytes option" where
  "sc_line name h =
     (if length name \<ge> length h then None
      else if ngx_strncasecmp h name (length name) \<noteq> 0 then None
      else let t = skip_spaces (drop (length name) h) in
        if t = [] \<or> hd t \<noteq> EQ then None
        else Some (takeWhile (\<lambda>c. c \<noteq> SEMI) (skip_spaces (tl t))))"

primrec sc_headers :: "nat \<Rightarrow> bytes list \<Rightarrow> bytes \<Rightarrow> (nat \<times> bytes) option" where
  "sc_headers i [] name = None"
| "sc_headers i (h # headers) name =
     (case sc_line name h of Some v \<Rightarrow> Some (i, v) | None \<Rightarrow> sc_headers (Suc i) headers name)"

definition ngx_http_parse_set_cookie_lines :: "bytes list \<Rightarrow> bytes \<Rightarrow> (nat \<times> bytes) option" where
  "ngx_http_parse_set_cookie_lines headers name = sc_headers 0 headers name"

section \<open>An argument is found by its name\<close>

text \<open>The fields of a string, between separators, and the value of the first field with a given name.\<close>

function fields :: "u_char \<Rightarrow> bytes \<Rightarrow> bytes list" where
  "fields sep args = takeWhile (\<lambda>c. c \<noteq> sep) args #
     (case dropWhile (\<lambda>c. c \<noteq> sep) args of [] \<Rightarrow> [] | _ # rest \<Rightarrow> fields sep rest)"
  by auto

termination fields
proof (relation "measure (\<lambda>(_, args). length args)")
  fix sep :: u_char and args :: bytes and x rest
  assume "dropWhile (\<lambda>c. c \<noteq> sep) args = x # rest"
  then have "length (x # rest) \<le> length args" by (metis length_dropWhile_le)
  then show "((sep, rest), sep, args) \<in> measure (\<lambda>(_, args). length args)" by simp
qed simp

declare fields.simps [simp del]

definition has_name :: "bytes \<Rightarrow> bytes \<Rightarrow> bool" where
  "has_name name f \<longleftrightarrow> length name < length f \<and> f ! length name = EQ
     \<and> map ngx_tolower (take (length name) f) = map ngx_tolower name"

definition arg_value :: "bytes \<Rightarrow> bytes \<Rightarrow> bytes option" where
  "arg_value name args = map_option (drop (Suc (length name))) (find (has_name name) (fields AMP args))"

text \<open>Where the loop stops.\<close>

definition occ :: "bytes \<Rightarrow> bytes \<Rightarrow> nat \<Rightarrow> bool" where
  "occ name args i \<longleftrightarrow> i + length name < length args
     \<and> map ngx_tolower (take (length name) (drop i args)) = map ngx_tolower name"

definition hit :: "bytes \<Rightarrow> bytes \<Rightarrow> nat \<Rightarrow> bool" where
  "hit name args i \<longleftrightarrow> occ name args i \<and> (i = 0 \<or> args ! (i - 1) = AMP) \<and> args ! (i + length name) = EQ"

lemma strlcasestrn_first:
  assumes "nul_free pat"
  shows "first_occurrence ngx_tolower pat s1 (ngx_strlcasestrn s1 pat (length pat - 1))"
proof -
  obtain c2 cs where pat: "pat = c2 # cs" and z: "0 \<notin> set (c2 # cs)"
    using assms by (cases pat) (auto simp: nul_free_def)
  show ?thesis
    using first_match_first [of pat ngx_tolower s1] z
    by (simp add: pat ngx_strlcasestrn_def strlcasestrn_loop_first)
qed

lemma occurs_occ:
  assumes "nul_free name" and "p < length args"
  shows "occurs ngx_tolower name (drop p (take (length args - 1) args)) k \<longleftrightarrow> occ name args (p + k)"
proof -
  let ?n = "length name"
  have sub: "take ?n (drop k (drop p (take (length args - 1) args))) =
      take (min ?n (length args - 1 - (p + k))) (drop (p + k) args)"
    by (simp only: drop_drop drop_take take_take add.commute [of k p] diff_diff_left add.assoc)
  have n: "0 < ?n" using assms(1) by (simp add: nul_free_def)
  have short: "\<not> p + k + ?n < length args \<Longrightarrow>
      length (take (min ?n (length args - 1 - (p + k))) (drop (p + k) args)) < ?n"
  proof -
    assume "\<not> p + k + ?n < length args"
    then have "length args - 1 - (p + k) < ?n" using n by linarith
    then show ?thesis by (simp only: length_take length_drop)
  qed
  show ?thesis
  proof (cases "p + k + ?n < length args")
    case True
    then show ?thesis unfolding occurs_def sub occ_def by (simp add: min_def)
  next
    case False
    with short have "map ngx_tolower (take (min ?n (length args - 1 - (p + k))) (drop (p + k) args)) \<noteq> map ngx_tolower name"
      by (metis length_map less_irrefl)
    with False show ?thesis unfolding occurs_def sub occ_def by simp
  qed
qed

lemma find_upt_split:
  assumes "\<And>j. p \<le> j \<Longrightarrow> j < q \<Longrightarrow> \<not> P j" and "p \<le> q" and "q < n"
  shows "find P [p..<n] = (if P q then Some q else find P [Suc q..<n])"
proof -
  have "[p..<n] = [p..<q] @ q # [Suc q..<n]"
    using assms(2,3) by (metis le_add_diff_inverse less_imp_le upt_add_eq_append upt_conv_Cons)
  moreover have "find P [p..<q] = None" using assms(1) by (simp add: find_None_iff)
  moreover have "find P (xs @ ys) = (case find P xs of None \<Rightarrow> find P ys | r \<Rightarrow> r)" for xs ys
    by (induction xs) auto
  ultimately show ?thesis by simp
qed

definition arg_result :: "bytes \<Rightarrow> bytes \<Rightarrow> nat \<Rightarrow> nat \<times> int" where
  "arg_result name args q =
     (let data = q + length name + 1;
          e = (case ngx_strlchr (drop q args) AMP of None \<Rightarrow> length args | Some m \<Rightarrow> q + m)
      in (data, int e - int data))"

lemma http_arg_loop_find:
  assumes "nul_free name"
  shows "http_arg_loop args name (length name) p =
    map_option (arg_result name args) (find (hit name args) [p..<length args])"
proof (induction "length args - p" arbitrary: p rule: less_induct)
  case less
  let ?s = "drop p (take (length args - 1) args)"
  show ?case
  proof (cases "p < length args")
    case False
    then show ?thesis by (subst http_arg_loop.simps) simp
  next
    case True
    note first = strlcasestrn_first [OF assms, of ?s]
    show ?thesis
    proof (cases "ngx_strlcasestrn ?s name (length name - 1)")
      case None
      then have "\<not> occ name args (p + k)" for k
        using first occurs_occ [OF assms True] by (simp add: first_occurrence_def)
      then have "\<not> hit name args j" if "p \<le> j" for j
        using that by (metis hit_def le_Suc_ex)
      then have "find (hit name args) [p..<length args] = None" by (simp add: find_None_iff)
      with None True show ?thesis by (subst http_arg_loop.simps) simp
    next
      case (Some k)
      let ?q = "p + k"
      have occ: "occ name args ?q" and no: "\<And>j. j < k \<Longrightarrow> \<not> occ name args (p + j)"
        using first occurs_occ [OF assms True] Some by (simp_all add: first_occurrence_def)
      have q: "?q < length args" "?q + length name < length args" using occ by (auto simp: occ_def)
      have "\<not> hit name args j" if "p \<le> j" "j < ?q" for j
        using no [of "j - p"] that by (simp add: hit_def)
      then have find: "find (hit name args) [p..<length args] =
          (if hit name args ?q then Some ?q else find (hit name args) [Suc ?q..<length args])"
        using q by (intro find_upt_split) simp_all
      have cond: "((?q = 0 \<or> rd args (?q - 1) = AMP) \<and> rd args (?q + length name) = EQ) \<longleftrightarrow> hit name args ?q"
        using occ q by (auto simp: hit_def rd_nth)
      show ?thesis
        using Some True cond find less [of "Suc ?q"] q
        by (subst http_arg_loop.simps) (simp add: Let_def arg_result_def del: upt_Suc)
    qed
  qed
qed


text \<open>The hits are the fields with the name.\<close>

lemma tolower_amp: "ngx_tolower c = AMP \<longleftrightarrow> c = AMP"
  by (rule byte_cases [where x = c]) code_simp

lemma hit_zero:
  assumes "AMP \<notin> set name" and "rest = [] \<or> hd rest = AMP"
  shows "hit name (f @ rest) 0 \<longleftrightarrow> has_name name f"
proof (cases "length name < length f")
  case True
  then show ?thesis by (auto simp: hit_def occ_def has_name_def nth_append)
next
  case False
  have "\<not> hit name (f @ rest) 0"
  proof
    assume h: "hit name (f @ rest) 0"
    with False assms(2) obtain r where r: "rest = AMP # r" by (cases rest) (auto simp: hit_def occ_def)
    show False
    proof (cases "length f = length name")
      case True
      have "(f @ rest) ! length f = AMP" using r by simp
      with h True show False by (simp add: hit_def)
    next
      case neq: False
      with False have "length f < length name" by simp
      then have "map ngx_tolower (take (length name) (f @ rest)) ! length f = AMP"
        using r by (simp add: nth_append tolower_amp)
      with h \<open>length f < length name\<close> have "ngx_tolower (name ! length f) = AMP"
        by (simp add: hit_def occ_def)
      with assms(1) \<open>length f < length name\<close> show False unfolding tolower_amp by (metis nth_mem)
    qed
  qed
  with False show ?thesis by (simp add: has_name_def)
qed

lemma hit_shift: "hit name (f @ AMP # r) (Suc (length f) + j) \<longleftrightarrow> hit name r j"
  by (cases j) (auto simp: hit_def occ_def nth_append)

lemma hit_inside:
  assumes "AMP \<notin> set f" and "0 < i" and "i \<le> length f"
  shows "\<not> hit name (f @ rest) i"
proof -
  have "i - 1 < length f" using assms(2,3) by simp
  then have "(f @ rest) ! (i - 1) = f ! (i - 1)" and "f ! (i - 1) \<in> set f" by (simp_all add: nth_append)
  with assms(1,2) show ?thesis by (auto simp: hit_def)
qed

definition arg_at :: "bytes \<Rightarrow> bytes \<Rightarrow> nat \<Rightarrow> bytes" where
  "arg_at name args q = takeWhile (\<lambda>c. c \<noteq> AMP) (drop (Suc (q + length name)) args)"

lemma upt_shift: "[k + a..<k + b] = map (\<lambda>j. k + j) [a..<b]"
  by (rule nth_equalityI) simp_all

lemma find_map: "find P (map g xs) = map_option g (find (P \<circ> g) xs)"
  by (induction xs) auto

lemma find_append: "find P (xs @ ys) = (case find P xs of None \<Rightarrow> find P ys | r \<Rightarrow> r)"
  by (induction xs) auto

lemma find_hit_here: "hit name args 0 \<Longrightarrow> find (hit name args) [0..<length args] = Some 0"
proof -
  assume h: "hit name args 0"
  then have "0 < length args" by (auto simp: hit_def occ_def)
  with h show ?thesis using find_upt_split [of 0 0 "hit name args" "length args"] by simp
qed

lemma find_hit_none:
  assumes "AMP \<notin> set f" and "\<not> hit name f 0"
  shows "find (hit name f) [0..<length f] = None"
proof -
  have "\<not> hit name f i" if "i < length f" for i
    using that assms hit_inside [OF assms(1), where i = i and rest = "[]" and name = name] by (cases "i = 0") simp_all
  then show ?thesis by (simp add: find_None_iff)
qed

lemma find_hit_next:
  assumes "AMP \<notin> set f" and "\<not> hit name (f @ AMP # r) 0"
  shows "find (hit name (f @ AMP # r)) [0..<length (f @ AMP # r)] =
    map_option (\<lambda>j. Suc (length f) + j) (find (hit name r) [0..<length r])"
proof -
  let ?k = "Suc (length f)" and ?args = "f @ AMP # r"
  have "\<not> hit name ?args i" if "i < ?k" for i
    using that assms hit_inside [OF assms(1), where i = i and rest = "AMP # r" and name = name] by (cases "i = 0") simp_all
  then have none: "find (hit name ?args) [0..<?k] = None" by (simp add: find_None_iff del: upt_Suc)
  have upt: "[0..<length ?args] = [0..<?k] @ [?k + 0..<?k + length r]"
    using upt_add_eq_append [of 0 ?k "length r"] by (simp del: upt_Suc)
  show ?thesis
    by (simp only: upt find_append none option.case upt_shift find_map comp_def hit_shift)
qed

lemma fields_single: "sep \<notin> set f \<Longrightarrow> fields sep f = [f]"
proof -
  assume "sep \<notin> set f"
  then have "takeWhile (\<lambda>c. c \<noteq> sep) f = f" and "dropWhile (\<lambda>c. c \<noteq> sep) f = []"
    by (auto simp: takeWhile_eq_all_conv dropWhile_eq_Nil_conv)
  then show ?thesis by (simp only: fields.simps [of sep f] list.case)
qed

lemma fields_next: "sep \<notin> set f \<Longrightarrow> fields sep (f @ sep # r) = f # fields sep r"
proof -
  assume "sep \<notin> set f"
  then have "takeWhile (\<lambda>c. c \<noteq> sep) (f @ sep # r) = f"
    and "dropWhile (\<lambda>c. c \<noteq> sep) (f @ sep # r) = sep # r"
    by (subst takeWhile_append2, auto, subst dropWhile_append2, auto)
  then show ?thesis by (simp only: fields.simps [of sep "f @ sep # r"] list.case)
qed

lemma arg_at_here:
  assumes "AMP \<notin> set f" and "rest = [] \<or> hd rest = AMP" and "length name < length f"
  shows "arg_at name (f @ rest) 0 = drop (Suc (length name)) f"
proof -
  have "\<forall>c \<in> set (drop (Suc (length name)) f). c \<noteq> AMP" using assms(1) by (auto dest: in_set_dropD)
  moreover have "takeWhile (\<lambda>c. c \<noteq> AMP) rest = []" using assms(2) by (cases rest) auto
  ultimately show ?thesis using assms(3) by (simp add: arg_at_def)
qed

lemma find_hit_fields:
  assumes "AMP \<notin> set name"
  shows "map_option (arg_at name args) (find (hit name args) [0..<length args]) = arg_value name args"
proof (induction "length args" arbitrary: args rule: less_induct)
  case less
  show ?case
  proof (cases "AMP \<in> set args")
    case False
    note z = hit_zero [OF assms, of "[]" args, simplified]
    show ?thesis
    proof (cases "hit name args 0")
      case True
      then have "length name < length args" by (simp add: hit_def occ_def)
      with arg_at_here [OF False, of "[]" name] True z False show ?thesis
        by (simp add: find_hit_here arg_value_def fields_single)
    qed (use z False in \<open>simp add: find_hit_none arg_value_def fields_single\<close>)
  next
    case True
    then obtain f r where args: "args = f @ AMP # r" and f: "AMP \<notin> set f" by (metis split_list_first)
    note z = hit_zero [OF assms, of "AMP # r" f, simplified]
    show ?thesis
    proof (cases "hit name args 0")
      case True
      then have h: "has_name name f" using z args by simp
      then have "arg_at name args 0 = drop (Suc (length name)) f"
        unfolding args using f by (intro arg_at_here) (simp_all add: has_name_def)
      with find_hit_here [OF True] h show ?thesis
        by (simp add: arg_value_def args fields_next [OF f])
    next
      case False
      then have h: "\<not> has_name name f" using z args by simp
      have "arg_at name args (Suc (length f) + j) = arg_at name r j" for j
        by (simp add: arg_at_def args)
      then have "map_option (arg_at name args) (find (hit name args) [0..<length args]) =
          map_option (arg_at name r) (find (hit name r) [0..<length r])"
        using find_hit_next [OF f False [unfolded args]] unfolding args
        by (simp only: option.map_comp comp_def)
      also have "\<dots> = arg_value name r" by (rule less) (simp add: args)
      also have "\<dots> = arg_value name args" using h by (simp add: arg_value_def args fields_next [OF f])
      finally show ?thesis .
    qed
  qed
qed


text \<open>The value ends where the field ends.\<close>

lemma strlchr_takeWhile:
  "(case ngx_strlchr s c of None \<Rightarrow> length s | Some m \<Rightarrow> m) = length (takeWhile (\<lambda>x. x \<noteq> c) s)"
  by (induction s) (auto split: option.splits)

lemma takeWhile_all_append: "c \<notin> set xs \<Longrightarrow> takeWhile (\<lambda>x. x \<noteq> c) (xs @ ys) = xs @ takeWhile (\<lambda>x. x \<noteq> c) ys"
  by (induction xs) auto

lemma arg_result_value:
  assumes "hit name args q" and "AMP \<notin> set name"
  shows "arg_result name args q = (Suc (q + length name), int (length (arg_at name args q)))"
proof -
  let ?n = "length name" and ?e = "drop (Suc (q + length name)) args"
  have q: "q + ?n < length args" and m: "map ngx_tolower (take ?n (drop q args)) = map ngx_tolower name"
    and eq: "args ! (q + ?n) = EQ" using assms(1) by (simp_all add: hit_def occ_def)
  have "drop q args = take ?n (drop q args) @ drop ?n (drop q args)" by (rule append_take_drop_id [symmetric])
  also have "drop ?n (drop q args) = EQ # ?e"
    using q eq Cons_nth_drop_Suc [OF q] by (simp add: add.commute)
  finally have split: "drop q args = (take ?n (drop q args) @ [EQ]) @ ?e" by simp
  have "AMP \<notin> set (take ?n (drop q args))"
  proof
    assume "AMP \<in> set (take ?n (drop q args))"
    then have "ngx_tolower AMP \<in> set (map ngx_tolower name)" unfolding m [symmetric] by simp
    then obtain x where "x \<in> set name" and "ngx_tolower x = ngx_tolower AMP" by auto
    then show False using assms(2) tolower_amp [of x] tolower_amp [of AMP] by auto
  qed
  then have "AMP \<notin> set (take ?n (drop q args) @ [EQ])" by simp
  then have "takeWhile (\<lambda>x. x \<noteq> AMP) (drop q args) = (take ?n (drop q args) @ [EQ]) @ takeWhile (\<lambda>x. x \<noteq> AMP) ?e"
    by (subst split) (rule takeWhile_all_append)
  then have len: "length (takeWhile (\<lambda>x. x \<noteq> AMP) (drop q args)) = Suc ?n + length (arg_at name args q)"
    using q by (simp add: arg_at_def)
  have "(case ngx_strlchr (drop q args) AMP of None \<Rightarrow> length args | Some m \<Rightarrow> q + m) =
      q + (case ngx_strlchr (drop q args) AMP of None \<Rightarrow> length (drop q args) | Some m \<Rightarrow> m)"
    using q by (simp split: option.split)
  also have "\<dots> = q + (Suc ?n + length (arg_at name args q))" unfolding strlchr_takeWhile len ..
  finally show ?thesis by (simp add: arg_result_def Let_def)
qed


lemma find_SomeD: "find P xs = Some x \<Longrightarrow> P x"
  by (induction xs) (auto split: if_splits)

text \<open>C16: \<open>ngx_http_arg\<close> returns the value of the first argument of the query string whose name is the
  one asked for, without regard to case, and \<open>NGX_DECLINED\<close> if and only if there is none; the value
  lies within the arguments.\<close>

theorem http_arg_finds:
  assumes "nul_free name" and "AMP \<notin> set name"
  shows "case ngx_http_arg args name (length name) of
      None \<Rightarrow> arg_value name args = None
    | Some (data, n) \<Rightarrow> 0 \<le> n \<and> data + nat n \<le> length args
        \<and> arg_value name args = Some (slice args data (data + nat n))"
proof (cases "find (hit name args) [0..<length args]")
  case None
  then have "ngx_http_arg args name (length name) = None"
    using http_arg_loop_find [OF assms(1), of args 0] by (simp add: ngx_http_arg_def)
  moreover have "arg_value name args = None" using find_hit_fields [OF assms(2), of args] None by simp
  ultimately show ?thesis by simp
next
  case (Some q)
  then have hit: "hit name args q" by (rule find_SomeD)
  then have q: "q + length name < length args" by (simp add: hit_def occ_def)
  have "args \<noteq> []" using q by auto
  then have "ngx_http_arg args name (length name) = Some (arg_result name args q)"
    using http_arg_loop_find [OF assms(1), of args 0] Some by (simp add: ngx_http_arg_def)
  moreover have "arg_value name args = Some (arg_at name args q)"
    using find_hit_fields [OF assms(2), of args] Some by simp
  moreover have "slice args (Suc (q + length name)) (Suc (q + length name) + length (arg_at name args q)) =
      arg_at name args q"
    unfolding slice_def arg_at_def by (simp add: takeWhile_eq_take [symmetric])
  moreover have "Suc (q + length name) + length (arg_at name args q) \<le> length args"
    using q length_takeWhile_le [of "\<lambda>c. c \<noteq> AMP" "drop (Suc (q + length name)) args"]
    by (simp add: arg_at_def)
  ultimately show ?thesis
    by (simp only: arg_result_value [OF hit assms(2)] option.case prod.case nat_int) simp
qed

theorem http_arg_finds_witness:
  "arg_value (lit ''b'') (lit ''ab=1&B=2&b=3'') = Some (lit ''2'')
   \<and> ngx_http_arg (lit ''ab=1&B=2&b=3'') (lit ''b'') (length (lit ''b'')) = Some (7, 1)"
proof -
  have name: "nul_free (lit ''b'')" "AMP \<notin> set (lit ''b'')" by code_simp+
  have code: "ngx_http_arg (lit ''ab=1&B=2&b=3'') (lit ''b'') (length (lit ''b'')) = Some (7, 1)"
    by code_simp
  have "slice (lit ''ab=1&B=2&b=3'') 7 (7 + nat 1) = lit ''2''" by code_simp
  with http_arg_finds [OF name, of "lit ''ab=1&B=2&b=3''"] code show ?thesis
    by (simp only: code option.case prod.case simp_thms)
qed

section \<open>A URI accepted as safe stays below the root\<close>

abbreviation (input) dotdot :: bytes where "dotdot \<equiv> [DOT, DOT]"

lemma fields_Nil [simp]: "fields sep [] = [[]]"
  by (subst fields.simps) simp

lemma fields_nonempty [simp]: "fields sep xs \<noteq> []"
  by (subst fields.simps) simp

lemma hd_fields: "hd (fields sep xs) = takeWhile (\<lambda>c. c \<noteq> sep) xs"
  by (subst fields.simps) simp

lemma fields_Cons:
  "fields sep (c # xs) = (if c = sep then [] # fields sep xs else (c # hd (fields sep xs)) # tl (fields sep xs))"
  by (subst (1 2 3) fields.simps) auto

lemma dots_after_eq: "dots_after ch p \<longleftrightarrow> ch = SLASH \<and> dots_first p"
  by (auto simp: dots_after_def dots_first_def)

lemma dots_first_hd: "dots_first p \<longleftrightarrow> hd (fields SLASH p) = dotdot"
proof -
  consider "p = []" | a where "p = [a]" | a b where "p = [a, b]" | a b c r where "p = a # b # c # r"
    by (metis list.exhaust)
  then show ?thesis
    unfolding hd_fields by cases (auto simp: dots_first_def rd_def)
qed

text \<open>A \<open>".."\<close> segment after the first.\<close>

definition later_dots :: "bytes \<Rightarrow> bool" where
  "later_dots u \<longleftrightarrow> dotdot \<in> set (tl (fields SLASH u))"

lemma later_dots_Nil [simp]: "\<not> later_dots []"
  by (simp add: later_dots_def)

lemma later_dots_Cons: "later_dots (c # p) \<longleftrightarrow> c = SLASH \<and> dots_first p \<or> later_dots p"
proof (cases "c = SLASH")
  case True
  have "dotdot \<in> set (fields SLASH p) \<longleftrightarrow> hd (fields SLASH p) = dotdot \<or> dotdot \<in> set (tl (fields SLASH p))"
    by (cases "fields SLASH p") auto
  with True show ?thesis by (simp add: later_dots_def fields_Cons dots_first_hd)
next
  case False
  then show ?thesis by (simp add: later_dots_def fields_Cons)
qed

lemma dotdot_fields: "dotdot \<in> set (fields SLASH u) \<longleftrightarrow> dots_first u \<or> later_dots u"
  unfolding dots_first_hd later_dots_def by (cases "fields SLASH u") auto

lemma uu_rescan_iff: "uu_rescan u \<longleftrightarrow> NUL \<notin> set u \<and> \<not> later_dots u"
  by (induction u) (auto simp: later_dots_Cons dots_after_eq)

lemma usual_not: "is_usual c \<Longrightarrow> c \<noteq> NUL \<and> c \<noteq> SLASH \<and> c \<noteq> QUEST"
  by (auto simp: is_usual_iff)

lemma uu_scan_whole: "uu_scan q u = Some (q', None) \<Longrightarrow> NUL \<notin> set u \<and> \<not> later_dots u"
proof (induction u arbitrary: q)
  case (Cons c u)
  then show ?case
    using usual_not [of c] by (auto simp: later_dots_Cons dots_after_eq split: if_splits)
qed simp

lemma uu_scan_quoted: "uu_scan q u = Some (q', a) \<Longrightarrow> q' \<longleftrightarrow> q \<or> PERCENT \<in> set (takeWhile (\<lambda>c. c \<noteq> QUEST) u)"
proof (induction u arbitrary: q)
  case (Cons c u)
  then show ?case using usual_not [of c] by (auto split: if_splits)
qed simp

text \<open>A \<open>".."\<close> segment after the first and before the last.\<close>

definition inner_dots :: "bytes \<Rightarrow> bool" where
  "inner_dots u \<longleftrightarrow> dotdot \<in> set (butlast (tl (fields SLASH u)))"

lemma inner_dots_Cons: "inner_dots (c # p) \<Longrightarrow>
    c = SLASH \<and> SLASH \<in> set p \<and> hd (fields SLASH p) = dotdot \<or> inner_dots p"
proof (cases "c = SLASH")
  case True
  assume "inner_dots (c # p)"
  then have "dotdot \<in> set (butlast (fields SLASH p))" using True by (simp add: inner_dots_def fields_Cons)
  then have "tl (fields SLASH p) \<noteq> []" and
    "hd (fields SLASH p) = dotdot \<or> dotdot \<in> set (butlast (tl (fields SLASH p)))"
    by (cases "fields SLASH p"; auto split: if_splits)+
  moreover from this(1) have "SLASH \<in> set p" using fields_single [of SLASH p] by (metis list.sel(3))
  ultimately show ?thesis using True by (auto simp: inner_dots_def)
qed (simp add: inner_dots_def fields_Cons)

lemma dots_first_more:
  assumes "hd (fields SLASH p) = dotdot" and "SLASH \<in> set p"
  shows "dots_first (p @ x)"
proof -
  have "p = dotdot @ dropWhile (\<lambda>c. c \<noteq> SLASH) p"
    using assms(1) takeWhile_dropWhile_id [of "\<lambda>c. c \<noteq> SLASH" p] unfolding hd_fields by metis
  moreover have "dropWhile (\<lambda>c. c \<noteq> SLASH) p \<noteq> []" using assms(2) by (auto simp: dropWhile_eq_Nil_conv)
  moreover have "hd (dropWhile (\<lambda>c. c \<noteq> SLASH) p) = SLASH"
    using hd_dropWhile [of "\<lambda>c. c \<noteq> SLASH" p] calculation(2) by simp
  ultimately obtain r where "p = dotdot @ SLASH # r" by (metis list.exhaust_sel)
  then show ?thesis by (simp add: dots_first_def rd_def)
qed

lemma uu_scan_cut:
  "uu_scan q u = Some (q', Some a) \<Longrightarrow> \<exists>pre. u = pre @ QUEST # a \<and> NUL \<notin> set pre \<and> \<not> inner_dots pre"
proof (induction u arbitrary: q)
  case (Cons c u)
  show ?case
  proof (cases "c = QUEST")
    case True
    with Cons.prems have "u = a" using usual_not [of c] by (auto split: if_splits)
    with True show ?thesis by (intro exI [of _ "[]"]) (simp add: inner_dots_def)
  next
    case False
    obtain q1 where "uu_scan q1 u = Some (q', Some a)" and c: "c \<noteq> NUL" and d: "\<not> dots_after c u"
      using Cons.prems False usual_not [of c] by (auto simp: dots_after_eq split: if_splits)
    with Cons.IH obtain pre where pre: "u = pre @ QUEST # a" "NUL \<notin> set pre" "\<not> inner_dots pre" by blast
    have "\<not> inner_dots (c # pre)"
      using inner_dots_Cons [of c pre] dots_first_more [of pre "QUEST # a"] d pre(1,3)
      by (auto simp: dots_after_eq)
    with pre c show ?thesis by (intro exI [of _ "c # pre"]) simp
  qed
qed simp


lemma dotdot_butlast:
  "dotdot \<in> set (butlast (fields SLASH u)) \<Longrightarrow> SLASH \<in> set u \<and> hd (fields SLASH u) = dotdot \<or> inner_dots u"
proof -
  assume "dotdot \<in> set (butlast (fields SLASH u))"
  then have "inner_dots (SLASH # u)" by (simp add: inner_dots_def fields_Cons)
  from inner_dots_Cons [OF this] show ?thesis by simp
qed

lemma butlast_subset: "x \<notin> set xs \<Longrightarrow> x \<notin> set (butlast xs)"
  by (auto dest: in_set_butlastD)

text \<open>The steps of the function, one after the other.\<close>

definition uu_cut :: "bytes \<Rightarrow> bytes option \<Rightarrow> bytes" where
  "uu_cut uri a = (case a of None \<Rightarrow> uri | Some a \<Rightarrow> take (length uri - (length a + 1)) uri)"

definition uu_result :: "bool \<Rightarrow> bytes \<Rightarrow> bytes option \<Rightarrow> (bytes \<times> bytes option) option" where
  "uu_result q v a =
     (if q then
        let d = fst (ngx_unescape_uri v 0)
        in if dots_first d then None else if uu_rescan d then Some (d, a) else None
      else Some (v, a))"

lemma unsafe_uri_steps:
  assumes "ngx_http_parse_unsafe_uri uri = Some (u, args)"
  shows "\<not> dots_first uri \<and> (\<exists>q a. uu_scan False uri = Some (q, a) \<and> uu_result q (uu_cut uri a) a = Some (u, args))"
proof (cases "uri = [] \<or> rd uri 0 = QUEST")
  case False
  note eq = assms [unfolded ngx_http_parse_unsafe_uri_def if_not_P [OF False]]
  from eq have first: "\<not> dots_first uri" by (auto split: if_splits)
  note eq = eq [unfolded if_not_P [OF first]]
  from eq obtain q a where scan: "uu_scan False uri = Some (q, a)"
    by (cases "uu_scan False uri") auto
  from eq have "uu_result q (uu_cut uri a) a = Some (u, args)"
    unfolding scan option.case prod.case uu_cut_def uu_result_def Let_def .
  with first scan show ?thesis by blast
qed (use assms in \<open>simp add: ngx_http_parse_unsafe_uri_def\<close>)

text \<open>C17: A URI that \<open>ngx_http_parse_unsafe_uri\<close> accepts has no NUL and no segment \<open>".."\<close>, except that
  the last segment may be \<open>".."\<close> if arguments were cut off and the path had no escapes: the check for
  a final \<open>".."\<close> counts the bytes of the arguments too and misses it.\<close>

theorem unsafe_uri_rejects:
  assumes "ngx_http_parse_unsafe_uri uri = Some (u, args)"
  shows "NUL \<notin> set u \<and> lit ''..'' \<notin> set (butlast (fields SLASH u))
    \<and> (args = None \<or> PERCENT \<in> set (takeWhile (\<lambda>c. c \<noteq> QUEST) uri) \<longrightarrow> lit ''..'' \<notin> set (fields SLASH u))"
proof -
  have dd: "lit ''..'' = dotdot" by simp
  obtain q a where first: "\<not> dots_first uri" and scan: "uu_scan False uri = Some (q, a)"
    and res: "uu_result q (uu_cut uri a) a = Some (u, args)"
    using unsafe_uri_steps [OF assms] by blast
  have q: "q \<longleftrightarrow> PERCENT \<in> set (takeWhile (\<lambda>c. c \<noteq> QUEST) uri)" using uu_scan_quoted [OF scan] by simp
  have whole: ?thesis if "NUL \<notin> set u" and "dotdot \<notin> set (fields SLASH u)"
    unfolding dd using that butlast_subset [OF that(2)] by simp
  show ?thesis
  proof (cases q)
    case True
    then have "\<not> dots_first u" and "uu_rescan u"
      using res by (auto simp: uu_result_def Let_def split: if_splits)
    then show ?thesis by (intro whole) (simp_all add: dotdot_fields uu_rescan_iff)
  next
    case False
    then have u: "u = uu_cut uri a" "args = a" using res by (auto simp: uu_result_def)
    show ?thesis
    proof (cases a)
      case None
      with u have "u = uri" by (simp add: uu_cut_def)
      with None scan uu_scan_whole [of False uri q] first show ?thesis
        by (intro whole) (simp_all add: dotdot_fields)
    next
      case (Some x)
      then obtain pre where pre: "uri = pre @ QUEST # x" "NUL \<notin> set pre" "\<not> inner_dots pre"
        using uu_scan_cut [of False uri q x] scan by blast
      then have "u = pre" using u Some by (simp add: uu_cut_def)
      moreover have "dotdot \<notin> set (butlast (fields SLASH pre))"
        using dotdot_butlast [of pre] dots_first_more [of pre "QUEST # x"] first pre(1,3) by blast
      ultimately show ?thesis using pre(2) Some u(2) False q unfolding dd by simp
    qed
  qed
qed

theorem unsafe_uri_rejects_witness:
  "lit ''..'' \<notin> set (fields SLASH (lit ''/a/b'')) \<and> ngx_http_parse_unsafe_uri (lit ''/a%2Fb?c'') = Some (lit ''/a/b'', Some (lit ''c''))"
proof -
  have run: "ngx_http_parse_unsafe_uri (lit ''/a%2Fb?c'') = Some (lit ''/a/b'', Some (lit ''c''))"
    by code_simp
  have "PERCENT \<in> set (takeWhile (\<lambda>c. c \<noteq> QUEST) (lit ''/a%2Fb?c''))" by code_simp
  with unsafe_uri_rejects [OF run] run show ?thesis by blast
qed

section \<open>A cookie is found by its name\<close>

text \<open>A cookie header as browsers write it.\<close>

primrec cookie_text :: "(bytes \<times> bytes) list \<Rightarrow> bytes" where
  "cookie_text [] = []"
| "cookie_text (c # cs) =
     (case c of (n, v) \<Rightarrow> n @ EQ # v @ (if cs = [] then [] else SEMI # SP # cookie_text cs))"

definition name_ok :: "bytes \<Rightarrow> bool" where
  "name_ok n \<longleftrightarrow> n \<noteq> [] \<and> set n \<inter> {NUL, EQ, SP, SEMI, COMMA} = {}"

definition value_ok :: "bytes \<Rightarrow> bool" where
  "value_ok v \<longleftrightarrow> set v \<inter> {SEMI, COMMA} = {} \<and> (v = [] \<or> hd v \<noteq> SP)"

definition same_name :: "bytes \<Rightarrow> bytes \<Rightarrow> bool" where
  "same_name n m \<longleftrightarrow> map ngx_tolower n = map ngx_tolower m"

definition cookies_ok :: "(bytes \<times> bytes) list \<Rightarrow> bool" where
  "cookies_ok cs \<longleftrightarrow> list_all (\<lambda>(n, v). name_ok n \<and> value_ok v) cs"

lemma skip_spaces_id: "xs = [] \<or> hd xs \<noteq> SP \<Longrightarrow> skip_spaces xs = xs"
  unfolding skip_spaces_def by (cases xs) auto

lemma cookie_text_head: "cookies_ok cs \<Longrightarrow> skip_spaces (cookie_text cs) = cookie_text cs"
proof (cases cs)
  case (Cons c cs')
  assume "cookies_ok cs"
  then obtain n v where c: "c = (n, v)" and n: "n \<noteq> []" "SP \<notin> set n"
    using Cons by (cases c) (auto simp: cookies_ok_def name_ok_def)
  moreover from n have "hd n \<noteq> SP" by (metis hd_in_set)
  ultimately show ?thesis using Cons by (intro skip_spaces_id) simp
qed (simp add: skip_spaces_def)

definition cookie_tail :: "(bytes \<times> bytes) list \<Rightarrow> bytes" where
  "cookie_tail cs = (if cs = [] then [] else SEMI # SP # cookie_text cs)"

lemma skip_spaces_SP: "skip_spaces (SP # xs) = skip_spaces xs"
  by (simp add: skip_spaces_def)

lemma mh_skip_cookie:
  assumes "set w \<inter> {SEMI, COMMA} = {}" and "cookies_ok cs"
  shows "mh_skip (w @ cookie_tail cs) = cookie_text cs"
proof -
  have w: "\<forall>c \<in> set w. c \<noteq> SEMI \<and> c \<noteq> COMMA" using assms(1) by auto
  show ?thesis
  proof (cases "cs = []")
    case True
    have d: "dropWhile (\<lambda>c. c \<noteq> SEMI \<and> c \<noteq> COMMA) w = []" using w by (simp add: dropWhile_eq_Nil_conv)
    have t: "cookie_tail cs = []" using True by (simp add: cookie_tail_def)
    show ?thesis unfolding mh_skip_def t append_Nil2 d by (simp add: skip_spaces_def True)
  next
    case False
    have "dropWhile (\<lambda>c. c \<noteq> SEMI \<and> c \<noteq> COMMA) (w @ SEMI # SP # cookie_text cs) = SEMI # SP # cookie_text cs"
      using w by (subst dropWhile_append2) auto
    with False cookie_text_head [OF assms(2)] show ?thesis
      by (simp add: mh_skip_def cookie_tail_def skip_spaces_SP)
  qed
qed

lemma tolower_eq_sign: "ngx_tolower c = EQ \<longleftrightarrow> c = EQ"
  by (rule byte_cases [where x = c]) code_simp

lemma cookie_prefix:
  assumes "map ngx_tolower (take (length name) (n @ EQ # r)) = map ngx_tolower name" and "EQ \<notin> set name"
  shows "length name \<le> length n"
proof (rule ccontr)
  assume "\<not> length name \<le> length n"
  then have lt: "length n < length name" by simp
  then have "map ngx_tolower (take (length name) (n @ EQ # r)) ! length n = EQ"
    by (simp add: nth_append tolower_eq_sign)
  with assms(1) lt have "name ! length n = EQ" by (simp add: tolower_eq_sign)
  with assms(2) lt show False by (metis nth_mem)
qed

lemma takeWhile_value: "set v \<inter> {SEMI, COMMA} = {} \<Longrightarrow> takeWhile (\<lambda>c. c \<noteq> SEMI) (v @ cookie_tail cs) = v"
proof -
  assume "set v \<inter> {SEMI, COMMA} = {}"
  then have "\<And>c. c \<in> set v \<Longrightarrow> c \<noteq> SEMI" by auto
  then have "takeWhile (\<lambda>c. c \<noteq> SEMI) (v @ cookie_tail cs) = v @ takeWhile (\<lambda>c. c \<noteq> SEMI) (cookie_tail cs)"
    by (rule takeWhile_append2)
  then show ?thesis by (simp add: cookie_tail_def)
qed

lemma mh_line_cookie:
  assumes "name_ok name" and "name_ok n" and "value_ok v" and "cookies_ok cs"
  shows "mh_line name True (n @ EQ # v @ cookie_tail cs) =
    (if same_name n name then Some (Some v) else mh_line name True (cookie_text cs))"
proof -
  let ?s = "n @ EQ # v @ cookie_tail cs" and ?k = "length name"
  have s: "?s \<noteq> []" by simp
  have cmp: "ngx_strncasecmp ?s name ?k = 0 \<longleftrightarrow> map ngx_tolower (take ?k ?s) = map ngx_tolower name"
    using strncasecmp_zero [of name ?s "[]"] assms(1) by (auto simp: name_ok_def)
  have eq: "EQ \<notin> set name" using assms(1) by (auto simp: name_ok_def)
  have clean: "set n \<inter> {SEMI, COMMA} = {}" "set v \<inter> {SEMI, COMMA} = {}"
    using assms(2,3) by (auto simp: name_ok_def value_ok_def)
  show ?thesis
  proof (cases "map ngx_tolower (take ?k ?s) = map ngx_tolower name")
    case False
    have "\<not> same_name n name"
    proof
      assume "same_name n name"
      then have "length n = ?k" unfolding same_name_def by (metis length_map)
      with \<open>same_name n name\<close> False show False by (simp add: same_name_def)
    qed
    moreover have "mh_skip ?s = cookie_text cs"
      using mh_skip_cookie [of "n @ EQ # v" cs] clean assms(4) by simp
    ultimately show ?thesis using False cmp s by (subst mh_line.simps) simp
  next
    case True
    then have le: "?k \<le> length n" using cookie_prefix eq by blast
    show ?thesis
    proof (cases "?k = length n")
      case True
      have "skip_spaces (v @ cookie_tail cs) = v @ cookie_tail cs"
        using assms(3) by (intro skip_spaces_id) (cases v; auto simp: value_ok_def cookie_tail_def)
      with True \<open>map _ _ = _\<close> cmp s takeWhile_value [OF clean(2)] show ?thesis
        by (subst mh_line.simps) (simp add: skip_spaces_id same_name_def Let_def)
    next
      case False
      with le obtain a m where am: "drop ?k n = a # m" by (cases "drop ?k n") auto
      then have "a \<in> set n" "set m \<subseteq> set n" by (metis in_set_dropD list.set_intros(1)) (metis am set_drop_subset set_subset_Cons subset_trans)
      then have a: "a \<noteq> EQ" "a \<noteq> SP" and m: "set (m @ EQ # v) \<inter> {SEMI, COMMA} = {}"
        using assms(2) clean by (auto simp: name_ok_def)
      have "\<not> same_name n name" using False unfolding same_name_def by (metis length_map)
      moreover have "drop ?k ?s = a # m @ EQ # v @ cookie_tail cs" using am le by simp
      moreover have "mh_skip (m @ EQ # v @ cookie_tail cs) = cookie_text cs"
        using mh_skip_cookie [OF m assms(4)] by simp
      ultimately show ?thesis
        using \<open>map _ _ = _\<close> cmp s a by (subst mh_line.simps) (simp add: skip_spaces_id Let_def)
    qed
  qed
qed


lemma cookie_text_Cons: "cookie_text ((n, v) # cs) = n @ EQ # v @ cookie_tail cs"
  by (simp add: cookie_tail_def)

lemma mh_line_cookies:
  "name_ok name \<Longrightarrow> cookies_ok cs \<Longrightarrow>
    mh_line name True (cookie_text cs) = map_option (Some \<circ> snd) (find (\<lambda>(n, v). same_name n name) cs)"
proof (induction cs)
  case Nil
  show ?case by (subst mh_line.simps) simp
next
  case (Cons c cs)
  obtain n v where c: "c = (n, v)" by (cases c) auto
  with Cons.prems have "name_ok n" "value_ok v" "cookies_ok cs" by (auto simp: cookies_ok_def)
  then show ?case using Cons mh_line_cookie [of name n v cs] unfolding c cookie_text_Cons by simp
qed

lemma cookie_text_long:
  assumes "find (\<lambda>(n, v). same_name n name) cs \<noteq> None"
  shows "length name \<le> length (cookie_text cs)"
  using assms
proof (induction cs)
  case (Cons c cs)
  obtain n v where c: "c = (n, v)" by (cases c) auto
  show ?case
  proof (cases "same_name n name")
    case True
    then have "length n = length name" unfolding same_name_def by (metis length_map)
    then show ?thesis by (simp add: c)
  next
    case False
    with Cons c have "length name \<le> length (cookie_text cs)" and "cs \<noteq> []" by auto
    then show ?thesis by (simp add: c)
  qed
qed simp

text \<open>Looking a cookie up, \<open>ngx_http_parse_multi_header_lines\<close> returns the value of the first cookie
  of that name, without regard to case, whatever cookies stand before it, also cookies whose names
  begin with the name asked for; and \<open>NGX_DECLINED\<close> if and only if there is none.\<close>

lemma cookie_lookup:
  assumes "name_ok name" and "cookies_ok cs"
  shows "ngx_http_parse_multi_header_lines [cookie_text cs] name True =
    map_option (\<lambda>(n, v). (0, Some v)) (find (\<lambda>(n, v). same_name n name) cs)"
proof (cases "length name \<le> length (cookie_text cs)")
  case True
  then show ?thesis
    using mh_line_cookies [OF assms]
    by (cases "find (\<lambda>(n, v). same_name n name) cs")
      (auto simp: ngx_http_parse_multi_header_lines_def)
next
  case False
  then have "find (\<lambda>(n, v). same_name n name) cs = None" using cookie_text_long by blast
  with False show ?thesis by (simp add: ngx_http_parse_multi_header_lines_def)
qed

end
