(* ===== verification/Ngx_Base64.thy ===== *)
theory Ngx_Base64
  imports Ngx_Base
begin

unbundle bit_operations_syntax

text \<open>
  Base64, after src/core/ngx_string.c: the encoders and decoders for the standard and the URL
  alphabet. The locale \<open>base64_tables\<close> states what an encoding and a decoding table must promise
  each other; both pairs of tables are interpreted in it.
\<close>

section \<open>Encoding\<close>

definition basis64 :: bytes where
  "basis64 = lit ''ABCDEFGHIJKLMNOPQRSTUVWXYZabcdefghijklmnopqrstuvwxyz0123456789+/''"

definition basis64url :: bytes where
  "basis64url = lit ''ABCDEFGHIJKLMNOPQRSTUVWXYZabcdefghijklmnopqrstuvwxyz0123456789-_''"

text \<open>\<open>ngx_encode_base64_internal\<close>; the bytes written.\<close>

fun ngx_encode_base64_internal :: "bytes \<Rightarrow> bool \<Rightarrow> bytes \<Rightarrow> bytes" where
  "ngx_encode_base64_internal basis padding (s0 # s1 # s2 # s) =
     [basis ! unat (drop_bit 2 s0 AND 0x3f),
      basis ! unat (push_bit 4 (s0 AND 3) OR drop_bit 4 s1),
      basis ! unat (push_bit 2 (s1 AND 0x0f) OR drop_bit 6 s2),
      basis ! unat (s2 AND 0x3f)] @ ngx_encode_base64_internal basis padding s"
| "ngx_encode_base64_internal basis padding [] = []"
| "ngx_encode_base64_internal basis padding [s0] =
     [basis ! unat (drop_bit 2 s0 AND 0x3f), basis ! unat (push_bit 4 (s0 AND 3))]
     @ (if padding then [EQ] else []) @ (if padding then [EQ] else [])"
| "ngx_encode_base64_internal basis padding [s0, s1] =
     [basis ! unat (drop_bit 2 s0 AND 0x3f),
      basis ! unat (push_bit 4 (s0 AND 3) OR drop_bit 4 s1),
      basis ! unat (push_bit 2 (s1 AND 0x0f))]
     @ (if padding then [EQ] else [])"

definition ngx_encode_base64 :: "bytes \<Rightarrow> bytes" where
  "ngx_encode_base64 src = ngx_encode_base64_internal basis64 True src"

definition ngx_encode_base64url :: "bytes \<Rightarrow> bytes" where
  "ngx_encode_base64url src = ngx_encode_base64_internal basis64url False src"

section \<open>Decoding\<close>

definition dec_basis64 :: bytes where
  "dec_basis64 =
   [77, 77, 77, 77, 77, 77, 77, 77, 77, 77, 77, 77, 77, 77, 77, 77,
    77, 77, 77, 77, 77, 77, 77, 77, 77, 77, 77, 77, 77, 77, 77, 77,
    77, 77, 77, 77, 77, 77, 77, 77, 77, 77, 77, 62, 77, 77, 77, 63,
    52, 53, 54, 55, 56, 57, 58, 59, 60, 61, 77, 77, 77, 77, 77, 77,
    77, 0, 1, 2, 3, 4, 5, 6, 7, 8, 9, 10, 11, 12, 13, 14,
    15, 16, 17, 18, 19, 20, 21, 22, 23, 24, 25, 77, 77, 77, 77, 77,
    77, 26, 27, 28, 29, 30, 31, 32, 33, 34, 35, 36, 37, 38, 39, 40,
    41, 42, 43, 44, 45, 46, 47, 48, 49, 50, 51, 77, 77, 77, 77, 77,
    77, 77, 77, 77, 77, 77, 77, 77, 77, 77, 77, 77, 77, 77, 77, 77,
    77, 77, 77, 77, 77, 77, 77, 77, 77, 77, 77, 77, 77, 77, 77, 77,
    77, 77, 77, 77, 77, 77, 77, 77, 77, 77, 77, 77, 77, 77, 77, 77,
    77, 77, 77, 77, 77, 77, 77, 77, 77, 77, 77, 77, 77, 77, 77, 77,
    77, 77, 77, 77, 77, 77, 77, 77, 77, 77, 77, 77, 77, 77, 77, 77,
    77, 77, 77, 77, 77, 77, 77, 77, 77, 77, 77, 77, 77, 77, 77, 77,
    77, 77, 77, 77, 77, 77, 77, 77, 77, 77, 77, 77, 77, 77, 77, 77,
    77, 77, 77, 77, 77, 77, 77, 77, 77, 77, 77, 77, 77, 77, 77, 77]"

definition dec_basis64url :: bytes where
  "dec_basis64url =
   [77, 77, 77, 77, 77, 77, 77, 77, 77, 77, 77, 77, 77, 77, 77, 77,
    77, 77, 77, 77, 77, 77, 77, 77, 77, 77, 77, 77, 77, 77, 77, 77,
    77, 77, 77, 77, 77, 77, 77, 77, 77, 77, 77, 77, 77, 62, 77, 77,
    52, 53, 54, 55, 56, 57, 58, 59, 60, 61, 77, 77, 77, 77, 77, 77,
    77, 0, 1, 2, 3, 4, 5, 6, 7, 8, 9, 10, 11, 12, 13, 14,
    15, 16, 17, 18, 19, 20, 21, 22, 23, 24, 25, 77, 77, 77, 77, 63,
    77, 26, 27, 28, 29, 30, 31, 32, 33, 34, 35, 36, 37, 38, 39, 40,
    41, 42, 43, 44, 45, 46, 47, 48, 49, 50, 51, 77, 77, 77, 77, 77,
    77, 77, 77, 77, 77, 77, 77, 77, 77, 77, 77, 77, 77, 77, 77, 77,
    77, 77, 77, 77, 77, 77, 77, 77, 77, 77, 77, 77, 77, 77, 77, 77,
    77, 77, 77, 77, 77, 77, 77, 77, 77, 77, 77, 77, 77, 77, 77, 77,
    77, 77, 77, 77, 77, 77, 77, 77, 77, 77, 77, 77, 77, 77, 77, 77,
    77, 77, 77, 77, 77, 77, 77, 77, 77, 77, 77, 77, 77, 77, 77, 77,
    77, 77, 77, 77, 77, 77, 77, 77, 77, 77, 77, 77, 77, 77, 77, 77,
    77, 77, 77, 77, 77, 77, 77, 77, 77, 77, 77, 77, 77, 77, 77, 77,
    77, 77, 77, 77, 77, 77, 77, 77, 77, 77, 77, 77, 77, 77, 77, 77]"

text \<open>The first loop of \<open>ngx_decode_base64_internal\<close>: the bytes before the padding, or \<open>NGX_ERROR\<close>.\<close>

primrec b64_scan :: "bytes \<Rightarrow> bytes \<Rightarrow> bytes option" where
  "b64_scan basis [] = Some []"
| "b64_scan basis (c # src) =
     (if c = EQ then Some []
      else if basis ! unat c = 77 then None
      else map_option ((#) c) (b64_scan basis src))"

fun b64_decode :: "bytes \<Rightarrow> bytes \<Rightarrow> bytes" where
  "b64_decode basis (s0 # s1 # s2 # s3 # s) =
     [push_bit 2 (basis ! unat s0) OR drop_bit 4 (basis ! unat s1),
      push_bit 4 (basis ! unat s1) OR drop_bit 2 (basis ! unat s2),
      push_bit 6 (basis ! unat s2) OR basis ! unat s3] @ b64_decode basis s"
| "b64_decode basis [s0, s1, s2] =
     [push_bit 2 (basis ! unat s0) OR drop_bit 4 (basis ! unat s1),
      push_bit 4 (basis ! unat s1) OR drop_bit 2 (basis ! unat s2)]"
| "b64_decode basis [s0, s1] =
     [push_bit 2 (basis ! unat s0) OR drop_bit 4 (basis ! unat s1)]"
| "b64_decode basis [s0] = []"
| "b64_decode basis [] = []"

definition ngx_decode_base64_internal :: "bytes \<Rightarrow> bytes \<Rightarrow> bytes option" where
  "ngx_decode_base64_internal basis src =
     (case b64_scan basis src of
        None \<Rightarrow> None
      | Some s \<Rightarrow> if length s mod 4 = 1 then None else Some (b64_decode basis s))"

definition ngx_decode_base64 :: "bytes \<Rightarrow> bytes option" where
  "ngx_decode_base64 src = ngx_decode_base64_internal dec_basis64 src"

definition ngx_decode_base64url :: "bytes \<Rightarrow> bytes option" where
  "ngx_decode_base64url src = ngx_decode_base64_internal dec_basis64url src"

section \<open>Round trip\<close>

text \<open>A pair of tables that belong together: the six-bit values are recovered.\<close>

locale base64_tables =
  fixes enc dec :: bytes
  assumes dec_enc: "(v :: u_char) < 64 \<Longrightarrow> dec ! unat (enc ! unat v) = v"
    and enc_not_eq: "(v :: u_char) < 64 \<Longrightarrow> enc ! unat v \<noteq> EQ"
begin

lemma b64_scan_enc: "(v :: u_char) < 64 \<Longrightarrow> b64_scan dec (enc ! unat v # s) = map_option ((#) (enc ! unat v)) (b64_scan dec s)"
proof -
  assume v: "v < 64"
  then have "v \<noteq> 77" by auto
  with v show ?thesis by (simp add: dec_enc enc_not_eq)
qed

end

lemma masks: "(0x3f :: u_char) = mask 6" "(3 :: u_char) = mask 2" "(0x0f :: u_char) = mask 4"
  by (simp_all add: mask_eq_exp_minus_1)

lemma byte_eqI:
  fixes a b :: u_char
  assumes "bit a 0 = bit b 0" "bit a 1 = bit b 1" "bit a 2 = bit b 2" "bit a 3 = bit b 3"
    "bit a 4 = bit b 4" "bit a 5 = bit b 5" "bit a 6 = bit b 6" "bit a 7 = bit b 7"
  shows "a = b"
proof (rule bit_word_eqI)
  fix n
  assume "n < LENGTH(8)"
  then have "n \<in> set [0..<8]" by simp
  moreover have "[0..<8] = [0, 1, 2, 3, 4, 5, 6, 7]" by code_simp
  ultimately show "bit a n = bit b n" using assms by auto
qed

lemma below_64: "\<not> bit v 6 \<Longrightarrow> \<not> bit v 7 \<Longrightarrow> v < 64" for v :: u_char
proof -
  have "\<not> bit v 6 \<longrightarrow> \<not> bit v 7 \<longrightarrow> v < 64" by (rule byte_cases [where x = v]) code_simp
  then show "\<not> bit v 6 \<Longrightarrow> \<not> bit v 7 \<Longrightarrow> v < 64" by simp
qed

lemma high_bit: "8 \<le> n \<Longrightarrow> \<not> bit b n" for b :: u_char
  by (auto dest: bit_imp_le_length)

lemma sextets:
  fixes a b :: u_char
  shows "drop_bit 2 a AND 0x3f < 64" "push_bit 4 (a AND 3) OR drop_bit 4 b < 64"
    "push_bit 2 (a AND 0x0f) OR drop_bit 6 b < 64" "a AND 0x3f < 64"
    "push_bit 4 (a AND 3) < 64" "push_bit 2 (a AND 0x0f) < 64"
  unfolding masks by (rule below_64; simp add: bit_simps high_bit)+

lemma octet1: "push_bit 2 (drop_bit 2 a AND 0x3f) OR drop_bit 4 (push_bit 4 (a AND 3) OR drop_bit 4 b) = a" for a b c :: u_char
  unfolding masks by (rule byte_eqI) (auto simp: bit_simps)

lemma octet2: "push_bit 4 (push_bit 4 (a AND 3) OR drop_bit 4 b) OR drop_bit 2 (push_bit 2 (b AND 0x0f) OR drop_bit 6 c) = b" for a b c :: u_char
  unfolding masks by (rule byte_eqI) (auto simp: bit_simps)

lemma octet3: "push_bit 6 (push_bit 2 (b AND 0x0f) OR drop_bit 6 c) OR (c AND 0x3f) = c" for a b c :: u_char
  unfolding masks by (rule byte_eqI) (auto simp: bit_simps)

lemma octet4: "push_bit 2 (drop_bit 2 a AND 0x3f) OR drop_bit 4 (push_bit 4 (a AND 3)) = a" for a b c :: u_char
  unfolding masks by (rule byte_eqI) (auto simp: bit_simps)

lemma octet5: "push_bit 4 (push_bit 4 (a AND 3) OR drop_bit 4 b) OR drop_bit 2 (push_bit 2 (b AND 0x0f)) = b" for a b c :: u_char
  unfolding masks by (rule byte_eqI) (auto simp: bit_simps)


lemma triple_induct:
  fixes P :: "bytes \<Rightarrow> bool"
  assumes "\<And>a b c s. P s \<Longrightarrow> P (a # b # c # s)" and "P []" and "\<And>a. P [a]" and "\<And>a b. P [a, b]"
  shows "P s"
  using assms by (rule ngx_encode_base64_internal.induct [of "\<lambda>_ _ s. P s" "[]" False])

context base64_tables
begin

lemmas b64_scan_sextets = sextets [THEN b64_scan_enc]
lemmas dec_sextets = sextets [THEN dec_enc]

lemma b64_encode_scan:
  "\<exists>s. b64_scan dec (ngx_encode_base64_internal enc padding src) = Some s
    \<and> length s mod 4 \<noteq> 1 \<and> b64_decode dec s = src"
proof (induction src rule: triple_induct)
  case (1 a b c src)
  then obtain s where s: "b64_scan dec (ngx_encode_base64_internal enc padding src) = Some s"
    and "length s mod 4 \<noteq> 1" and "b64_decode dec s = src" by blast
  then have len: "(length (w # x # y # z # s) mod 4 = 1) = False" for w x y z by simp
  show ?case
    unfolding ngx_encode_base64_internal.simps append.simps b64_scan_sextets s option.map
    by (simp only: option.inject simp_thms len b64_decode.simps dec_sextets octet1 octet2 octet3
        append.simps \<open>b64_decode dec s = src\<close>)
next
  case (3 a)
  have s: "b64_scan dec ((if padding then [EQ] else []) @ (if padding then [EQ] else [])) = Some []" by simp
  have len: "(length [w, x] mod 4 = 1) = False" for w x :: u_char by simp
  show ?case
    unfolding ngx_encode_base64_internal.simps append.simps b64_scan_sextets s option.map
    by (simp only: option.inject simp_thms len b64_decode.simps dec_sextets octet4)
next
  case (4 a b)
  have s: "b64_scan dec (if padding then [EQ] else []) = Some []" by simp
  have len: "(length [w, x, y] mod 4 = 1) = False" for w x y :: u_char by simp
  show ?case
    unfolding ngx_encode_base64_internal.simps append.simps b64_scan_sextets s option.map
    by (simp only: option.inject simp_thms len b64_decode.simps dec_sextets octet1 octet5)
qed simp

lemma base64_inverse:
  "ngx_decode_base64_internal dec (ngx_encode_base64_internal enc padding src) = Some src"
  using b64_encode_scan [of padding src] by (auto simp: ngx_decode_base64_internal_def)

end

text \<open>A statement about the values below 64, checked value by value.\<close>

lemma sextet_cases: "list_all (\<lambda>v. v < 64 \<longrightarrow> P v) all_bytes \<Longrightarrow> v < 64 \<Longrightarrow> P v" for v :: u_char
  using byte_cases [of "\<lambda>v. v < 64 \<longrightarrow> P v" v] by simp

interpretation b64: base64_tables basis64 dec_basis64
  by unfold_locales (erule sextet_cases [rotated], code_simp)+

interpretation b64url: base64_tables basis64url dec_basis64url
  by unfold_locales (erule sextet_cases [rotated], code_simp)+

text \<open>The space \<open>ngx_base64_encoded_length\<close> and \<open>ngx_base64_decoded_length\<close> reserve.\<close>

definition ngx_base64_encoded_length :: "nat \<Rightarrow> nat" where
  "ngx_base64_encoded_length len = (len + 2) div 3 * 4"

definition ngx_base64_decoded_length :: "nat \<Rightarrow> nat" where
  "ngx_base64_decoded_length len = (len + 3) div 4 * 3"

lemma length_encode: "length (ngx_encode_base64_internal basis padding src) \<le> ngx_base64_encoded_length (length src)"
proof (induction src rule: triple_induct)
  case (1 a b c s)
  have "(Suc (Suc (Suc (length s))) + 2) div 3 = Suc ((length s + 2) div 3)" by simp
  with 1 show ?case by (simp add: ngx_base64_encoded_length_def)
qed (simp_all add: ngx_base64_encoded_length_def)

lemma length_scan: "b64_scan basis src = Some s \<Longrightarrow> length s \<le> length src"
  by (induction src arbitrary: s) (auto split: if_splits)

lemma length_b64_decode: "length (b64_decode basis s) \<le> ngx_base64_decoded_length (length s)"
proof (induction basis s rule: b64_decode.induct)
  case (1 basis s0 s1 s2 s3 s)
  have "(length (s0 # s1 # s2 # s3 # s) + 3) div 4 = Suc ((length s + 3) div 4)" by simp
  with 1 show ?case by (simp only: ngx_base64_decoded_length_def b64_decode.simps) simp
qed (simp_all add: ngx_base64_decoded_length_def)

text \<open>C15: Base64 decoding recovers every string encoded, with the standard alphabet and padding and
  with the URL alphabet without padding; and neither direction writes more than the space the
  length macros reserve, whatever the input.\<close>

theorem base64_roundtrip:
  "ngx_decode_base64 (ngx_encode_base64 src) = Some src
   \<and> ngx_decode_base64url (ngx_encode_base64url src) = Some src
   \<and> length (ngx_encode_base64 src) \<le> ngx_base64_encoded_length (length src)
   \<and> length (ngx_encode_base64url src) \<le> ngx_base64_encoded_length (length src)
   \<and> (case ngx_decode_base64 src of None \<Rightarrow> True
       | Some d \<Rightarrow> length d \<le> ngx_base64_decoded_length (length src))
   \<and> (case ngx_decode_base64url src of None \<Rightarrow> True
       | Some d \<Rightarrow> length d \<le> ngx_base64_decoded_length (length src))"
proof -
  have "case ngx_decode_base64_internal basis src of None \<Rightarrow> True
      | Some d \<Rightarrow> length d \<le> ngx_base64_decoded_length (length src)" for basis
  proof (cases "b64_scan basis src")
    case (Some s)
    have "ngx_base64_decoded_length (length s) \<le> ngx_base64_decoded_length (length src)"
      using length_scan [OF Some] by (simp add: ngx_base64_decoded_length_def div_le_mono)
    with length_b64_decode [of basis s] Some show ?thesis by (simp add: ngx_decode_base64_internal_def)
  qed (simp add: ngx_decode_base64_internal_def)
  then show ?thesis
    using b64.base64_inverse b64url.base64_inverse length_encode
    by (simp add: ngx_decode_base64_def ngx_encode_base64_def ngx_decode_base64url_def ngx_encode_base64url_def)
qed

end
