(* ===== verification/Ngx_Time.thy ===== *)
theory Ngx_Time
  imports Ngx_Number
begin

unbundle bit_operations_syntax

text \<open>
  HTTP dates: \<open>ngx_gmtime\<close>, \<open>ngx_http_time\<close> and \<open>ngx_http_cookie_time\<close> of src/core/ngx_times.c and
  \<open>ngx_parse_http_time\<close> of src/core/ngx_parse_time.c. The calendar lemmas relate the two
  computations with Gauss' formula; the theorem is the round trip.
\<close>

section \<open>Breaking a time down\<close>

record ngx_tm =
  tm_sec :: int
  tm_min :: int
  tm_hour :: int
  tm_mday :: int
  tm_mon :: int
  tm_year :: int
  tm_wday :: int

definition u64 :: "int \<Rightarrow> int" where
  "u64 x = x mod 18446744073709551616"

definition s32 :: "int \<Rightarrow> int" where
  "s32 x = signed_take_bit 31 x"

text \<open>
  \<open>ngx_gmtime\<close>. After the cast to the unsigned \<open>n\<close> no operation leaves the 64-bit range, so the
  integers are unbounded; the fields of \<open>struct tm\<close> are 32-bit.
\<close>

definition gm_year :: "int \<Rightarrow> int \<times> int" where
  "gm_year days =
     (let year = (days + 2) * 400 div (365 * 400 + 100 - 4 + 1);
          yday = days - (365 * year + year div 4 - year div 100 + year div 400)
      in if yday < 0 then
           let leap = (if year mod 4 = 0 \<and> (year mod 100 \<noteq> 0 \<or> year mod 400 = 0) then 1 else 0)
           in (year - 1, 365 + leap + yday)
         else (year, yday))"

definition gm_date :: "int \<Rightarrow> int \<Rightarrow> int \<times> int \<times> int" where
  "gm_date year yday =
     (let mon = (yday + 31) * 10 div 306;
          mday = yday - (367 * mon div 12 - 30) + 1
      in if yday \<ge> 306 then (year + 1, mon - 10, mday) else (year, mon + 2, mday))"

definition ngx_gmtime :: "int \<Rightarrow> ngx_tm" where
  "ngx_gmtime t =
     (let n = u64 t;
          days = n div 86400;
          wday = (4 + days) mod 7;
          n = n mod 86400;
          hour = n div 3600;
          n = n mod 3600;
          mi = n div 60;
          sec = n mod 60;
          (year, yday) = gm_year (days - (31 + 28) + 719527);
          (year, mon, mday) = gm_date year yday
      in \<lparr>tm_sec = s32 sec, tm_min = s32 mi, tm_hour = s32 hour, tm_mday = s32 mday,
          tm_mon = s32 mon, tm_year = s32 year, tm_wday = s32 wday\<rparr>)"

section \<open>Printing a time\<close>

definition week :: "bytes list" where
  "week = map lit [''Sun'', ''Mon'', ''Tue'', ''Wed'', ''Thu'', ''Fri'', ''Sat'']"

definition months :: "bytes list" where
  "months = map lit [''Jan'', ''Feb'', ''Mar'', ''Apr'', ''May'', ''Jun'',
                     ''Jul'', ''Aug'', ''Sep'', ''Oct'', ''Nov'', ''Dec'']"

text \<open>\<open>%02d\<close> and \<open>%4d\<close> of \<open>ngx_sprintf\<close>, which has no end of buffer: a number is padded with zeros or
  spaces and follows a minus sign if it is negative.\<close>

definition sprintf_d :: "u_char \<Rightarrow> nat \<Rightarrow> int \<Rightarrow> bytes" where
  "sprintf_d zero width v =
     (if v < 0 then MINUS # ngx_sprintf_num 32 (word_of_int (- v)) zero 0 width
      else ngx_sprintf_num 32 (word_of_int v) zero 0 width)"

definition ngx_http_time :: "int \<Rightarrow> bytes" where
  "ngx_http_time t =
     (let tm = ngx_gmtime t in
      week ! nat (tm_wday tm) @ [COMMA, SP] @ sprintf_d D0 2 (tm_mday tm) @ [SP]
      @ months ! nat (tm_mon tm - 1) @ [SP] @ sprintf_d SP 4 (tm_year tm) @ [SP]
      @ sprintf_d D0 2 (tm_hour tm) @ [COLON] @ sprintf_d D0 2 (tm_min tm) @ [COLON]
      @ sprintf_d D0 2 (tm_sec tm) @ lit '' GMT'')"

text \<open>The remainder of C has the sign of the dividend.\<close>

definition c_rem :: "int \<Rightarrow> int \<Rightarrow> int" where
  "c_rem x k = (if x < 0 then - (- x mod k) else x mod k)"

definition ngx_http_cookie_time :: "int \<Rightarrow> bytes" where
  "ngx_http_cookie_time t =
     (let tm = ngx_gmtime t in
      week ! nat (tm_wday tm) @ [COMMA, SP] @ sprintf_d D0 2 (tm_mday tm) @ [MINUS]
      @ months ! nat (tm_mon tm - 1) @ [MINUS]
      @ (if tm_year tm > 2037 then sprintf_d SP 0 (tm_year tm) else sprintf_d D0 2 (c_rem (tm_year tm) 100))
      @ [SP] @ sprintf_d D0 2 (tm_hour tm) @ [COLON] @ sprintf_d D0 2 (tm_min tm) @ [COLON]
      @ sprintf_d D0 2 (tm_sec tm) @ lit '' GMT'')"

section \<open>Parsing a time\<close>

datatype pht_fmt = fmt_no | fmt_rfc822 | fmt_rfc850 | fmt_isoc

definition mday_tab :: "int list" where
  "mday_tab = [31, 28, 31, 30, 31, 30, 31, 31, 30, 31, 30, 31]"

definition dig :: "bytes \<Rightarrow> nat \<Rightarrow> int" where
  "dig v p = uint (rd v p) - 0x30"

definition two_digits :: "bytes \<Rightarrow> nat \<Rightarrow> bool" where
  "two_digits v p \<longleftrightarrow> \<not> (rd v p < D0 \<or> rd v p > D9 \<or> rd v (p + 1) < D0 \<or> rd v (p + 1) > D9)"

definition num2 :: "bytes \<Rightarrow> nat \<Rightarrow> int" where
  "num2 v p = dig v p * 10 + dig v (p + 1)"

definition num4 :: "bytes \<Rightarrow> nat \<Rightarrow> int" where
  "num4 v p = dig v p * 1000 + dig v (p + 1) * 100 + dig v (p + 2) * 10 + dig v (p + 3)"

text \<open>The first loop: how far it runs, and whether a space ended it; then the spaces.\<close>

primrec pht_scan :: "nat \<Rightarrow> bytes \<Rightarrow> nat \<times> pht_fmt" where
  "pht_scan p [] = (p, fmt_no)"
| "pht_scan p (c # cs) =
     (if c = COMMA then (p, fmt_no) else if c = SP then (p, fmt_isoc) else pht_scan (Suc p) cs)"

definition pht_spaces :: "bytes \<Rightarrow> nat \<Rightarrow> nat" where
  "pht_spaces v p = p + length (takeWhile (\<lambda>c. c = SP) (drop p v))"

text \<open>The day, for all formats but \<open>isoc\<close>. An \<open>end - p < n\<close> of the source is \<open>length v < p + n\<close>.\<close>

definition pht_day :: "bytes \<Rightarrow> nat \<Rightarrow> pht_fmt \<Rightarrow> (nat \<times> pht_fmt \<times> int) option" where
  "pht_day v p fmt =
     (if length v < p + 18 then None
      else if fmt \<noteq> fmt_isoc then
        (if \<not> two_digits v p then None
         else let day = num2 v p; p = p + 2 in
           if rd v p = SP then (if length v < p + 18 then None else Some (p + 1, fmt_rfc822, day))
           else if rd v p = MINUS then Some (p + 1, fmt_rfc850, day)
           else None)
      else Some (p, fmt, 32))"

abbreviation (input) c_J :: u_char where "c_J \<equiv> 0x4a"

definition pht_month :: "bytes \<Rightarrow> nat \<Rightarrow> int option" where
  "pht_month v p =
     (let c = rd v p in
      if c = c_J then Some (if rd v (p + 1) = c_a then 0 else if rd v (p + 2) = c_n then 5 else 6)
      else if c = c_F then Some 1
      else if c = c_M then Some (if rd v (p + 2) = c_r then 2 else 4)
      else if c = c_A then Some (if rd v (p + 1) = c_p then 3 else 7)
      else if c = c_S then Some 8
      else if c = c_O then Some 9
      else if c = c_N then Some 10
      else if c = c_D then Some 11
      else None)"

definition pht_year :: "bytes \<Rightarrow> nat \<Rightarrow> pht_fmt \<Rightarrow> int \<Rightarrow> (nat \<times> int \<times> int) option" where
  "pht_year v p fmt day =
     (if (fmt = fmt_rfc822 \<and> rd v p \<noteq> SP) \<or> (fmt = fmt_rfc850 \<and> rd v p \<noteq> MINUS) then None
      else let p = p + 1 in
        if fmt = fmt_rfc822 then
          (if \<not> two_digits v p \<or> \<not> two_digits v (p + 2) then None else Some (p + 4, num4 v p, day))
        else if fmt = fmt_rfc850 then
          (if \<not> two_digits v p then None
           else let y = num2 v p in Some (p + 2, y + (if y < 70 then 2000 else 1900), day))
        else
          let p = (if rd v p = SP then p + 1 else p) in
          if rd v p < D0 \<or> rd v p > D9 then None
          else let day = dig v p; p = p + 1 in
            if rd v p \<noteq> SP then
              (if rd v p < D0 \<or> rd v p > D9 then None
               else if length v < p + 1 + 14 then None else Some (p + 1, 2038, day * 10 + dig v p))
            else if length v < p + 14 then None
            else Some (p, 2038, day))"

definition pht_clock :: "bytes \<Rightarrow> nat \<Rightarrow> (int \<times> int \<times> int) option" where
  "pht_clock v p =
     (if rd v p \<noteq> SP then None
      else if \<not> two_digits v (p + 1) then None
      else if rd v (p + 3) \<noteq> COLON then None
      else if \<not> two_digits v (p + 4) then None
      else if rd v (p + 6) \<noteq> COLON then None
      else if \<not> two_digits v (p + 7) then None
      else Some (num2 v (p + 1), num2 v (p + 4), num2 v (p + 7)))"

definition pht_check :: "int \<Rightarrow> int \<Rightarrow> int \<Rightarrow> int \<times> int \<times> int \<Rightarrow> bool" where
  "pht_check day month year clock =
     (case clock of (hour, mi, sec) \<Rightarrow>
        \<not> (hour > 23 \<or> mi > 59 \<or> sec > 59) \<and>
        (if day = 29 \<and> month = 1
         then \<not> (year mod 4 \<noteq> 0 \<or> year mod 100 = 0 \<and> year mod 400 \<noteq> 0)
         else \<not> day > mday_tab ! nat month))"

definition pht_gauss :: "int \<Rightarrow> int \<Rightarrow> int \<Rightarrow> int \<times> int \<times> int \<Rightarrow> int" where
  "pht_gauss day month year clock =
     (case clock of (hour, mi, sec) \<Rightarrow>
        let month = month - 1;
            (month, year) = (if month \<le> 0 then (month + 12, u64 (year - 1)) else (month, year))
        in s64 (u64 ((365 * year + year div 4 - year div 100 + year div 400
             + 367 * month div 12 - 30 + day - 1 - 719527 + 31 + 28) * 86400
             + hour * 3600 + mi * 60 + sec)))"

text \<open>\<open>None\<close> is \<open>NGX_ERROR\<close>, which is -1, so that the caller cannot tell it from the last second of 1969.\<close>

definition ngx_parse_http_time :: "bytes \<Rightarrow> int option" where
  "ngx_parse_http_time v =
     (let (p, fmt) = pht_scan 0 v in
      case pht_day v (pht_spaces v (p + 1)) fmt of None \<Rightarrow> None
      | Some (p, fmt, day) \<Rightarrow>
     (case pht_month v p of None \<Rightarrow> None
      | Some month \<Rightarrow>
     (case pht_year v (p + 3) fmt day of None \<Rightarrow> None
      | Some (p, year, day) \<Rightarrow>
     (case pht_clock v p of None \<Rightarrow> None
      | Some clock \<Rightarrow>
          (if fmt = fmt_isoc then
             (if rd v (p + 9) \<noteq> SP \<or> \<not> two_digits v (p + 10) \<or> \<not> two_digits v (p + 12) then None
              else let year = num4 v (p + 10) in
                if pht_check day month year clock then Some (pht_gauss day month year clock) else None)
           else if pht_check day month year clock then Some (pht_gauss day month year clock)
           else None)))))"

section \<open>The calendar\<close>

text \<open>March 1 of a year, in days since March 1, 1 BC, and the leap days.\<close>

definition march1 :: "int \<Rightarrow> int" where
  "march1 y = 365 * y + y div 4 - y div 100 + y div 400"

definition leap :: "int \<Rightarrow> int" where
  "leap y = (if y mod 4 = 0 \<and> (y mod 100 \<noteq> 0 \<or> y mod 400 = 0) then 1 else 0)"

lemma div_pred:
  fixes y k :: int
  assumes "1 < k"
  shows "y div k = (y - 1) div k + (if y mod k = 0 then 1 else 0)"
proof -
  define q r where "q = y div k" and "r = y mod k"
  have y: "y = k * q + r" "0 \<le> r" "r < k" using assms by (simp_all add: q_def r_def)
  show ?thesis
  proof (cases "r = 0")
    case True
    have "(y - 1) div k = q - 1" using y True assms by (intro int_div_pos_eq [where r = "k - 1"]) (auto simp: algebra_simps)
    with True show ?thesis by (simp add: q_def r_def)
  next
    case False
    have "(y - 1) div k = q" using y False assms by (intro int_div_pos_eq [where r = "r - 1"]) auto
    with False show ?thesis by (simp add: q_def r_def)
  qed
qed

lemma march1_step: "march1 y = march1 (y - 1) + 365 + leap y"
proof -
  define a b c where "a = (y - 1) div 4" and "b = (y - 1) div 100" and "c = (y - 1) div 400"
  define p q r where "p = (y mod 4 = 0)" and "q = (y mod 100 = 0)" and "r = (y mod 400 = 0)"
  have "y mod 100 = y mod 400 mod 100" and "y mod 4 = y mod 100 mod 4"
    by (rule mod_mod_cancel [symmetric], simp)+
  then have rq: "r \<Longrightarrow> q" and qp: "q \<Longrightarrow> p" unfolding p_def q_def r_def by simp_all
  have d: "y div 4 = a + (if p then 1 else 0)" "y div 100 = b + (if q then 1 else 0)"
    "y div 400 = c + (if r then 1 else 0)"
    unfolding a_def b_def c_def p_def q_def r_def by (rule div_pred, simp)+
  have l: "leap y = (if p \<and> (\<not> q \<or> r) then 1 else 0)" by (simp add: leap_def p_def q_def r_def)
  have "march1 y = 365 * y + (a + (if p then 1 else 0)) - (b + (if q then 1 else 0)) + (c + (if r then 1 else 0))"
    unfolding march1_def d ..
  moreover have "march1 (y - 1) = 365 * (y - 1) + a - b + c"
    unfolding march1_def a_def b_def c_def ..
  ultimately show ?thesis
    unfolding l using rq qp by (cases p; cases q; cases r) simp_all
qed

text \<open>A year is 146097/400 days long, up to a bounded error.\<close>

lemma march1_bounds: "146097 * y - 699 \<le> 400 * march1 y" "400 * march1 y \<le> 146097 * y + 396"
proof -
  have "y - 3 \<le> 4 * (y div 4)" "4 * (y div 4) \<le> y" "y - 99 \<le> 100 * (y div 100)" "100 * (y div 100) \<le> y"
    "y - 399 \<le> 400 * (y div 400)" "400 * (y div 400) \<le> y" by simp_all
  then show "146097 * y - 699 \<le> 400 * march1 y" "400 * march1 y \<le> 146097 * y + 396"
    by (simp_all add: march1_def)
qed

lemma gm_year_correct:
  assumes "gm_year days = (y, yday)"
  shows "march1 y \<le> days" "days < march1 (y + 1)" "yday = days - march1 y"
proof -
  define y0 where "y0 = (days + 2) * 400 div 146097"
  have lo: "146097 * y0 \<le> (days + 2) * 400" and hi: "(days + 2) * 400 < 146097 * (y0 + 1)"
    unfolding y0_def by simp_all
  have after: "days < march1 (y0 + 1)" using hi march1_bounds(1) [of "y0 + 1"] by (simp add: algebra_simps)
  have prev: "march1 (y0 - 1) \<le> days" using lo march1_bounds(2) [of "y0 - 1"] by (simp add: algebra_simps)
  have res: "gm_year days = (if days - march1 y0 < 0 then (y0 - 1, 365 + leap y0 + (days - march1 y0))
      else (y0, days - march1 y0))"
    by (simp add: gm_year_def y0_def march1_def leap_def Let_def)
  have "march1 y \<le> days \<and> days < march1 (y + 1) \<and> yday = days - march1 y"
  proof (cases "days - march1 y0 < 0")
    case True
    with res assms have "y = y0 - 1" "yday = 365 + leap y0 + (days - march1 y0)" by simp_all
    with True prev march1_step [of y0] show ?thesis by simp
  next
    case False
    with res assms have "y = y0" "yday = days - march1 y0" by simp_all
    with False after show ?thesis by simp
  qed
  then show "march1 y \<le> days" "days < march1 (y + 1)" "yday = days - march1 y" by simp_all
qed

text \<open>The day of the year, counted from March 1, as month and day: checked day by day.\<close>

definition date_ok :: "int \<Rightarrow> bool" where
  "date_ok yday =
     (case gm_date 0 yday of (dy, mon, mday) \<Rightarrow>
        (dy = 0 \<or> dy = 1) \<and> (dy = 1 \<longleftrightarrow> 306 \<le> yday) \<and> 1 \<le> mon \<and> mon \<le> 12 \<and> 1 \<le> mday \<and> mday \<le> 31
        \<and> (if yday = 365 then mon = 2 \<and> mday = 29 else mday \<le> mday_tab ! nat (mon - 1))
        \<and> (let m = mon - 2; (m', dy') = (if m \<le> 0 then (m + 12, dy - 1) else (m, dy))
           in dy' = 0 \<and> 367 * m' div 12 - 30 + mday - 1 = yday))"

lemma date_ok: "0 \<le> yday \<Longrightarrow> yday \<le> 365 \<Longrightarrow> date_ok yday"
proof -
  have "list_all date_ok [0..365]" by code_simp
  then show "0 \<le> yday \<Longrightarrow> yday \<le> 365 \<Longrightarrow> date_ok yday" by (simp add: list_all_iff)
qed

lemma gm_date_shift: "gm_date y yday = (case gm_date 0 yday of (dy, mon, mday) \<Rightarrow> (y + dy, mon, mday))"
  by (simp add: gm_date_def Let_def)

section \<open>Printed numbers\<close>

definition digit_byte :: "int \<Rightarrow> u_char" where
  "digit_byte k = hex_lower ! nat k"

lemma digit_byte:
  assumes "0 \<le> k" and "k < 10"
  shows "is_digit (digit_byte k)" "uint (digit_byte k) - 0x30 = k"
  using dec_table_digit [of "nat k"] uint_digit [of "digit_byte k"] assms
  by (simp_all add: digit_byte_def nat_less_iff)

lemma num_digits_small:
  assumes "0 \<le> v" and "v < 10000"
  shows "num_digits (word_of_int v) 0 = base_digits 10 hex_lower (nat v)"
proof -
  have "unat (word_of_int v :: 64 word) = nat v"
    using assms by (simp add: unsigned_of_int nat_take_bit_eq take_bit_int_eq_self)
  then show ?thesis by (simp add: num_digits_base)
qed

lemma sprintf_two:
  assumes "0 \<le> v" and "v < 100"
  shows "sprintf_d D0 2 v = [digit_byte (v div 10), digit_byte (v mod 10)]"
proof -
  have zero: "hex_lower ! 0 = D0" by (simp add: hex_lower_def)
  have n: "num_digits (word_of_int v) 0 = base_digits 10 hex_lower (nat v)"
    using assms by (intro num_digits_small) simp_all
  have m: "nat (v div 10) = nat v div 10" "nat (v mod 10) = nat v mod 10"
    using assms by (simp_all add: nat_div_distrib nat_mod_distrib)
  show ?thesis
  proof (cases "v < 10")
    case True
    then have "nat v < 10" "v div 10 = 0" "v mod 10 = v" using assms by simp_all
    then show ?thesis
      using assms n by (simp add: sprintf_d_def ngx_sprintf_num_take base_digits.simps [of 10] digit_byte_def zero numeral_2_eq_2)
  next
    case False
    then have "\<not> nat v < 10" "nat v div 10 < 10" using assms by auto
    then show ?thesis
      using assms n m
      by (simp add: sprintf_d_def ngx_sprintf_num_take base_digits.simps [of 10] digit_byte_def)
  qed
qed

lemma sprintf_four:
  assumes "1000 \<le> v" and "v < 10000"
  shows "sprintf_d SP 4 v =
    [digit_byte (v div 1000), digit_byte (v div 100 mod 10), digit_byte (v div 10 mod 10), digit_byte (v mod 10)]"
proof -
  have n: "num_digits (word_of_int v) 0 = base_digits 10 hex_lower (nat v)"
    using assms by (intro num_digits_small) simp_all
  define w where "w = nat v"
  have w: "\<not> w < 10" "\<not> w div 10 < 10" "\<not> w div 10 div 10 < 10" "w div 10 div 10 div 10 < 10"
    using assms by (auto simp: w_def)
  have "w div 10 div 10 = w div 100" "w div 10 div 10 div 10 = w div 1000" by (simp_all add: div_mult2_eq [symmetric])
  then have "base_digits 10 hex_lower w =
      [hex_lower ! (w div 1000), hex_lower ! (w div 100 mod 10), hex_lower ! (w div 10 mod 10), hex_lower ! (w mod 10)]"
    using w by (simp add: base_digits.simps [of 10])
  moreover have "nat (v div 1000) = w div 1000" "nat (v div 100 mod 10) = w div 100 mod 10"
    "nat (v div 10 mod 10) = w div 10 mod 10" "nat (v mod 10) = w mod 10"
    using assms by (simp_all add: w_def nat_div_distrib nat_mod_distrib)
  ultimately show ?thesis
    using assms n by (simp add: sprintf_d_def ngx_sprintf_num_take digit_byte_def w_def)
qed

section \<open>The printed time is parsed\<close>

text \<open>A text of the shape \<open>Www, dd Mmm yyyy hh:mm:ss GMT\<close>.\<close>

definition http_text :: "bytes \<Rightarrow> int \<Rightarrow> bytes \<Rightarrow> int \<Rightarrow> int \<Rightarrow> int \<Rightarrow> int \<Rightarrow> bytes" where
  "http_text w day mon year hour mi sec =
     w @ [COMMA, SP] @ sprintf_d D0 2 day @ [SP] @ mon @ [SP] @ sprintf_d SP 4 year @ [SP]
     @ sprintf_d D0 2 hour @ [COLON] @ sprintf_d D0 2 mi @ [COLON] @ sprintf_d D0 2 sec @ lit '' GMT''"

lemma rd_Cons: "rd (x # xs) (Suc i) = rd xs i" "rd (x # xs) 0 = x" "rd (x # xs) (numeral n) = rd xs (pred_numeral n)"
  by (simp_all add: rd_def)

lemma two_digits_bytes:
  assumes "rd v p = digit_byte a" and "rd v (p + 1) = digit_byte b"
    and "0 \<le> a" "a < 10" "0 \<le> b" "b < 10"
  shows "two_digits v p" "num2 v p = a * 10 + b"
  using digit_byte [of a] digit_byte [of b] assms
  by (auto simp: two_digits_def num2_def dig_def is_digit_def)

lemma split_number: "(v div 10) * 10 + v mod 10 = (v :: int)"
  by simp

lemma month_bytes:
  assumes "1 \<le> m" and "m \<le> 12"
  obtains a b c where "months ! nat (m - 1) = [a, b, c]"
    and "\<And>v p. rd v p = a \<Longrightarrow> rd v (p + 1) = b \<Longrightarrow> rd v (p + 2) = c \<Longrightarrow> pht_month v p = Some (m - 1)"
proof -
  from assms have "m = 1 \<or> m = 2 \<or> m = 3 \<or> m = 4 \<or> m = 5 \<or> m = 6 \<or> m = 7 \<or> m = 8 \<or> m = 9 \<or> m = 10 \<or> m = 11 \<or> m = 12"
    by arith
  then show ?thesis
    by (elim disjE) (rule that, simp add: months_def, simp add: pht_month_def Let_def)+
qed

lemma week_bytes:
  assumes "0 \<le> d" and "d < 7"
  obtains a b c where "week ! nat d = [a, b, c]" and "a \<noteq> COMMA" "a \<noteq> SP" "b \<noteq> COMMA" "b \<noteq> SP" "c \<noteq> COMMA" "c \<noteq> SP"
proof -
  from assms have "d = 0 \<or> d = 1 \<or> d = 2 \<or> d = 3 \<or> d = 4 \<or> d = 5 \<or> d = 6" by arith
  then show ?thesis by (elim disjE) (rule that, simp add: week_def, simp, simp, simp, simp, simp, simp)+
qed

lemma digits_sum:
  "y = a * 10 + p \<Longrightarrow> a = b * 10 + q \<Longrightarrow> b = c * 10 + r \<Longrightarrow> c * 1000 + r * 100 + q * 10 + p = (y :: int)"
  by simp

lemma four_digits:
  "y div 1000 * 1000 + (y div 100 mod 10) * 100 + (y div 10 mod 10) * 10 + y mod 10 = (y :: int)"
proof -
  have "y div 10 div 10 = y div 100" and "y div 100 div 10 = y div 1000"
    using zdiv_zmult2_eq [of 10 y 10] zdiv_zmult2_eq [of 10 y 100] by simp_all
  then show ?thesis
    using div_mult_mod_eq [of y 10] div_mult_mod_eq [of "y div 10" 10] div_mult_mod_eq [of "y div 100" 10]
    by (intro digits_sum) (simp_all only:)
qed

lemma parse_http_text:
  assumes w: "w = [w0, w1, w2]" "w0 \<noteq> COMMA" "w0 \<noteq> SP" "w1 \<noteq> COMMA" "w1 \<noteq> SP" "w2 \<noteq> COMMA" "w2 \<noteq> SP"
    and m: "1 \<le> m" "m \<le> 12" and day: "0 \<le> day" "day < 100" and year: "1000 \<le> year" "year < 10000"
    and clock: "0 \<le> h" "h < 100" "0 \<le> mi" "mi < 100" "0 \<le> s" "s < 100"
  shows "ngx_parse_http_time (http_text w day (months ! nat (m - 1)) year h mi s) =
    (if pht_check day (m - 1) year (h, mi, s) then Some (pht_gauss day (m - 1) year (h, mi, s)) else None)"
proof -
  obtain m0 m1 m2 where mon: "months ! nat (m - 1) = [m0, m1, m2]"
    and month: "\<And>v p. rd v p = m0 \<Longrightarrow> rd v (p + 1) = m1 \<Longrightarrow> rd v (p + 2) = m2 \<Longrightarrow> pht_month v p = Some (m - 1)"
    using month_bytes [OF m] by blast
  define d1 d0 where "d1 = digit_byte (day div 10)" and "d0 = digit_byte (day mod 10)"
  define y3 y2 y1 y0 where "y3 = digit_byte (year div 1000)" and "y2 = digit_byte (year div 100 mod 10)"
    and "y1 = digit_byte (year div 10 mod 10)" and "y0 = digit_byte (year mod 10)"
  define h1 h0 where "h1 = digit_byte (h div 10)" and "h0 = digit_byte (h mod 10)"
  define i1 i0 where "i1 = digit_byte (mi div 10)" and "i0 = digit_byte (mi mod 10)"
  define s1 s0 where "s1 = digit_byte (s div 10)" and "s0 = digit_byte (s mod 10)"
  define v where "v = http_text w day (months ! nat (m - 1)) year h mi s"
  have v: "v = [w0, w1, w2, COMMA, SP, d1, d0, SP, m0, m1, m2, SP, y3, y2, y1, y0, SP,
      h1, h0, COLON, i1, i0, COLON, s1, s0, SP, c_G, c_M, c_T]"
    unfolding v_def http_text_def w(1) mon sprintf_two [OF day] sprintf_four [OF year]
      sprintf_two [OF clock(1,2)] sprintf_two [OF clock(3,4)] sprintf_two [OF clock(5,6)]
    by (simp add: d1_def d0_def y3_def y2_def y1_def y0_def h1_def h0_def i1_def i0_def s1_def s0_def)
  have pair: "two_digits v p \<and> num2 v p = x"
    if "rd v p = digit_byte (x div 10)" "rd v (p + 1) = digit_byte (x mod 10)" "0 \<le> x" "x < 100" for p x
    using two_digits_bytes [OF that(1,2)] that(3,4) by simp
  have pd: "two_digits v 5 \<and> num2 v 5 = day" by (rule pair) (use day in \<open>simp_all add: v rd_Cons d1_def d0_def\<close>)
  have ph: "two_digits v 17 \<and> num2 v 17 = h" by (rule pair) (use clock in \<open>simp_all add: v rd_Cons h1_def h0_def\<close>)
  have pm: "two_digits v 20 \<and> num2 v 20 = mi" by (rule pair) (use clock in \<open>simp_all add: v rd_Cons i1_def i0_def\<close>)
  have ps: "two_digits v 23 \<and> num2 v 23 = s" by (rule pair) (use clock in \<open>simp_all add: v rd_Cons s1_def s0_def\<close>)
  have yd: "is_digit y3" "is_digit y2" "is_digit y1" "is_digit y0"
    "uint y3 - 0x30 = year div 1000" "uint y2 - 0x30 = year div 100 mod 10"
    "uint y1 - 0x30 = year div 10 mod 10" "uint y0 - 0x30 = year mod 10"
    using year by (simp_all only: y3_def y2_def y1_def y0_def) (rule digit_byte; simp)+
  have py: "two_digits v 12 \<and> two_digits v 14 \<and> num4 v 12 = year"
  proof -
    have "num4 v 12 = year div 1000 * 1000 + (year div 100 mod 10) * 100 + (year div 10 mod 10) * 10 + year mod 10"
      unfolding num4_def dig_def yd(5-8) [symmetric] by (simp add: v rd_Cons)
    also have "\<dots> = year" by (rule four_digits)
    finally show ?thesis using yd(1-4) by (simp add: two_digits_def v rd_Cons is_digit_def not_less)
  qed
  have "d1 \<noteq> SP" using digit_byte(1) [of "day div 10"] day by (auto simp: d1_def)
  then have sp: "pht_spaces v 4 = 5" by (simp add: pht_spaces_def v)
  have scan: "pht_scan 0 v = (3, fmt_no)" using w by (simp add: v)
  have e: "pht_day v 5 fmt_no = Some (8, fmt_rfc822, day)"
    using pd by (simp add: pht_day_def Let_def) (simp add: v rd_Cons)
  have mo: "pht_month v 8 = Some (m - 1)" by (rule month) (simp_all add: v rd_Cons)
  have ye: "pht_year v 11 fmt_rfc822 day = Some (16, year, day)"
    using py by (simp add: pht_year_def Let_def) (simp add: v rd_Cons)
  have cl: "pht_clock v 16 = Some (h, mi, s)"
    using ph pm ps by (simp add: pht_clock_def) (simp add: v rd_Cons)
  show ?thesis
    unfolding v_def [symmetric] ngx_parse_http_time_def Let_def scan prod.case
    by (simp add: sp e mo ye cl)
qed

lemma s32_id: "0 \<le> x \<Longrightarrow> x < 2147483648 \<Longrightarrow> s32 x = x"
  unfolding s32_def by (rule signed_take_bit_int_eq_self) simp_all

text \<open>What \<open>ngx_gmtime\<close> computes for the times from 1970 to the end of 9999.\<close>

definition last_time :: int where "last_time = 253402300799"

definition days_of :: "int \<Rightarrow> int" where
  "days_of t = t div 86400 - 59 + 719527"

definition clock_of :: "int \<Rightarrow> int \<times> int \<times> int" where
  "clock_of t = (t mod 86400 div 3600, t mod 86400 mod 3600 div 60, t mod 86400 mod 3600 mod 60)"

definition broken_down :: "int \<Rightarrow> int \<Rightarrow> int \<Rightarrow> int \<Rightarrow> int \<Rightarrow> int \<Rightarrow> bool" where
  "broken_down t y yday dy mon mday \<longleftrightarrow> 0 \<le> t \<and> t \<le> last_time
     \<and> gm_year (days_of t) = (y, yday) \<and> gm_date 0 yday = (dy, mon, mday)"

lemma days_range:
  assumes "broken_down t y yday dy mon mday"
  shows "719468 \<le> days_of t" "days_of t \<le> 3652364"
proof -
  have t: "0 \<le> t" "t \<le> last_time" using assms by (simp_all add: broken_down_def)
  then have "0 \<le> t div 86400" by simp
  moreover have "t div 86400 \<le> last_time div 86400" using t by (intro zdiv_mono1) simp_all
  ultimately show "719468 \<le> days_of t" "days_of t \<le> 3652364" by (simp_all add: days_of_def last_time_def)
qed

lemma year_facts:
  assumes "broken_down t y yday dy mon mday"
  shows "march1 y \<le> days_of t" "days_of t < march1 (y + 1)" "yday = days_of t - march1 y"
  using assms gm_year_correct by (auto simp: broken_down_def)

lemma yday_range:
  assumes "broken_down t y yday dy mon mday"
  shows "0 \<le> yday" "yday \<le> 365" "yday = 365 \<Longrightarrow> leap (y + 1) = 1"
proof -
  have "march1 (y + 1) = march1 y + 365 + leap (y + 1)" using march1_step [of "y + 1"] by simp
  moreover have "leap (y + 1) = 0 \<or> leap (y + 1) = 1" by (simp add: leap_def)
  ultimately show "0 \<le> yday" "yday \<le> 365" "yday = 365 \<Longrightarrow> leap (y + 1) = 1"
    using year_facts [OF assms] by auto
qed

lemma date_facts:
  assumes "broken_down t y yday dy mon mday"
  shows "dy = (if 306 \<le> yday then 1 else 0)" "1 \<le> mon" "mon \<le> 12" "1 \<le> mday" "mday \<le> 31"
    "if yday = 365 then mon = 2 \<and> mday = 29 else mday \<le> mday_tab ! nat (mon - 1)"
    "mon \<le> 2 \<Longrightarrow> dy = 1 \<and> 367 * (mon + 10) div 12 - 30 + mday - 1 = yday"
    "2 < mon \<Longrightarrow> dy = 0 \<and> 367 * (mon - 2) div 12 - 30 + mday - 1 = yday"
proof -
  have "gm_date 0 yday = (dy, mon, mday)" using assms by (simp add: broken_down_def)
  with date_ok [OF yday_range(1,2) [OF assms]] show
    "dy = (if 306 \<le> yday then 1 else 0)" "1 \<le> mon" "mon \<le> 12" "1 \<le> mday" "mday \<le> 31"
    "if yday = 365 then mon = 2 \<and> mday = 29 else mday \<le> mday_tab ! nat (mon - 1)"
    "mon \<le> 2 \<Longrightarrow> dy = 1 \<and> 367 * (mon + 10) div 12 - 30 + mday - 1 = yday"
    "2 < mon \<Longrightarrow> dy = 0 \<and> 367 * (mon - 2) div 12 - 30 + mday - 1 = yday"
    unfolding date_ok_def Let_def by (auto split: if_splits)
qed

lemma y_range:
  assumes "broken_down t y yday dy mon mday"
  shows "1969 \<le> y" "y \<le> 9999" "y + dy < 10000"
proof -
  note lo = march1_bounds(1) [of y] and hi = march1_bounds(2) [of "y + 1"]
  note days = days_range [OF assms] and year = year_facts [OF assms]
  show "1969 \<le> y"
  proof (rule ccontr)
    assume "\<not> 1969 \<le> y"
    then have "146097 * (y + 1) \<le> 146097 * 1969" by simp
    with hi year(2) days(1) show False by linarith
  qed
  show y: "y \<le> 9999"
  proof (rule ccontr)
    assume "\<not> y \<le> 9999"
    then have "146097 * 10000 \<le> 146097 * y" by simp
    with lo year(1) days(2) show False by linarith
  qed
  show "y + dy < 10000"
  proof (rule ccontr)
    assume *: "\<not> y + dy < 10000"
    with y date_facts(1) [OF assms] have "y = 9999" "306 \<le> yday" by (auto split: if_splits)
    then have "march1 9999 + 306 \<le> days_of t" using year(3) by simp
    then show False using days(2) by (simp add: march1_def)
  qed
qed

lemma clock_range:
  assumes "clock_of t = (h, mi, s)"
  shows "0 \<le> h" "h \<le> 23" "0 \<le> mi" "mi \<le> 59" "0 \<le> s" "s \<le> 59" "h * 3600 + mi * 60 + s = t mod 86400"
proof -
  define r q where "r = t mod 86400" and "q = r mod 3600"
  have c: "h = r div 3600" "mi = q div 60" "s = q mod 60" using assms by (simp_all add: clock_of_def r_def q_def)
  have r: "0 \<le> r" "r \<le> 86399" and q: "0 \<le> q" "q \<le> 3599" by (simp_all add: r_def q_def)
  show "0 \<le> h" "0 \<le> mi" "0 \<le> s" using r q c by (simp_all add: pos_imp_zdiv_nonneg_iff)
  show "h \<le> 23" using zdiv_mono1 [OF r(2), of 3600] c by simp
  show "mi \<le> 59" using zdiv_mono1 [OF q(2), of 60] c by simp
  show "s \<le> 59" using pos_mod_bound [of 60 q] c(3) by simp
  have "h * 3600 + q = r" "mi * 60 + s = q" using c q_def by simp_all
  then show "h * 3600 + mi * 60 + s = t mod 86400" by (simp add: r_def)
qed

lemma u64_id: "0 \<le> x \<Longrightarrow> x < 18446744073709551616 \<Longrightarrow> u64 x = x"
  by (simp add: u64_def)

lemma gmtime_fields:
  assumes bd: "broken_down t y yday dy mon mday" and clock: "clock_of t = (h, mi, s)"
  shows "ngx_gmtime t = \<lparr>tm_sec = s, tm_min = mi, tm_hour = h, tm_mday = mday, tm_mon = mon,
    tm_year = y + dy, tm_wday = (4 + t div 86400) mod 7\<rparr>"
proof -
  define w where "w = (4 + t div 86400) mod 7"
  have w: "0 \<le> w" "w < 7" by (simp_all add: w_def)
  have u: "u64 t = t" using bd by (intro u64_id) (simp_all add: broken_down_def last_time_def)
  have d: "gm_date y yday = (y + dy, mon, mday)"
    using bd gm_date_shift [of y yday] by (simp add: broken_down_def)
  have g: "gm_year (t div 86400 - (31 + 28) + 719527) = (y, yday)"
    using bd by (simp add: broken_down_def days_of_def)
  have c: "t mod 86400 div 3600 = h" "t mod 86400 mod 3600 div 60 = mi" "t mod 86400 mod 3600 mod 60 = s"
    using clock by (simp_all only: clock_of_def prod.inject)
  have dy: "0 \<le> dy" using date_facts(1) [OF bd] by simp
  note cr = clock_range [OF clock] and dr = date_facts(2-5) [OF bd] and yr = y_range [OF bd]
  have i: "s32 s = s" "s32 mi = mi" "s32 h = h" "s32 mday = mday" "s32 mon = mon"
    "s32 (y + dy) = y + dy" "s32 w = w"
    by (rule s32_id; use cr dr yr w dy in linarith)+
  show ?thesis
    unfolding ngx_gmtime_def Let_def u g prod.case d w_def [symmetric] c i ..
qed

lemma gauss_days:
  assumes bd: "broken_down t y yday dy mon mday"
  shows "pht_gauss mday (mon - 1) (y + dy) clock =
    (case clock of (h, mi, s) \<Rightarrow> s64 (u64 (t div 86400 * 86400 + h * 3600 + mi * 60 + s)))"
proof -
  define D where "D = t div 86400"
  define a b c where "a = y div 4" and "b = y div 100" and "c = y div 400"
  have sum: "365 * y + a - b + c + yday = D - 59 + 719527"
    using year_facts(3) [OF bd] by (simp only: march1_def days_of_def a_def b_def c_def D_def)
  have key: "(365 * y + a - b + c + m - 30 + mday - 1 - 719527 + 31 + 28) = D" if "m - 30 + mday - 1 = yday" for m
    using that sum by linarith
  show ?thesis
  proof (cases "mon \<le> 2")
    case True
    note f = date_facts(7) [OF bd True]
    have u: "u64 (y + dy - 1) = y" using f y_range [OF bd] by (simp add: u64_id)
    have m: "(if mon - 1 - 1 \<le> 0 then (mon - 1 - 1 + 12, u64 (y + dy - 1)) else (mon - 1 - 1, y + dy)) = (mon + 10, y)"
      using True u by simp
    show ?thesis
      unfolding pht_gauss_def Let_def m prod.case a_def [symmetric] b_def [symmetric] c_def [symmetric]
        key [OF f [THEN conjunct2]] D_def ..
  next
    case False
    then have gt: "2 < mon" by simp
    note f = date_facts(8) [OF bd gt]
    have m: "(if mon - 1 - 1 \<le> 0 then (mon - 1 - 1 + 12, u64 (y + dy - 1)) else (mon - 1 - 1, y + dy)) = (mon - 2, y)"
      using gt f by simp
    show ?thesis
      unfolding pht_gauss_def Let_def m prod.case a_def [symmetric] b_def [symmetric] c_def [symmetric]
        key [OF f [THEN conjunct2]] D_def ..
  qed
qed

lemma gauss_inverse:
  assumes bd: "broken_down t y yday dy mon mday"
  shows "pht_gauss mday (mon - 1) (y + dy) (clock_of t) = t"
proof -
  obtain h mi s where c: "clock_of t = (h, mi, s)" by (cases "clock_of t") auto
  have "t div 86400 * 86400 + t mod 86400 = t" by (rule div_mult_mod_eq)
  then have "t div 86400 * 86400 + h * 3600 + mi * 60 + s = t"
    unfolding clock_range(7) [OF c, symmetric] by (simp only: add.assoc)
  moreover have "s64 (u64 t) = t" using bd by (simp add: u64_id s64_id broken_down_def last_time_def)
  ultimately show ?thesis unfolding gauss_days [OF bd] c prod.case by (simp only:)
qed

lemma check_passes:
  assumes bd: "broken_down t y yday dy mon mday"
  shows "pht_check mday (mon - 1) (y + dy) (clock_of t)"
proof -
  obtain h mi s where c: "clock_of t = (h, mi, s)" by (cases "clock_of t") auto
  have "\<not> (h > 23 \<or> mi > 59 \<or> s > 59)" using clock_range [OF c] by auto
  moreover have "if mday = 29 \<and> mon - 1 = 1
      then \<not> ((y + dy) mod 4 \<noteq> 0 \<or> (y + dy) mod 100 = 0 \<and> (y + dy) mod 400 \<noteq> 0)
      else \<not> mday > mday_tab ! nat (mon - 1)"
  proof (cases "yday = 365")
    case True
    then have l: "leap (y + 1) = 1" and f: "dy = 1" "mon = 2" "mday = 29"
      using yday_range(3) [OF bd] date_facts(1,6) [OF bd] by simp_all
    define p q r where "p = ((y + 1) mod 4 = 0)" and "q = ((y + 1) mod 100 = 0)" and "r = ((y + 1) mod 400 = 0)"
    from l have "p \<and> (\<not> q \<or> r)"
      unfolding leap_def p_def [symmetric] q_def [symmetric] r_def [symmetric] by (simp split: if_splits)
    then have "\<not> (\<not> p \<or> q \<and> \<not> r)" by blast
    moreover have "mday = 29 \<and> mon - 1 = 1" using f by simp
    ultimately show ?thesis unfolding f(1) p_def q_def r_def by (simp only: if_True simp_thms)
  next
    case False
    then have le: "mday \<le> mday_tab ! nat (mon - 1)" using date_facts(6) [OF bd] by (simp only: if_False)
    then have "\<not> (mday = 29 \<and> mon - 1 = 1)" by (auto simp: mday_tab_def)
    then show ?thesis using le by (simp only: if_False not_less)
  qed
  ultimately show ?thesis unfolding pht_check_def c prod.case by (rule conjI)
qed

text \<open>C18: Every time from 1970-01-01 to the end of the year 9999 is printed by \<open>ngx_http_time\<close> as a date
  that \<open>ngx_parse_http_time\<close> reads back as the same second: the Gregorian calendar that one direction
  computes with is the one that the other inverts, in every month and leap year.\<close>

theorem http_time_roundtrip:
  assumes "0 \<le> t" and "t \<le> 253402300799"
  shows "ngx_parse_http_time (ngx_http_time t) = Some t"
proof -
  obtain y yday where year: "gm_year (days_of t) = (y, yday)" by (cases "gm_year (days_of t)") auto
  obtain dy mon mday where date: "gm_date 0 yday = (dy, mon, mday)" by (cases "gm_date 0 yday") auto
  have bd: "broken_down t y yday dy mon mday"
    using assms year date by (simp add: broken_down_def last_time_def)
  obtain h mi s where c: "clock_of t = (h, mi, s)" by (cases "clock_of t") auto
  obtain e f g where w: "week ! nat ((4 + t div 86400) mod 7) = [e, f, g]"
    "e \<noteq> COMMA" "e \<noteq> SP" "f \<noteq> COMMA" "f \<noteq> SP" "g \<noteq> COMMA" "g \<noteq> SP"
    by (rule week_bytes [of "(4 + t div 86400) mod 7"]) simp_all
  have "ngx_http_time t = http_text [e, f, g] mday (months ! nat (mon - 1)) (y + dy) h mi s"
    unfolding ngx_http_time_def http_text_def gmtime_fields [OF bd c] Let_def by (simp only: w(1) ngx_tm.simps)
  moreover have r: "0 \<le> dy" using date_facts(1) [OF bd] by simp
  note cr = clock_range [OF c] and dr = date_facts(2-5) [OF bd] and yr = y_range [OF bd]
  have b: "0 \<le> mday" "mday < 100" "1000 \<le> y + dy" "y + dy < 10000" "h < 100" "mi < 100" "s < 100"
    using cr dr yr r by linarith+
  have "ngx_parse_http_time (http_text [e, f, g] mday (months ! nat (mon - 1)) (y + dy) h mi s) = Some t"
    unfolding parse_http_text [OF refl w(2-7) dr(1,2) b(1-4) cr(1) b(5) cr(3) b(6) cr(5) b(7)]
      c [symmetric] gauss_inverse [OF bd]
    using check_passes [OF bd] by (simp only: if_True)
  ultimately show ?thesis by (simp only:)
qed

theorem http_time_roundtrip_witness: "ngx_parse_http_time (ngx_http_time 951782399) = Some 951782399"
  using http_time_roundtrip [of 951782399] by simp

end
