(* ===== verification/Http_Range.thy ===== *)
theory Http_Range
  imports Ngx_Time Ngx_String
begin

unbundle bit_operations_syntax

text \<open>
  Ranges: src/http/modules/ngx_http_range_filter_module.c. \<open>ngx_http_range_parse\<close> reads the \<open>Range\<close> header, the
  header filter decides what is sent, and the body filter cuts the buffers of the response. The ranges are
  inside of the body and those that the client asked for, and what is sent agrees with the headers.
\<close>

section \<open>Parsing the header\<close>

record ngx_http_range =
  rg_start :: int
  rg_end :: int
  rg_content_range :: bytes

text \<open>What \<open>ngx_http_range_parse\<close> returns; the allocations are taken to succeed.\<close>

datatype range_rc = Range_ok | Range_declined | Range_not_satisfiable

text \<open>A position in the header's value is the rest of its bytes; behind them there is a NUL.\<close>

definition skip_sp :: "bytes \<Rightarrow> bytes" where
  "skip_sp p = dropWhile (\<lambda>c. c = SP) p"

text \<open>\<open>while (*p >= '0' && *p <= '9')\<close>: the number and the rest, or too large.\<close>

fun range_number :: "int \<Rightarrow> bytes \<Rightarrow> (int \<times> bytes) option" where
  "range_number v [] = Some (v, [])"
| "range_number v (c # p) =
     (if D0 \<le> c \<and> c \<le> D9 then
        (if v \<ge> NGX_MAX_OFF_T_VALUE div 10
           \<and> (v > NGX_MAX_OFF_T_VALUE div 10 \<or> uint c - 0x30 > NGX_MAX_OFF_T_VALUE mod 10) then None
         else range_number (s64 (v * 10 + (uint c - 0x30))) p)
      else Some (v, c # p))"

definition range_last :: "int \<Rightarrow> bool \<Rightarrow> int \<Rightarrow> bytes \<Rightarrow> (int \<times> int \<times> bytes) option" where
  "range_last content_length suffix start p =
     (if rd p 0 < D0 \<or> rd p 0 > D9 then None
      else case range_number 0 p of
        None \<Rightarrow> None
      | Some (e, p) \<Rightarrow>
          let p = skip_sp p in
          if rd p 0 \<noteq> COMMA \<and> rd p 0 \<noteq> NUL then None
          else
            let (start, e) = (if suffix then (s64 (content_length - e), s64 (content_length - 1)) else (start, e))
            in Some (start, if e \<ge> content_length then content_length else s64 (e + 1), p))"

text \<open>One range, up to the label \<open>found\<close>: \<open>start\<close>, \<open>end\<close> and where \<open>p\<close> is.\<close>

definition range_one :: "int \<Rightarrow> bytes \<Rightarrow> (int \<times> int \<times> bytes) option" where
  "range_one content_length p =
     (let p = skip_sp p in
      if rd p 0 \<noteq> MINUS then
        (if rd p 0 < D0 \<or> rd p 0 > D9 then None
         else case range_number 0 p of
           None \<Rightarrow> None
         | Some (start, p) \<Rightarrow>
             let p = skip_sp p in
             if rd p 0 \<noteq> MINUS then None
             else
               let p = skip_sp (drop 1 p) in
               if rd p 0 = COMMA \<or> rd p 0 = NUL then Some (start, content_length, p)
               else range_last content_length False start p)
      else range_last content_length True 0 (drop 1 p))"

lemma length_skip_sp: "length (skip_sp p) \<le> length p"
  by (simp add: skip_sp_def length_dropWhile_le)

lemma length_range_number: "range_number v p = Some (w, q) \<Longrightarrow> length q \<le> length p"
  by (induction v p rule: range_number.induct) (auto split: if_splits)

lemma length_range_last:
  assumes "range_last cl suffix start p = Some (s, e, q)"
  shows "length q \<le> length p"
proof -
  obtain v p1 where n: "range_number 0 p = Some (v, p1)"
    using assms by (cases "range_number 0 p") (auto simp: range_last_def split: if_splits)
  with assms have "q = skip_sp p1" by (auto simp: range_last_def Let_def split: if_splits)
  then show ?thesis using length_skip_sp [of p1] length_range_number [OF n] by simp
qed

lemma length_range_one: "range_one cl p = Some (s, e, q) \<Longrightarrow> length q \<le> length p"
proof -
  assume one: "range_one cl p = Some (s, e, q)"
  show ?thesis
  proof (cases "rd (skip_sp p) 0 = MINUS")
    case True
    then have "length q \<le> length (drop 1 (skip_sp p))"
      using one length_range_last [of cl True 0 "drop 1 (skip_sp p)"] by (simp add: range_one_def Let_def)
    then show ?thesis using length_skip_sp [of p] by simp
  next
    case False
    then obtain v p1 where n: "range_number 0 (skip_sp p) = Some (v, p1)"
      using one by (auto simp: range_one_def Let_def split: if_splits option.splits)
    define p2 where "p2 = skip_sp (drop 1 (skip_sp p1))"
    have "length q \<le> length p2"
      using one False n length_range_last by (auto simp: range_one_def Let_def p2_def split: if_splits)
    also have "\<dots> \<le> length p1"
      unfolding p2_def using length_skip_sp [of "drop 1 (skip_sp p1)"] length_skip_sp [of p1] by simp
    also have "\<dots> \<le> length p" using length_range_number [OF n] length_skip_sp [of p] by simp
    finally show ?thesis .
  qed
qed

lemma rd_not_empty: "rd p 0 \<noteq> 0 \<Longrightarrow> p \<noteq> []"
  by (auto simp: rd_def)

text \<open>The outer loop. \<open>ranges\<close> is how many more ranges are allowed.\<close>

function range_loop :: "int \<Rightarrow> nat \<Rightarrow> int \<Rightarrow> ngx_http_range list \<Rightarrow> bytes \<Rightarrow> range_rc \<times> ngx_http_range list" where
  "range_loop content_length ranges sz rs p =
     (case range_one content_length p of
        None \<Rightarrow> (Range_not_satisfiable, rs)
      | Some (start, e, p) \<Rightarrow>
          let len = s64 (e - start);
              pushed = rs @ [\<lparr>rg_start = start, rg_end = e, rg_content_range = []\<rparr>]
          in if start < e \<and> sz > s64 (NGX_MAX_OFF_T_VALUE - len) then (Range_not_satisfiable, pushed)
             else if start < e \<and> ranges = 0 then (Range_declined, pushed)
             else
               let (rs, sz, ranges) =
                     (if start < e then (pushed, s64 (sz + len), ranges - 1) else (rs, sz, ranges))
               in if rd p 0 = COMMA then range_loop content_length ranges sz rs (drop 1 p)
                  else (if rs = [] then Range_not_satisfiable
                        else if sz > content_length then Range_declined else Range_ok, rs))"
  by auto

termination range_loop
proof (relation "measure (\<lambda>(_, _, _, _, p). length p)")
  fix cl :: int and p q :: bytes and x a s e
  assume one: "range_one cl p = Some x" "(s, a) = x" "(e, q) = a" and c: "rd q 0 = COMMA"
  have "q \<noteq> []" using c by (intro rd_not_empty) simp
  moreover have "length q \<le> length p" using one length_range_one by blast
  ultimately have "length (drop 1 q) < length p" by (cases q) auto
  then show "((cl, x', y', z', drop 1 q), (cl, x0, y0, z0, p)) \<in> measure (\<lambda>(_, _, _, _, p). length p)"
    for x' :: nat and y' :: int and z' :: "ngx_http_range list" and x0 :: nat and y0 :: int and z0 :: "ngx_http_range list"
    by simp
qed simp

declare range_loop.simps [simp del]

text \<open>\<open>main_ranges\<close>: the ranges of the main request, when the request is a subrequest of one with ranges.\<close>

definition ngx_http_range_parse ::
    "ngx_http_range list option \<Rightarrow> bytes \<Rightarrow> int \<Rightarrow> nat \<Rightarrow> range_rc \<times> ngx_http_range list" where
  "ngx_http_range_parse main_ranges value content_length ranges =
     (case main_ranges of
        Some rs \<Rightarrow> (Range_ok, rs)
      | None \<Rightarrow> range_loop content_length ranges 0 [] (drop 6 value))"

section \<open>The ranges are inside of the body\<close>

definition rg_len :: "ngx_http_range \<Rightarrow> int" where
  "rg_len r = rg_end r - rg_start r"

lemma max_off_t: "NGX_MAX_OFF_T_VALUE = 9223372036854775807"
  by (simp add: ngx_max_values)

lemma range_number_ato:
  "range_number v p = map_option (\<lambda>w. (w, dropWhile is_digit p))
     (ato_loop (NGX_MAX_OFF_T_VALUE div 10) (NGX_MAX_OFF_T_VALUE mod 10) v (takeWhile is_digit p))"
  by (induction v p rule: range_number.induct) (auto simp: is_digit_def)

lemma ato_off_exact:
  "ato_loop (NGX_MAX_OFF_T_VALUE div 10) (NGX_MAX_OFF_T_VALUE mod 10) 0 ds =
    (if list_all is_digit ds \<and> int (dec_val ds) \<le> NGX_MAX_OFF_T_VALUE then Some (int (dec_val ds)) else None)"
proof -
  have "0 \<le> NGX_MAX_OFF_T_VALUE" and "NGX_MAX_OFF_T_VALUE \<le> 9223372036854775807" by (simp_all add: max_off_t)
  from ato_loop_exact [OF _ this, of ds] show ?thesis by simp
qed

lemma range_number_bounds: "range_number 0 p = Some (w, q) \<Longrightarrow> 0 \<le> w \<and> w \<le> NGX_MAX_OFF_T_VALUE"
  by (auto simp: range_number_ato ato_off_exact split: if_splits)

lemma range_number_exact:
  assumes "list_all is_digit ds" and "int (dec_val ds) \<le> NGX_MAX_OFF_T_VALUE" and "\<not> is_digit (rd rest 0)"
  shows "range_number 0 (ds @ rest) = Some (int (dec_val ds), rest)"
proof -
  have "takeWhile is_digit rest = []" and "dropWhile is_digit rest = rest"
    using assms(3) by (cases rest; simp add: rd_def)+
  then have "takeWhile is_digit (ds @ rest) = ds" and "dropWhile is_digit (ds @ rest) = rest"
    using assms(1) by (simp_all add: list_all_iff takeWhile_append dropWhile_append)
  then show ?thesis using assms(1,2) by (simp add: range_number_ato ato_off_exact)
qed

lemma range_last_bounds:
  assumes "range_last cl suffix start p = Some (s, e, q)" and "0 \<le> cl" and "cl \<le> NGX_MAX_OFF_T_VALUE"
    and "0 \<le> start" and "start \<le> NGX_MAX_OFF_T_VALUE"
  shows "cl - NGX_MAX_OFF_T_VALUE \<le> s \<and> s \<le> NGX_MAX_OFF_T_VALUE \<and> 0 \<le> e \<and> e \<le> cl \<and> (s < 0 \<longrightarrow> e = cl)"
proof -
  obtain v p1 where n: "range_number 0 p = Some (v, p1)"
    using assms by (cases "range_number 0 p") (auto simp: range_last_def split: if_splits)
  have v: "0 \<le> v" "v \<le> 9223372036854775807" using range_number_bounds [OF n] by (simp_all add: max_off_t)
  note [simp] = max_off_t
  have cl: "s64 (cl - v) = cl - v" "s64 (cl - 1) = cl - 1" "s64 cl = cl"
    using v assms(2,3) by (intro s64_id; simp)+
  have "s64 (v + 1) = v + 1" if "v < cl" using v that assms(3) by (intro s64_id) simp_all
  then show ?thesis using assms n v cl by (cases suffix) (auto simp: range_last_def Let_def split: if_splits)
qed

lemma range_one_bounds:
  assumes "range_one cl p = Some (s, e, q)" and "0 \<le> cl" and "cl \<le> NGX_MAX_OFF_T_VALUE"
  shows "cl - NGX_MAX_OFF_T_VALUE \<le> s \<and> s \<le> NGX_MAX_OFF_T_VALUE \<and> 0 \<le> e \<and> e \<le> cl \<and> (s < 0 \<longrightarrow> e = cl)"
proof (cases "rd (skip_sp p) 0 = MINUS")
  case True
  with assms range_last_bounds [of cl True 0 "drop 1 (skip_sp p)" s e q] show ?thesis
    by (simp add: range_one_def Let_def)
next
  case False
  then obtain v p1 where n: "range_number 0 (skip_sp p) = Some (v, p1)"
    using assms(1) by (cases "range_number 0 (skip_sp p)") (auto simp: range_one_def Let_def split: if_splits)
  have v: "0 \<le> v" "v \<le> NGX_MAX_OFF_T_VALUE" using range_number_bounds [OF n] by (simp_all add: max_off_t)
  show ?thesis
  proof (cases "range_last cl False v (skip_sp (drop 1 (skip_sp p1))) = Some (s, e, q)")
    case True
    then show ?thesis by (rule range_last_bounds [OF _ assms(2,3) v])
  next
    case other: False
    have "s = v \<and> e = cl" using assms(1) False n other by (auto simp: range_one_def Let_def split: if_splits)
    with v assms(2,3) show ?thesis by simp
  qed
qed

text \<open>What the loop keeps: \<open>size\<close> is the sum of the lengths and has not wrapped.\<close>

definition ranges_ok :: "int \<Rightarrow> int \<Rightarrow> ngx_http_range list \<Rightarrow> bool" where
  "ranges_ok cl sz rs \<longleftrightarrow> sz = sum_list (map rg_len rs) \<and> sz \<le> NGX_MAX_OFF_T_VALUE \<and>
     (\<forall>r \<in> set rs. rg_start r < rg_end r \<and> rg_end r \<le> cl \<and> (rg_start r < 0 \<longrightarrow> rg_end r = cl))"

lemma sum_list_member:
  fixes f :: "'a \<Rightarrow> int"
  shows "\<forall>x \<in> set xs. 0 \<le> f x \<Longrightarrow> x \<in> set xs \<Longrightarrow> f x \<le> sum_list (map f xs)"
proof (induction xs)
  case (Cons a xs)
  have "0 \<le> sum_list (map f xs)" using Cons.prems(1) by (intro sum_list_nonneg) auto
  with Cons show ?case by force
qed simp

lemma ranges_ok_inside:
  assumes "ranges_ok cl sz rs" and "sz \<le> cl" and "r \<in> set rs"
  shows "0 \<le> rg_start r \<and> rg_start r < rg_end r \<and> rg_end r \<le> cl"
proof -
  have "\<forall>r \<in> set rs. 0 \<le> rg_len r" using assms(1) by (auto simp: ranges_ok_def rg_len_def)
  then have "rg_len r \<le> cl" using sum_list_member [of rs rg_len r] assms by (simp add: ranges_ok_def)
  moreover have "rg_start r < rg_end r" "rg_end r \<le> cl" "rg_start r < 0 \<longrightarrow> rg_end r = cl"
    using assms(1,3) by (auto simp: ranges_ok_def)
  ultimately show ?thesis by (auto simp: rg_len_def)
qed

lemma ranges_ok_push:
  assumes "ranges_ok cl sz rs" and "0 \<le> sz" and "0 \<le> cl" and "cl \<le> NGX_MAX_OFF_T_VALUE"
    and "range_one cl p = Some (s, e, q)" and "s < e" and "\<not> sz > s64 (NGX_MAX_OFF_T_VALUE - s64 (e - s))"
  shows "ranges_ok cl (s64 (sz + s64 (e - s))) (rs @ [\<lparr>rg_start = s, rg_end = e, rg_content_range = []\<rparr>])
    \<and> 0 \<le> s64 (sz + s64 (e - s))"
proof -
  note [simp] = max_off_t
  note b = range_one_bounds [OF assms(5,3,4)]
  have l: "s64 (e - s) = e - s" using b assms(6) by (intro s64_id) simp_all
  have "s64 (NGX_MAX_OFF_T_VALUE - (e - s)) = NGX_MAX_OFF_T_VALUE - (e - s)"
    using b assms(6) by (intro s64_id) simp_all
  then have le: "sz \<le> NGX_MAX_OFF_T_VALUE - (e - s)" using assms(7) l by simp
  then have "s64 (sz + (e - s)) = sz + (e - s)" using assms(2,6) by (intro s64_id) simp_all
  then show ?thesis using assms(1,2,6) b le l by (auto simp: ranges_ok_def rg_len_def)
qed

lemma range_loop_safe:
  assumes "range_loop cl ranges sz rs p = (Range_ok, rs')" and "0 \<le> cl" and "cl \<le> NGX_MAX_OFF_T_VALUE"
    and "ranges_ok cl sz rs" and "0 \<le> sz"
  shows "rs' \<noteq> [] \<and> length rs' \<le> length rs + ranges \<and> (\<exists>sz'. ranges_ok cl sz' rs' \<and> sz' \<le> cl)"
  using assms
proof (induction cl ranges sz rs p rule: range_loop.induct)
  case (1 cl ranges sz rs p)
  note res = 1(2) [unfolded range_loop.simps [of cl ranges sz rs p]]
  from res obtain s e q where one: "range_one cl p = Some (s, e, q)"
    by (cases "range_one cl p") auto
  define sz' where "sz' = s64 (sz + s64 (e - s))"
  define rs1 where "rs1 = rs @ [\<lparr>rg_start = s, rg_end = e, rg_content_range = []\<rparr>]"
  show ?case
  proof (cases "s < e")
    case True
    have small: "\<not> sz > s64 (NGX_MAX_OFF_T_VALUE - s64 (e - s))" and more: "ranges \<noteq> 0"
      using res one True by (auto simp: Let_def split: if_splits)
    have ok: "ranges_ok cl sz' rs1" "0 \<le> sz'"
      using ranges_ok_push [OF 1(5,6,3,4) one True small] by (simp_all add: sz'_def rs1_def)
    show ?thesis
    proof (cases "rd q 0 = COMMA")
      case c: True
      have "range_loop cl (ranges - 1) sz' rs1 (drop 1 q) = (Range_ok, rs')"
        using res one True small more c by (simp add: Let_def sz'_def rs1_def)
      with 1(1) [OF one refl refl, of "s64 (e - s)" rs1] one True small more c ok 1(3,4) show ?thesis
        by (simp add: sz'_def rs1_def)
    next
      case False
      then have "rs' = rs1" "sz' \<le> cl"
        using res one True small more by (auto simp: Let_def sz'_def rs1_def split: if_splits)
      with ok more show ?thesis by (auto simp: rs1_def)
    qed
  next
    case False
    show ?thesis
    proof (cases "rd q 0 = COMMA")
      case c: True
      have "range_loop cl ranges sz rs (drop 1 q) = (Range_ok, rs')"
        using res one False c by (simp add: Let_def)
      with 1(1) [OF one refl refl] one False c 1(3-6) show ?thesis by simp
    next
      case c: False
      then have "rs' = rs" "rs \<noteq> []" "sz \<le> cl"
        using res one False by (auto simp: Let_def split: if_splits)
      with 1(5) show ?thesis by auto
    qed
  qed
qed

text \<open>C21: The ranges that \<open>ngx_http_range_parse\<close> accepts lie inside of the body, whatever the header
  says: there is at least one and no more than allowed, each is not empty and between 0 and the
  content length, and together they are not longer than the content. A suffix longer
  than the body does give a negative start for a moment; that it is never served rests on the check
  that the sum of the lengths does not overflow.\<close>

theorem range_parse_safe:
  assumes "ngx_http_range_parse None value content_length ranges = (Range_ok, rs)"
    and "0 \<le> content_length" and "content_length \<le> NGX_MAX_OFF_T_VALUE"
  shows "rs \<noteq> [] \<and> length rs \<le> ranges
    \<and> (\<forall>r \<in> set rs. 0 \<le> rg_start r \<and> rg_start r < rg_end r \<and> rg_end r \<le> content_length)
    \<and> sum_list (map (\<lambda>r. rg_end r - rg_start r) rs) \<le> content_length"
proof -
  have "ranges_ok content_length 0 []" by (simp add: ranges_ok_def max_off_t)
  with assms range_loop_safe [of content_length ranges 0 "[]" "drop 6 value" rs]
  obtain sz where r: "rs \<noteq> []" "length rs \<le> ranges" "ranges_ok content_length sz rs" "sz \<le> content_length"
    by (auto simp: ngx_http_range_parse_def)
  moreover have "sum_list (map (\<lambda>r. rg_end r - rg_start r) rs) = sz"
    using r(3) by (simp add: ranges_ok_def rg_len_def [abs_def])
  ultimately show ?thesis using ranges_ok_inside [OF r(3,4)] by blast
qed

theorem range_parse_safe_witness:
  "\<exists>rs. ngx_http_range_parse None (lit ''bytes=0-9, 20-29,-5'') 100 3 = (Range_ok, rs)
    \<and> sum_list (map (\<lambda>r. rg_end r - rg_start r) rs) \<le> 100"
proof -
  define rs where "rs = snd (ngx_http_range_parse None (lit ''bytes=0-9, 20-29,-5'') 100 3)"
  have "fst (ngx_http_range_parse None (lit ''bytes=0-9, 20-29,-5'') 100 3) = Range_ok" by code_simp
  then have "ngx_http_range_parse None (lit ''bytes=0-9, 20-29,-5'') 100 3 = (Range_ok, rs)"
    by (simp add: rs_def prod_eq_iff)
  with range_parse_safe [OF this] show ?thesis by (auto simp: max_off_t)
qed

section \<open>The ranges are those that the header asks for\<close>

text \<open>A range as a client writes it, with the number of spaces before it.\<close>

datatype range_spec = From_to bytes bytes | From bytes | Suffix bytes

fun spec_text :: "nat \<times> range_spec \<Rightarrow> bytes" where
  "spec_text (n, From_to a b) = replicate n SP @ a @ [MINUS] @ b"
| "spec_text (n, From a) = replicate n SP @ a @ [MINUS]"
| "spec_text (n, Suffix k) = replicate n SP @ [MINUS] @ k"

fun specs_text :: "(nat \<times> range_spec) list \<Rightarrow> bytes" where
  "specs_text [] = []"
| "specs_text [s] = spec_text s"
| "specs_text (s # t # ss) = spec_text s @ [COMMA] @ specs_text (t # ss)"

definition off_t_text :: "bytes \<Rightarrow> bool" where
  "off_t_text ds \<longleftrightarrow> decimal ds \<and> int (dec_val ds) \<le> NGX_MAX_OFF_T_VALUE"

fun spec_ok :: "range_spec \<Rightarrow> bool" where
  "spec_ok (From_to a b) \<longleftrightarrow> off_t_text a \<and> off_t_text b"
| "spec_ok (From a) \<longleftrightarrow> off_t_text a"
| "spec_ok (Suffix k) \<longleftrightarrow> off_t_text k"

text \<open>What it means for a body of \<open>cl\<close> bytes: the first byte and the byte behind the last.\<close>

fun spec_range :: "int \<Rightarrow> range_spec \<Rightarrow> int \<times> int" where
  "spec_range cl (From_to a b) = (int (dec_val a), min cl (int (dec_val b) + 1))"
| "spec_range cl (From a) = (int (dec_val a), cl)"
| "spec_range cl (Suffix k) = (cl - int (dec_val k), cl)"

definition wanted :: "int \<Rightarrow> (nat \<times> range_spec) list \<Rightarrow> (int \<times> int) list" where
  "wanted cl ss = filter (\<lambda>(s, e). s < e) (map (\<lambda>(n, r). spec_range cl r) ss)"

definition range_pair :: "ngx_http_range \<Rightarrow> int \<times> int" where
  "range_pair r = (rg_start r, rg_end r)"

lemma skip_spaces_append: "rd p 0 \<noteq> SP \<Longrightarrow> skip_sp (replicate n SP @ p) = p"
  by (cases p) (simp_all add: skip_sp_def rd_def dropWhile_append)

lemma skip_none: "rd p 0 \<noteq> SP \<Longrightarrow> skip_sp p = p"
  using skip_spaces_append [of p 0] by simp

lemma rd_decimal: "decimal ds \<Longrightarrow> is_digit (rd (ds @ rest) 0)"
  by (cases ds) (simp_all add: decimal_def rd_def)

lemma digit_not_special: "is_digit c \<Longrightarrow> c \<noteq> SP \<and> c \<noteq> MINUS \<and> c \<noteq> COMMA \<and> c \<noteq> NUL"
  by (auto simp: is_digit_def)

lemma rd_Cons0 [simp]: "rd (c # p) 0 = c"
  by (simp add: rd_def)

lemma range_last_exact:
  assumes "off_t_text ds" and "rd rest 0 = COMMA \<or> rest = []" and "0 \<le> cl" and "cl \<le> NGX_MAX_OFF_T_VALUE"
  shows "range_last cl False s (ds @ rest) = Some (s, min cl (int (dec_val ds) + 1), rest)"
    and "range_last cl True s (ds @ rest) = Some (cl - int (dec_val ds), cl, rest)"
proof -
  define v where "v = int (dec_val ds)"
  have ds: "decimal ds" "list_all is_digit ds" "0 \<le> v" "v \<le> 9223372036854775807"
    using assms(1) by (simp_all add: off_t_text_def decimal_def max_off_t v_def)
  have end0: "rd rest 0 = COMMA \<or> rd rest 0 = NUL" using assms(2) by (auto simp: rd_def)
  then have "\<not> is_digit (rd rest 0)" "rd rest 0 \<noteq> SP" by (auto simp: is_digit_def)
  then have n: "range_number 0 (ds @ rest) = Some (v, rest)" and sk: "skip_sp rest = rest"
    using range_number_exact [OF ds(2)] ds(4) skip_none by (simp_all add: max_off_t v_def)
  have d: "\<not> (rd (ds @ rest) 0 < D0 \<or> rd (ds @ rest) 0 > D9)" using rd_decimal [OF ds(1)] not_digit by blast
  have i: "s64 (cl - v) = cl - v" "s64 (cl - 1) = cl - 1" "s64 cl = cl"
    using ds assms(3,4) by (intro s64_id; simp add: max_off_t)+
  have j: "s64 (v + 1) = v + 1" if "v < cl" using that ds assms(4) by (intro s64_id) (simp_all add: max_off_t)
  show "range_last cl False s (ds @ rest) = Some (s, min cl (int (dec_val ds) + 1), rest)"
    unfolding v_def [symmetric] range_last_def using d n sk end0 j by (auto simp: Let_def min_def)
  show "range_last cl True s (ds @ rest) = Some (cl - int (dec_val ds), cl, rest)"
    unfolding v_def [symmetric] range_last_def using d n sk end0 i by (auto simp: Let_def)
qed

lemma range_one_exact:
  assumes "spec_ok r" and "rd rest 0 = COMMA \<or> rest = []" and "0 \<le> cl" and "cl \<le> NGX_MAX_OFF_T_VALUE"
  shows "range_one cl (spec_text (n, r) @ rest) = Some (fst (spec_range cl r), snd (spec_range cl r), rest)"
proof (cases r)
  case (Suffix k)
  have "skip_sp (spec_text (n, r) @ rest) = MINUS # k @ rest"
    using skip_spaces_append [of "MINUS # k @ rest" n] by (simp add: Suffix)
  with Suffix assms range_last_exact(2) [of k rest cl 0] show ?thesis by (simp add: range_one_def Let_def)
next
  case (From a)
  have a: "decimal a" "list_all is_digit a" using assms(1) From by (simp_all add: off_t_text_def decimal_def)
  have "skip_sp (spec_text (n, r) @ rest) = a @ MINUS # rest"
    using skip_spaces_append [of "a @ MINUS # rest" n] digit_not_special [OF rd_decimal [OF a(1)]] by (simp add: From)
  moreover have "range_number 0 (a @ MINUS # rest) = Some (int (dec_val a), MINUS # rest)"
    using assms(1) From a by (intro range_number_exact) (simp_all add: off_t_text_def is_digit_def)
  moreover have "rd rest 0 = COMMA \<or> rd rest 0 = NUL" using assms(2) by (auto simp: rd_def)
  moreover have "skip_sp rest = rest" "skip_sp (MINUS # rest) = MINUS # rest"
    using calculation(3) by (intro skip_none; auto)+
  ultimately show ?thesis
    using rd_decimal [OF a(1), of "MINUS # rest"] digit_not_special not_digit [of "rd (a @ MINUS # rest) 0"]
    by (auto simp: range_one_def Let_def From)
next
  case (From_to a b)
  have a: "decimal a" "list_all is_digit a" "decimal b" using assms(1) From_to by (simp_all add: off_t_text_def decimal_def)
  have "skip_sp (spec_text (n, r) @ rest) = a @ MINUS # b @ rest"
    using skip_spaces_append [of "a @ MINUS # b @ rest" n] digit_not_special [OF rd_decimal [OF a(1)]]
    by (simp add: From_to)
  moreover have "range_number 0 (a @ MINUS # b @ rest) = Some (int (dec_val a), MINUS # b @ rest)"
    using assms(1) From_to a by (intro range_number_exact) (simp_all add: off_t_text_def is_digit_def)
  moreover have "skip_sp (MINUS # b @ rest) = MINUS # b @ rest" "skip_sp (b @ rest) = b @ rest"
    using digit_not_special [OF rd_decimal [OF a(3), of rest]] by (intro skip_none; simp)+
  moreover note digit_not_special [OF rd_decimal [OF a(3), of rest]]
    digit_not_special [OF rd_decimal [OF a(1), of "MINUS # b @ rest"]]
    not_digit [of "rd (a @ MINUS # b @ rest) 0"] rd_decimal [OF a(1), of "MINUS # b @ rest"]
    range_last_exact(1) [of b rest cl "int (dec_val a)"]
  ultimately show ?thesis using assms From_to by (simp add: range_one_def Let_def)
qed

text \<open>How the answer depends on the ranges asked for, with unbounded sums.\<close>

fun range_ref :: "int \<Rightarrow> nat \<Rightarrow> int \<Rightarrow> bool \<Rightarrow> (int \<times> int) list \<Rightarrow> range_rc" where
  "range_ref cl ranges sz none [] =
     (if none then Range_not_satisfiable else if sz > cl then Range_declined else Range_ok)"
| "range_ref cl ranges sz none ((s, e) # w) =
     (if sz + (e - s) > NGX_MAX_OFF_T_VALUE then Range_not_satisfiable
      else if ranges = 0 then Range_declined
      else range_ref cl (ranges - 1) (sz + (e - s)) False w)"

lemma spec_range_bounds:
  assumes "spec_ok r" and "0 \<le> cl" and "cl \<le> NGX_MAX_OFF_T_VALUE" and "spec_range cl r = (s, e)"
  shows "e - s \<le> NGX_MAX_OFF_T_VALUE"
  using assms by (cases r) (auto simp: off_t_text_def)

text \<open>One round of the loop, the machine's sums replaced by unbounded ones.\<close>

lemma range_loop_round:
  assumes "range_one cl p = Some (s, e, q)" and "0 \<le> sz" and "sz \<le> NGX_MAX_OFF_T_VALUE" and "e - s \<le> NGX_MAX_OFF_T_VALUE"
  shows "range_loop cl ranges sz rs p =
    (let pushed = rs @ [\<lparr>rg_start = s, rg_end = e, rg_content_range = []\<rparr>] in
     if s < e \<and> sz + (e - s) > NGX_MAX_OFF_T_VALUE then (Range_not_satisfiable, pushed)
     else if s < e \<and> ranges = 0 then (Range_declined, pushed)
     else
       let (rs, sz, ranges) = (if s < e then (pushed, sz + (e - s), ranges - 1) else (rs, sz, ranges))
       in if rd q 0 = COMMA then range_loop cl ranges sz rs (drop 1 q)
          else (if rs = [] then Range_not_satisfiable else if sz > cl then Range_declined else Range_ok, rs))"
proof (cases "s < e")
  case True
  define d where "d = e - s"
  have d: "0 < d" "d \<le> 9223372036854775807" using True assms(4) by (simp_all add: d_def max_off_t)
  have a: "s64 d = d" "s64 (NGX_MAX_OFF_T_VALUE - d) = NGX_MAX_OFF_T_VALUE - d"
    using d by (intro s64_id; simp add: max_off_t)+
  have b: "s64 (sz + d) = sz + d" if "\<not> sz + d > NGX_MAX_OFF_T_VALUE"
    using that d assms(2) by (intro s64_id) (simp_all add: max_off_t)
  have c: "(sz > NGX_MAX_OFF_T_VALUE - d) = (sz + d > NGX_MAX_OFF_T_VALUE)" by auto
  show ?thesis
    unfolding range_loop.simps [of cl ranges sz rs p] assms(1) option.case prod.case Let_def d_def [symmetric] a c
    using True b by simp
next
  case False
  then show ?thesis
    unfolding range_loop.simps [of cl ranges sz rs p] assms(1) option.case prod.case Let_def by simp
qed

lemma wanted_Cons:
  "wanted cl ((n, r) # ss) =
    (let (s, e) = spec_range cl r in if s < e then (s, e) # wanted cl ss else wanted cl ss)"
  by (simp add: wanted_def split: prod.split)

lemma range_loop_specs:
  assumes "list_all (\<lambda>(n, r). spec_ok r) ss" and "ss \<noteq> []" and "0 \<le> cl" and "cl \<le> NGX_MAX_OFF_T_VALUE"
    and "0 \<le> sz" and "sz \<le> NGX_MAX_OFF_T_VALUE"
  shows "fst (range_loop cl ranges sz rs (specs_text ss)) = range_ref cl ranges sz (rs = []) (wanted cl ss)
    \<and> (fst (range_loop cl ranges sz rs (specs_text ss)) = Range_ok \<longrightarrow>
       map range_pair (snd (range_loop cl ranges sz rs (specs_text ss))) = map range_pair rs @ wanted cl ss)"
  using assms(1,2,5,6)
proof (induction ss arbitrary: ranges sz rs rule: specs_text.induct)
  case (2 x)
  obtain n r where x: "x = (n, r)" by (cases x)
  obtain s e where se: "spec_range cl r = (s, e)" by (cases "spec_range cl r")
  have ok: "spec_ok r" using 2 x by simp
  have "range_one cl (specs_text [x]) = Some (s, e, [])"
    using range_one_exact [OF ok _ assms(3,4), of "[]" n] se x by simp
  note round = range_loop_round [OF this 2(3,4) spec_range_bounds [OF ok assms(3,4) se], of ranges rs]
  show ?case
    unfolding round unfolding x wanted_Cons se Let_def by (simp add: wanted_def range_pair_def rd_def)
next
  case (3 x y ss)
  obtain n r where x: "x = (n, r)" by (cases x)
  obtain s e where se: "spec_range cl r = (s, e)" by (cases "spec_range cl r")
  have ok: "spec_ok r" using 3(2) x by simp
  have "range_one cl (specs_text (x # y # ss)) = Some (s, e, COMMA # specs_text (y # ss))"
    using range_one_exact [OF ok _ assms(3,4), of "COMMA # specs_text (y # ss)" n] se x by simp
  note round = range_loop_round [OF this 3(4,5) spec_range_bounds [OF ok assms(3,4) se], of ranges rs]
  have rest: "list_all (\<lambda>(n, r). spec_ok r) (y # ss)" "y # ss \<noteq> []" using 3(2) by simp_all
  show ?case
  proof (cases "s < e")
    case False
    then show ?thesis
      using 3(1) [OF rest 3(4,5), of ranges rs] unfolding round unfolding x wanted_Cons [of cl n r] se Let_def by simp
  next
    case True
    show ?thesis
    proof (cases "sz + (e - s) > NGX_MAX_OFF_T_VALUE \<or> ranges = 0")
      case stop: True
      then show ?thesis using True unfolding round unfolding x wanted_Cons [of cl n r] se Let_def by auto
    next
      case False
      then have sz: "0 \<le> sz + (e - s)" "sz + (e - s) \<le> NGX_MAX_OFF_T_VALUE" using 3(4) True by simp_all
      define rs1 where "rs1 = rs @ [\<lparr>rg_start = s, rg_end = e, rg_content_range = []\<rparr>]"
      have "rs1 \<noteq> []" "map range_pair rs1 = map range_pair rs @ [(s, e)]" by (simp_all add: rs1_def range_pair_def)
      then show ?thesis
        using 3(1) [OF rest sz, of "ranges - 1" rs1] True False
        unfolding round unfolding x wanted_Cons [of cl n r] se Let_def rs1_def [symmetric] by simp
    qed
  qed
qed simp

text \<open>When the reference accepts, declines and rejects.\<close>

abbreviation (input) lens :: "(int \<times> int) list \<Rightarrow> int" where
  "lens w \<equiv> sum_list (map (\<lambda>(s, e). e - s) w)"

lemma lens_nonneg: "\<forall>(s, e) \<in> set w. s < e \<Longrightarrow> 0 \<le> lens w"
  by (rule sum_list_nonneg) auto

lemma range_ref_answer:
  assumes "\<forall>(s, e) \<in> set w. s < e" and "cl \<le> NGX_MAX_OFF_T_VALUE"
  shows "range_ref cl ranges sz none w =
    (if none \<and> w = [] then Range_not_satisfiable
     else if length w \<le> ranges \<and> sz + lens w \<le> cl then Range_ok
     else if sz + lens (take (Suc ranges) w) \<le> NGX_MAX_OFF_T_VALUE \<or> w = [] then Range_declined
     else Range_not_satisfiable)"
  using assms
proof (induction cl ranges sz none w rule: range_ref.induct)
  case (2 cl ranges sz none s e w)
  have pos: "s < e" "0 \<le> lens w" using 2(2) lens_nonneg [of w] by auto
  have tk: "0 \<le> lens (take ranges w)" using 2(2) by (intro lens_nonneg) (auto dest: in_set_takeD)
  show ?case
  proof (cases "sz + (e - s) > NGX_MAX_OFF_T_VALUE \<or> ranges = 0")
    case True
    then show ?thesis using pos tk 2(3) by auto
  next
    case False
    then show ?thesis using 2 pos by (cases ranges) (auto simp: add.assoc)
  qed
qed simp

text \<open>C22: For a well-formed \<open>Range\<close> header (ranges \<open>a-b\<close>, \<open>a-\<close> and suffixes \<open>-k\<close>, with numbers that fit \<open>off_t\<close>),
  \<open>ngx_http_range_parse\<close> finds the ranges that the client asked for, in their order, without those that are empty. A range is cut
  at the end of the body. A suffix is not cut: it begins \<open>k\<close> bytes before the end, even if that is in front of the body. The
  ranges are accepted if there are any, no more than allowed and in sum not longer than the body (so that a suffix longer
  than the body is never accepted); the answer is 416 if none is left; otherwise, as long as the sum of the lengths
  fits \<open>off_t\<close>, the header is declined, and the whole body is sent.\<close>

theorem range_parse_exact:
  assumes "list_all (\<lambda>(n, r). spec_ok r) ss" and "ss \<noteq> []"
    and "0 \<le> content_length" and "content_length \<le> NGX_MAX_OFF_T_VALUE"
    and "ngx_http_range_parse None (lit ''bytes='' @ specs_text ss) content_length ranges = (rc, rs)"
  shows "let w = wanted content_length ss; n = sum_list (map (\<lambda>(s, e). e - s) w) in
      (rc = Range_ok \<longleftrightarrow> w \<noteq> [] \<and> length w \<le> ranges \<and> n \<le> content_length)
    \<and> (rc = Range_ok \<longrightarrow> map (\<lambda>r. (rg_start r, rg_end r)) rs = w)
    \<and> (w = [] \<longrightarrow> rc = Range_not_satisfiable)
    \<and> (w \<noteq> [] \<and> (length w > ranges \<or> n > content_length) \<and> n \<le> NGX_MAX_OFF_T_VALUE \<longrightarrow> rc = Range_declined)"
proof -
  define w where "w = wanted content_length ss"
  have six: "drop 6 (lit ''bytes='' @ specs_text ss) = specs_text ss" by simp
  have pos: "\<forall>(s, e) \<in> set w. s < e" by (auto simp: w_def wanted_def)
  have "lens w = lens (take (Suc ranges) w) + lens (drop (Suc ranges) w)"
    by (metis append_take_drop_id map_append sum_list_append)
  moreover have "0 \<le> lens (drop (Suc ranges) w)" using pos by (intro lens_nonneg) (auto dest: in_set_dropD)
  ultimately have le: "lens (take (Suc ranges) w) \<le> lens w" by simp
  have r: "range_loop content_length ranges 0 [] (specs_text ss) = (rc, rs)"
    using assms(5) unfolding ngx_http_range_parse_def six by simp
  have "rc = range_ref content_length ranges 0 True w"
    and ok: "rc = Range_ok \<longrightarrow> map (\<lambda>r. (rg_start r, rg_end r)) rs = w"
    using range_loop_specs [OF assms(1-4), of 0 ranges "[]"] r
    by (simp_all add: w_def max_off_t range_pair_def [abs_def])
  with range_ref_answer [OF pos assms(4), of ranges 0 True] le show ?thesis
    unfolding w_def [symmetric] Let_def by auto
qed

theorem range_parse_exact_witness:
  "map (\<lambda>r. (rg_start r, rg_end r)) (snd (ngx_http_range_parse None
     (lit ''bytes='' @ specs_text [(0, From_to (lit ''5'') (lit ''9'')), (1, Suffix (lit ''7''))]) 100 2)) = [(5, 10), (93, 100)]"
proof -
  define ss where "ss = [(0 :: nat, From_to (lit ''5'') (lit ''9'')), (1, Suffix (lit ''7''))]"
  define x where "x = ngx_http_range_parse None (lit ''bytes='' @ specs_text ss) 100 2"
  have ok: "list_all (\<lambda>(n, r). spec_ok r) ss" "ss \<noteq> []" unfolding ss_def by code_simp+
  have w: "wanted 100 ss = [(5, 10), (93, 100)]" unfolding ss_def by code_simp
  have "ngx_http_range_parse None (lit ''bytes='' @ specs_text ss) 100 2 = (fst x, snd x)" by (simp add: x_def)
  with range_parse_exact [OF ok, of 100 2 "fst x" "snd x"] w show ?thesis
    by (simp add: max_off_t Let_def x_def ss_def)
qed

section \<open>The header filter\<close>

text \<open>What the filter reads of the request and its location.\<close>

record range_request =
  rq_http_version :: nat
  rq_is_main :: bool
  rq_subrequest_ranges :: bool
  rq_allow_ranges :: bool
  rq_single_range :: bool
  rq_max_ranges :: nat
  rq_range :: "bytes option"
  rq_if_range :: "bytes option"

text \<open>\<open>headers_out\<close>. \<open>ho_content_length\<close> says that there is a \<open>Content-Length\<close> line to be sent.\<close>

record range_headers_out =
  ho_status :: nat
  ho_content_length_n :: int
  ho_content_length :: bool
  ho_content_offset :: int
  ho_last_modified_time :: int
  ho_etag :: "bytes option"
  ho_content_type :: bytes
  ho_content_type_len :: nat
  ho_charset :: bytes
  ho_content_range :: "bytes option"
  ho_accept_ranges :: bool

record ngx_http_range_filter_ctx =
  rc_offset :: int
  rc_boundary_header :: bytes
  rc_ranges :: "ngx_http_range list"

text \<open>The next filter is called with these headers, and the context if one is set; or the filter
  returns a status.\<close>

datatype range_outcome =
    Next_header_filter range_headers_out "ngx_http_range_filter_ctx option"
  | Return_status nat range_headers_out

abbreviation (input) NGX_HTTP_OK :: nat where "NGX_HTTP_OK \<equiv> 200"
abbreviation (input) NGX_HTTP_PARTIAL_CONTENT :: nat where "NGX_HTTP_PARTIAL_CONTENT \<equiv> 206"
abbreviation (input) NGX_HTTP_RANGE_NOT_SATISFIABLE :: nat where "NGX_HTTP_RANGE_NOT_SATISFIABLE \<equiv> 416"

text \<open>\<open>%O\<close> and \<open>%0muA\<close> of \<open>ngx_sprintf\<close>.\<close>

definition NGX_ATOMIC_T_LEN :: nat where "NGX_ATOMIC_T_LEN = 20"

definition sprintf_O :: "int \<Rightarrow> bytes" where
  "sprintf_O v =
     (if v < 0 then MINUS # ngx_sprintf_num 64 (word_of_int (- v)) SP 0 0
      else ngx_sprintf_num 64 (word_of_int v) SP 0 0)"

definition sprintf_0muA :: "64 word \<Rightarrow> bytes" where
  "sprintf_0muA v = ngx_sprintf_num 64 v D0 0 NGX_ATOMIC_T_LEN"

definition no_content_length :: "range_headers_out \<Rightarrow> range_headers_out" where
  "no_content_length ho = ho\<lparr>ho_content_length := False\<rparr>"

definition ngx_http_range_singlepart_header ::
    "range_request \<Rightarrow> ngx_http_range_filter_ctx \<Rightarrow> range_headers_out \<Rightarrow> range_outcome" where
  "ngx_http_range_singlepart_header r ctx ho =
     (if \<not> rq_is_main r then Next_header_filter ho (Some ctx)
      else
        let rg = rc_ranges ctx ! 0;
            ho1 = ho\<lparr>ho_content_range := Some (lit ''bytes '' @ sprintf_O (rg_start rg) @ [MINUS]
                    @ sprintf_O (rg_end rg - 1) @ [SLASH] @ sprintf_O (ho_content_length_n ho))\<rparr>;
            ho2 = ho1\<lparr>ho_content_length_n := rg_end rg - rg_start rg, ho_content_offset := rg_start rg\<rparr>
        in Next_header_filter (no_content_length ho2) (Some ctx))"

definition CRLF :: bytes where "CRLF = [CR, LF]"

definition range_boundary_header :: "64 word \<Rightarrow> range_headers_out \<Rightarrow> bytes" where
  "range_boundary_header boundary ho =
     CRLF @ lit ''--'' @ sprintf_0muA boundary @ CRLF
     @ (if ho_content_type_len ho = length (ho_content_type ho) \<and> ho_charset ho \<noteq> []
        then lit ''Content-Type: '' @ ho_content_type ho @ lit ''; charset='' @ ho_charset ho @ CRLF
        else if ho_content_type ho \<noteq> [] then lit ''Content-Type: '' @ ho_content_type ho @ CRLF
        else [])
     @ lit ''Content-Range: bytes ''"

definition range_content_range :: "int \<Rightarrow> ngx_http_range \<Rightarrow> ngx_http_range" where
  "range_content_range n rg =
     rg\<lparr>rg_content_range := sprintf_O (rg_start rg) @ [MINUS] @ sprintf_O (rg_end rg - 1)
       @ [SLASH] @ sprintf_O n @ CRLF @ CRLF\<rparr>"

text \<open>The loop adds up \<open>len\<close>, a \<open>size_t\<close>.\<close>

definition range_part_len :: "bytes \<Rightarrow> int \<Rightarrow> ngx_http_range \<Rightarrow> int" where
  "range_part_len boundary_header len rg =
     u64 (len + int (length boundary_header) + int (length (rg_content_range rg)) + (rg_end rg - rg_start rg))"

definition ngx_http_range_multipart_header ::
    "64 word \<Rightarrow> ngx_http_range_filter_ctx \<Rightarrow> range_headers_out \<Rightarrow> range_outcome" where
  "ngx_http_range_multipart_header boundary ctx0 ho =
     (let ctx = ctx0\<lparr>rc_boundary_header := range_boundary_header boundary ho\<rparr>;
          ctype = lit ''multipart/byteranges; boundary='' @ sprintf_0muA boundary;
          ho1 = ho\<lparr>ho_content_type := ctype, ho_content_type_len := length ctype, ho_charset := []\<rparr>;
          len = int (length (CRLF @ lit ''--'') + NGX_ATOMIC_T_LEN + length (lit ''--'' @ CRLF));
          rs = map (range_content_range (ho_content_length_n ho)) (rc_ranges ctx);
          len = foldl (range_part_len (rc_boundary_header ctx)) len rs
      in Next_header_filter (no_content_length (ho1\<lparr>ho_content_length_n := s64 len\<rparr>)) (Some (ctx\<lparr>rc_ranges := rs\<rparr>)))"

definition ngx_http_range_not_satisfiable :: "range_headers_out \<Rightarrow> range_outcome" where
  "ngx_http_range_not_satisfiable ho =
     (let ho1 = ho\<lparr>ho_status := NGX_HTTP_RANGE_NOT_SATISFIABLE,
            ho_content_range := Some (lit ''bytes */'' @ sprintf_O (ho_content_length_n ho))\<rparr>
      in Return_status NGX_HTTP_RANGE_NOT_SATISFIABLE (no_content_length (ho1\<lparr>ho_content_length_n := -1\<rparr>)))"

text \<open>\<open>If-Range\<close>: whether the ranges are to be parsed.\<close>

definition range_if_range :: "bytes \<Rightarrow> range_headers_out \<Rightarrow> bool" where
  "range_if_range if_range ho =
     (if length if_range \<ge> 2 \<and> rd if_range (length if_range - 1) = DQUOTE then
        (case ho_etag ho of
           None \<Rightarrow> False
         | Some etag \<Rightarrow> \<not> (length if_range \<noteq> length etag \<or> ngx_strncmp if_range etag (length etag) \<noteq> 0))
      else if ho_last_modified_time ho = -1 then False
      else (case ngx_parse_http_time if_range of None \<Rightarrow> -1 | Some t \<Rightarrow> t) = ho_last_modified_time ho)"

text \<open>The \<open>switch\<close> on what \<open>ngx_http_range_parse\<close> returned.\<close>

definition range_switch ::
    "64 word \<Rightarrow> range_request \<Rightarrow> range_headers_out \<Rightarrow> range_rc \<times> ngx_http_range list \<Rightarrow> range_outcome" where
  "range_switch boundary r ho parsed =
     (case parsed of (rc, rs) \<Rightarrow>
        let ctx = \<lparr>rc_offset = ho_content_offset ho, rc_boundary_header = [], rc_ranges = rs\<rparr> in
        case rc of
          Range_ok \<Rightarrow>
            let ho = ho\<lparr>ho_status := NGX_HTTP_PARTIAL_CONTENT\<rparr> in
            if length rs = 1 then ngx_http_range_singlepart_header r ctx ho
            else ngx_http_range_multipart_header boundary ctx ho
        | Range_not_satisfiable \<Rightarrow> ngx_http_range_not_satisfiable ho
        | Range_declined \<Rightarrow> Next_header_filter (ho\<lparr>ho_accept_ranges := True\<rparr>) None)"

text \<open>\<open>main_ranges\<close> is what the context of the main request holds, \<open>boundary\<close> is the next temporary number.\<close>

definition ngx_http_range_header_filter ::
    "64 word \<Rightarrow> ngx_http_range list option \<Rightarrow> range_request \<Rightarrow> range_headers_out \<Rightarrow> range_outcome" where
  "ngx_http_range_header_filter boundary main_ranges r ho =
     (if rq_http_version r < 1000 \<or> ho_status ho \<noteq> NGX_HTTP_OK \<or> (\<not> rq_is_main r \<and> \<not> rq_subrequest_ranges r)
         \<or> ho_content_length_n ho = -1 \<or> \<not> rq_allow_ranges r
      then Next_header_filter ho None
      else if rq_max_ranges r = 0 then Next_header_filter ho None
      else
        let next_filter = Next_header_filter (ho\<lparr>ho_accept_ranges := True\<rparr>) None in
        case rq_range r of
          None \<Rightarrow> next_filter
        | Some value \<Rightarrow>
            if length value < 7 \<or> ngx_strncasecmp value (lit ''bytes='') 6 \<noteq> 0 then next_filter
            else if (case rq_if_range r of None \<Rightarrow> False | Some v \<Rightarrow> \<not> range_if_range v ho) then next_filter
            else
              range_switch boundary r ho
                (ngx_http_range_parse (if rq_is_main r then None else main_ranges) value
                  (ho_content_length_n ho) (if rq_single_range r then 1 else rq_max_ranges r)))"

section \<open>The body filter\<close>

text \<open>A buffer of the output chain: in memory, in a file, or both.\<close>

record range_buf =
  bf_in_memory :: bool
  bf_in_file :: bool
  bf_pos :: int
  bf_last :: int
  bf_file_pos :: int
  bf_file_last :: int
  bf_flush :: bool
  bf_sync :: bool
  bf_last_buf :: bool
  bf_last_in_chain :: bool

definition ngx_buf_special :: "range_buf \<Rightarrow> bool" where
  "ngx_buf_special b \<longleftrightarrow> (bf_flush b \<or> bf_last_buf b \<or> bf_sync b) \<and> \<not> bf_in_memory b \<and> \<not> bf_in_file b"

definition ngx_buf_size :: "range_buf \<Rightarrow> int" where
  "ngx_buf_size b = (if bf_in_memory b then bf_last b - bf_pos b else bf_file_last b - bf_file_pos b)"

text \<open>\<open>range->start > start\<close> and \<open>range->end <= last\<close>.\<close>

definition range_cut_front :: "int \<Rightarrow> range_buf \<Rightarrow> range_buf" where
  "range_cut_front n b0 =
     (let b = (if bf_in_file b0 then b0\<lparr>bf_file_pos := bf_file_pos b0 + n\<rparr> else b0)
      in if bf_in_memory b then b\<lparr>bf_pos := bf_pos b + n\<rparr> else b)"

definition range_cut_back :: "int \<Rightarrow> range_buf \<Rightarrow> range_buf" where
  "range_cut_back n b0 =
     (let b = (if bf_in_file b0 then b0\<lparr>bf_file_last := bf_file_last b0 - n\<rparr> else b0)
      in if bf_in_memory b then b\<lparr>bf_last := bf_last b - n\<rparr> else b)"

text \<open>\<open>ngx_http_range_singlepart_body\<close>: the new \<open>ctx->offset\<close> and the chain \<open>out\<close>. The buffers that are
  skipped are emptied for their owner (\<open>pos = last\<close>, \<open>sync\<close>), and not in \<open>out\<close>.\<close>

fun ngx_http_range_singlepart_body ::
    "bool \<Rightarrow> ngx_http_range \<Rightarrow> int \<Rightarrow> range_buf list \<Rightarrow> int \<times> range_buf list" where
  "ngx_http_range_singlepart_body is_main rg offset [] = (offset, [])"
| "ngx_http_range_singlepart_body is_main rg offset (buf # cl) =
     (let start = offset; last = offset + ngx_buf_size buf in
      if ngx_buf_special buf then
        (let (offset', out) = ngx_http_range_singlepart_body is_main rg last cl in (offset', buf # out))
      else if rg_end rg \<le> start \<or> rg_start rg \<ge> last then
        ngx_http_range_singlepart_body is_main rg last cl
      else
        let buf = (if rg_start rg > start then range_cut_front (rg_start rg - start) buf else buf) in
        if rg_end rg \<le> last then
          (last, [(range_cut_back (last - rg_end rg) buf)\<lparr>bf_last_buf := is_main, bf_last_in_chain := True\<rparr>])
        else
          let (offset', out) = ngx_http_range_singlepart_body is_main rg last cl in (offset', buf # out))"

text \<open>\<open>None\<close> is \<open>NGX_ERROR\<close>, otherwise the new \<open>ctx->offset\<close>.\<close>

definition ngx_http_range_test_overlapped :: "ngx_http_range list \<Rightarrow> int \<Rightarrow> range_buf \<Rightarrow> int option" where
  "ngx_http_range_test_overlapped ranges offset buf =
     (if offset \<noteq> 0 then None
      else if \<not> bf_last_buf buf
        \<and> list_ex (\<lambda>r. offset > rg_start r \<or> offset + ngx_buf_size buf < rg_end r) ranges then None
      else Some (ngx_buf_size buf))"

text \<open>The chain that \<open>ngx_http_range_multipart_body\<close> sends: bytes of its own, and parts of the buffer.\<close>

datatype range_out = Out_bytes bytes | Out_buf range_buf

definition range_part :: "range_buf \<Rightarrow> ngx_http_range \<Rightarrow> range_buf" where
  "range_part buf rg =
     \<lparr>bf_in_memory = bf_in_memory buf, bf_in_file = bf_in_file buf,
      bf_pos = (if bf_in_memory buf then bf_pos buf + rg_start rg else 0),
      bf_last = (if bf_in_memory buf then bf_pos buf + rg_end rg else 0),
      bf_file_pos = (if bf_in_file buf then bf_file_pos buf + rg_start rg else 0),
      bf_file_last = (if bf_in_file buf then bf_file_pos buf + rg_end rg else 0),
      bf_flush = False, bf_sync = False, bf_last_buf = False, bf_last_in_chain = False\<rparr>"

definition ngx_http_range_multipart_body :: "ngx_http_range_filter_ctx \<Rightarrow> range_buf \<Rightarrow> range_out list" where
  "ngx_http_range_multipart_body ctx buf =
     concat (map (\<lambda>rg. [Out_bytes (rc_boundary_header ctx), Out_bytes (rg_content_range rg),
                          Out_buf (range_part buf rg)]) (rc_ranges ctx))
     @ [Out_bytes (take (length (CRLF @ lit ''--'') + NGX_ATOMIC_T_LEN) (rc_boundary_header ctx) @ lit ''--'' @ CRLF)]"

text \<open>\<open>ngx_http_range_body_filter\<close>: the new \<open>ctx->offset\<close> and what the next filter gets; \<open>None\<close> is
  \<open>NGX_ERROR\<close>. (For one range and nothing to send, the next filter is not called at all.)\<close>

definition ngx_http_range_body_filter ::
    "bool \<Rightarrow> ngx_http_range_filter_ctx option \<Rightarrow> range_buf list \<Rightarrow>
     (ngx_http_range_filter_ctx option \<times> range_out list) option" where
  "ngx_http_range_body_filter is_main ctx0 chain =
     (if chain = [] then Some (ctx0, [])
      else case ctx0 of
        None \<Rightarrow> Some (None, map Out_buf chain)
      | Some ctx \<Rightarrow>
          if length (rc_ranges ctx) = 1 then
            let (offset, out) = ngx_http_range_singlepart_body is_main (rc_ranges ctx ! 0) (rc_offset ctx) chain
            in Some (Some (ctx\<lparr>rc_offset := offset\<rparr>), map Out_buf out)
          else if ngx_buf_special (hd chain) then Some (ctx0, map Out_buf chain)
          else case ngx_http_range_test_overlapped (rc_ranges ctx) (rc_offset ctx) (hd chain) of
            None \<Rightarrow> None
          | Some offset \<Rightarrow> Some (Some (ctx\<lparr>rc_offset := offset\<rparr>), ngx_http_range_multipart_body ctx (hd chain)))"

section \<open>What is sent\<close>

text \<open>The bytes of a buffer, given what its memory and its file hold.\<close>

definition bf_data :: "bytes \<Rightarrow> bytes \<Rightarrow> range_buf \<Rightarrow> bytes" where
  "bf_data mem file b =
     (if bf_in_memory b then slice mem (nat (bf_pos b)) (nat (bf_last b))
      else if bf_in_file b then slice file (nat (bf_file_pos b)) (nat (bf_file_last b))
      else [])"

definition bf_ok :: "bytes \<Rightarrow> bytes \<Rightarrow> range_buf \<Rightarrow> bool" where
  "bf_ok mem file b \<longleftrightarrow>
     (if bf_in_memory b then 0 \<le> bf_pos b \<and> bf_pos b \<le> bf_last b \<and> bf_last b \<le> int (length mem)
      else if bf_in_file b then 0 \<le> bf_file_pos b \<and> bf_file_pos b \<le> bf_file_last b \<and> bf_file_last b \<le> int (length file)
      else bf_file_pos b = bf_file_last b)"

lemma bf_size: "bf_ok mem file b \<Longrightarrow> ngx_buf_size b = int (length (bf_data mem file b))"
  by (auto simp: bf_ok_def ngx_buf_size_def bf_data_def slice_def)

lemma slice_drop_take: "slice m i j = drop i (take j m)"
  by (simp add: slice_def drop_take)

lemma bf_special: "ngx_buf_special b \<Longrightarrow> bf_data mem file b = []"
  by (simp add: ngx_buf_special_def bf_data_def)

lemma bf_flags [simp]:
  "bf_data mem file (b\<lparr>bf_last_buf := x, bf_last_in_chain := y\<rparr>) = bf_data mem file b"
  by (simp add: bf_data_def)

lemma cut_front:
  assumes "bf_ok mem file b" and "0 \<le> n" and "n \<le> ngx_buf_size b"
  shows "bf_ok mem file (range_cut_front n b)" "bf_data mem file (range_cut_front n b) = drop (nat n) (bf_data mem file b)"
  using assms
  by (auto simp: bf_ok_def ngx_buf_size_def bf_data_def range_cut_front_def Let_def slice_drop_take nat_add_distrib add.commute)

lemma cut_back:
  assumes "bf_ok mem file b" and "0 \<le> n" and "n \<le> ngx_buf_size b"
  shows "bf_data mem file (range_cut_back n b) =
    take (length (bf_data mem file b) - nat n) (bf_data mem file b)"
  using assms
  by (auto simp: bf_ok_def ngx_buf_size_def bf_data_def range_cut_back_def Let_def slice_drop_take take_drop nat_diff_distrib)

text \<open>The part from \<open>s\<close> to \<open>e\<close> of bytes that start at offset \<open>o\<close>.\<close>

definition window :: "int \<Rightarrow> int \<Rightarrow> int \<Rightarrow> bytes \<Rightarrow> bytes" where
  "window s e off d = drop (nat (s - off)) (take (nat (e - off)) d)"

lemma window_append: "window s e off (d @ d') = window s e off d @ window s e (off + int (length d)) d'"
proof -
  have a: "nat (s - off) - length d = nat (s - (off + int (length d)))"
    and b: "nat (e - off) - length d = nat (e - (off + int (length d)))" by simp_all
  show ?thesis
  proof (cases "nat (e - off) < length d")
    case True
    then show ?thesis by (simp add: window_def)
  next
    case False
    then show ?thesis by (simp add: window_def a [symmetric] b [symmetric])
  qed
qed

lemma window_Nil [simp]: "window s e off [] = []"
  by (simp add: window_def)

lemma window_empty: "e \<le> off \<or> s \<ge> off + int (length d) \<Longrightarrow> window s e off d = []"
  by (auto simp: window_def)

abbreviation (input) chain_data :: "bytes \<Rightarrow> bytes \<Rightarrow> range_buf list \<Rightarrow> bytes" where
  "chain_data mem file cl \<equiv> concat (map (bf_data mem file) cl)"

lemma singlepart_window:
  assumes "ngx_http_range_singlepart_body is_main rg offset cl = (offset', out)"
    and "list_all (bf_ok mem file) cl" and "rg_start rg < rg_end rg"
  shows "chain_data mem file out = window (rg_start rg) (rg_end rg) offset (chain_data mem file cl)
    \<and> (offset' = offset + int (length (chain_data mem file cl)) \<or>
       rg_end rg \<le> offset' \<and> offset' \<le> offset + int (length (chain_data mem file cl)))"
  using assms
proof (induction is_main rg offset cl arbitrary: offset' out rule: ngx_http_range_singlepart_body.induct)
  case (2 is_main rg offset buf cl)
  define d where "d = bf_data mem file buf"
  have ok: "bf_ok mem file buf" "list_all (bf_ok mem file) cl" using 2(5) by simp_all
  have sz: "ngx_buf_size buf = int (length d)" using bf_size [OF ok(1)] by (simp add: d_def)
  have W: "window (rg_start rg) (rg_end rg) offset (chain_data mem file (buf # cl)) =
      window (rg_start rg) (rg_end rg) offset d
      @ window (rg_start rg) (rg_end rg) (offset + int (length d)) (chain_data mem file cl)"
    by (simp add: window_append d_def)
  note res = 2(4) [unfolded ngx_http_range_singlepart_body.simps Let_def sz]
  obtain o1 out1 where rec: "ngx_http_range_singlepart_body is_main rg (offset + int (length d)) cl = (o1, out1)"
    by fastforce
  consider (special) "ngx_buf_special buf"
    | (skip) "\<not> ngx_buf_special buf" "rg_end rg \<le> offset \<or> rg_start rg \<ge> offset + int (length d)"
    | (hit) "\<not> ngx_buf_special buf" "\<not> (rg_end rg \<le> offset \<or> rg_start rg \<ge> offset + int (length d))" by blast
  then show ?case
  proof cases
    case special
    then have "out = buf # out1" "offset' = o1" "d = []" using res rec bf_special by (simp_all add: d_def)
    with 2(1) [OF refl refl special _ ok(2), of o1 out1] 2(6) rec sz W show ?thesis by (simp add: d_def [symmetric])
  next
    case skip
    then have "ngx_http_range_singlepart_body is_main rg (offset + int (length d)) cl = (offset', out)"
      using res by simp
    with 2(2) [OF refl refl skip(1) _ _ ok(2), of offset' out] 2(6) skip sz W window_empty [where e = "rg_end rg" and off = offset and s = "rg_start rg" and d = d]
    show ?thesis by (auto simp: d_def [symmetric])
  next
    case hit
    define buf1 where "buf1 = (if rg_start rg > offset then range_cut_front (rg_start rg - offset) buf else buf)"
    have "bf_ok mem file buf1 \<and> bf_data mem file buf1 = drop (nat (rg_start rg - offset)) d"
      using cut_front [OF ok(1), of "rg_start rg - offset"] hit(2) sz ok(1) by (auto simp: buf1_def d_def)
    then have b1: "bf_ok mem file buf1" "bf_data mem file buf1 = drop (nat (rg_start rg - offset)) d" by auto
    show ?thesis
    proof (cases "rg_end rg \<le> offset + int (length d)")
      case True
      define buf2 where "buf2 = range_cut_back (offset + int (length d) - rg_end rg) buf1"
      have "out = [buf2\<lparr>bf_last_buf := is_main, bf_last_in_chain := True\<rparr>]" "offset' = offset + int (length d)"
        using res hit True by (auto simp: buf1_def buf2_def)
      moreover have "bf_data mem file buf2 = window (rg_start rg) (rg_end rg) offset d"
      proof -
        define i j where "i = nat (rg_start rg - offset)" and "j = nat (rg_end rg - offset)"
        have ij: "i \<le> j" "j \<le> length d" "nat (offset + int (length d) - rg_end rg) = length d - j"
          using True hit(2) 2(6) by (auto simp: i_def j_def)
        have "0 \<le> offset + int (length d) - rg_end rg" "offset + int (length d) - rg_end rg \<le> ngx_buf_size buf1"
          using True hit(2) 2(6) bf_size [OF b1(1)] b1(2) by (auto simp: i_def)
        from cut_back [OF b1(1) this] have "bf_data mem file buf2 = take (length d - i - (length d - j)) (drop i d)"
          by (simp add: buf2_def b1(2) ij(3) i_def [symmetric])
        moreover have "length d - i - (length d - j) = j - i" using ij by simp
        ultimately show ?thesis by (simp add: window_def i_def [symmetric] j_def [symmetric] drop_take)
      qed
      ultimately show ?thesis
        unfolding W using True window_empty [where e = "rg_end rg" and off = "offset + int (length d)" and s = "rg_start rg" and d = "chain_data mem file cl"]
        by (auto simp: d_def [symmetric])
    next
      case False
      then have "out = buf1 # out1" "offset' = o1" using res rec hit by (auto simp: buf1_def)
      moreover have "bf_data mem file buf1 = window (rg_start rg) (rg_end rg) offset d"
        using b1(2) False by (simp add: window_def)
      ultimately show ?thesis
        unfolding W using 2(3) [OF refl _ hit refl _ _ ok(2), of o1 out1] 2(6) rec sz False
        by (auto simp: d_def [symmetric] buf1_def)
    qed
  qed
qed simp

primrec out_data :: "bytes \<Rightarrow> bytes \<Rightarrow> range_out \<Rightarrow> bytes" where
  "out_data mem file (Out_bytes d) = d"
| "out_data mem file (Out_buf b) = bf_data mem file b"

abbreviation (input) sent :: "bytes \<Rightarrow> bytes \<Rightarrow> range_out list \<Rightarrow> bytes" where
  "sent mem file out \<equiv> concat (map (out_data mem file) out)"

lemma sent_bufs: "sent mem file (map Out_buf cl) = chain_data mem file cl"
  by (simp add: comp_def)

text \<open>The body filter is called with one chain after the other.\<close>

fun range_calls :: "bool \<Rightarrow> ngx_http_range_filter_ctx option \<Rightarrow> range_buf list list \<Rightarrow> range_out list option" where
  "range_calls is_main ctx [] = Some []"
| "range_calls is_main ctx (c # cs) =
     (case ngx_http_range_body_filter is_main ctx c of
        None \<Rightarrow> None
      | Some (ctx', out) \<Rightarrow> map_option ((@) out) (range_calls is_main ctx' cs))"

lemma window_past: "e \<le> off \<Longrightarrow> window s e off d = []"
  by (rule window_empty) simp

lemma calls_window:
  assumes "rc_ranges ctx = [rg]" and "rg_start rg < rg_end rg" and "list_all (list_all (bf_ok mem file)) cs"
  shows "\<exists>out. range_calls is_main (Some ctx) cs = Some out
    \<and> sent mem file out = window (rg_start rg) (rg_end rg) (rc_offset ctx) (chain_data mem file (concat cs))"
  using assms
proof (induction cs arbitrary: ctx)
  case (Cons c cs)
  define s e D where "s = rg_start rg" and "e = rg_end rg" and "D = chain_data mem file c"
  obtain off1 out1 where one: "ngx_http_range_singlepart_body is_main rg (rc_offset ctx) c = (off1, out1)"
    by fastforce
  have w: "chain_data mem file out1 = window s e (rc_offset ctx) D"
    and off1: "off1 = rc_offset ctx + int (length D) \<or> e \<le> off1 \<and> off1 \<le> rc_offset ctx + int (length D)"
    using singlepart_window [OF one _ Cons.prems(2)] Cons.prems(3) by (simp_all add: s_def e_def D_def)
  define ctx1 where "ctx1 = ctx\<lparr>rc_offset := off1\<rparr>"
  have "ngx_http_range_body_filter is_main (Some ctx) c =
      (if c = [] then Some (Some ctx, []) else Some (Some ctx1, map Out_buf out1))"
    using one Cons.prems(1) by (simp add: ngx_http_range_body_filter_def ctx1_def)
  moreover have "c = [] \<Longrightarrow> ctx1 = ctx \<and> out1 = []" using one by (simp add: ctx1_def)
  ultimately have filter: "ngx_http_range_body_filter is_main (Some ctx) c = Some (Some ctx1, map Out_buf out1)"
    by auto
  obtain out2 where out2: "range_calls is_main (Some ctx1) cs = Some out2"
    "sent mem file out2 = window s e off1 (chain_data mem file (concat cs))"
    using Cons.IH [of ctx1] Cons.prems by (auto simp: ctx1_def s_def e_def)
  have "window s e off1 (chain_data mem file (concat cs)) =
      window s e (rc_offset ctx + int (length D)) (chain_data mem file (concat cs))"
  proof (cases "off1 = rc_offset ctx + int (length D)")
    case False
    then have "e \<le> off1" "e \<le> rc_offset ctx + int (length D)" using off1 by auto
    then show ?thesis by (simp add: window_past)
  qed simp
  then have "sent mem file (map Out_buf out1 @ out2) = window s e (rc_offset ctx) (chain_data mem file (concat (c # cs)))"
    using w out2(2) by (simp add: comp_def window_append D_def)
  then show ?case using filter out2(1) by (simp add: s_def e_def)
qed simp

text \<open>When the header filter sets a context.\<close>

lemma header_filter_ctx:
  assumes "ngx_http_range_header_filter boundary main r ho = Next_header_filter ho' (Some ctx)" and "rq_is_main r"
    and "ho_content_length_n ho = int n" and "int n \<le> NGX_MAX_OFF_T_VALUE"
  obtains val ranges rs where "ngx_http_range_parse None val (int n) ranges = (Range_ok, rs)"
    and "Next_header_filter ho' (Some ctx) =
      (let ctx = \<lparr>rc_offset = ho_content_offset ho, rc_boundary_header = [], rc_ranges = rs\<rparr>;
           ho = ho\<lparr>ho_status := NGX_HTTP_PARTIAL_CONTENT\<rparr>
       in if length rs = 1 then ngx_http_range_singlepart_header r ctx ho
          else ngx_http_range_multipart_header boundary ctx ho)"
    and "\<forall>x \<in> set rs. 0 \<le> rg_start x \<and> rg_start x < rg_end x \<and> rg_end x \<le> int n"
proof -
  obtain val ranges where
    "range_switch boundary r ho (ngx_http_range_parse None val (int n) ranges) = Next_header_filter ho' (Some ctx)"
    using assms(1-3) by (auto simp: ngx_http_range_header_filter_def Let_def split: if_splits option.splits)
  moreover obtain rc rs where v: "ngx_http_range_parse None val (int n) ranges = (rc, rs)" by fastforce
  ultimately have res: "range_switch boundary r ho (rc, rs) = Next_header_filter ho' (Some ctx)" by simp
  then have "rc = Range_ok"
    by (cases rc) (auto simp: range_switch_def ngx_http_range_not_satisfiable_def Let_def)
  with v res have p: "ngx_http_range_parse None val (int n) ranges = (Range_ok, rs)"
    and out: "range_switch boundary r ho (Range_ok, rs) = Next_header_filter ho' (Some ctx)" by simp_all
  have "ranges_ok (int n) 0 []" by (simp add: ranges_ok_def max_off_t)
  with p assms(4) range_loop_safe [of "int n" ranges 0 "[]" "drop 6 val" rs]
  obtain sz where "ranges_ok (int n) sz rs" "sz \<le> int n" by (auto simp: ngx_http_range_parse_def)
  from ranges_ok_inside [OF this] out show ?thesis
    by (intro that [OF p]) (simp_all add: range_switch_def Let_def)
qed

text \<open>C23: A response with one range is consistent: however the body comes in buffers, in memory or in a
  file, and in calls of the body filter, what \<open>ngx_http_range_singlepart_body\<close> sends are the bytes of the range
  that \<open>Content-Range\<close> announces, and as many as \<open>content_length_n\<close> says.\<close>

theorem range_single_response:
  assumes "ngx_http_range_header_filter boundary main_ranges r ho = Next_header_filter ho' (Some ctx)"
    and "rq_is_main r" and "length (rc_ranges ctx) = 1" and "ho_content_offset ho = 0"
    and "ho_content_length_n ho = int (length body)" and "int (length body) \<le> NGX_MAX_OFF_T_VALUE"
    and "list_all (list_all (bf_ok mem file)) calls"
    and "concat (map (bf_data mem file) (concat calls)) = body"
  shows "\<exists>s e out. s < e \<and> e \<le> length body \<and> ho_status ho' = 206
    \<and> ho_content_range ho' = Some (lit ''bytes '' @ sprintf_O (int s) @ [MINUS] @ sprintf_O (int e - 1) @ [SLASH]
        @ sprintf_O (int (length body)))
    \<and> range_calls True (Some ctx) calls = Some out
    \<and> concat (map (out_data mem file) out) = slice body s e
    \<and> ho_content_length_n ho' = int (length (concat (map (out_data mem file) out)))"
proof -
  obtain val ranges rs where "ngx_http_range_parse None val (int (length body)) ranges = (Range_ok, rs)"
    and res: "Next_header_filter ho' (Some ctx) =
      (let ctx = \<lparr>rc_offset = ho_content_offset ho, rc_boundary_header = [], rc_ranges = rs\<rparr>;
           ho = ho\<lparr>ho_status := NGX_HTTP_PARTIAL_CONTENT\<rparr>
       in if length rs = 1 then ngx_http_range_singlepart_header r ctx ho
          else ngx_http_range_multipart_header boundary ctx ho)"
    and inside: "\<forall>x \<in> set rs. 0 \<le> rg_start x \<and> rg_start x < rg_end x \<and> rg_end x \<le> int (length body)"
    by (rule header_filter_ctx [OF assms(1,2,5,6)])
  have one: "length rs = 1"
    using res assms(3) by (auto simp: Let_def ngx_http_range_multipart_header_def split: if_splits)
  then obtain rg where rs: "rs = [rg]" by (cases rs) auto
  define s e where "s = nat (rg_start rg)" and "e = nat (rg_end rg)"
  have rg: "rg_start rg = int s" "rg_end rg = int e" "s < e" "e \<le> length body"
    using inside rs by (auto simp: s_def e_def)
  have out: "rc_ranges ctx = [rg]" "rc_offset ctx = 0" "ho_status ho' = 206" "ho_content_length_n ho' = int e - int s"
    "ho_content_range ho' = Some (lit ''bytes '' @ sprintf_O (int s) @ [MINUS] @ sprintf_O (int e - 1) @ [SLASH]
        @ sprintf_O (int (length body)))"
    using res rs rg assms(2,4,5)
    by (simp_all add: Let_def ngx_http_range_singlepart_header_def no_content_length_def)
  obtain out where "range_calls True (Some ctx) calls = Some out" "sent mem file out = window (int s) (int e) 0 body"
    using calls_window [OF out(1) _ assms(7), of True] rg out(2) assms(8) by auto
  moreover have "window (int s) (int e) 0 body = slice body s e" by (simp add: window_def slice_drop_take)
  moreover have "length (slice body s e) = e - s" using rg by (simp add: slice_def)
  ultimately show ?thesis using rg out by (intro exI [of _ s] exI [of _ e] exI [of _ out]) simp
qed

lemma length_0muA: "length (sprintf_0muA v) = NGX_ATOMIC_T_LEN"
  using length_num_digits [of v 0]
  by (simp add: sprintf_0muA_def ngx_sprintf_num_take NGX_ATOMIC_T_LEN_def NGX_INT64_LEN_def)

lemma length_boundary_header:
  "length (CRLF @ lit ''--'') + NGX_ATOMIC_T_LEN \<le> length (range_boundary_header boundary ho)"
  by (simp add: range_boundary_header_def length_0muA CRLF_def)

text \<open>The sum of the parts, in 64 bits.\<close>

lemma u64_add: "u64 (u64 a + b) = u64 (a + b)"
  by (simp add: u64_def mod_add_left_eq)

definition part_len :: "bytes \<Rightarrow> ngx_http_range \<Rightarrow> int" where
  "part_len bh x = int (length bh) + int (length (rg_content_range x)) + (rg_end x - rg_start x)"

lemma foldl_part_len:
  "u64 len = len \<Longrightarrow> foldl (range_part_len bh) len rs = u64 (len + sum_list (map (part_len bh) rs))"
proof (induction rs arbitrary: len)
  case (Cons x rs)
  have step: "range_part_len bh len x = u64 (len + part_len bh x)"
    by (simp add: range_part_len_def part_len_def add.assoc)
  have "u64 (range_part_len bh len x) = range_part_len bh len x" by (simp add: range_part_len_def u64_def)
  from Cons.IH [OF this] show ?case by (simp add: step u64_add add.assoc)
qed simp

lemma range_part_data:
  assumes "bf_ok mem file buf" and "0 \<le> rg_start x" and "rg_start x \<le> rg_end x"
    and "rg_end x \<le> int (length (bf_data mem file buf))"
  shows "bf_data mem file (range_part buf x) = slice (bf_data mem file buf) (nat (rg_start x)) (nat (rg_end x))"
proof -
  have sl: "slice m (nat (p + rg_start x)) (nat (p + rg_end x)) = slice (slice m (nat p) (nat l)) (nat (rg_start x)) (nat (rg_end x))"
    if "0 \<le> p" "p \<le> l" "l \<le> int (length m)" "rg_end x \<le> l - p" for m :: bytes and p l
    using that assms(2,3) by (simp add: slice_drop_take nat_add_distrib take_drop min_def nat_diff_distrib nat_le_eq_zle add.commute)
  have "slice [] i j = []" for i j by (simp add: slice_drop_take)
  then show ?thesis
    using assms sl [where p = "bf_pos buf" and l = "bf_last buf" and m = "mem"]
      sl [where p = "bf_file_pos buf" and l = "bf_file_last buf" and m = "file"]
      bf_size [OF assms(1)]
    by (auto simp: bf_data_def bf_ok_def range_part_def ngx_buf_size_def)
qed

lemma length_parts:
  "(\<And>x. x \<in> set xs \<Longrightarrow> int (length (f x)) = g x) \<Longrightarrow> int (length (concat (map f xs))) = sum_list (map g xs)"
  by (induction xs) auto

lemma concat_triples: "concat (concat (map (\<lambda>x. [f x, g x, h x]) xs)) = concat (map (\<lambda>x. f x @ g x @ h x) xs)"
  by (induction xs) auto

definition close_boundary :: "64 word \<Rightarrow> bytes" where
  "close_boundary boundary = CRLF @ lit ''--'' @ sprintf_0muA boundary @ lit ''--'' @ CRLF"

lemma length_close_boundary: "length (close_boundary boundary) = 28"
  by (simp add: close_boundary_def length_0muA CRLF_def NGX_ATOMIC_T_LEN_def)

definition in_body :: "bytes \<Rightarrow> ngx_http_range \<Rightarrow> bool" where
  "in_body body x \<longleftrightarrow> 0 \<le> rg_start x \<and> rg_start x < rg_end x \<and> rg_end x \<le> int (length body)"

abbreviation (input) range_bytes :: "bytes \<Rightarrow> ngx_http_range \<Rightarrow> bytes" where
  "range_bytes body x \<equiv> slice body (nat (rg_start x)) (nat (rg_end x))"

lemma multipart_sent:
  assumes "bf_ok mem file buf" and "list_all (in_body (bf_data mem file buf)) (rc_ranges ctx)"
    and "rc_boundary_header ctx = range_boundary_header boundary ho"
  shows "sent mem file (ngx_http_range_multipart_body ctx buf) =
    concat (map (\<lambda>x. rc_boundary_header ctx @ rg_content_range x @ range_bytes (bf_data mem file buf) x) (rc_ranges ctx))
    @ close_boundary boundary"
proof -
  have close: "take (length (CRLF @ lit ''--'') + NGX_ATOMIC_T_LEN) (rc_boundary_header ctx) @ lit ''--'' @ CRLF = close_boundary boundary"
    by (simp add: assms(3) range_boundary_header_def close_boundary_def length_0muA CRLF_def)
  have "bf_data mem file (range_part buf x) = range_bytes (bf_data mem file buf) x" if "x \<in> set (rc_ranges ctx)" for x
    using range_part_data [OF assms(1), of x] that assms(2) by (auto simp: list_all_iff in_body_def)
  then show ?thesis
    unfolding ngx_http_range_multipart_body_def close
    by (simp add: map_concat comp_def concat_triples cong: map_cong)
qed

lemma multipart_length:
  assumes "list_all (in_body body) rs"
  shows "int (length (concat (map (\<lambda>x. bh @ rg_content_range x @ range_bytes body x) rs) @ close_boundary boundary)) =
    28 + sum_list (map (part_len bh) rs)"
proof -
  have "int (length (bh @ rg_content_range x @ range_bytes body x)) = part_len bh x" if "x \<in> set rs" for x
  proof -
    have "in_body body x" using that assms by (simp add: list_all_iff)
    moreover from this have "nat (rg_end x) \<le> length body" by (auto simp: in_body_def)
    ultimately show ?thesis by (auto simp: part_len_def in_body_def slice_drop_take min.absorb2)
  qed
  then show ?thesis
    using length_parts [of rs "\<lambda>x. bh @ rg_content_range x @ range_bytes body x" "part_len bh"]
    by (simp add: length_close_boundary)
qed

text \<open>What the header filter leaves for several ranges.\<close>

lemma multipart_ctx:
  assumes "ngx_http_range_header_filter boundary main_ranges r ho = Next_header_filter ho' (Some ctx)"
    and "rq_is_main r" and "length (rc_ranges ctx) \<noteq> 1" and "ho_content_offset ho = 0"
    and "ho_content_length_n ho = int (length body)" and "int (length body) \<le> NGX_MAX_OFF_T_VALUE"
  shows "rc_offset ctx = 0" and "rc_boundary_header ctx = range_boundary_header boundary ho"
    and "list_all (in_body body) (rc_ranges ctx)"
    and "x \<in> set (rc_ranges ctx) \<Longrightarrow> rg_content_range x = sprintf_O (rg_start x) @ [MINUS] @ sprintf_O (rg_end x - 1)
      @ [SLASH] @ sprintf_O (int (length body)) @ CRLF @ CRLF"
    and "ho_content_length_n ho' = s64 (u64 (28 + sum_list (map (part_len (rc_boundary_header ctx)) (rc_ranges ctx))))"
proof -
  obtain val ranges rs where "ngx_http_range_parse None val (int (length body)) ranges = (Range_ok, rs)"
    and res: "Next_header_filter ho' (Some ctx) =
      (let ctx = \<lparr>rc_offset = ho_content_offset ho, rc_boundary_header = [], rc_ranges = rs\<rparr>;
           ho = ho\<lparr>ho_status := NGX_HTTP_PARTIAL_CONTENT\<rparr>
       in if length rs = 1 then ngx_http_range_singlepart_header r ctx ho
          else ngx_http_range_multipart_header boundary ctx ho)"
    and inside: "\<forall>x \<in> set rs. 0 \<le> rg_start x \<and> rg_start x < rg_end x \<and> rg_end x \<le> int (length body)"
    by (rule header_filter_ctx [OF assms(1,2,5,6)])
  define parts where "parts = map (range_content_range (int (length body))) rs"
  have many: "length rs \<noteq> 1"
    using res assms(2,3) by (auto simp: Let_def ngx_http_range_singlepart_header_def split: if_splits)
  have bh: "range_boundary_header boundary (ho\<lparr>ho_status := x\<rparr>) = range_boundary_header boundary ho" for x
    by (simp add: range_boundary_header_def)
  have len0: "int (length (CRLF @ lit ''--'') + NGX_ATOMIC_T_LEN + length (lit ''--'' @ CRLF)) = 28"
    by (simp add: CRLF_def NGX_ATOMIC_T_LEN_def)
  have ctx: "rc_ranges ctx = parts" "rc_offset ctx = 0" "rc_boundary_header ctx = range_boundary_header boundary ho"
    and cln: "ho_content_length_n ho' = s64 (foldl (range_part_len (range_boundary_header boundary ho)) 28 parts)"
    using res many assms(2,4,5) unfolding ngx_http_range_multipart_header_def Let_def len0
    by (simp_all add: parts_def no_content_length_def bh)
  show "rc_offset ctx = 0" "rc_boundary_header ctx = range_boundary_header boundary ho" by (rule ctx)+
  show "list_all (in_body body) (rc_ranges ctx)"
    unfolding ctx using inside by (auto simp: parts_def list_all_iff in_body_def range_content_range_def)
  show "x \<in> set (rc_ranges ctx) \<Longrightarrow> rg_content_range x = sprintf_O (rg_start x) @ [MINUS] @ sprintf_O (rg_end x - 1)
      @ [SLASH] @ sprintf_O (int (length body)) @ CRLF @ CRLF"
    unfolding ctx by (auto simp: parts_def range_content_range_def)
  show "ho_content_length_n ho' = s64 (u64 (28 + sum_list (map (part_len (rc_boundary_header ctx)) (rc_ranges ctx))))"
    unfolding cln ctx by (subst foldl_part_len) (simp_all add: u64_def)
qed

text \<open>C24: A multipart response is consistent: if the body is in one buffer, what the body filter sends is, for
  each range that was accepted, the boundary with the header fields, the \<open>Content-Range\<close> of the range
  and its bytes, then the closing boundary; and the whole is as long as \<open>content_length_n\<close> says.\<close>

theorem range_multipart_response:
  assumes "ngx_http_range_header_filter boundary main_ranges r ho = Next_header_filter ho' (Some ctx)"
    and "rq_is_main r" and "length (rc_ranges ctx) \<noteq> 1" and "ho_content_offset ho = 0"
    and "ho_content_length_n ho = int (length body)" and "int (length body) \<le> NGX_MAX_OFF_T_VALUE"
    and "bf_ok mem file buf" and "\<not> ngx_buf_special buf" and "bf_data mem file buf = body"
  shows "\<exists>ctx' out. ngx_http_range_body_filter True (Some ctx) [buf] = Some (ctx', out)
    \<and> concat (map (out_data mem file) out) =
        concat (map (\<lambda>x. range_boundary_header boundary ho
            @ (sprintf_O (rg_start x) @ [MINUS] @ sprintf_O (rg_end x - 1) @ [SLASH] @ sprintf_O (int (length body)) @ CRLF @ CRLF)
            @ slice body (nat (rg_start x)) (nat (rg_end x))) (rc_ranges ctx))
        @ CRLF @ lit ''--'' @ sprintf_0muA boundary @ lit ''--'' @ CRLF
    \<and> (int (length (concat (map (out_data mem file) out))) \<le> NGX_MAX_OFF_T_VALUE \<longrightarrow>
        ho_content_length_n ho' = int (length (concat (map (out_data mem file) out))))"
proof -
  note ctx = multipart_ctx [OF assms(1-6)]
  have inside: "list_all (in_body (bf_data mem file buf)) (rc_ranges ctx)" using ctx(3) assms(9) by simp
  have "ngx_buf_size buf = int (length body)" using bf_size [OF assms(7)] assms(9) by simp
  then have "ngx_http_range_test_overlapped (rc_ranges ctx) 0 buf = Some (int (length body))"
    using ctx(3) by (auto simp: ngx_http_range_test_overlapped_def list_ex_iff list_all_iff in_body_def not_less)
  then have filter: "ngx_http_range_body_filter True (Some ctx) [buf] =
      Some (Some (ctx\<lparr>rc_offset := int (length body)\<rparr>), ngx_http_range_multipart_body ctx buf)"
    using assms(3,8) ctx(1) by (simp add: ngx_http_range_body_filter_def)
  note sent = multipart_sent [OF assms(7) inside ctx(2), unfolded assms(9)]
  define D where "D = sent mem file (ngx_http_range_multipart_body ctx buf)"
  have "ho_content_length_n ho' = int (length D)" if "int (length D) \<le> NGX_MAX_OFF_T_VALUE"
    using that unfolding D_def ctx(5) sent multipart_length [OF ctx(3), symmetric, where boundary = boundary]
    by (simp add: u64_id s64_id max_off_t del: length_append)
  moreover have "D = concat (map (\<lambda>x. range_boundary_header boundary ho
            @ (sprintf_O (rg_start x) @ [MINUS] @ sprintf_O (rg_end x - 1) @ [SLASH] @ sprintf_O (int (length body)) @ CRLF @ CRLF)
            @ slice body (nat (rg_start x)) (nat (rg_end x))) (rc_ranges ctx))
        @ CRLF @ lit ''--'' @ sprintf_0muA boundary @ lit ''--'' @ CRLF"
    unfolding D_def sent close_boundary_def ctx(2) using ctx(4) by (simp cong: map_cong)
  ultimately show ?thesis using filter unfolding D_def by blast
qed

text \<open>A request, its headers and the body in two buffers, one in memory and one in a file.\<close>

definition range_example_request :: "bytes \<Rightarrow> range_request" where
  "range_example_request range_value = \<lparr>rq_http_version = 1001, rq_is_main = True, rq_subrequest_ranges = False,
     rq_allow_ranges = True, rq_single_range = False, rq_max_ranges = 5, rq_range = Some range_value, rq_if_range = None\<rparr>"

definition range_example_headers :: range_headers_out where
  "range_example_headers = \<lparr>ho_status = 200, ho_content_length_n = 10, ho_content_length = False, ho_content_offset = 0,
     ho_last_modified_time = -1, ho_etag = None, ho_content_type = lit ''a/b'', ho_content_type_len = 3, ho_charset = [],
     ho_content_range = None, ho_accept_ranges = False\<rparr>"

definition mem_buf :: "int \<Rightarrow> int \<Rightarrow> range_buf" where
  "mem_buf p l = \<lparr>bf_in_memory = True, bf_in_file = False, bf_pos = p, bf_last = l, bf_file_pos = 0, bf_file_last = 0,
     bf_flush = False, bf_sync = False, bf_last_buf = False, bf_last_in_chain = False\<rparr>"

definition file_buf :: "int \<Rightarrow> int \<Rightarrow> range_buf" where
  "file_buf p l = \<lparr>bf_in_memory = False, bf_in_file = True, bf_pos = 0, bf_last = 0, bf_file_pos = p, bf_file_last = l,
     bf_flush = False, bf_sync = False, bf_last_buf = True, bf_last_in_chain = False\<rparr>"

primrec outcome_ctx :: "range_outcome \<Rightarrow> ngx_http_range_filter_ctx option" where
  "outcome_ctx (Next_header_filter ho ctx) = ctx"
| "outcome_ctx (Return_status n ho) = None"

lemma outcome_ctx_cases:
  assumes "outcome_ctx x \<noteq> None \<and> P (the (outcome_ctx x))"
  obtains ho ctx where "x = Next_header_filter ho (Some ctx)" and "P ctx"
  using assms by (cases x) auto

theorem range_single_response_witness:
  "\<exists>ho' ctx out. ngx_http_range_header_filter 7 None (range_example_request (lit ''bytes=2-7'')) range_example_headers
      = Next_header_filter ho' (Some ctx)
    \<and> range_calls True (Some ctx) [[mem_buf 0 4], [file_buf 4 10]] = Some out
    \<and> ho_content_length_n ho' = int (length (concat (map (out_data (lit ''0123'') (lit ''abcd456789'')) out)))"
proof -
  have "outcome_ctx (ngx_http_range_header_filter 7 None (range_example_request (lit ''bytes=2-7'')) range_example_headers) \<noteq> None
    \<and> length (rc_ranges (the (outcome_ctx (ngx_http_range_header_filter 7 None (range_example_request (lit ''bytes=2-7''))
        range_example_headers)))) = 1" by code_simp
  then obtain ho' ctx where h: "ngx_http_range_header_filter 7 None (range_example_request (lit ''bytes=2-7'')) range_example_headers
      = Next_header_filter ho' (Some ctx)" and "length (rc_ranges ctx) = 1"
    by (rule outcome_ctx_cases [where P = "\<lambda>c. length (rc_ranges c) = 1"])
  with range_single_response [OF h, of "lit ''0123456789''" "lit ''0123''" "lit ''abcd456789''" "[[mem_buf 0 4], [file_buf 4 10]]"]
  obtain out where "range_calls True (Some ctx) [[mem_buf 0 4], [file_buf 4 10]] = Some out"
    "ho_content_length_n ho' = int (length (concat (map (out_data (lit ''0123'') (lit ''abcd456789'')) out)))"
    by (auto simp: range_example_request_def range_example_headers_def max_off_t bf_ok_def bf_data_def mem_buf_def file_buf_def slice_def)
  with h show ?thesis by blast
qed

theorem range_multipart_response_witness:
  "\<exists>ho' ctx ctx' out. ngx_http_range_header_filter 7 None (range_example_request (lit ''bytes=2-3,-2'')) range_example_headers
      = Next_header_filter ho' (Some ctx)
    \<and> ngx_http_range_body_filter True (Some ctx) [mem_buf 0 10] = Some (ctx', out)"
proof -
  have "outcome_ctx (ngx_http_range_header_filter 7 None (range_example_request (lit ''bytes=2-3,-2'')) range_example_headers) \<noteq> None
    \<and> length (rc_ranges (the (outcome_ctx (ngx_http_range_header_filter 7 None (range_example_request (lit ''bytes=2-3,-2''))
        range_example_headers)))) \<noteq> 1" by code_simp
  then obtain ho' ctx where h: "ngx_http_range_header_filter 7 None (range_example_request (lit ''bytes=2-3,-2'')) range_example_headers
      = Next_header_filter ho' (Some ctx)" and "length (rc_ranges ctx) \<noteq> 1"
    by (rule outcome_ctx_cases [where P = "\<lambda>c. length (rc_ranges c) \<noteq> 1"])
  with range_multipart_response [OF h, of "lit ''0123456789''" "lit ''0123456789''" "[]" "mem_buf 0 10"]
  show ?thesis
    by (auto simp: range_example_request_def range_example_headers_def max_off_t bf_ok_def bf_data_def mem_buf_def
        slice_def ngx_buf_special_def)
qed

end
