(* ===== verification/Ngx_Inet.thy ===== *)
theory Ngx_Inet
  imports Ngx_Number Ngx_String
begin

unbundle bit_operations_syntax

text \<open>
  Addresses (src/core/ngx_inet.c): the readers \<open>ngx_inet_addr\<close> and \<open>ngx_inet6_addr\<close>, the printers
  \<open>ngx_inet_ntop\<close> and \<open>ngx_inet6_ntop\<close>, socket addresses with their ports
  (\<open>ngx_sock_ntop\<close>, \<open>ngx_parse_addr\<close>, \<open>ngx_parse_addr_port\<close>, \<open>ngx_cmp_sockaddr\<close>) and networks
  (\<open>ngx_ptocidr\<close>, \<open>ngx_cidr_match\<close>; the lemmas on them are in \<open>Ngx_Cidr\<close>). What is printed is read back.
\<close>

section \<open>Reading an IPv4 address\<close>

text \<open>An \<open>in_addr_t\<close> is in network byte order: its bytes in memory, on a little-endian machine from the
  least significant one on, are the four octets.\<close>

definition INADDR_NONE :: "32 word" where "INADDR_NONE = 0xffffffff"

definition htonl :: "32 word \<Rightarrow> 32 word" where
  "htonl w = push_bit 24 (take_bit 8 w) OR push_bit 16 (take_bit 8 (drop_bit 8 w))
     OR push_bit 8 (take_bit 8 (drop_bit 16 w)) OR take_bit 8 (drop_bit 24 w)"

definition in_addr_bytes :: "32 word \<Rightarrow> bytes" where
  "in_addr_bytes a = [ucast a, ucast (drop_bit 8 a), ucast (drop_bit 16 a), ucast (drop_bit 24 a)]"

fun inet_addr_loop :: "32 word \<Rightarrow> nat \<Rightarrow> nat \<Rightarrow> bytes \<Rightarrow> 32 word" where
  "inet_addr_loop addr octet n [] =
     (if n = 3 then htonl (push_bit 8 addr + word_of_nat octet) else INADDR_NONE)"
| "inet_addr_loop addr octet n (c # p) =
     (if D0 \<le> c \<and> c \<le> D9 then
        (let octet = octet * 10 + unat (c - D0)
         in if octet > 255 then INADDR_NONE else inet_addr_loop addr octet n p)
      else if c = DOT then inet_addr_loop (push_bit 8 addr + word_of_nat octet) 0 (n + 1) p
      else INADDR_NONE)"

definition ngx_inet_addr :: "bytes \<Rightarrow> 32 word" where
  "ngx_inet_addr p = inet_addr_loop 0 0 0 p"

section \<open>Reading an IPv6 address\<close>

text \<open>The local variables of \<open>ngx_inet6_addr\<close>: what was written to \<open>addr\<close>, the place of the \<open>::\<close> in it, the
  text behind the last colon, and the group that is being read.\<close>

record i6_locals =
  i6_addr :: bytes
  i6_zero :: "nat option"
  i6_digit :: "bytes option"
  i6_nibbles :: nat
  i6_word :: int
  i6_n :: nat

definition byte_of :: "int \<Rightarrow> u_char" where
  "byte_of k = word_of_int k"

definition i6_put :: "int \<Rightarrow> int \<Rightarrow> i6_locals \<Rightarrow> i6_locals" where
  "i6_put hi lo s = s\<lparr>i6_addr := i6_addr s @ [byte_of hi, byte_of lo]\<rparr>"

definition i6_colon :: "bytes \<Rightarrow> i6_locals \<Rightarrow> i6_locals option" where
  "i6_colon p s =
     (if i6_nibbles s \<noteq> 0 then
        (let s = i6_put (i6_word s div 256) (i6_word s mod 256) (s\<lparr>i6_digit := Some p\<rparr>) in
         if i6_n s - 1 \<noteq> 0 then Some (s\<lparr>i6_n := i6_n s - 1, i6_nibbles := 0, i6_word := 0\<rparr>) else None)
      else if i6_zero s = None then Some (s\<lparr>i6_digit := Some p, i6_zero := Some (length (i6_addr s))\<rparr>)
      else None)"

definition i6_dot :: "i6_locals \<Rightarrow> i6_locals option" where
  "i6_dot s =
     (case i6_digit s of
        None \<Rightarrow> None
      | Some digit \<Rightarrow>
          if i6_n s < 2 then None
          else
            let a = ngx_inet_addr digit in
            if a = INADDR_NONE then None
            else
              let w = uint (htonl a)
              in Some ((i6_put (w div 16777216 mod 256) (w div 65536 mod 256) s)\<lparr>i6_word := w, i6_n := i6_n s - 1\<rparr>))"

definition i6_nibble :: "u_char \<Rightarrow> i6_locals \<Rightarrow> i6_locals option" where
  "i6_nibble c s =
     (if i6_nibbles s + 1 > 4 then None
      else if D0 \<le> c \<and> c \<le> D9 then
        Some (s\<lparr>i6_nibbles := i6_nibbles s + 1, i6_word := i6_word s * 16 + uint (c - D0)\<rparr>)
      else
        let c = c OR 0x20 in
        if c_a \<le> c \<and> c \<le> c_f then
          Some (s\<lparr>i6_nibbles := i6_nibbles s + 1, i6_word := i6_word s * 16 + uint (c - c_a) + 10\<rparr>)
        else None)"

fun i6_loop :: "bytes \<Rightarrow> i6_locals \<Rightarrow> i6_locals option" where
  "i6_loop [] s = Some s"
| "i6_loop (c # p) s =
     (if c = COLON then (case i6_colon p s of None \<Rightarrow> None | Some s \<Rightarrow> i6_loop p s)
      else if c = DOT \<and> i6_nibbles s \<noteq> 0 then i6_dot s
      else (case i6_nibble c s of None \<Rightarrow> None | Some s \<Rightarrow> i6_loop p s))"

definition i6_finish :: "i6_locals \<Rightarrow> bytes option" where
  "i6_finish s0 =
     (if i6_nibbles s0 = 0 \<and> i6_zero s0 = None then None
      else
        let s = i6_put (i6_word s0 div 256) (i6_word s0 mod 256) s0;
            n = i6_n s0 - 1
        in case i6_zero s of
             Some zero \<Rightarrow>
               if n \<noteq> 0 then Some (take zero (i6_addr s) @ replicate (n * 2) 0 @ drop zero (i6_addr s)) else None
           | None \<Rightarrow> if n \<noteq> 0 then None else Some (i6_addr s))"

definition i6_init :: i6_locals where
  "i6_init = \<lparr>i6_addr = [], i6_zero = None, i6_digit = None, i6_nibbles = 0, i6_word = 0, i6_n = 8\<rparr>"

text \<open>\<open>None\<close> is \<open>NGX_ERROR\<close>, otherwise what was written.\<close>

definition ngx_inet6_addr :: "bytes \<Rightarrow> bytes option" where
  "ngx_inet6_addr p =
     (if p = [] then None
      else
        let p = (if rd p 0 = COLON then drop 1 p else p)
        in case i6_loop p i6_init of None \<Rightarrow> None | Some s \<Rightarrow> i6_finish s)"

section \<open>Printing addresses\<close>

text \<open>\<open>%ud\<close> and \<open>%xd\<close> of \<open>ngx_sprintf\<close>.\<close>

definition sprintf_ud :: "u_char \<Rightarrow> bytes" where
  "sprintf_ud c = ngx_sprintf_num 64 (ucast c) SP 0 0"

definition sprintf_xd :: "u_char \<Rightarrow> u_char \<Rightarrow> bytes" where
  "sprintf_xd hi lo = ngx_sprintf_num 64 (ucast hi * 256 + ucast lo) SP 1 0"

definition dotted :: "u_char \<Rightarrow> u_char \<Rightarrow> u_char \<Rightarrow> u_char \<Rightarrow> bytes" where
  "dotted a b c d = sprintf_ud a @ [DOT] @ sprintf_ud b @ [DOT] @ sprintf_ud c @ [DOT] @ sprintf_ud d"

text \<open>\<open>ngx_inet_ntop\<close> for \<open>AF_INET\<close>, in a buffer of \<open>len\<close> bytes.\<close>

definition ngx_inet_ntop :: "bytes \<Rightarrow> nat \<Rightarrow> bytes" where
  "ngx_inet_ntop p len = take len (dotted (rd p 0) (rd p 1) (rd p 2) (rd p 3))"

definition NGX_INET6_ADDRSTRLEN :: nat where "NGX_INET6_ADDRSTRLEN = 45"

text \<open>The first loop of \<open>ngx_inet6_ntop\<close>, over the groups: \<open>zero\<close>, \<open>last\<close>, \<open>max\<close> and \<open>n\<close>; then the
  longest run of zero groups, the first one of several.\<close>

type_synonym i6_runs = "nat option \<times> nat option \<times> nat \<times> nat"

definition i6_run_step :: "bytes \<Rightarrow> i6_runs \<Rightarrow> nat \<Rightarrow> i6_runs" where
  "i6_run_step p s i =
     (case s of (zero, lst, mx, n) \<Rightarrow>
        if rd p i \<noteq> 0 \<or> rd p (i + 1) \<noteq> 0 then
          (if mx < n then (lst, lst, n, 0) else (zero, lst, mx, 0))
        else (zero, if n = 0 then Some i else lst, mx, n + 1))"

definition i6_longest :: "bytes \<Rightarrow> nat option \<times> nat" where
  "i6_longest p =
     (case foldl (i6_run_step p) (None, None, 1, 0) [0, 2, 4, 6, 8, 10, 12, 14] of (zero, lst, mx, n) \<Rightarrow>
        if mx < n then (lst, n) else (zero, mx))"

text \<open>The second loop.\<close>

function i6_print :: "bytes \<Rightarrow> nat option \<Rightarrow> nat \<Rightarrow> nat \<Rightarrow> nat \<Rightarrow> bytes" where
  "i6_print p zero mx n i =
     (if i < n then
        (if zero = Some i then COLON # i6_print p zero mx n (i + (mx - 1) * 2 + 2)
         else sprintf_xd (rd p i) (rd p (i + 1)) @ (if i < 14 then [COLON] else []) @ i6_print p zero mx n (i + 2))
      else [])"
  by auto

termination i6_print
  by (relation "measure (\<lambda>(p, zero, mx, n, i). n - i)") auto

declare i6_print.simps [simp del]

definition ngx_inet6_ntop :: "bytes \<Rightarrow> nat \<Rightarrow> bytes" where
  "ngx_inet6_ntop p len =
     (if len < NGX_INET6_ADDRSTRLEN then []
      else
        let (zero, mx) = i6_longest p;
            n = (if zero = Some 0
                   \<and> ((mx = 5 \<and> rd p 10 = 0xff \<and> rd p 11 = 0xff) \<or> mx = 6 \<or> (mx = 7 \<and> rd p 14 \<noteq> 0 \<and> rd p 15 \<noteq> 1))
                 then 12 else 16)
        in (if zero = Some 0 then [COLON] else []) @ i6_print p zero mx n 0
           @ (if n = 12 then dotted (rd p 12) (rd p 13) (rd p 14) (rd p 15) else []))"

section \<open>IPv4\<close>

lemma in_addr_htonl:
  "in_addr_bytes (htonl w) = [ucast (drop_bit 24 w), ucast (drop_bit 16 w), ucast (drop_bit 8 w), ucast w]"
  unfolding in_addr_bytes_def htonl_def
  by (intro arg_cong2 [where f = Cons] refl; rule bit_word_eqI) (auto simp: bit_simps)

lemma in_addr_inject: "in_addr_bytes v = in_addr_bytes w \<Longrightarrow> v = w"
proof (rule bit_word_eqI)
  fix n
  assume eq: "in_addr_bytes v = in_addr_bytes w" and n: "n < LENGTH(32)"
  have "bit (ucast (drop_bit k v) :: u_char) j = bit (ucast (drop_bit k w) :: u_char) j" if "k \<in> {0, 8, 16, 24}" for k j
    using that eq by (auto simp: in_addr_bytes_def)
  moreover have "n div 8 = 0 \<or> n div 8 = 1 \<or> n div 8 = 2 \<or> n div 8 = 3" using n by auto
  then have "n div 8 * 8 \<in> {0, 8, 16, 24}" by auto
  ultimately have "bit (ucast (drop_bit (n div 8 * 8) v) :: u_char) (n mod 8) = bit (ucast (drop_bit (n div 8 * 8) w) :: u_char) (n mod 8)"
    by blast
  with n show "bit v n = bit w n" by (auto simp: bit_simps)
qed

lemma htonl_htonl: "htonl (htonl w) = w"
proof (rule in_addr_inject)
  have "in_addr_bytes (htonl (htonl w)) = rev (in_addr_bytes (htonl w))"
    unfolding in_addr_htonl [of "htonl w"] by (simp add: in_addr_bytes_def)
  then show "in_addr_bytes (htonl (htonl w)) = in_addr_bytes w"
    unfolding in_addr_htonl [of w] by (simp add: in_addr_bytes_def)
qed

lemma htonl_none: "(htonl w = INADDR_NONE) = (w = INADDR_NONE)"
proof -
  have "htonl INADDR_NONE = INADDR_NONE" by (simp add: htonl_def INADDR_NONE_def)
  then show ?thesis using htonl_htonl by metis
qed

lemma inet_addr_digits:
  assumes "list_all is_digit ds" and "octet * 10 ^ length ds + dec_val ds \<le> 255"
  shows "inet_addr_loop addr octet n (ds @ rest) = inet_addr_loop addr (octet * 10 ^ length ds + dec_val ds) n rest"
  using assms
proof (induction ds arbitrary: octet)
  case (Cons c ds)
  define v where "v = octet * 10 + unat (c - D0)"
  have c: "D0 \<le> c \<and> c \<le> D9" using Cons.prems(1) by (simp add: is_digit_def)
  have eq: "octet * 10 ^ length (c # ds) + dec_val (c # ds) = v * 10 ^ length ds + dec_val ds"
    by (simp add: dec_val_Cons v_def digit_val_def algebra_simps)
  have "v * 1 \<le> v * 10 ^ length ds" by (rule mult_le_mono2) simp
  then have "v \<le> 255" using Cons.prems(2) eq by linarith
  then have "inet_addr_loop addr octet n ((c # ds) @ rest) = inet_addr_loop addr v n (ds @ rest)"
    using c by (simp add: v_def Let_def)
  also have "\<dots> = inet_addr_loop addr (v * 10 ^ length ds + dec_val ds) n rest"
    using Cons.IH [of v] Cons.prems eq by simp
  finally show ?case unfolding eq .
qed simp

lemma ud_base: "sprintf_ud c = base_digits 10 hex_lower (unat c)"
proof -
  have "unat (ucast c :: 64 word) = unat c"
    by (simp add: unsigned_ucast_eq take_bit_nat_eq_self_iff order_less_le_trans [OF unsigned_less])
  then show ?thesis
    using length_num_digits [of "ucast c" 0]
    by (simp add: sprintf_ud_def ngx_sprintf_num_take num_digits_base NGX_INT64_LEN_def)
qed

lemma ud_digits: "list_all is_digit (sprintf_ud c)" "dec_val (sprintf_ud c) = unat c" "sprintf_ud c \<noteq> []"
  unfolding ud_base using base_digits_dec [of "unat c"] by (simp_all add: decimal_def)

lemma unat_byte_le: "unat (c :: u_char) \<le> 255"
proof -
  have "unat c < 2 ^ LENGTH(8)" by (rule unsigned_less)
  then show ?thesis by simp
qed

lemma inet_addr_octet: "inet_addr_loop addr 0 n (sprintf_ud c @ rest) = inet_addr_loop addr (unat c) n rest"
  using inet_addr_digits [of "sprintf_ud c" 0 addr n rest] ud_digits [of c] unat_byte_le [of c] by simp

definition ipv4 :: "u_char \<Rightarrow> u_char \<Rightarrow> u_char \<Rightarrow> u_char \<Rightarrow> 32 word" where
  "ipv4 a b c d = push_bit 24 (ucast a) OR push_bit 16 (ucast b) OR push_bit 8 (ucast c) OR ucast d"

lemma push_add_byte: "push_bit 8 w + ucast c = (push_bit 8 w OR ucast c :: 32 word)" for c :: u_char
proof -
  have "push_bit 8 w AND ucast c = (0 :: 32 word)"
    by (rule bit_word_eqI) (auto simp: bit_simps dest: bit_imp_le_length)
  then show ?thesis by (subst disjunctive_add_eq_or) simp_all
qed

lemma inet_addr_dotted: "ngx_inet_addr (dotted a b c d) = htonl (ipv4 a b c d)"
proof -
  have "push_bit 8 (push_bit 8 (push_bit 8 (ucast a) OR ucast b) OR ucast c) OR ucast d = ipv4 a b c d"
    unfolding ipv4_def by (rule bit_word_eqI) (auto simp: bit_simps)
  moreover have "word_of_nat (unat a) = (ucast a :: 32 word)" by simp
  ultimately show ?thesis
    using inet_addr_octet [of _ _ d "[]"]
    by (simp add: ngx_inet_addr_def dotted_def inet_addr_octet push_add_byte del: push_bit_or)
qed

lemma ipv4_bytes:
  "ucast (drop_bit 24 (ipv4 a b c d)) = a" "ucast (drop_bit 16 (ipv4 a b c d)) = b"
  "ucast (drop_bit 8 (ipv4 a b c d)) = c" "ucast (ipv4 a b c d) = d"
  unfolding ipv4_def by (rule bit_word_eqI; auto simp: bit_simps dest: bit_imp_le_length)+

lemma ipv4_none: "(ipv4 a b c d = INADDR_NONE) = (a = 255 \<and> b = 255 \<and> c = 255 \<and> d = 255)"
proof
  assume n: "ipv4 a b c d = INADDR_NONE"
  show "a = 255 \<and> b = 255 \<and> c = 255 \<and> d = 255"
    using ipv4_bytes [of a b c d] unfolding n by (simp add: INADDR_NONE_def)
qed (simp add: ipv4_def INADDR_NONE_def)

section \<open>IPv6: reading groups\<close>

type_synonym group = "u_char \<times> u_char"

definition gbytes :: "group list \<Rightarrow> bytes" where
  "gbytes gs = concat (map (\<lambda>(h, l). [h, l]) gs)"

abbreviation (input) xd :: "group \<Rightarrow> bytes" where
  "xd g \<equiv> sprintf_xd (fst g) (snd g)"

text \<open>Groups with a colon behind each, and with colons between them.\<close>

definition gtext :: "group list \<Rightarrow> bytes" where
  "gtext gs = concat (map (\<lambda>g. xd g @ [COLON]) gs)"

fun jtext :: "group list \<Rightarrow> bytes" where
  "jtext [] = []"
| "jtext [g] = xd g"
| "jtext (g # h # gs) = xd g @ COLON # jtext (h # gs)"

lemma gbytes_simps [simp]: "gbytes [] = []" "gbytes (g # gs) = [fst g, snd g] @ gbytes gs" "gbytes (gs @ hs) = gbytes gs @ gbytes hs"
  by (auto simp: gbytes_def split: prod.split)

lemma length_gbytes [simp]: "length (gbytes gs) = 2 * length gs"
  by (induction gs) simp_all

lemma gtext_simps [simp]: "gtext [] = []" "gtext (g # gs) = xd g @ COLON # gtext gs"
  by (simp_all add: gtext_def)

definition group_val :: "group \<Rightarrow> nat" where
  "group_val g = unat (fst g) * 256 + unat (snd g)"

lemma xdigit_hex: "is_xdigit c \<Longrightarrow> c \<noteq> COLON \<and> c \<noteq> DOT"
  by (auto simp: is_xdigit_def is_digit_def)

lemma xdigit_bytes:
  "is_xdigit c \<Longrightarrow> (if D0 \<le> c \<and> c \<le> D9 then uint (c - D0) = int (xdigit_val c)
     else c_a \<le> c OR 0x20 \<and> c OR 0x20 \<le> c_f \<and> uint ((c OR 0x20) - c_a) + 10 = int (xdigit_val c))"
  by (erule byte_imp [where P = is_xdigit, rotated]) code_simp

lemma i6_nibble_xdigit:
  assumes "is_xdigit c" and "i6_nibbles s < 4"
  shows "i6_nibble c s = Some (s\<lparr>i6_nibbles := i6_nibbles s + 1, i6_word := i6_word s * 16 + int (xdigit_val c)\<rparr>)"
proof (cases "D0 \<le> c \<and> c \<le> D9")
  case True
  then show ?thesis using xdigit_bytes [OF assms(1)] assms(2) unfolding i6_nibble_def by simp
next
  case False
  then have x: "c_a \<le> c OR 0x20" "c OR 0x20 \<le> c_f" "uint ((c OR 0x20) - c_a) + 10 = int (xdigit_val c)"
    using xdigit_bytes [OF assms(1)] by simp_all
  show ?thesis unfolding i6_nibble_def Let_def add.assoc x(3) using False x(1,2) assms(2) by auto
qed

lemma i6_digits:
  assumes "list_all is_xdigit ds" and "i6_nibbles s + length ds \<le> 4"
  shows "i6_loop (ds @ rest) s =
    i6_loop rest (s\<lparr>i6_nibbles := i6_nibbles s + length ds, i6_word := i6_word s * 16 ^ length ds + int (hex_num ds)\<rparr>)"
  using assms
proof (induction ds arbitrary: s)
  case (Cons c ds)
  have c: "is_xdigit c" "i6_nibbles s < 4" using Cons.prems by simp_all
  define t where "t = s\<lparr>i6_nibbles := i6_nibbles s + 1, i6_word := i6_word s * 16 + int (xdigit_val c)\<rparr>"
  have "i6_loop ((c # ds) @ rest) s = i6_loop (ds @ rest) t"
    using i6_nibble_xdigit [OF c] xdigit_hex [OF c(1)] by (simp add: t_def)
  also have "\<dots> = i6_loop rest (t\<lparr>i6_nibbles := i6_nibbles t + length ds, i6_word := i6_word t * 16 ^ length ds + int (hex_num ds)\<rparr>)"
    using Cons.IH [of t] Cons.prems by (simp add: t_def)
  finally show ?case by (simp add: t_def hex_num_Cons algebra_simps)
qed simp

lemma xd_digits:
  "list_all is_xdigit (xd g)" "hex_num (xd g) = group_val g" "xd g \<noteq> []" "length (xd g) \<le> 4"
proof -
  define v where "v = (ucast (fst g) * 256 + ucast (snd g) :: 64 word)"
  have b: "unat (fst g) \<le> 255" "unat (snd g) \<le> 255" by (rule unat_byte_le)+
  have "v = word_of_nat (group_val g)" by (simp add: v_def group_val_def)
  moreover have lt: "group_val g < 16 ^ Suc 3" using b by (simp add: group_val_def)
  ultimately have "unat v = group_val g" by (simp add: unsigned_of_nat take_bit_nat_eq_self)
  moreover have "xd g = num_digits v 1"
    using length_num_digits [of v 1] by (simp add: sprintf_xd_def ngx_sprintf_num_take v_def NGX_INT64_LEN_def)
  ultimately have x: "xd g = base_digits 16 hex_lower (group_val g)" by (simp add: num_digits_base)
  show "list_all is_xdigit (xd g)" "hex_num (xd g) = group_val g" "xd g \<noteq> []"
    unfolding x using base_digits_hex [of hex_lower "group_val g"] by (simp_all add: hexadecimal_def)
  show "length (xd g) \<le> 4" unfolding x using length_base_digits [OF _ lt, of hex_lower] by simp
qed

lemma group_bytes: "byte_of (int (group_val g) div 256) = fst g" "byte_of (int (group_val g) mod 256) = snd g"
proof -
  have b: "uint (snd g) < 256" using uint_lt2p [of "snd g"] by simp
  have "int (group_val g) div 256 = int (unat (fst g))" "int (group_val g) mod 256 = int (unat (snd g))"
    using b by (simp_all add: group_val_def div_pos_pos_trivial mod_pos_pos_trivial)
  then show "byte_of (int (group_val g) div 256) = fst g" "byte_of (int (group_val g) mod 256) = snd g"
    by (simp_all add: byte_of_def)
qed

abbreviation (input) fresh :: "i6_locals \<Rightarrow> bool" where
  "fresh s \<equiv> i6_nibbles s = 0 \<and> i6_word s = 0"

lemma i6_group:
  assumes "fresh s"
  shows "i6_loop (xd g @ rest) s = i6_loop rest (s\<lparr>i6_nibbles := length (xd g), i6_word := int (group_val g)\<rparr>)"
  using i6_digits [of "xd g" s rest] xd_digits [of g] assms by simp

lemma i6_group_colon:
  assumes "fresh s" and "2 \<le> i6_n s"
  shows "i6_loop (xd g @ COLON # rest) s =
    i6_loop rest (s\<lparr>i6_addr := i6_addr s @ [fst g, snd g], i6_digit := Some rest, i6_n := i6_n s - 1\<rparr>)"
  using assms xd_digits(3) [of g] by (cases s) (simp add: i6_group i6_colon_def i6_put_def group_bytes Let_def)

lemma i6_groups:
  assumes "fresh s" and "length gs < i6_n s"
  shows "i6_loop (gtext gs @ rest) s = i6_loop rest (s\<lparr>i6_addr := i6_addr s @ gbytes gs,
    i6_digit := (if gs = [] then i6_digit s else Some rest), i6_n := i6_n s - length gs\<rparr>)"
  using assms
proof (induction gs arbitrary: s)
  case (Cons g gs)
  have "i6_loop (gtext (g # gs) @ rest) s =
      i6_loop (gtext gs @ rest) (s\<lparr>i6_addr := i6_addr s @ [fst g, snd g], i6_digit := Some (gtext gs @ rest), i6_n := i6_n s - 1\<rparr>)"
    using i6_group_colon [of s g "gtext gs @ rest"] Cons.prems by simp
  then show ?case using Cons by simp
qed simp

lemma i6_join:
  assumes "fresh s" and "gs \<noteq> []" and "length gs \<le> i6_n s"
  shows "\<exists>s'. i6_loop (jtext gs) s = Some s' \<and> i6_nibbles s' \<noteq> 0 \<and> i6_zero s' = i6_zero s
    \<and> i6_n s' = i6_n s - (length gs - 1)
    \<and> i6_addr s' @ [byte_of (i6_word s' div 256), byte_of (i6_word s' mod 256)] = i6_addr s @ gbytes gs"
  using assms
proof (induction gs arbitrary: s rule: jtext.induct)
  case (2 g)
  then show ?case using i6_group [of s g "[]"] xd_digits(3) [of g] by (simp add: group_bytes)
next
  case (3 g h gs)
  define t where "t = s\<lparr>i6_addr := i6_addr s @ [fst g, snd g], i6_digit := Some (jtext (h # gs)), i6_n := i6_n s - 1\<rparr>"
  have "i6_loop (jtext (g # h # gs)) s = i6_loop (jtext (h # gs)) t"
    using i6_group_colon [of s g "jtext (h # gs)"] 3(2,4) by (simp add: t_def)
  with 3(1) [of t] 3(2-4) show ?case by (auto simp: t_def)
qed simp

section \<open>IPv6: printing groups\<close>

lemma rd_gbytes:
  "k < length gs \<Longrightarrow> rd (gbytes gs) (2 * k) = fst (gs ! k) \<and> rd (gbytes gs) (2 * k + 1) = snd (gs ! k)"
proof (induction gs arbitrary: k)
  case (Cons g gs)
  then show ?case by (cases k) (auto simp: rd_def)
qed simp

text \<open>The run that is replaced by \<open>::\<close>, by the groups that are zero; one of 256 cases.\<close>

definition flag_step :: "i6_runs \<Rightarrow> nat \<times> bool \<Rightarrow> i6_runs" where
  "flag_step s iz =
     (case (s, iz) of ((zero, lst, mx, n), (i, z)) \<Rightarrow>
        if \<not> z then (if mx < n then (lst, lst, n, 0) else (zero, lst, mx, 0))
        else (zero, if n = 0 then Some i else lst, mx, n + 1))"

definition flag_longest :: "bool list \<Rightarrow> nat option \<times> nat" where
  "flag_longest fs =
     (case foldl flag_step (None, None, 1, 0) (zip [0, 2, 4, 6, 8, 10, 12, 14] fs) of (zero, lst, mx, n) \<Rightarrow>
        if mx < n then (lst, n) else (zero, mx))"

definition run_ok :: "bool list \<Rightarrow> bool" where
  "run_ok fs =
     (case flag_longest fs of
        (None, m) \<Rightarrow> True
      | (Some i, m) \<Rightarrow> even i \<and> 2 \<le> m \<and> i div 2 + m \<le> 8 \<and> list_all id (take m (drop (i div 2) fs))
          \<and> (i div 2 + m < 8 \<longrightarrow> \<not> fs ! (i div 2 + m)))"

lemma run_ok: "length fs = 8 \<Longrightarrow> run_ok fs"
proof -
  assume "length fs = 8"
  then have "fs \<in> set (List.n_lists 8 [True, False])" by (auto simp: set_n_lists)
  moreover have "list_all run_ok (List.n_lists 8 [True, False])" by code_simp
  ultimately show ?thesis by (simp add: list_all_iff)
qed

abbreviation (input) zero_group :: "group \<Rightarrow> bool" where
  "zero_group g \<equiv> g = (0, 0)"

lemma eight_groups:
  assumes "length gs = 8"
  obtains a b c d e f g h where "gs = [a, b, c, d, e, f, g, h]"
  using assms by (auto simp: numeral_eq_Suc length_Suc_conv)

lemma longest_flags: "length gs = 8 \<Longrightarrow> i6_longest (gbytes gs) = flag_longest (map (\<lambda>g. zero_group g) gs)"
proof -
  assume len: "length gs = 8"
  have step: "i6_run_step (gbytes gs) s (2 * k) = flag_step s (2 * k, zero_group (gs ! k))" if "k < 8" for s k
    using rd_gbytes [of k gs] that len by (auto simp: i6_run_step_def flag_step_def prod_eq_iff split: prod.split)
  have "i6_run_step (gbytes gs) s 0 = flag_step s (0, zero_group (gs ! 0))"
    "i6_run_step (gbytes gs) s 2 = flag_step s (2, zero_group (gs ! 1))"
    "i6_run_step (gbytes gs) s 4 = flag_step s (4, zero_group (gs ! 2))"
    "i6_run_step (gbytes gs) s 6 = flag_step s (6, zero_group (gs ! 3))"
    "i6_run_step (gbytes gs) s 8 = flag_step s (8, zero_group (gs ! 4))"
    "i6_run_step (gbytes gs) s 10 = flag_step s (10, zero_group (gs ! 5))"
    "i6_run_step (gbytes gs) s 12 = flag_step s (12, zero_group (gs ! 6))"
    "i6_run_step (gbytes gs) s 14 = flag_step s (14, zero_group (gs ! 7))" for s
    using step [of 0 s] step [of 1 s] step [of 2 s] step [of 3 s] step [of 4 s] step [of 5 s] step [of 6 s] step [of 7 s]
    by simp_all
  moreover obtain a b c d e f g h where "gs = [a, b, c, d, e, f, g, h]" using len by (rule eight_groups)
  ultimately show ?thesis by (simp add: i6_longest_def flag_longest_def)
qed

lemma longest_run:
  assumes "length gs = 8" and "i6_longest (gbytes gs) = (Some i, m)"
  obtains z where "i = 2 * z" and "2 \<le> m" and "z + m \<le> 8" and "gs = take z gs @ replicate m (0, 0) @ drop (z + m) gs"
    and "z + m < 8 \<longrightarrow> gs ! (z + m) \<noteq> (0, 0)"
proof -
  define fs where "fs = map (\<lambda>g. zero_group g) gs"
  have len: "length fs = 8" using assms(1) by (simp add: fs_def)
  have r: "even i \<and> 2 \<le> m \<and> i div 2 + m \<le> 8 \<and> list_all id (take m (drop (i div 2) fs))
      \<and> (i div 2 + m < 8 \<longrightarrow> \<not> fs ! (i div 2 + m))"
    using run_ok [OF len] assms longest_flags [OF assms(1)] by (simp add: run_ok_def fs_def)
  then obtain z where z: "i = 2 * z" by (auto elim: evenE)
  with r have "list_all zero_group (take m (drop z gs))"
    by (simp add: fs_def drop_map take_map list_all_iff)
  moreover have "length (take m (drop z gs)) = m" using r z assms(1) by (auto simp: min_def)
  ultimately have zeros: "take m (drop z gs) = replicate m (0, 0)"
    by (intro replicate_eqI) (auto simp: list_all_iff)
  have "gs = take z gs @ take m (drop z gs) @ drop m (drop z gs)"
    unfolding append_take_drop_id by simp
  then have "gs = take z gs @ replicate m (0, 0) @ drop (z + m) gs" unfolding zeros by (simp only: drop_drop add.commute)
  with r z show ?thesis using assms(1) by (intro that [of z]) (auto simp: fs_def)
qed

lemma print_plain:
  assumes "length gs = 8" and "k \<le> 8" and "\<forall>j. k \<le> j \<longrightarrow> zero \<noteq> Some (2 * j)"
  shows "i6_print (gbytes gs) zero mx 16 (2 * k) = jtext (drop k gs)"
  using assms(2,3)
proof (induction "8 - k" arbitrary: k)
  case 0
  then show ?case using assms(1) by (subst i6_print.simps) simp
next
  case (Suc n)
  then have k: "k < 8" "zero \<noteq> Some (2 * k)" by auto
  have IH: "i6_print (gbytes gs) zero mx 16 (2 * Suc k) = jtext (drop (Suc k) gs)"
    using Suc(2) by (intro Suc(1)) (use Suc(2-4) in auto)
  have dr: "drop k gs = gs ! k # drop (Suc k) gs" using k assms(1) by (simp add: Cons_nth_drop_Suc)
  have "i6_print (gbytes gs) zero mx 16 (2 * k) =
      xd (gs ! k) @ (if 2 * k < 14 then [COLON] else []) @ i6_print (gbytes gs) zero mx 16 (2 * Suc k)"
    using k rd_gbytes [of k gs] assms(1) by (subst i6_print.simps) simp
  also have "\<dots> = jtext (drop k gs)"
  proof (cases "k = 7")
    case True
    then show ?thesis using assms(1) unfolding IH dr by simp
  next
    case False
    then have "drop (Suc k) gs = gs ! Suc k # drop (Suc (Suc k)) gs" using k assms(1) by (simp add: Cons_nth_drop_Suc)
    then show ?thesis using False k unfolding IH dr by simp
  qed
  finally show ?case .
qed

lemma print_groups:
  assumes "length gs = 8" and "k \<le> z" and "2 * z \<le> n" and "n \<le> 16" and "z \<le> 7" and "\<forall>j. k \<le> j \<and> j < z \<longrightarrow> zero \<noteq> Some (2 * j)"
  shows "i6_print (gbytes gs) zero mx n (2 * k) = gtext (drop k (take z gs)) @ i6_print (gbytes gs) zero mx n (2 * z)"
  using assms(2,6)
proof (induction "z - k" arbitrary: k)
  case 0
  then show ?case using assms(1) by simp
next
  case (Suc m)
  then have k: "k < z" "zero \<noteq> Some (2 * k)" by auto
  have IH: "i6_print (gbytes gs) zero mx n (2 * Suc k) = gtext (drop (Suc k) (take z gs)) @ i6_print (gbytes gs) zero mx n (2 * z)"
    by (intro Suc(1)) (use Suc(2-4) in auto)
  have dr: "drop k (take z gs) = gs ! k # drop (Suc k) (take z gs)"
    using k assms(1,5) Cons_nth_drop_Suc [of k "take z gs"] by simp
  have "i6_print (gbytes gs) zero mx n (2 * k) = xd (gs ! k) @ [COLON] @ i6_print (gbytes gs) zero mx n (2 * Suc k)"
    using k rd_gbytes [of k gs] assms(1,3,5) by (subst i6_print.simps) simp
  then show ?case unfolding IH dr by simp
qed

section \<open>Addresses are read back\<close>

lemma xd_not_colon: "rd (xd g @ rest) 0 \<noteq> COLON"
  using xd_digits(1,3) [of g] xdigit_hex by (cases "xd g") (auto simp: rd_def)

lemma i6_init_simps [simp]:
  "i6_nibbles i6_init = 0" "i6_word i6_init = 0" "i6_n i6_init = 8" "i6_addr i6_init = []" "i6_zero i6_init = None"
  by (simp_all add: i6_init_def)

lemma read_plain:
  assumes "length gs = 8"
  shows "ngx_inet6_addr (jtext gs) = Some (gbytes gs)"
proof -
  obtain g gs' where g: "gs = g # gs'" using assms by (cases gs) auto
  then have ne: "jtext gs \<noteq> []" "rd (jtext gs) 0 \<noteq> COLON"
    using xd_digits(3) [of g] xd_not_colon [of g] xd_not_colon [of g "[]"] by (cases gs'; simp)+
  obtain s where "i6_loop (jtext gs) i6_init = Some s" "i6_nibbles s \<noteq> 0" "i6_zero s = None" "i6_n s = 1"
    "i6_addr s @ [byte_of (i6_word s div 256), byte_of (i6_word s mod 256)] = gbytes gs"
    using i6_join [of i6_init gs] assms g by auto
  then show ?thesis using ne by (simp add: ngx_inet6_addr_def i6_finish_def i6_put_def Let_def)
qed

text \<open>The text with an omission, without the colon before a leading one.\<close>

lemma read_omission:
  assumes "length pre + length post \<le> 6"
  shows "(case i6_loop (gtext pre @ COLON # jtext post) i6_init of None \<Rightarrow> None | Some s \<Rightarrow> i6_finish s)
    = Some (gbytes (pre @ replicate (8 - length pre - length post) (0, 0) @ post))"
proof -
  have z: "gbytes (replicate n (0, 0)) = replicate (n * 2) 0" for n by (induction n) simp_all
  define s0 where "s0 = i6_init\<lparr>i6_addr := gbytes pre,
    i6_digit := (if pre = [] then i6_digit i6_init else Some (COLON # jtext post)), i6_n := 8 - length pre\<rparr>"
  define s where "s = s0\<lparr>i6_digit := Some (jtext post), i6_zero := Some (2 * length pre)\<rparr>"
  have "i6_loop (gtext pre @ COLON # jtext post) i6_init = i6_loop (COLON # jtext post) s0"
    using i6_groups [of i6_init pre "COLON # jtext post"] assms by (simp add: s0_def)
  also have "\<dots> = i6_loop (jtext post) s" by (simp add: i6_colon_def s0_def s_def)
  finally have loop: "i6_loop (gtext pre @ COLON # jtext post) i6_init = i6_loop (jtext post) s" .
  have s: "i6_nibbles s = 0" "i6_word s = 0" "i6_n s = 8 - length pre" "i6_zero s = Some (2 * length pre)"
    "i6_addr s = gbytes pre" by (simp_all add: s_def s0_def)
  show ?thesis
  proof (cases "post = []")
    case True
    have n: "8 - length pre - 1 \<noteq> 0" "8 - length pre = Suc (8 - length pre - 1)" using assms by auto
    have "i6_finish s = Some (gbytes pre @ replicate ((8 - length pre - 1) * 2) 0 @ [0, 0])"
      using n(1) s by (simp add: i6_finish_def i6_put_def byte_of_def Let_def)
    moreover have "replicate ((8 - length pre - 1) * 2) 0 @ [0, 0] = gbytes (replicate (8 - length pre) (0, 0))"
      by (subst n(2)) (simp only: z replicate_append_same [symmetric] replicate_Suc replicate_app_Cons_same gbytes_simps, simp add: z replicate_append_same)
    ultimately show ?thesis using True loop by simp
  next
    case False
    have "length post \<le> i6_n s" using s(3) assms by auto
    then obtain t where t: "i6_loop (jtext post) s = Some t" "i6_nibbles t \<noteq> 0" "i6_zero t = Some (2 * length pre)"
      "i6_n t = 8 - length pre - (length post - 1)"
      "i6_addr t @ [byte_of (i6_word t div 256), byte_of (i6_word t mod 256)] = gbytes (pre @ post)"
      using i6_join [of s post] False s assms by auto
    define m where "m = 8 - length pre - length post"
    have "i6_n t - 1 = m" "m \<noteq> 0" using t(4) assms False by (cases post; simp add: m_def)+
    then have "i6_finish t = Some (take (2 * length pre) (gbytes (pre @ post)) @ replicate (m * 2) 0 @ drop (2 * length pre) (gbytes (pre @ post)))"
      using t by (simp add: i6_finish_def i6_put_def Let_def del: gbytes_simps)
    then show ?thesis using loop t(1) by (simp add: z m_def)
  qed
qed

lemma dotted_split: "dotted a b c d = sprintf_ud a @ DOT # sprintf_ud b @ DOT # sprintf_ud c @ DOT # sprintf_ud d"
  by (simp add: dotted_def)

lemma length_ud: "length (sprintf_ud c) \<le> 3"
proof -
  have "unat c < 10 ^ Suc 2" using unat_byte_le [of c] by simp
  then show ?thesis using length_base_digits [of 10 "unat c" 2 hex_lower] by (simp add: ud_base)
qed

lemma byte_of_mod: "byte_of (x mod 256) = byte_of x"
  by (simp add: byte_of_def word_of_int_eq_iff take_bit_eq_mod)

lemma byte_of_div: "byte_of (uint w div 2 ^ k) = ucast (drop_bit k w)" for w :: "32 word"
proof -
  have "take_bit 32 (uint w) = uint w" using uint_lt2p [of w] by (simp add: take_bit_int_eq_self)
  then have "uint (drop_bit k w) = drop_bit k (uint w)" by (simp add: unsigned_drop_bit_eq del: drop_bit_eq_div)
  then have "uint (drop_bit k w) = uint w div 2 ^ k" by (simp only: drop_bit_eq_div)
  then show ?thesis unfolding byte_of_def by (metis of_int_uint)
qed

lemma ipv4_octets:
  "byte_of (uint (ipv4 a b c d) div 16777216 mod 256) = a" "byte_of (uint (ipv4 a b c d) div 65536 mod 256) = b"
  "byte_of (uint (ipv4 a b c d) div 256) = c" "byte_of (uint (ipv4 a b c d) mod 256) = d"
  unfolding byte_of_mod
  using byte_of_div [of "ipv4 a b c d" 24] byte_of_div [of "ipv4 a b c d" 16] byte_of_div [of "ipv4 a b c d" 8]
    byte_of_div [of "ipv4 a b c d" 0] ipv4_bytes [of a b c d]
  by simp_all

text \<open>An omission at the front, groups, and an IPv4 address.\<close>

lemma read_dotted:
  assumes "length mid \<le> 5"
  shows "(case i6_loop (COLON # gtext mid @ dotted a b c d) i6_init of None \<Rightarrow> None | Some s \<Rightarrow> i6_finish s)
    = (if a = 255 \<and> b = 255 \<and> c = 255 \<and> d = 255 then None
       else Some (replicate ((6 - length mid) * 2) 0 @ gbytes mid @ [a, b, c, d]))"
proof -
  define D where "D = dotted a b c d"
  define s where "s = i6_init\<lparr>i6_zero := Some 0, i6_addr := gbytes mid, i6_digit := Some D, i6_n := 8 - length mid\<rparr>"
  have "i6_loop (COLON # gtext mid @ D) i6_init = i6_loop (gtext mid @ D) (i6_init\<lparr>i6_digit := Some (gtext mid @ D), i6_zero := Some 0\<rparr>)"
    by (simp add: i6_colon_def)
  also have "\<dots> = i6_loop D s"
    using assms by (subst i6_groups) (simp_all add: s_def)
  also have "\<dots> = i6_loop (DOT # sprintf_ud b @ DOT # sprintf_ud c @ DOT # sprintf_ud d)
      (s\<lparr>i6_nibbles := length (sprintf_ud a), i6_word := int (hex_num (sprintf_ud a))\<rparr>)"
  proof -
    have "list_all is_xdigit (sprintf_ud a)" using ud_digits(1) [of a] by (auto simp: list_all_iff is_xdigit_def)
    from i6_digits [OF this, of s] length_ud [of a] show ?thesis by (simp add: D_def dotted_split s_def)
  qed
  also have "\<dots> = i6_dot (s\<lparr>i6_nibbles := length (sprintf_ud a), i6_word := int (hex_num (sprintf_ud a))\<rparr>)"
    using ud_digits(3) [of a] by simp
  finally have loop: "i6_loop (COLON # gtext mid @ D) i6_init = \<dots>" .
  have n: "8 - length mid - 1 - 1 = 6 - length mid" "6 - length mid \<noteq> 0" "\<not> 8 - length mid < 2" using assms by auto
  show ?thesis
  proof (cases "a = 255 \<and> b = 255 \<and> c = 255 \<and> d = 255")
    case True
    then have "ngx_inet_addr D = INADDR_NONE"
      using ipv4_none [of a b c d] by (simp add: D_def inet_addr_dotted htonl_none)
    then show ?thesis using True loop n by (simp add: i6_dot_def s_def D_def)
  next
    case False
    then have a: "ngx_inet_addr D \<noteq> INADDR_NONE" "htonl (ngx_inet_addr D) = ipv4 a b c d"
      using ipv4_none [of a b c d] by (auto simp: D_def inet_addr_dotted htonl_none htonl_htonl)
    then show ?thesis
      using False loop n ud_digits(3) [of a]
      by (simp add: i6_dot_def i6_finish_def i6_put_def ipv4_octets s_def Let_def D_def [symmetric])
  qed
qed

text \<open>When the last four bytes are printed as an IPv4 address.\<close>

definition prints_dotted :: "group list \<Rightarrow> nat option \<Rightarrow> nat \<Rightarrow> bool" where
  "prints_dotted gs zero m \<longleftrightarrow> zero = Some 0
     \<and> (m = 5 \<and> gs ! 5 = (0xff, 0xff) \<or> m = 6 \<or> m = 7 \<and> fst (gs ! 7) \<noteq> 0 \<and> snd (gs ! 7) \<noteq> 1)"

lemma ntop_groups:
  assumes "length gs = 8" and "NGX_INET6_ADDRSTRLEN \<le> len" and "i6_longest (gbytes gs) = (zero, m)"
  shows "ngx_inet6_ntop (gbytes gs) len =
    (let n = (if prints_dotted gs zero m then 12 else 16)
     in (if zero = Some 0 then [COLON] else []) @ i6_print (gbytes gs) zero m n 0
        @ (if n = 12 then dotted (fst (gs ! 6)) (snd (gs ! 6)) (fst (gs ! 7)) (snd (gs ! 7)) else []))"
proof -
  have r: "rd (gbytes gs) 10 = fst (gs ! 5)" "rd (gbytes gs) 11 = snd (gs ! 5)" "rd (gbytes gs) 12 = fst (gs ! 6)"
    "rd (gbytes gs) 13 = snd (gs ! 6)" "rd (gbytes gs) 14 = fst (gs ! 7)" "rd (gbytes gs) 15 = snd (gs ! 7)"
    using rd_gbytes [of 5 gs] rd_gbytes [of 6 gs] rd_gbytes [of 7 gs] assms(1) by simp_all
  have "prints_dotted gs zero m = (zero = Some 0 \<and> ((m = 5 \<and> fst (gs ! 5) = 0xff \<and> snd (gs ! 5) = 0xff) \<or> m = 6
      \<or> (m = 7 \<and> fst (gs ! 7) \<noteq> 0 \<and> snd (gs ! 7) \<noteq> 1)))"
    by (simp add: prints_dotted_def prod_eq_iff)
  then show ?thesis
    unfolding ngx_inet6_ntop_def assms(3) Let_def prod.case r using assms(2) by simp
qed

lemma print_omission:
  assumes "length gs = 8" and "2 \<le> m" and "z + m \<le> 8"
  shows "i6_print (gbytes gs) (Some (2 * z)) m 16 0 = gtext (take z gs) @ COLON # jtext (drop (z + m) gs)"
proof -
  have "i6_print (gbytes gs) (Some (2 * z)) m 16 (2 * 0) =
      gtext (drop 0 (take z gs)) @ i6_print (gbytes gs) (Some (2 * z)) m 16 (2 * z)"
    using assms by (intro print_groups) auto
  moreover have "i6_print (gbytes gs) (Some (2 * z)) m 16 (2 * z) =
      COLON # i6_print (gbytes gs) (Some (2 * z)) m 16 (2 * (z + m))"
  proof -
    have "2 * z + (m - 1) * 2 + 2 = 2 * (z + m)" using assms(2) by (simp add: diff_mult_distrib)
    then show ?thesis using assms by (subst i6_print.simps) (simp only: if_True, simp)
  qed
  moreover have "i6_print (gbytes gs) (Some (2 * z)) m 16 (2 * (z + m)) = jtext (drop (z + m) gs)"
    using assms by (intro print_plain) auto
  ultimately show ?thesis by simp
qed

lemma print_dotted:
  assumes "length gs = 8" and "5 \<le> m" and "m \<le> 7"
  shows "i6_print (gbytes gs) (Some 0) m 12 0 = COLON # gtext (drop m (take 6 gs))"
proof -
  have "0 + (m - 1) * 2 + 2 = 2 * m" using assms(2) by (simp add: diff_mult_distrib)
  then have "i6_print (gbytes gs) (Some 0) m 12 0 = COLON # i6_print (gbytes gs) (Some 0) m 12 (2 * m)"
    by (subst i6_print.simps) simp
  moreover have "i6_print (gbytes gs) (Some 0) m 12 (2 * m) = gtext (drop m (take 6 gs))"
  proof (cases "m = 7")
    case True
    then show ?thesis using assms(1) by (subst i6_print.simps) simp
  next
    case False
    have "i6_print (gbytes gs) (Some 0) m 12 (2 * m) = gtext (drop m (take 6 gs)) @ i6_print (gbytes gs) (Some 0) m 12 (2 * 6)"
      using assms False by (intro print_groups) auto
    also have "i6_print (gbytes gs) (Some 0) m 12 (2 * 6) = []" by (subst i6_print.simps) simp
    finally show ?thesis by simp
  qed
  ultimately show ?thesis by simp
qed

text \<open>The two addresses that are printed with \<open>255.255.255.255\<close>, which the reader takes for an error.\<close>

definition broadcast6 :: "bytes list" where
  "broadcast6 = [replicate 10 0 @ replicate 6 255, replicate 12 0 @ replicate 4 255]"

lemma broadcast_groups:
  assumes "length gs = 8" and "prints_dotted gs (Some 0) m" and "gs = replicate m (0, 0) @ drop m gs"
    and "m < 8 \<longrightarrow> gs ! m \<noteq> (0, 0)"
  shows "(gbytes gs \<in> set broadcast6) = (fst (gs ! 6) = 255 \<and> snd (gs ! 6) = 255 \<and> fst (gs ! 7) = 255 \<and> snd (gs ! 7) = 255)"
    and "gbytes gs = replicate ((6 - length (drop m (take 6 gs))) * 2) 0 @ gbytes (drop m (take 6 gs))
      @ [fst (gs ! 6), snd (gs ! 6), fst (gs ! 7), snd (gs ! 7)]"
proof -
  obtain a b c d e f g h where gs: "gs = [a, b, c, d, e, f, g, h]" using assms(1) by (rule eight_groups)
  have m: "m = 5 \<or> m = 6 \<or> m = 7" using assms(2) by (auto simp: prints_dotted_def)
  then show "(gbytes gs \<in> set broadcast6) = (fst (gs ! 6) = 255 \<and> snd (gs ! 6) = 255 \<and> fst (gs ! 7) = 255 \<and> snd (gs ! 7) = 255)"
    using assms(2-4) unfolding gs by (elim disjE) (auto simp: numeral_eq_Suc broadcast6_def prints_dotted_def)
  from m show "gbytes gs = replicate ((6 - length (drop m (take 6 gs))) * 2) 0 @ gbytes (drop m (take 6 gs))
      @ [fst (gs ! 6), snd (gs ! 6), fst (gs ! 7), snd (gs ! 7)]"
    using assms(3) unfolding gs by (elim disjE) (auto simp: numeral_eq_Suc)
qed

lemma broadcast_dotted:
  assumes "gbytes gs \<in> set broadcast6" and "length gs = 8" and "i6_longest (gbytes gs) = (zero, m)"
  shows "prints_dotted gs zero m"
proof -
  have "list_all (\<lambda>a. case i6_longest a of (zero, m) \<Rightarrow>
      zero = Some 0 \<and> (m = 5 \<and> rd a 10 = 0xff \<and> rd a 11 = 0xff \<or> m = 6)) broadcast6" by code_simp
  with assms rd_gbytes [of 5 gs] show ?thesis
    by (auto simp: list_all_iff prints_dotted_def prod_eq_iff)
qed

lemma inet6_groups:
  assumes len: "length gs = 8" and "NGX_INET6_ADDRSTRLEN \<le> len"
  shows "ngx_inet6_addr (ngx_inet6_ntop (gbytes gs) len) =
    (if gbytes gs \<in> set broadcast6 then None else Some (gbytes gs))"
proof -
  obtain zero m where long: "i6_longest (gbytes gs) = (zero, m)" by fastforce
  note ntop = ntop_groups [OF assms long]
  have plain: "\<not> prints_dotted gs zero m \<Longrightarrow> gbytes gs \<notin> set broadcast6"
    using broadcast_dotted [OF _ len long] by blast
  show ?thesis
  proof (cases zero)
    case None
    then have "\<not> prints_dotted gs zero m" by (simp add: prints_dotted_def)
    moreover from this have "ngx_inet6_ntop (gbytes gs) len = jtext gs"
      unfolding ntop using None print_plain [OF len, of 0 None m] by (simp add: Let_def)
    ultimately show ?thesis using read_plain [OF len] plain by simp
  next
    case (Some i)
    obtain z where z: "i = 2 * z" "2 \<le> m" "z + m \<le> 8" "gs = take z gs @ replicate m (0, 0) @ drop (z + m) gs"
      "z + m < 8 \<longrightarrow> gs ! (z + m) \<noteq> (0, 0)"
      using longest_run [OF len, of i m] long Some by blast
    show ?thesis
    proof (cases "prints_dotted gs zero m")
      case True
      then have z0: "zero = Some 0" "z = 0" "5 \<le> m" "m \<le> 7" using Some z(1) by (auto simp: prints_dotted_def)
      have gs: "gs = replicate m (0, 0) @ drop m gs" and m: "m < 8 \<longrightarrow> gs ! m \<noteq> (0, 0)" using z(4,5) z0(2) by simp_all
      have txt_eq: "ngx_inet6_ntop (gbytes gs) len = COLON # COLON # gtext (drop m (take 6 gs))
          @ dotted (fst (gs ! 6)) (snd (gs ! 6)) (fst (gs ! 7)) (snd (gs ! 7))"
        unfolding ntop using True z0 print_dotted [OF len z0(3,4)] by (simp add: Let_def)
      have "length (drop m (take 6 gs)) \<le> 5" using z0(3) len by simp
      note read = read_dotted [OF this, of "fst (gs ! 6)" "snd (gs ! 6)" "fst (gs ! 7)" "snd (gs ! 7)"]
      note bg = broadcast_groups [OF len True [unfolded z0(1)] gs m]
      show ?thesis
        unfolding txt_eq ngx_inet6_addr_def using read bg by (simp add: rd_def del: length_drop length_take)
    next
      case False
      have txt_eq: "ngx_inet6_ntop (gbytes gs) len =
          (if z = 0 then [COLON] else []) @ gtext (take z gs) @ COLON # jtext (drop (z + m) gs)"
        unfolding ntop using False Some z(1) print_omission [OF len z(2,3)] by (simp add: Let_def)
      have lens: "length (take z gs) = z" "length (drop (z + m) gs) = 8 - z - m" "8 - z - (8 - z - m) = m"
        using len z(3) by auto
      have "(case i6_loop (gtext (take z gs) @ COLON # jtext (drop (z + m) gs)) i6_init of None \<Rightarrow> None | Some s \<Rightarrow> i6_finish s)
          = Some (gbytes gs)"
        using read_omission [of "take z gs" "drop (z + m) gs"] lens z(2,3) arg_cong [OF z(4), of gbytes] by simp
      moreover have "rd (gtext (take z gs) @ COLON # jtext (drop (z + m) gs)) 0 \<noteq> COLON" if "z \<noteq> 0"
      proof -
        have "take z gs \<noteq> []" using that len by auto
        then obtain g gs' where "take z gs = g # gs'" by (cases "take z gs") auto
        then show ?thesis using xd_not_colon [of g] by simp
      qed
      ultimately show ?thesis
        unfolding txt_eq ngx_inet6_addr_def using plain [OF False] by (cases "z = 0") (auto simp: rd_def Let_def)
    qed
  qed
qed

section \<open>Networks\<close>

datatype ngx_cidr =
    Cidr_in (cidr_addr: "32 word") (cidr_mask: "32 word")
  | Cidr_in6 (cidr6_addr: bytes) (cidr6_mask: bytes)
  | Cidr_unix

text \<open>\<open>NGX_OK\<close>, or \<open>NGX_DONE\<close> when bits of the address behind the prefix were cleared; \<open>None\<close> is \<open>NGX_ERROR\<close>.
  The loop over the bytes of an IPv6 address gives the mask, the new address and whether it changed.\<close>

fun ptocidr6_loop :: "nat \<Rightarrow> bytes \<Rightarrow> bytes \<times> bytes \<times> bool" where
  "ptocidr6_loop shift [] = ([], [], False)"
| "ptocidr6_loop shift (a # addr) =
     (let s = (if shift > 8 then 8 else shift);
          m = push_bit (8 - s) 0xff;
          (ms, addr', chg) = ptocidr6_loop (shift - s) addr
      in (m # ms, (a AND m) # addr', a \<noteq> a AND m \<or> chg))"

definition ptocidr_in :: "32 word \<Rightarrow> int \<Rightarrow> (ngx_rc \<times> ngx_cidr) option" where
  "ptocidr_in addr shift =
     (if shift > 32 then None
      else
        let mask = (if shift \<noteq> 0 then htonl (push_bit (32 - nat shift) 0xffffffff) else 0)
        in if addr = addr AND mask then Some (NGX_OK, Cidr_in addr mask)
           else Some (NGX_DONE, Cidr_in (addr AND mask) mask))"

definition ptocidr_in6 :: "bytes \<Rightarrow> int \<Rightarrow> (ngx_rc \<times> ngx_cidr) option" where
  "ptocidr_in6 addr shift =
     (if shift > 128 then None
      else
        let (mask, addr', chg) = ptocidr6_loop (nat shift) addr
        in Some (if chg then NGX_DONE else NGX_OK, Cidr_in6 addr' mask))"

definition ngx_ptocidr :: "bytes \<Rightarrow> (ngx_rc \<times> ngx_cidr) option" where
  "ngx_ptocidr txt =
     (let mask = ngx_strlchr txt SLASH;
          addr = (case mask of None \<Rightarrow> txt | Some k \<Rightarrow> take k txt);
          a = ngx_inet_addr addr
      in if a \<noteq> INADDR_NONE then
           (case mask of
              None \<Rightarrow> Some (NGX_OK, Cidr_in a 0xffffffff)
            | Some k \<Rightarrow> (case ngx_atoi (drop (k + 1) txt) of None \<Rightarrow> None | Some shift \<Rightarrow> ptocidr_in a shift))
         else case ngx_inet6_addr addr of
           None \<Rightarrow> None
         | Some a6 \<Rightarrow>
             (case mask of
                None \<Rightarrow> Some (NGX_OK, Cidr_in6 a6 (replicate 16 0xff))
              | Some k \<Rightarrow> (case ngx_atoi (drop (k + 1) txt) of None \<Rightarrow> None | Some shift \<Rightarrow> ptocidr_in6 a6 shift)))"

text \<open>A socket address. The port is in host byte order; of a \<open>sockaddr_un\<close> the bytes of \<open>sun_path\<close> that
  the length of the address covers, a terminating null among them if there is one.\<close>

datatype sockaddr = Sa_in "32 word" "16 word" | Sa_in6 bytes "16 word" | Sa_unix bytes

definition IN6_IS_ADDR_V4MAPPED :: "bytes \<Rightarrow> bool" where
  "IN6_IS_ADDR_V4MAPPED a \<longleftrightarrow> take 12 a = replicate 10 0 @ [0xff, 0xff]"

definition v4mapped :: "bytes \<Rightarrow> 32 word" where
  "v4mapped p = htonl (push_bit 24 (ucast (rd p 12)) + push_bit 16 (ucast (rd p 13)) + push_bit 8 (ucast (rd p 14)) + ucast (rd p 15))"

definition cidr_match_one :: "sockaddr \<Rightarrow> ngx_cidr \<Rightarrow> bool" where
  "cidr_match_one sa cidr =
     (let by_in = (\<lambda>inaddr. case cidr of Cidr_in addr m \<Rightarrow> inaddr AND m = addr | _ \<Rightarrow> False) in
      case sa of
        Sa_in a port \<Rightarrow> by_in a
      | Sa_in6 a port \<Rightarrow>
          if IN6_IS_ADDR_V4MAPPED a then by_in (v4mapped a)
          else (case cidr of
                  Cidr_in6 addr m \<Rightarrow> list_all (\<lambda>n. rd a n AND rd m n = rd addr n) [0..<16]
                | _ \<Rightarrow> False)
      | Sa_unix path \<Rightarrow> cidr = Cidr_unix)"

definition ngx_cidr_match :: "sockaddr \<Rightarrow> ngx_cidr list \<Rightarrow> ngx_rc" where
  "ngx_cidr_match sa cidrs = (if list_ex (cidr_match_one sa) cidrs then NGX_OK else NGX_DECLINED)"

section \<open>Socket addresses\<close>

abbreviation (input) LBRACKET :: u_char where "LBRACKET \<equiv> 0x5b"
abbreviation (input) RBRACKET :: u_char where "RBRACKET \<equiv> 0x5d"

text \<open>\<open>ngx_sock_ntop\<close>: the text without the null that ends it for a Unix domain socket, \<open>unix:\<close> and the path.\<close>

definition sprintf_port :: "16 word \<Rightarrow> bytes" where
  "sprintf_port port = ngx_sprintf_num 64 (ucast port) SP 0 0"

definition ngx_sock_ntop :: "sockaddr \<Rightarrow> nat \<Rightarrow> bool \<Rightarrow> bytes" where
  "ngx_sock_ntop sa len port =
     (case sa of
        Sa_in a p \<Rightarrow>
          let b = in_addr_bytes a; d = dotted (rd b 0) (rd b 1) (rd b 2) (rd b 3)
          in take len (if port then d @ [COLON] @ sprintf_port p else d)
      | Sa_in6 a p \<Rightarrow>
          if port then [LBRACKET] @ ngx_inet6_ntop a len @ [RBRACKET, COLON] @ sprintf_port p
          else ngx_inet6_ntop a len
      | Sa_unix path \<Rightarrow> butlast (take len ([0x75, 0x6e, 0x69, 0x78, COLON] @ takeWhile (\<lambda>c. c \<noteq> 0) path @ [0])))"

text \<open>\<open>None\<close> is \<open>NGX_DECLINED\<close>; the allocation is taken to succeed, and leaves the port 0.\<close>

definition ngx_parse_addr :: "bytes \<Rightarrow> sockaddr option" where
  "ngx_parse_addr txt =
     (let a = ngx_inet_addr txt in
      if a \<noteq> INADDR_NONE then Some (Sa_in a 0)
      else case ngx_inet6_addr txt of None \<Rightarrow> None | Some a6 \<Rightarrow> Some (Sa_in6 a6 0))"

definition ngx_inet_set_port :: "sockaddr \<Rightarrow> 16 word \<Rightarrow> sockaddr" where
  "ngx_inet_set_port sa port =
     (case sa of Sa_in a p \<Rightarrow> Sa_in a port | Sa_in6 a p \<Rightarrow> Sa_in6 a port | Sa_unix path \<Rightarrow> Sa_unix path)"

definition ngx_inet_get_port :: "sockaddr \<Rightarrow> 16 word" where
  "ngx_inet_get_port sa = (case sa of Sa_in a p \<Rightarrow> p | Sa_in6 a p \<Rightarrow> p | Sa_unix path \<Rightarrow> 0)"

definition SUN_PATH_SIZE :: nat where "SUN_PATH_SIZE = 108"

definition ngx_cmp_sockaddr :: "sockaddr \<Rightarrow> sockaddr \<Rightarrow> bool \<Rightarrow> ngx_rc" where
  "ngx_cmp_sockaddr sa1 sa2 cmp_port =
     (case (sa1, sa2) of
        (Sa_in6 a1 p1, Sa_in6 a2 p2) \<Rightarrow>
          if cmp_port \<and> p1 \<noteq> p2 then NGX_DECLINED else if a1 \<noteq> a2 then NGX_DECLINED else NGX_OK
      | (Sa_unix s1, Sa_unix s2) \<Rightarrow>
          let len = (if length s1 < length s2 then length s1 else length s2);
              len = (if len > SUN_PATH_SIZE then SUN_PATH_SIZE else len)
          in if take len s1 \<noteq> take len s2 then NGX_DECLINED else NGX_OK
      | (Sa_in a1 p1, Sa_in a2 p2) \<Rightarrow>
          if cmp_port \<and> p1 \<noteq> p2 then NGX_DECLINED else if a1 \<noteq> a2 then NGX_DECLINED else NGX_OK
      | _ \<Rightarrow> NGX_DECLINED)"

definition parse_addr_at_port :: "bytes \<Rightarrow> bytes \<Rightarrow> sockaddr option" where
  "parse_addr_at_port txt p =
     (case ngx_atoi p of
        None \<Rightarrow> None
      | Some port \<Rightarrow>
          if port < 1 \<or> port > 65535 then None
          else (case ngx_parse_addr txt of None \<Rightarrow> None | Some sa \<Rightarrow> Some (ngx_inet_set_port sa (word_of_int port))))"

definition ngx_parse_addr_port :: "bytes \<Rightarrow> sockaddr option" where
  "ngx_parse_addr_port txt =
     (case ngx_parse_addr txt of
        Some sa \<Rightarrow> Some sa
      | None \<Rightarrow>
          if txt \<noteq> [] \<and> rd txt 0 = LBRACKET then
            (case ngx_strlchr txt RBRACKET of
               None \<Rightarrow> None
             | Some k \<Rightarrow>
                 if k = length txt - 1 \<or> rd txt (k + 1) \<noteq> COLON then None
                 else
                   let p = drop (k + 2) txt; len = length txt - 2 - (length p + 1)
                   in parse_addr_at_port (take len (drop 1 txt)) p)
          else
            (case ngx_strlchr txt COLON of
               None \<Rightarrow> None
             | Some k \<Rightarrow>
                 let p = drop (k + 1) txt; len = length txt - (length p + 1)
                 in parse_addr_at_port (take len txt) p))"

section \<open>Round trips\<close>

lemma groups_of_bytes: "length a = 2 * n \<Longrightarrow> \<exists>gs. length gs = n \<and> a = gbytes gs"
proof (induction n arbitrary: a)
  case (Suc n)
  then obtain x y a' where a: "a = x # y # a'" "length a' = 2 * n" by (auto simp: length_Suc_conv)
  then obtain gs where "length gs = n" "a' = gbytes gs" using Suc.IH by blast
  then show ?case using a(1) by (intro exI [of _ "(x, y) # gs"]) simp
qed simp

text \<open>What was written of an IPv6 address fits the groups that are left.\<close>

definition i6_inv :: "i6_locals \<Rightarrow> bool" where
  "i6_inv s \<longleftrightarrow> 1 \<le> i6_n s \<and> i6_n s \<le> 8 \<and> length (i6_addr s) = 2 * (8 - i6_n s)
     \<and> (\<forall>z. i6_zero s = Some z \<longrightarrow> z \<le> length (i6_addr s))"

lemma i6_loop_inv: "i6_loop p s = Some t \<Longrightarrow> i6_inv s \<Longrightarrow> i6_inv t"
proof (induction p s rule: i6_loop.induct)
  case (2 c p s)
  have "i6_inv u" if "i6_colon p s = Some u" for u
    using that 2(4) by (auto simp: i6_inv_def i6_colon_def i6_put_def Let_def split: if_splits)
  moreover have "i6_inv u" if "i6_nibble c s = Some u" for u
    using that 2(4) by (auto simp: i6_inv_def i6_nibble_def Let_def split: if_splits)
  moreover have "i6_inv u" if "i6_dot s = Some u" for u
    using that 2(4) by (auto simp: i6_inv_def i6_dot_def i6_put_def Let_def split: if_splits option.splits)
  ultimately show ?case using 2 by (auto split: if_splits option.splits)
qed simp

lemma inet6_addr_length:
  assumes "ngx_inet6_addr txt = Some a"
  shows "length a = 16"
proof -
  define p where "p = (if rd txt 0 = COLON then drop 1 txt else txt)"
  obtain s where s: "i6_loop p i6_init = Some s" "i6_finish s = Some a"
    using assms by (auto simp: ngx_inet6_addr_def p_def Let_def split: if_splits option.splits)
  have "i6_inv i6_init" by (simp add: i6_inv_def)
  from i6_loop_inv [OF s(1) this] s(2) show ?thesis
    by (auto simp: i6_inv_def i6_finish_def i6_put_def Let_def split: if_splits option.splits)
qed

lemma length_dotted: "length (dotted a b c d) \<le> 15"
  using length_ud [of a] length_ud [of b] length_ud [of c] length_ud [of d] by (simp add: dotted_def)

lemma four_bytes: "length a = 4 \<Longrightarrow> a = [rd a 0, rd a 1, rd a 2, rd a 3]"
  by (auto simp: numeral_eq_Suc length_Suc_conv rd_def)

lemma in_addr_inet_dotted: "in_addr_bytes (ngx_inet_addr (dotted a b c d)) = [a, b, c, d]"
  by (simp add: inet_addr_dotted in_addr_htonl ipv4_bytes)

text \<open>C25: Every IPv4 address that \<open>ngx_inet_ntop\<close> prints into a buffer of 15 bytes or more is read back by \<open>ngx_inet_addr\<close> (for
  \<open>255.255.255.255\<close> what is read is at the same time the value for an error), and every IPv6 address that \<open>ngx_inet6_ntop\<close> prints
  into a buffer of 45 bytes or more, with its longest run of zeros replaced by \<open>::\<close> and an IPv4 address at the end or
  not, by \<open>ngx_inet6_addr\<close>; except the two that end in \<open>255.255.255.255\<close> in dotted form, which the reader cannot tell from
  an error. For every text that \<open>ngx_inet6_addr\<close> accepts, what it leaves in \<open>addr\<close> is exactly 16 bytes long.\<close>

theorem inet_roundtrip:
  "(length a4 = 4 \<and> 15 \<le> len \<longrightarrow> in_addr_bytes (ngx_inet_addr (ngx_inet_ntop a4 len)) = a4)
   \<and> (length a6 = 16 \<and> NGX_INET6_ADDRSTRLEN \<le> len \<longrightarrow>
        ngx_inet6_addr (ngx_inet6_ntop a6 len) = (if a6 \<in> set broadcast6 then None else Some a6))
   \<and> (ngx_inet6_addr txt = Some a \<longrightarrow> length a = 16)"
proof (intro conjI impI; (elim conjE)?)
  assume "length a4 = 4" "15 \<le> len"
  then show "in_addr_bytes (ngx_inet_addr (ngx_inet_ntop a4 len)) = a4"
    using four_bytes [of a4] length_dotted [of "rd a4 0" "rd a4 1" "rd a4 2" "rd a4 3"]
    by (simp add: ngx_inet_ntop_def in_addr_inet_dotted)
next
  assume a6: "length a6 = 16" and len: "NGX_INET6_ADDRSTRLEN \<le> len"
  obtain gs where "length gs = 8" "a6 = gbytes gs" using groups_of_bytes [of a6 8] a6 by auto
  with inet6_groups [of gs len] len
  show "ngx_inet6_addr (ngx_inet6_ntop a6 len) = (if a6 \<in> set broadcast6 then None else Some a6)" by simp
next
  assume "ngx_inet6_addr txt = Some a"
  then show "length a = 16" by (rule inet6_addr_length)
qed

theorem inet_roundtrip_witness:
  "ngx_inet6_addr (ngx_inet6_ntop [0x20, 1, 0xd, 0xb8, 0, 0, 0, 0, 0, 0, 0, 0, 0, 0, 0, 1] 45)
     = Some [0x20, 1, 0xd, 0xb8, 0, 0, 0, 0, 0, 0, 0, 0, 0, 0, 0, 1]
   \<and> in_addr_bytes (ngx_inet_addr (ngx_inet_ntop [192, 168, 0, 1] 45)) = [192, 168, 0, 1]"
proof -
  define a :: bytes where "a = [0x20, 1, 0xd, 0xb8, 0, 0, 0, 0, 0, 0, 0, 0, 0, 0, 0, 1]"
  have "a \<notin> set broadcast6" "length a = 16" by (simp_all add: a_def broadcast6_def numeral_eq_Suc)
  moreover have "length [192, 168, 0, 1 :: u_char] = 4" by simp
  ultimately show ?thesis
    using inet_roundtrip [of "[192, 168, 0, 1]" 45 a] by (simp add: NGX_INET6_ADDRSTRLEN_def a_def)
qed

text \<open>Socket addresses with a port.\<close>

lemma inet_addr_bad: "c \<in> set p \<Longrightarrow> \<not> is_digit c \<Longrightarrow> c \<noteq> DOT \<Longrightarrow> inet_addr_loop addr octet n p = INADDR_NONE"
  by (induction addr octet n p rule: inet_addr_loop.induct) (auto simp: is_digit_def Let_def)

lemma inet6_not_dotted: "ngx_inet6_addr (dotted a b c d @ rest) = None"
proof -
  have x: "list_all is_xdigit (sprintf_ud a)" using ud_digits(1) [of a] by (auto simp: list_all_iff is_xdigit_def)
  have "i6_loop (dotted a b c d @ rest) i6_init = None"
    using i6_digits [OF x, of i6_init] length_ud [of a] ud_digits(3) [of a]
    by (simp add: dotted_split i6_dot_def i6_init_def)
  moreover have "rd (dotted a b c d @ rest) 0 \<noteq> COLON" "dotted a b c d \<noteq> []"
    using ud_digits(1,3) [of a] by (cases "sprintf_ud a"; auto simp: dotted_split rd_def is_digit_def)+
  ultimately show ?thesis by (simp add: ngx_inet6_addr_def)
qed

lemma strlchr_append: "c \<notin> set xs \<Longrightarrow> ngx_strlchr (xs @ c # ys) c = Some (length xs)"
  by (induction xs) auto

lemma dotted_set: "x \<in> set (dotted a b c d) \<Longrightarrow> is_digit x \<or> x = DOT"
  using ud_digits(1) by (auto simp: dotted_def list_all_iff)

lemma print_set: "x \<in> set (i6_print p zero mx n i) \<Longrightarrow> is_xdigit x \<or> x = COLON"
proof (induction p zero mx n i rule: i6_print.induct)
  case (1 p zero mx n i)
  have "is_xdigit x" if "x \<in> set (sprintf_xd h l)" for h l
    using that xd_digits(1) [of "(h, l)"] by (simp add: list_all_iff)
  with 1 show ?case unfolding i6_print.simps [of p zero mx n i] by (auto split: if_splits)
qed

lemma ntop_set: "x \<in> set (ngx_inet6_ntop p len) \<Longrightarrow> is_xdigit x \<or> x = COLON \<or> x = DOT"
proof -
  assume x: "x \<in> set (ngx_inet6_ntop p len)"
  obtain zero m where "i6_longest p = (zero, m)" by fastforce
  with x obtain n where "x = COLON \<or> x \<in> set (i6_print p zero m n 0) \<or> x \<in> set (dotted (rd p 12) (rd p 13) (rd p 14) (rd p 15))"
    unfolding ngx_inet6_ntop_def Let_def by (auto split: if_splits)
  moreover have "is_digit x \<Longrightarrow> is_xdigit x" by (simp add: is_xdigit_def)
  ultimately show ?thesis using print_set [of x p zero m n 0] dotted_set [of x "rd p 12" "rd p 13" "rd p 14" "rd p 15"] by blast
qed

text \<open>A text without a colon is not an IPv6 address.\<close>

lemma i6_no_colon:
  "i6_loop p s = Some t \<Longrightarrow> COLON \<notin> set p \<Longrightarrow> i6_digit s = None \<Longrightarrow> i6_zero t = i6_zero s \<and> i6_n t = i6_n s"
proof (induction p s rule: i6_loop.induct)
  case (2 c p s)
  then obtain u where u: "i6_nibble c s = Some u" "i6_loop p u = Some t"
    by (auto simp: i6_dot_def split: if_splits option.splits)
  then have "i6_digit u = i6_digit s" "i6_zero u = i6_zero s" "i6_n u = i6_n s"
    by (auto simp: i6_nibble_def Let_def split: if_splits)
  moreover have "c \<noteq> COLON" "\<not> (c = DOT \<and> i6_nibbles s \<noteq> 0)" using 2(3-5) by (auto simp: i6_dot_def split: if_splits)
  ultimately show ?case using 2(2) [OF _ _ u(1,2)] 2(4,5) by simp
qed simp

lemma inet6_colon: "ngx_inet6_addr p = Some a \<Longrightarrow> COLON \<in> set p"
proof (rule ccontr)
  assume a: "ngx_inet6_addr p = Some a" and no: "COLON \<notin> set p"
  then have "rd p 0 \<noteq> COLON" by (cases p) (auto simp: ngx_inet6_addr_def rd_def)
  with a obtain s where s: "i6_loop p i6_init = Some s" "i6_finish s = Some a"
    by (auto simp: ngx_inet6_addr_def split: if_splits option.splits)
  have "i6_zero s = None" "i6_n s = 8" using i6_no_colon [OF s(1) no] by (simp_all add: i6_init_def)
  with s(2) show False by (auto simp: i6_finish_def i6_put_def Let_def split: if_splits)
qed

lemma port_digits: "ngx_atoi (sprintf_port p) = Some (uint p)"
proof -
  have "unat (ucast p :: 64 word) = unat p"
    by (simp add: unsigned_ucast_eq take_bit_nat_eq_self_iff order_less_le_trans [OF unsigned_less])
  then have "sprintf_port p = base_digits 10 hex_lower (unat p)"
    using length_num_digits [of "ucast p" 0]
    by (simp add: sprintf_port_def ngx_sprintf_num_take num_digits_base NGX_INT64_LEN_def)
  moreover have "uint p \<le> NGX_MAX_INT_T_VALUE" using uint_lt2p [of p] by (simp add: NGX_MAX_INT_T_VALUE_def)
  ultimately show ?thesis unfolding atoi.read_exact by (simp add: base_digits_dec)
qed

lemma port_range: "p \<noteq> 0 \<Longrightarrow> 1 \<le> uint p \<and> uint p \<le> 65535" for p :: "16 word"
proof -
  assume "p \<noteq> 0"
  then have "uint p \<noteq> 0" "0 \<le> uint p" by (simp_all add: unsigned_eq_0_iff)
  moreover have "uint p < 65536" using uint_lt2p [of p] by simp
  ultimately show ?thesis by linarith
qed

lemma parse_at_port:
  assumes "p \<noteq> 0"
  shows "parse_addr_at_port txt (sprintf_port p) = map_option (\<lambda>sa. ngx_inet_set_port sa p) (ngx_parse_addr txt)"
  using port_range [OF assms] by (auto simp: parse_addr_at_port_def port_digits split: option.split)

lemma length_port: "length (sprintf_port p) \<le> 20"
  using length_num_digits [of "ucast p" 0] by (simp add: sprintf_port_def ngx_sprintf_num_take NGX_INT64_LEN_def)

lemma parse_dotted_port:
  assumes "p \<noteq> 0"
  shows "ngx_parse_addr_port (dotted a b c d @ COLON # sprintf_port p) =
    map_option (\<lambda>sa. ngx_inet_set_port sa p) (ngx_parse_addr (dotted a b c d))"
proof -
  define D where "D = dotted a b c d"
  have no: "COLON \<notin> set D" using dotted_set [of COLON a b c d] by (auto simp: D_def is_digit_def)
  have hd: "D \<noteq> []" "rd D 0 \<noteq> LBRACKET"
    using ud_digits(1,3) [of a] by (cases "sprintf_ud a"; auto simp: D_def dotted_split rd_def is_digit_def)+
  have "ngx_inet_addr (D @ COLON # sprintf_port p) = INADDR_NONE"
    unfolding ngx_inet_addr_def by (rule inet_addr_bad [of COLON]) (simp_all add: is_digit_def)
  then have "ngx_parse_addr (D @ COLON # sprintf_port p) = None"
    using inet6_not_dotted [of a b c d "COLON # sprintf_port p"] by (simp add: ngx_parse_addr_def D_def)
  then show ?thesis
    using hd strlchr_append [OF no, of "sprintf_port p"] parse_at_port [OF assms, of D]
    by (simp add: ngx_parse_addr_port_def D_def [symmetric] Let_def)
qed

lemma parse_bracket_port:
  assumes "p \<noteq> 0" and "RBRACKET \<notin> set T"
  shows "ngx_parse_addr_port (LBRACKET # T @ RBRACKET # COLON # sprintf_port p) =
    map_option (\<lambda>sa. ngx_inet_set_port sa p) (ngx_parse_addr T)"
proof -
  define tx where "tx = LBRACKET # T @ RBRACKET # COLON # sprintf_port p"
  have "ngx_inet_addr tx = INADDR_NONE"
    unfolding ngx_inet_addr_def tx_def by (rule inet_addr_bad [of LBRACKET]) (simp_all add: is_digit_def)
  moreover have "ngx_inet6_addr tx = None"
    by (simp add: ngx_inet6_addr_def tx_def rd_def i6_nibble_def)
  ultimately have d: "ngx_parse_addr tx = None" by (simp add: ngx_parse_addr_def)
  have k: "ngx_strlchr tx RBRACKET = Some (Suc (length T))"
    using strlchr_append [of RBRACKET "LBRACKET # T" "COLON # sprintf_port p"] assms(2) by (simp add: tx_def)
  have "rd tx (Suc (length T) + 1) = COLON" "drop (Suc (length T) + 2) tx = sprintf_port p"
    "length tx = length T + 3 + length (sprintf_port p)" "rd tx 0 = LBRACKET" "tx \<noteq> []" "drop 1 tx = T @ RBRACKET # COLON # sprintf_port p"
    by (simp_all add: tx_def rd_def nth_append)
  then show ?thesis
    unfolding tx_def [symmetric] ngx_parse_addr_port_def d k
    using parse_at_port [OF assms(1), of T] by (simp add: Let_def)
qed

text \<open>What \<open>ngx_sock_ntop\<close> prints with a port, for IPv4 or, in brackets, for IPv6, \<open>ngx_parse_addr_port\<close>
  reads back as the same socket address, unless the port is 0 or the address is one that the
  readers refuse (a broadcast address in dotted form).\<close>

lemma sock_addr_roundtrip:
  "(a \<noteq> INADDR_NONE \<and> p \<noteq> 0 \<and> 36 \<le> len \<longrightarrow>
      ngx_parse_addr_port (ngx_sock_ntop (Sa_in a p) len True) = Some (Sa_in a p))
   \<and> (length a6 = 16 \<and> a6 \<notin> set broadcast6 \<and> p \<noteq> 0 \<and> NGX_INET6_ADDRSTRLEN \<le> len \<longrightarrow>
      ngx_parse_addr_port (ngx_sock_ntop (Sa_in6 a6 p) len True) = Some (Sa_in6 a6 p))"
proof (intro conjI impI; elim conjE)
  assume a: "a \<noteq> INADDR_NONE" "p \<noteq> 0" "36 \<le> len"
  define b where "b = in_addr_bytes a"
  define D where "D = dotted (rd b 0) (rd b 1) (rd b 2) (rd b 3)"
  have "in_addr_bytes (ngx_inet_addr D) = in_addr_bytes a"
    unfolding D_def in_addr_inet_dotted by (simp add: b_def in_addr_bytes_def rd_def)
  then have "ngx_inet_addr D = a" by (rule in_addr_inject)
  then have "ngx_parse_addr D = Some (Sa_in a 0)" using a(1) by (simp add: ngx_parse_addr_def)
  moreover have "ngx_sock_ntop (Sa_in a p) len True = D @ COLON # sprintf_port p"
    using length_dotted [of "rd b 0" "rd b 1" "rd b 2" "rd b 3"] length_port [of p] a(3)
    by (simp add: ngx_sock_ntop_def D_def b_def Let_def)
  ultimately show "ngx_parse_addr_port (ngx_sock_ntop (Sa_in a p) len True) = Some (Sa_in a p)"
    using parse_dotted_port [OF a(2)] by (simp add: D_def ngx_inet_set_port_def)
next
  assume a: "length a6 = 16" "a6 \<notin> set broadcast6" "p \<noteq> 0" "NGX_INET6_ADDRSTRLEN \<le> len"
  define T where "T = ngx_inet6_ntop a6 len"
  obtain gs where gs: "length gs = 8" "a6 = gbytes gs" using groups_of_bytes [of a6 8] a(1) by auto
  have read: "ngx_inet6_addr T = Some a6" using inet6_groups [of gs len] gs a by (simp add: T_def)
  have no: "RBRACKET \<notin> set T" using ntop_set [of RBRACKET a6 len] by (auto simp: T_def is_xdigit_def is_digit_def)
  have "ngx_inet_addr T = INADDR_NONE"
    unfolding ngx_inet_addr_def using inet6_colon [OF read] by (rule inet_addr_bad) (simp_all add: is_digit_def)
  then have "ngx_parse_addr T = Some (Sa_in6 a6 0)" using read by (simp add: ngx_parse_addr_def)
  then show "ngx_parse_addr_port (ngx_sock_ntop (Sa_in6 a6 p) len True) = Some (Sa_in6 a6 p)"
    using parse_bracket_port [OF a(3) no] by (simp add: ngx_sock_ntop_def T_def ngx_inet_set_port_def)
qed

end
