(* ===== verification/Ngx_Cidr.thy ===== *)
theory Ngx_Cidr
  imports Ngx_Inet
begin

unbundle bit_operations_syntax

text \<open>
  Networks in CIDR notation (\<open>ngx_ptocidr\<close> and \<open>ngx_cidr_match\<close> of src/core/ngx_inet.c, defined in
  \<open>Ngx_Inet\<close>): matching is agreement on the bits of the prefix, for both families and for IPv4 addresses
  mapped into IPv6.
\<close>

section \<open>Matching networks\<close>

text \<open>The bits of an address, the most significant one of the first byte first.\<close>

definition byte_bits :: "u_char \<Rightarrow> bool list" where
  "byte_bits c = map (\<lambda>k. bit c (7 - k)) [0..<8]"

definition addr_bits :: "bytes \<Rightarrow> bool list" where
  "addr_bits a = concat (map byte_bits a)"

lemma length_byte_bits [simp]: "length (byte_bits c) = 8"
  by (simp add: byte_bits_def)

lemma addr_bits_simps [simp]: "addr_bits [] = []" "addr_bits (c # a) = byte_bits c @ addr_bits a"
  by (simp_all add: addr_bits_def)

lemma mask_agree:
  fixes x a :: u_char
  assumes "s \<le> 8"
  shows "(x AND push_bit (8 - s) 0xff = a AND push_bit (8 - s) 0xff) = (take s (byte_bits x) = take s (byte_bits a))"
proof -
  have m: "bit (push_bit (8 - s) (0xff :: u_char)) k = (8 - s \<le> k \<and> k < 8)" for k
  proof -
    have "(0xff :: u_char) = mask 8" by (simp add: mask_eq_exp_minus_1)
    show ?thesis unfolding \<open>0xff = mask 8\<close> by (auto simp: bit_simps)
  qed
  have "(x AND push_bit (8 - s) 0xff = a AND push_bit (8 - s) 0xff) = (\<forall>k. 8 - s \<le> k \<and> k < 8 \<longrightarrow> bit x k = bit a k)"
    by (auto simp: bit_eq_iff bit_and_iff m)
  also have "\<dots> = (\<forall>j < s. bit x (7 - j) = bit a (7 - j))"
    (is "?A = ?B")
  proof
    assume h: ?A
    show ?B
    proof (intro allI impI)
      fix j assume "j < s"
      then have "8 - s \<le> 7 - j \<and> 7 - j < 8" using assms by auto
      with h show "bit x (7 - j) = bit a (7 - j)" by blast
    qed
  next
    assume h: ?B
    show ?A
    proof (intro allI impI)
      fix k assume "8 - s \<le> k \<and> k < 8"
      then have "7 - k < s" "7 - (7 - k) = k" using assms by auto
      with h show "bit x k = bit a k" by metis
    qed
  qed
  also have "\<dots> = (take s (byte_bits x) = take s (byte_bits a))"
    using assms by (auto simp: byte_bits_def take_map list_eq_iff_nth_eq)
  finally show ?thesis .
qed

lemma mask_changes: "s \<le> 8 \<Longrightarrow> (c \<noteq> c AND push_bit (8 - s) 0xff) = (True \<in> set (drop s (byte_bits c)))" for c :: u_char
proof -
  have "list_all (\<lambda>c. list_all (\<lambda>s. (c \<noteq> c AND push_bit (8 - s) 0xff) = (True \<in> set (drop s (byte_bits c)))) [0..<9]) all_bytes"
    by code_simp
  from byte_cases [OF this, of c] show "s \<le> 8 \<Longrightarrow> (c \<noteq> c AND push_bit (8 - s) 0xff) = (True \<in> set (drop s (byte_bits c)))"
    by (simp add: list_all_iff)
qed

lemma ptocidr6_loop_match:
  assumes "ptocidr6_loop n addr = (ms, addr', chg)" and "length x = length addr"
  shows "length ms = length addr \<and> length addr' = length addr
    \<and> (list_all2 (\<lambda>(c, m) a. c AND m = a) (zip x ms) addr' \<longleftrightarrow> take n (addr_bits x) = take n (addr_bits addr))
    \<and> (chg \<longleftrightarrow> True \<in> set (drop n (addr_bits addr)))"
  using assms
proof (induction n addr arbitrary: x ms addr' chg rule: ptocidr6_loop.induct)
  case (2 n a addr)
  define s where "s = (if n > 8 then 8 else n)"
  obtain ms1 addr1 chg1 where rec: "ptocidr6_loop (n - s) addr = (ms1, addr1, chg1)" by (cases "ptocidr6_loop (n - s) addr") auto
  define m :: u_char where "m = push_bit (8 - s) 0xff"
  have r: "ms = m # ms1" "addr' = (a AND m) # addr1" "chg = (a \<noteq> a AND m \<or> chg1)"
    using 2(2) rec by (simp_all add: s_def [symmetric] m_def Let_def)
  obtain y ys where x: "x = y # ys" "length ys = length addr" using 2(3) by (cases x) auto
  note IH = 2(1) [OF s_def refl rec x(2)]
  have "n - 8 = n - s \<or> n \<le> 8 \<and> s = n" by (auto simp: s_def)
  then have tk: "take (n - 8) b = take (n - s) b" "drop (n - 8) b = drop (n - s) b" for b :: "bool list"
    by (auto simp: s_def)
  have byte: "take n (byte_bits c) = take s (byte_bits c)" "drop n (byte_bits c) = drop s (byte_bits c)" for c
    by (auto simp: s_def)
  have s8: "s \<le> 8" by (simp add: s_def)
  show ?case
    using IH mask_agree [OF s8, of y a] mask_changes [OF s8, of a]
    unfolding r x by (simp add: m_def tk byte)
qed simp

lemma ptocidr6_masks: "fst (ptocidr6_loop n addr) = fst (ptocidr6_loop n (replicate (length addr) 0))"
  by (induction n addr rule: ptocidr6_loop.induct) (auto simp: Let_def split: prod.splits)

lemma ptocidr6_and:
  "ptocidr6_loop n addr = (ms, addr', chg) \<Longrightarrow> addr' = map2 (AND) addr ms \<and> chg = (addr \<noteq> addr')"
  by (induction n addr arbitrary: ms addr' chg rule: ptocidr6_loop.induct)
    (fastforce simp: Let_def split: prod.splits)+

lemma in_addr_and: "in_addr_bytes (a AND m) = map2 (AND) (in_addr_bytes a) (in_addr_bytes m)"
  by (auto simp: in_addr_bytes_def bit_simps intro!: bit_word_eqI)

lemma in_addr_eq_iff: "v = w \<longleftrightarrow> in_addr_bytes v = in_addr_bytes w"
  using in_addr_inject by blast

lemma length_in_addr [simp]: "length (in_addr_bytes a) = 4"
  by (simp add: in_addr_bytes_def)

lemma in_addr_mask:
  assumes "n \<le> 32"
  shows "in_addr_bytes (if n \<noteq> 0 then htonl (push_bit (32 - n) 0xffffffff) else 0) = fst (ptocidr6_loop n [0, 0, 0, 0])"
proof -
  have "list_all (\<lambda>n. in_addr_bytes (if n \<noteq> 0 then htonl (push_bit (32 - n) 0xffffffff) else 0) =
      fst (ptocidr6_loop n [0, 0, 0, 0])) [0..<33]"
    by code_simp
  moreover have "n \<in> set [0..<33]" using assms unfolding set_upt by simp
  ultimately show ?thesis unfolding list_all_iff by (rule bspec)
qed

text \<open>Both families of networks, as bytes: the address the prefix was cut from gives the mask and the
  address of the network.\<close>

definition cidr_bytes :: "ngx_cidr \<Rightarrow> bytes \<times> bytes" where
  "cidr_bytes c = (case c of Cidr_in a m \<Rightarrow> (in_addr_bytes m, in_addr_bytes a) | Cidr_in6 a m \<Rightarrow> (m, a) | Cidr_unix \<Rightarrow> ([], []))"

definition cidr_cut :: "nat \<Rightarrow> bytes \<Rightarrow> ngx_rc \<Rightarrow> ngx_cidr \<Rightarrow> bool" where
  "cidr_cut n net rc c \<longleftrightarrow> n \<le> 8 * length net \<and> ptocidr6_loop n net = (fst (cidr_bytes c), snd (cidr_bytes c), rc = NGX_DONE)"

lemma ptocidr_in_cut:
  assumes "ptocidr_in a (int n) = Some (rc, c)"
  shows "cidr_cut n (in_addr_bytes a) rc c \<and> (\<exists>addr m. c = Cidr_in addr m)"
proof -
  define m where "m = (if n \<noteq> 0 then htonl (push_bit (32 - n) 0xffffffff) else 0)"
  obtain ms addr' chg where l: "ptocidr6_loop n (in_addr_bytes a) = (ms, addr', chg)" by (cases "ptocidr6_loop n (in_addr_bytes a)")
  have m: "(if int n \<noteq> 0 then htonl (push_bit (32 - nat (int n)) 0xffffffff) else 0) = m"
    by (simp only: m_def nat_int of_nat_eq_0_iff)
  have n: "n \<le> 32" and c: "c = Cidr_in (a AND m) m" "rc = (if a = a AND m then NGX_OK else NGX_DONE)"
    using assms unfolding ptocidr_in_def m Let_def by (auto split: if_splits)
  have "ms = in_addr_bytes m"
  proof -
    have "replicate (length (in_addr_bytes a)) 0 = [0, 0, 0, 0 :: u_char]" by (simp add: numeral_eq_Suc)
    then show ?thesis using ptocidr6_masks [of n "in_addr_bytes a"] in_addr_mask [OF n] l unfolding m_def by (simp only: fst_conv)
  qed
  with ptocidr6_and [OF l] c have "addr' = in_addr_bytes (a AND m)" "chg = (rc = NGX_DONE)"
    by (simp_all add: in_addr_and in_addr_eq_iff [of a])
  with \<open>ms = _\<close> l n c show ?thesis by (simp add: cidr_cut_def cidr_bytes_def)
qed

lemma ptocidr_in6_cut:
  assumes "ptocidr_in6 a (int n) = Some (rc, c)" and "length a = 16"
  shows "cidr_cut n a rc c \<and> (\<exists>addr m. c = Cidr_in6 addr m)"
  using assms by (auto simp: ptocidr_in6_def cidr_cut_def cidr_bytes_def split: if_splits prod.splits)

lemma and_ff [simp]: "(a :: u_char) AND 0xff = a" "(b :: 32 word) AND 0xffffffff = b"
proof -
  have "(0xff :: u_char) = - 1" "(0xffffffff :: 32 word) = - 1" by simp_all
  then show "a AND 0xff = a" "b AND 0xffffffff = b" by (metis and.right_neutral)+
qed

lemma ptocidr6_whole: "8 * length a \<le> n \<Longrightarrow> ptocidr6_loop n a = (replicate (length a) 0xff, a, False)"
proof (induction n a rule: ptocidr6_loop.induct)
  case (2 n a addr)
  show ?case
  proof (cases "n > 8")
    case False
    with 2(2) have "addr = []" "n = 8" by (cases addr; simp)+
    then show ?thesis by simp
  qed (use 2 in \<open>simp add: Let_def\<close>)
qed simp

lemma whole_in: "ptocidr_in a (int 32) = Some (NGX_OK, Cidr_in a 0xffffffff)"
proof -
  have "htonl (push_bit (32 - nat (int 32)) 0xffffffff) = 0xffffffff" by code_simp
  then show ?thesis by (simp add: ptocidr_in_def)
qed

lemma whole_in6: "length a = 16 \<Longrightarrow> ptocidr_in6 a (int 128) = Some (NGX_OK, Cidr_in6 a (replicate 16 0xff))"
  using ptocidr6_whole [of a 128] by (simp add: ptocidr_in6_def)

text \<open>The address that is matched: the last four bytes of an IPv4-mapped one.\<close>

definition sa_addr :: "sockaddr \<Rightarrow> bytes" where
  "sa_addr sa = (case sa of Sa_in a p \<Rightarrow> in_addr_bytes a
     | Sa_in6 a p \<Rightarrow> if IN6_IS_ADDR_V4MAPPED a then drop 12 a else a | Sa_unix path \<Rightarrow> [])"

definition sa_ok :: "sockaddr \<Rightarrow> bool" where
  "sa_ok sa = (case sa of Sa_in6 a p \<Rightarrow> length a = 16 | _ \<Rightarrow> True)"

lemma ipv4_sum: "push_bit 24 (ucast a) + push_bit 16 (ucast b) + push_bit 8 (ucast c) + ucast d = ipv4 a b c d"
proof -
  define A B C D :: "32 word" where "A = push_bit 24 (ucast a)" and "B = push_bit 16 (ucast b)"
    and "C = push_bit 8 (ucast c)" and "D = ucast d"
  note defs = A_def B_def C_def D_def
  have "A AND B = 0" "(A OR B) AND C = 0" "(A OR B OR C) AND D = 0"
    unfolding defs by (rule bit_word_eqI; auto simp: bit_simps dest: bit_imp_le_length)+
  then have "A + B + C + D = A OR B OR C OR D" by (simp add: disjunctive_add_eq_or or.assoc)
  then show ?thesis by (simp only: defs ipv4_def)
qed

lemma v4mapped_bytes:
  assumes "length a = 16"
  shows "in_addr_bytes (v4mapped a) = drop 12 a"
proof -
  have d: "drop 12 a = [rd a 12, rd a 13, rd a 14, rd a 15]"
    using assms by (intro nth_equalityI) (auto simp: rd_def less_Suc_eq numeral_eq_Suc)
  have "push_bit 24 (ucast (rd a 12)) + push_bit 16 (ucast (rd a 13)) + push_bit 8 (ucast (rd a 14)) + ucast (rd a 15) =
      ipv4 (rd a 12) (rd a 13) (rd a 14) (rd a 15)"
    by (rule ipv4_sum)
  then show ?thesis unfolding v4mapped_def in_addr_htonl d by (simp only: ipv4_bytes)
qed

lemma masked_zip:
  "length x = length ms \<Longrightarrow> length addr = length ms \<Longrightarrow> (map2 (AND) x ms = addr) = list_all2 (\<lambda>(c, m) a. c AND m = a) (zip x ms) addr"
  by (auto simp: list_all2_conv_all_nth list_eq_iff_nth_eq)

lemma match_in: "(x AND m = a) = list_all2 (\<lambda>(c, m) a. c AND m = a) (zip (in_addr_bytes x) (in_addr_bytes m)) (in_addr_bytes a)"
  unfolding in_addr_eq_iff [of "x AND m"] in_addr_and by (rule masked_zip) simp_all

lemma match_in6:
  "length x = 16 \<Longrightarrow> length ms = 16 \<Longrightarrow> length addr = 16 \<Longrightarrow>
    list_all (\<lambda>n. rd x n AND rd ms n = rd addr n) [0..<16] = list_all2 (\<lambda>(c, m) a. c AND m = a) (zip x ms) addr"
  by (auto simp: list_all2_conv_all_nth list_all_iff rd_def simp del: upt_rec_numeral)

lemma cidr_cut_match:
  assumes "cidr_cut n net rc c" and "sa_ok sa"
    and "length net = 4 \<and> (\<exists>a m. c = Cidr_in a m) \<or> length net = 16 \<and> (\<exists>a m. c = Cidr_in6 a m)"
  shows "cidr_match_one sa c \<longleftrightarrow> length (sa_addr sa) = length net \<and> take n (addr_bits (sa_addr sa)) = take n (addr_bits net)"
proof (cases "length (sa_addr sa) = length net")
  case True
  have l: "ptocidr6_loop n net = (fst (cidr_bytes c), snd (cidr_bytes c), rc = NGX_DONE)" using assms(1) by (simp add: cidr_cut_def)
  note m = ptocidr6_loop_match [OF l True]
  have "cidr_match_one sa c = list_all2 (\<lambda>(c, m) a. c AND m = a) (zip (sa_addr sa) (fst (cidr_bytes c))) (snd (cidr_bytes c))"
    using True assms(2,3) m
    by (auto simp: cidr_match_one_def sa_addr_def cidr_bytes_def match_in match_in6 v4mapped_bytes sa_ok_def Let_def simp del: upt_rec_numeral
        split: sockaddr.splits if_splits)
  with m True show ?thesis by simp
next
  case False
  then show ?thesis using assms(2,3)
    by (auto simp: cidr_match_one_def sa_addr_def sa_ok_def Let_def split: sockaddr.splits if_splits)
qed

lemma atoi_nonneg: "ngx_atoi ds = Some n \<Longrightarrow> 0 \<le> n"
  unfolding atoi.read_exact by (auto split: if_splits)

lemma strlchr_none: "c \<notin> set xs \<Longrightarrow> ngx_strlchr xs c = None"
  by (induction xs) auto

text \<open>The bytes of an address in either notation, as the functions of the code read it: \<open>ngx_inet_addr\<close>, whose answer for
  \<open>255.255.255.255\<close> is the one for an error, and \<open>ngx_inet6_addr\<close>.\<close>

definition text_addr :: "bytes \<Rightarrow> bytes option" where
  "text_addr t = (if ngx_inet_addr t \<noteq> INADDR_NONE then Some (in_addr_bytes (ngx_inet_addr t)) else ngx_inet6_addr t)"

text \<open>What the printers write is read.\<close>

lemma printed_text_addr:
  "length a4 = 4 \<Longrightarrow> a4 \<noteq> replicate 4 255 \<Longrightarrow> 15 \<le> len \<Longrightarrow> text_addr (ngx_inet_ntop a4 len) = Some a4"
  "length a6 = 16 \<Longrightarrow> a6 \<notin> set broadcast6 \<Longrightarrow> NGX_INET6_ADDRSTRLEN \<le> len \<Longrightarrow> text_addr (ngx_inet6_ntop a6 len) = Some a6"
proof -
  assume a: "length a4 = 4" "a4 \<noteq> replicate 4 255" "15 \<le> len"
  have "in_addr_bytes (ngx_inet_addr (ngx_inet_ntop a4 len)) = a4"
    using four_bytes [OF a(1)] length_dotted [of "rd a4 0" "rd a4 1" "rd a4 2" "rd a4 3"] a(3)
    by (simp add: ngx_inet_ntop_def in_addr_inet_dotted)
  moreover have "in_addr_bytes INADDR_NONE = replicate 4 255" by code_simp
  ultimately show "text_addr (ngx_inet_ntop a4 len) = Some a4" using a(2) by (auto simp: text_addr_def)
next
  assume a: "length a6 = 16" "a6 \<notin> set broadcast6" "NGX_INET6_ADDRSTRLEN \<le> len"
  obtain gs where gs: "length gs = 8" "a6 = gbytes gs" using groups_of_bytes [of a6 8] a(1) by auto
  have read: "ngx_inet6_addr (ngx_inet6_ntop a6 len) = Some a6" using inet6_groups [of gs len] gs a by simp
  have "ngx_inet_addr (ngx_inet6_ntop a6 len) = INADDR_NONE"
    unfolding ngx_inet_addr_def using inet6_colon [OF read] by (rule inet_addr_bad) (simp_all add: is_digit_def)
  then show "text_addr (ngx_inet6_ntop a6 len) = Some a6" using read by (simp add: text_addr_def)
qed

text \<open>The length of the prefix: the whole address without one.\<close>

definition prefix_len :: "bytes \<Rightarrow> bytes \<Rightarrow> int option" where
  "prefix_len net sfx = (if sfx = [] then Some (int (8 * length net)) else ngx_atoi (tl sfx))"

lemma ptocidr_by_prefix:
  assumes "SLASH \<notin> set t" and "sfx = [] \<or> hd sfx = SLASH"
  shows "ngx_ptocidr (t @ sfx) =
    (case text_addr t of None \<Rightarrow> None
     | Some net \<Rightarrow> (case prefix_len net sfx of None \<Rightarrow> None
         | Some n \<Rightarrow> if length net = 4 then ptocidr_in (ngx_inet_addr t) n else ptocidr_in6 net n))"
proof (cases sfx)
  case Nil
  then show ?thesis
    using strlchr_none [OF assms(1)] whole_in [of "ngx_inet_addr t"] whole_in6 inet6_addr_length [of t]
    by (auto simp: ngx_ptocidr_def text_addr_def prefix_len_def Let_def split: option.split)
next
  case (Cons c ds)
  then have "c = SLASH" using assms(2) by simp
  then show ?thesis
    using Cons strlchr_append [OF assms(1), of ds] inet6_addr_length [of t]
    by (auto simp: ngx_ptocidr_def text_addr_def prefix_len_def Let_def split: option.split)
qed

lemma cidr_prefix:
  assumes "SLASH \<notin> set t" and "sfx = [] \<or> hd sfx = SLASH" and "sa_ok sa"
  shows "case ngx_ptocidr (t @ sfx) of
      None \<Rightarrow> (\<forall>net n. text_addr t = Some net \<longrightarrow> prefix_len net sfx = Some n \<longrightarrow> n > int (8 * length net))
    | Some (rc, cidr) \<Rightarrow> \<exists>net n. text_addr t = Some net \<and> prefix_len net sfx = Some (int n) \<and> n \<le> 8 * length net
        \<and> (ngx_cidr_match sa [cidr] = NGX_OK \<longleftrightarrow>
             length (sa_addr sa) = length net \<and> take n (addr_bits (sa_addr sa)) = take n (addr_bits net))
        \<and> (rc = NGX_DONE \<longleftrightarrow> True \<in> set (drop n (addr_bits net)))"
proof (cases "ngx_ptocidr (t @ sfx)")
  case None
  have "n > int (8 * length net)" if "text_addr t = Some net" "prefix_len net sfx = Some n" for net n
    using None that inet6_addr_length [of t] unfolding ptocidr_by_prefix [OF assms(1,2)]
    by (auto simp: text_addr_def ptocidr_in_def ptocidr_in6_def Let_def split: if_splits prod.splits)
  then show ?thesis using None by auto
next
  case (Some r)
  obtain rc cidr where r: "r = (rc, cidr)" by fastforce
  obtain net n where net: "text_addr t = Some net" "prefix_len net sfx = Some n"
    and p: "(if length net = 4 then ptocidr_in (ngx_inet_addr t) n else ptocidr_in6 net n) = Some (rc, cidr)"
    using Some r unfolding ptocidr_by_prefix [OF assms(1,2)] by (auto split: option.splits)
  have "0 \<le> n" using net(2) atoi_nonneg by (auto simp: prefix_len_def split: if_splits)
  then obtain k where k: "n = int k" using nonneg_int_cases by blast
  have len: "length net = 4 \<and> net = in_addr_bytes (ngx_inet_addr t) \<or> length net = 16"
    using net(1) inet6_addr_length [of t] by (auto simp: text_addr_def split: if_splits)
  have c: "cidr_cut k net rc cidr \<and> (length net = 4 \<and> (\<exists>a m. cidr = Cidr_in a m) \<or> length net = 16 \<and> (\<exists>a m. cidr = Cidr_in6 a m))"
    using p len ptocidr_in_cut [of "ngx_inet_addr t" k rc cidr] ptocidr_in6_cut [of net k rc cidr] unfolding k by auto
  have "(rc = NGX_DONE) = (True \<in> set (drop k (addr_bits net)))"
    using c ptocidr6_loop_match [of k net _ _ _ net] unfolding cidr_cut_def by blast
  moreover have "(ngx_cidr_match sa [cidr] = NGX_OK) = cidr_match_one sa cidr" by (simp add: ngx_cidr_match_def)
  ultimately show ?thesis
    using Some r net k c cidr_cut_match [of k net rc cidr sa] assms(3) by (auto simp: cidr_cut_def)
qed

text \<open>C26: A network in CIDR notation, an address with or without a slash and a prefix length, is accepted exactly if the code's own
  readers read the address (\<open>ngx_inet_addr\<close> with an answer other than that for an error, otherwise \<open>ngx_inet6_addr\<close>) and
  the length is a number that \<open>ngx_atoi\<close> reads and not more than the bits of the address. The readers read every address as
  \<open>ngx_inet_ntop\<close> and \<open>ngx_inet6_ntop\<close> print it, except \<open>255.255.255.255\<close>, alone or at the end of an IPv6 address; which other
  texts they take for addresses is not said here. \<open>ngx_cidr_match\<close> then accepts exactly the socket addresses of the
  network's family, IPv4-mapped ones as IPv4, that agree with it on the bits of the prefix, and the result of \<open>ngx_ptocidr\<close> is
  \<open>NGX_DONE\<close> exactly if a bit behind the prefix was set.\<close>

theorem cidr_match_prefix:
  assumes "SLASH \<notin> set t" and "sfx = [] \<or> hd sfx = SLASH" and "sa_ok sa"
  shows "(case ngx_ptocidr (t @ sfx) of
      None \<Rightarrow> (\<forall>net n. text_addr t = Some net \<longrightarrow> prefix_len net sfx = Some n \<longrightarrow> n > int (8 * length net))
    | Some (rc, cidr) \<Rightarrow> \<exists>net n. text_addr t = Some net \<and> prefix_len net sfx = Some (int n) \<and> n \<le> 8 * length net
        \<and> (ngx_cidr_match sa [cidr] = NGX_OK \<longleftrightarrow>
             length (sa_addr sa) = length net \<and> take n (addr_bits (sa_addr sa)) = take n (addr_bits net))
        \<and> (rc = NGX_DONE \<longleftrightarrow> True \<in> set (drop n (addr_bits net))))
    \<and> (length a4 = 4 \<and> a4 \<noteq> replicate 4 255 \<and> t = ngx_inet_ntop a4 15 \<longrightarrow> text_addr t = Some a4)
    \<and> (length a6 = 16 \<and> a6 \<notin> set broadcast6 \<and> t = ngx_inet6_ntop a6 NGX_INET6_ADDRSTRLEN \<longrightarrow> text_addr t = Some a6)"
  using cidr_prefix [OF assms] printed_text_addr [of a4 15] printed_text_addr(2) [of a6 NGX_INET6_ADDRSTRLEN] by blast

theorem cidr_match_prefix_witness:
  "case ngx_ptocidr ([0x31, 0x30, DOT, 0x31, DOT, D0, DOT, D0] @ [SLASH, D9]) of
      None \<Rightarrow> False
    | Some (rc, cidr) \<Rightarrow> rc = NGX_DONE \<and> ngx_cidr_match (Sa_in 0x0100000a 80) [cidr] = NGX_OK"
proof -
  define t :: bytes where "t = [0x31, 0x30, DOT, 0x31, DOT, D0, DOT, D0]"
  have n: "text_addr t = Some [10, 1, 0, 0]" "prefix_len [10, 1, 0, 0] [SLASH, D9] = Some 9"
    "addr_bits (sa_addr (Sa_in 0x0100000a 80)) = addr_bits [10, 0, 0, 1]"
    unfolding t_def by code_simp+
  have b: "take 9 (addr_bits [10, 0, 0, 1]) = take 9 (addr_bits [10, 1, 0, 0])" "length (sa_addr (Sa_in 0x0100000a 80)) = 4"
    "True \<in> set (drop 9 (addr_bits [10, 1, 0, 0]))"
    by code_simp+
  have "SLASH \<notin> set t" "sa_ok (Sa_in 0x0100000a 80)" by (simp_all add: t_def sa_ok_def)
  from cidr_match_prefix [OF this(1) _ this(2), of "[SLASH, D9]", THEN conjunct1] n b show ?thesis
    unfolding t_def [symmetric] by (auto split: option.splits)
qed

end
