(* ===== verification/Ngx_Radix.thy ===== *)
theory Ngx_Radix
  imports Ngx_Cidr "HOL-Library.Sublist" "HOL-Library.Multiset"
begin

unbundle bit_operations_syntax

text \<open>
  Radix trees (src/core/ngx_radix_tree.c): nodes in memory with parent pointers, a free list and an allocator of
  pages. The first part is the code, the second the trie of bit strings that a memory holds, with an invariant
  that every insertion and deletion along a path keeps.
\<close>

section \<open>Nodes in memory\<close>

text \<open>A node has an address; the memory gives the node that is there. The fields of memory that was never
  written are arbitrary.\<close>

type_synonym addr = nat

definition NGX_RADIX_NO_VALUE :: "64 word" where "NGX_RADIX_NO_VALUE = - 1"

record ngx_radix_node =
  n_right :: "addr option"
  n_left :: "addr option"
  n_parent :: "addr option"
  n_value :: "64 word"

text \<open>\<open>rt_pool\<close> are the pages that \<open>ngx_pmemalign\<close> is going to return, until it fails.\<close>

record ngx_radix_tree =
  rt_mem :: "addr \<Rightarrow> ngx_radix_node"
  rt_root :: addr
  rt_free :: "addr option"
  rt_start :: addr
  rt_size :: nat
  rt_pool :: "addr list"
  rt_pagesize :: nat

definition node_size :: nat where "node_size = 32"

definition set_node :: "addr \<Rightarrow> (ngx_radix_node \<Rightarrow> ngx_radix_node) \<Rightarrow> ngx_radix_tree \<Rightarrow> ngx_radix_tree" where
  "set_node a f t = t\<lparr>rt_mem := (rt_mem t)(a := f (rt_mem t a))\<rparr>"

definition ngx_radix_alloc :: "ngx_radix_tree \<Rightarrow> (addr \<times> ngx_radix_tree) option" where
  "ngx_radix_alloc t =
     (case rt_free t of
        Some p \<Rightarrow> Some (p, t\<lparr>rt_free := n_right (rt_mem t p)\<rparr>)
      | None \<Rightarrow>
          let bump = (\<lambda>t. (rt_start t, t\<lparr>rt_start := rt_start t + node_size, rt_size := rt_size t - node_size\<rparr>)) in
          if rt_size t < node_size then
            (case rt_pool t of
               [] \<Rightarrow> None
             | page # pool \<Rightarrow> Some (bump (t\<lparr>rt_start := page, rt_size := rt_pagesize t, rt_pool := pool\<rparr>)))
          else Some (bump t))"

text \<open>What a loop of the insertion does at one bit: \<open>key & bit\<close> chooses the child.\<close>

definition child :: "bool \<Rightarrow> ngx_radix_node \<Rightarrow> addr option" where
  "child right n = (if right then n_right n else n_left n)"

definition set_child :: "bool \<Rightarrow> addr option \<Rightarrow> ngx_radix_node \<Rightarrow> ngx_radix_node" where
  "set_child right p n = (if right then n\<lparr>n_right := p\<rparr> else n\<lparr>n_left := p\<rparr>)"

definition radix_new :: "bool \<Rightarrow> addr \<Rightarrow> ngx_radix_tree \<Rightarrow> (addr \<times> ngx_radix_tree) option" where
  "radix_new right node t =
     (case ngx_radix_alloc t of
        None \<Rightarrow> None
      | Some (nx, t) \<Rightarrow>
          let t = set_node nx (\<lambda>n. n\<lparr>n_right := None, n_left := None, n_parent := Some node, n_value := NGX_RADIX_NO_VALUE\<rparr>) t
          in Some (nx, set_node node (set_child right (Some nx)) t))"

definition radix_set_value :: "addr \<Rightarrow> 64 word \<Rightarrow> ngx_radix_tree \<Rightarrow> ngx_radix_tree" where
  "radix_set_value node v t = set_node node (\<lambda>n. n\<lparr>n_value := v\<rparr>) t"

section \<open>IPv4\<close>

function radix32_walk :: "(addr \<Rightarrow> ngx_radix_node) \<Rightarrow> 32 word \<Rightarrow> 32 word \<Rightarrow> 32 word \<Rightarrow> addr \<Rightarrow> 32 word \<times> addr \<times> addr option" where
  "radix32_walk h key m b node =
     (if b AND m \<noteq> 0 then
        (case child (key AND b \<noteq> 0) (h node) of
           None \<Rightarrow> (b, node, None)
         | Some nx \<Rightarrow> radix32_walk h key m (drop_bit 1 b) nx)
      else (b, node, Some node))"
  by auto

function radix32_grow :: "32 word \<Rightarrow> 32 word \<Rightarrow> 32 word \<Rightarrow> addr \<Rightarrow> ngx_radix_tree \<Rightarrow> addr option \<times> ngx_radix_tree" where
  "radix32_grow key m b node t =
     (if b AND m \<noteq> 0 then
        (case radix_new (key AND b \<noteq> 0) node t of
           None \<Rightarrow> (None, t)
         | Some (nx, t) \<Rightarrow> radix32_grow key m (drop_bit 1 b) nx t)
      else (Some node, t))"
  by auto

definition ngx_radix32tree_insert :: "32 word \<Rightarrow> 32 word \<Rightarrow> 64 word \<Rightarrow> ngx_radix_tree \<Rightarrow> ngx_rc \<times> ngx_radix_tree" where
  "ngx_radix32tree_insert key m v t =
     (case radix32_walk (rt_mem t) key m 0x80000000 (rt_root t) of
        (b, node, Some nx) \<Rightarrow>
          if n_value (rt_mem t node) \<noteq> NGX_RADIX_NO_VALUE then (NGX_BUSY, t)
          else (NGX_OK, radix_set_value node v t)
      | (b, node, None) \<Rightarrow>
          (case radix32_grow key m b node t of
             (None, t) \<Rightarrow> (NGX_ERROR, t)
           | (Some node, t) \<Rightarrow> (NGX_OK, radix_set_value node v t)))"

lemma halve_less: "(b :: 'a::len word) AND m \<noteq> 0 \<Longrightarrow> unat (drop_bit (Suc 0) b) < unat b"
proof -
  assume "b AND m \<noteq> 0"
  then have "b \<noteq> 0" by auto
  then have "unat b \<noteq> 0" by (simp add: unat_eq_0)
  moreover have "unat (drop_bit (Suc 0) b) = unat b div 2"
    using drop_bit_eq_div [of "Suc 0" "unat b"] unat_drop_bit_eq [of "Suc 0" b] by simp
  ultimately show ?thesis by simp
qed

termination radix32_walk
  by (relation "measure (\<lambda>(h, key, m, b, node). unat b)") (simp_all add: halve_less)

termination radix32_grow
  by (relation "measure (\<lambda>(key, m, b, node, t). unat b)") (simp_all add: halve_less)

declare radix32_walk.simps [simp del] radix32_grow.simps [simp del]

text \<open>The first loop of the deletion.\<close>

function radix32_down :: "(addr \<Rightarrow> ngx_radix_node) \<Rightarrow> 32 word \<Rightarrow> 32 word \<Rightarrow> 32 word \<Rightarrow> addr option \<Rightarrow> addr option" where
  "radix32_down h key m b node =
     (case node of
        None \<Rightarrow> None
      | Some a \<Rightarrow> if b AND m \<noteq> 0 then radix32_down h key m (drop_bit 1 b) (child (key AND b \<noteq> 0) (h a)) else Some a)"
  by auto

termination radix32_down
  by (relation "measure (\<lambda>(h, key, m, b, node). unat b)") (simp_all add: halve_less)

declare radix32_down.simps [simp del]

text \<open>The second loop of the deletion: the node, which has no children, is unlinked from its parent and put on
  the free list, and so is the parent if it is of no use any more, and so on. \<open>None\<close> is a loop without
  end, \<open>Some None\<close> a null pointer that is dereferenced.\<close>

partial_function (option) radix_prune :: "addr \<Rightarrow> ngx_radix_tree \<Rightarrow> ngx_radix_tree option option" where
  "radix_prune node t =
     (case n_parent (rt_mem t node) of
        None \<Rightarrow> Some None
      | Some q \<Rightarrow>
          let t = (if n_right (rt_mem t q) = Some node then set_node q (\<lambda>n. n\<lparr>n_right := None\<rparr>) t
                   else set_node q (\<lambda>n. n\<lparr>n_left := None\<rparr>) t);
              t = (set_node node (\<lambda>n. n\<lparr>n_right := rt_free t\<rparr>) t)\<lparr>rt_free := Some node\<rparr>;
              n = rt_mem t q
          in if n_right n \<noteq> None \<or> n_left n \<noteq> None then Some (Some t)
             else if n_value n \<noteq> NGX_RADIX_NO_VALUE then Some (Some t)
             else if n_parent n = None then Some (Some t)
             else radix_prune q t)"

definition radix_remove :: "addr option \<Rightarrow> ngx_radix_tree \<Rightarrow> (ngx_rc \<times> ngx_radix_tree) option option" where
  "radix_remove node t =
     (case node of
        None \<Rightarrow> Some (Some (NGX_ERROR, t))
      | Some a \<Rightarrow>
          let n = rt_mem t a in
          if n_right n \<noteq> None \<or> n_left n \<noteq> None then
            (if n_value n \<noteq> NGX_RADIX_NO_VALUE then Some (Some (NGX_OK, radix_set_value a NGX_RADIX_NO_VALUE t))
             else Some (Some (NGX_ERROR, t)))
          else map_option (map_option (\<lambda>t. (NGX_OK, t))) (radix_prune a t))"

definition ngx_radix32tree_delete :: "32 word \<Rightarrow> 32 word \<Rightarrow> ngx_radix_tree \<Rightarrow> (ngx_rc \<times> ngx_radix_tree) option option" where
  "ngx_radix32tree_delete key m t = radix_remove (radix32_down (rt_mem t) key m 0x80000000 (Some (rt_root t))) t"

partial_function (option) radix32_find_loop :: "(addr \<Rightarrow> ngx_radix_node) \<Rightarrow> 32 word \<Rightarrow> 32 word \<Rightarrow> addr option \<Rightarrow> 64 word \<Rightarrow> 64 word option" where
  "radix32_find_loop h key b node v =
     (case node of
        None \<Rightarrow> Some v
      | Some a \<Rightarrow>
          radix32_find_loop h key (drop_bit 1 b) (child (key AND b \<noteq> 0) (h a))
            (if n_value (h a) \<noteq> NGX_RADIX_NO_VALUE then n_value (h a) else v))"

definition ngx_radix32tree_find :: "32 word \<Rightarrow> ngx_radix_tree \<Rightarrow> 64 word option" where
  "ngx_radix32tree_find key t = radix32_find_loop (rt_mem t) key 0x80000000 (Some (rt_root t)) NGX_RADIX_NO_VALUE"

section \<open>IPv6\<close>

text \<open>The loops over a key of 16 bytes stop behind the last bit.\<close>

function radix128_walk :: "(addr \<Rightarrow> ngx_radix_node) \<Rightarrow> bytes \<Rightarrow> bytes \<Rightarrow> nat \<Rightarrow> u_char \<Rightarrow> addr \<Rightarrow> (nat \<times> u_char) \<times> addr \<times> addr option" where
  "radix128_walk h key m i b node =
     (if b AND rd m i \<noteq> 0 then
        (case child (rd key i AND b \<noteq> 0) (h node) of
           None \<Rightarrow> ((i, b), node, None)
         | Some nx \<Rightarrow>
             if drop_bit 1 b \<noteq> 0 then radix128_walk h key m i (drop_bit 1 b) nx
             else if i + 1 = 16 then ((i + 1, 0), nx, Some nx)
             else radix128_walk h key m (i + 1) 0x80 nx)
      else ((i, b), node, Some node))"
  by auto

function radix128_grow :: "bytes \<Rightarrow> bytes \<Rightarrow> nat \<Rightarrow> u_char \<Rightarrow> addr \<Rightarrow> ngx_radix_tree \<Rightarrow> addr option \<times> ngx_radix_tree" where
  "radix128_grow key m i b node t =
     (if b AND rd m i \<noteq> 0 then
        (case radix_new (rd key i AND b \<noteq> 0) node t of
           None \<Rightarrow> (None, t)
         | Some (nx, t) \<Rightarrow>
             if drop_bit 1 b \<noteq> 0 then radix128_grow key m i (drop_bit 1 b) nx t
             else if i + 1 = 16 then (Some nx, t)
             else radix128_grow key m (i + 1) 0x80 nx t)
      else (Some node, t))"
  by auto

function radix128_down :: "(addr \<Rightarrow> ngx_radix_node) \<Rightarrow> bytes \<Rightarrow> bytes \<Rightarrow> nat \<Rightarrow> u_char \<Rightarrow> addr option \<Rightarrow> addr option" where
  "radix128_down h key m i b node =
     (case node of
        None \<Rightarrow> None
      | Some a \<Rightarrow>
          if b AND rd m i \<noteq> 0 then
            (let nx = child (rd key i AND b \<noteq> 0) (h a) in
             if drop_bit 1 b \<noteq> 0 then radix128_down h key m i (drop_bit 1 b) nx
             else if i + 1 = 16 then nx
             else radix128_down h key m (i + 1) 0x80 nx)
          else Some a)"
  by auto

lemma rd_in_range: "b AND rd m i \<noteq> 0 \<Longrightarrow> i < length m" for b :: u_char
  by (cases "i < length m") (auto simp: rd_def)

lemma next_bit_less:
  fixes b :: u_char
  assumes "b AND rd m i \<noteq> 0"
  shows "(length m - i) * 256 + unat (drop_bit (Suc 0) b) < (length m - i) * 256 + unat b"
    and "(length m - Suc i) * 256 + unat (0x80 :: u_char) < (length m - i) * 256 + unat b"
proof -
  show "(length m - i) * 256 + unat (drop_bit (Suc 0) b) < (length m - i) * 256 + unat b" using halve_less [OF assms] by simp
  have "length m - i = Suc (length m - Suc i)" using rd_in_range [OF assms] by simp
  then show "(length m - Suc i) * 256 + unat (0x80 :: u_char) < (length m - i) * 256 + unat b" by simp
qed

termination radix128_walk
  by (relation "measure (\<lambda>(h, key, m, i, b, node). (length m - i) * 256 + unat b)") (use next_bit_less in auto)

termination radix128_grow
  by (relation "measure (\<lambda>(key, m, i, b, node, t). (length m - i) * 256 + unat b)") (use next_bit_less in auto)

termination radix128_down
  by (relation "measure (\<lambda>(h, key, m, i, b, node). (length m - i) * 256 + unat b)") (use next_bit_less in auto)

declare radix128_walk.simps [simp del] radix128_grow.simps [simp del] radix128_down.simps [simp del]

definition ngx_radix128tree_insert :: "bytes \<Rightarrow> bytes \<Rightarrow> 64 word \<Rightarrow> ngx_radix_tree \<Rightarrow> ngx_rc \<times> ngx_radix_tree" where
  "ngx_radix128tree_insert key m v t =
     (case radix128_walk (rt_mem t) key m 0 0x80 (rt_root t) of
        (ib, node, Some nx) \<Rightarrow>
          if n_value (rt_mem t node) \<noteq> NGX_RADIX_NO_VALUE then (NGX_BUSY, t)
          else (NGX_OK, radix_set_value node v t)
      | ((i, b), node, None) \<Rightarrow>
          (case radix128_grow key m i b node t of
             (None, t) \<Rightarrow> (NGX_ERROR, t)
           | (Some node, t) \<Rightarrow> (NGX_OK, radix_set_value node v t)))"

definition ngx_radix128tree_delete :: "bytes \<Rightarrow> bytes \<Rightarrow> ngx_radix_tree \<Rightarrow> (ngx_rc \<times> ngx_radix_tree) option option" where
  "ngx_radix128tree_delete key m t = radix_remove (radix128_down (rt_mem t) key m 0 0x80 (Some (rt_root t))) t"

text \<open>The search does not look at the length of the key.\<close>

partial_function (option) radix128_find_loop :: "(addr \<Rightarrow> ngx_radix_node) \<Rightarrow> bytes \<Rightarrow> nat \<Rightarrow> u_char \<Rightarrow> addr option \<Rightarrow> 64 word \<Rightarrow> 64 word option" where
  "radix128_find_loop h key i b node v =
     (case node of
        None \<Rightarrow> Some v
      | Some a \<Rightarrow>
          let v = (if n_value (h a) \<noteq> NGX_RADIX_NO_VALUE then n_value (h a) else v);
              nx = child (rd key i AND b \<noteq> 0) (h a)
          in if drop_bit 1 b = 0 then radix128_find_loop h key (i + 1) 0x80 nx v
             else radix128_find_loop h key i (drop_bit 1 b) nx v)"

definition ngx_radix128tree_find :: "bytes \<Rightarrow> ngx_radix_tree \<Rightarrow> 64 word option" where
  "ngx_radix128tree_find key t = radix128_find_loop (rt_mem t) key 0 0x80 (Some (rt_root t)) NGX_RADIX_NO_VALUE"

section \<open>Creation\<close>

partial_function (option) radix_prealloc_keys :: "32 word \<Rightarrow> 32 word \<Rightarrow> 32 word \<Rightarrow> ngx_radix_tree \<Rightarrow> ngx_radix_tree option option" where
  "radix_prealloc_keys inc m key t =
     (case ngx_radix32tree_insert key m NGX_RADIX_NO_VALUE t of
        (rc, t) \<Rightarrow>
          if rc \<noteq> NGX_OK then Some None
          else if key + inc \<noteq> 0 then radix_prealloc_keys inc m (key + inc) t
          else Some (Some t))"

primrec radix_prealloc :: "nat \<Rightarrow> 32 word \<Rightarrow> 32 word \<Rightarrow> ngx_radix_tree \<Rightarrow> ngx_radix_tree option option" where
  "radix_prealloc 0 m inc t = Some (Some t)"
| "radix_prealloc (Suc n) m inc t =
     (let m = drop_bit 1 m OR 0x80000000 in
      case radix_prealloc_keys inc m 0 t of
        None \<Rightarrow> None
      | Some None \<Rightarrow> Some None
      | Some (Some t) \<Rightarrow> radix_prealloc n m (drop_bit 1 inc) t)"

text \<open>The levels that are allocated in advance; \<open>None\<close> stands for -1, the level that fits into a page.
  The result is \<open>Some None\<close> when memory is out.\<close>

definition ngx_radix_tree_create :: "(addr \<Rightarrow> ngx_radix_node) \<Rightarrow> addr list \<Rightarrow> nat \<Rightarrow> nat option \<Rightarrow> ngx_radix_tree option option" where
  "ngx_radix_tree_create mem pool pagesize preallocate =
     (case ngx_radix_alloc
        \<lparr>rt_mem = mem, rt_root = 0, rt_free = None, rt_start = 0, rt_size = 0, rt_pool = pool, rt_pagesize = pagesize\<rparr> of
        None \<Rightarrow> Some None
      | Some (root, t) \<Rightarrow>
          let t = set_node root (\<lambda>n. n\<lparr>n_right := None, n_left := None, n_parent := None, n_value := NGX_RADIX_NO_VALUE\<rparr>) (t\<lparr>rt_root := root\<rparr>);
              levels = (case preallocate of
                          Some n \<Rightarrow> n
                        | None \<Rightarrow> if pagesize div node_size = 128 then 6 else if pagesize div node_size = 256 then 7 else 8)
          in radix_prealloc levels 0 0x80000000 t)"

section \<open>The trie a memory holds\<close>

text \<open>A tree of nodes with their addresses, and the map from paths to values that it stands for.\<close>

datatype rtrie = Tip | Nd addr rtrie "64 word" rtrie

fun addrs :: "rtrie \<Rightarrow> addr list" where
  "addrs Tip = []"
| "addrs (Nd a l v r) = a # addrs l @ addrs r"

fun sub :: "rtrie \<Rightarrow> bool list \<Rightarrow> rtrie" where
  "sub T [] = T"
| "sub Tip (d # p) = Tip"
| "sub (Nd a l v r) (d # p) = sub (if d then r else l) p"

fun put :: "rtrie \<Rightarrow> bool list \<Rightarrow> rtrie \<Rightarrow> rtrie" where
  "put T [] S = S"
| "put Tip (d # p) S = Tip"
| "put (Nd a l v r) (d # p) S = (if d then Nd a l v (put r p S) else Nd a (put l p S) v r)"

definition top_value :: "rtrie \<Rightarrow> 64 word option" where
  "top_value T = (case T of Tip \<Rightarrow> None | Nd a l v r \<Rightarrow> if v = NGX_RADIX_NO_VALUE then None else Some v)"

definition look :: "rtrie \<Rightarrow> bool list \<rightharpoonup> 64 word" where
  "look T p = top_value (sub T p)"

fun shape :: "(addr \<Rightarrow> ngx_radix_node) \<Rightarrow> addr option \<Rightarrow> addr option \<Rightarrow> rtrie \<Rightarrow> bool" where
  "shape h par p Tip \<longleftrightarrow> p = None"
| "shape h par p (Nd a l v r) \<longleftrightarrow> p = Some a \<and> n_parent (h a) = par \<and> n_value (h a) = v
     \<and> shape h (Some a) (n_left (h a)) l \<and> shape h (Some a) (n_right (h a)) r"

fun free_list :: "(addr \<Rightarrow> ngx_radix_node) \<Rightarrow> addr option \<Rightarrow> addr list \<Rightarrow> bool" where
  "free_list h p [] \<longleftrightarrow> p = None"
| "free_list h p (a # fl) \<longleftrightarrow> p = Some a \<and> free_list h (n_right (h a)) fl"

lemma sub_Tip [simp]: "sub Tip p = Tip"
  by (cases p) auto

lemma sub_append: "sub T (p @ q) = sub (sub T p) q"
  by (induction T p rule: sub.induct) auto

lemma put_append: "put T (p @ q) S = put T p (put (sub T p) q S)"
  by (induction T p S rule: put.induct) auto

lemma put_sub [simp]: "put T p (sub T p) = T"
  by (induction T p rule: sub.induct) auto

lemma sub_put [simp]: "sub T p \<noteq> Tip \<Longrightarrow> sub (put T p S) p = S"
  by (induction T p rule: sub.induct) auto

lemma put_put [simp]: "put (put T p S) p S' = put T p S'"
  by (induction T p S rule: put.induct) auto

lemma sub_put_other:
  assumes "sub T p \<noteq> Tip" and "S \<noteq> Tip"
  shows "prefix p q \<Longrightarrow> sub (put T p S) q = sub S (drop (length p) q)"
    and "\<not> prefix p q \<Longrightarrow> top_value (sub (put T p S) q) = top_value (sub T q) \<and> (sub (put T p S) q = Tip) = (sub T q = Tip)"
proof -
  show "prefix p q \<Longrightarrow> sub (put T p S) q = sub S (drop (length p) q)"
    using assms by (auto simp: prefix_def sub_append)
  show "\<not> prefix p q \<Longrightarrow> top_value (sub (put T p S) q) = top_value (sub T q) \<and> (sub (put T p S) q = Tip) = (sub T q = Tip)"
    using assms
  proof (induction T p S arbitrary: q rule: put.induct)
    case (3 a l v r d p S)
    then show ?case by (cases q; cases d) (auto simp: top_value_def)
  qed auto
qed

lemma look_put:
  assumes "sub T p \<noteq> Tip" and "S \<noteq> Tip"
  shows "look (put T p S) q = (if prefix p q then look S (drop (length p) q) else look T q)"
  using sub_put_other [OF assms, of q] by (simp add: look_def)

lemma mset_addrs_put:
  "sub T p \<noteq> Tip \<Longrightarrow> mset (addrs (put T p S)) + mset (addrs (sub T p)) = mset (addrs T) + mset (addrs S)"
proof (induction T p S rule: put.induct)
  case (3 a l v r d p S)
  then show ?case by (cases d) (auto simp: ac_simps)
qed auto

lemma addrs_sub: "set (addrs (sub T p)) \<subseteq> set (addrs T)"
proof (induction T p rule: sub.induct)
  case (3 a l v r d p)
  then show ?case by (cases d) auto
qed auto

lemma shape_frame: "shape h par p T \<Longrightarrow> (\<And>a. a \<in> set (addrs T) \<Longrightarrow> h' a = h a) \<Longrightarrow> shape h' par p T"
  by (induction T arbitrary: par p) auto

lemma free_list_frame: "free_list h p fl \<Longrightarrow> (\<And>a. a \<in> set fl \<Longrightarrow> h' a = h a) \<Longrightarrow> free_list h' p fl"
  by (induction fl arbitrary: p) auto

lemma shape_sub: "shape h par p T \<Longrightarrow> sub T q = Nd a l v r \<Longrightarrow> shape h (n_parent (h a)) (Some a) (Nd a l v r)"
proof (induction T q arbitrary: par p rule: sub.induct)
  case (3 b l' w r' d q)
  then show ?case by (cases d) auto
qed auto

text \<open>The parent of a node is the node above it.\<close>

lemma shape_parent:
  assumes "shape h par p T" and "sub T q = Nd a l v r" and "q \<noteq> []"
  shows "\<exists>b l' w r'. sub T (butlast q) = Nd b l' w r' \<and> n_parent (h a) = Some b \<and> (if last q then r' else l') = Nd a l v r"
  using assms
proof (induction T q arbitrary: par p rule: sub.induct)
  case (3 b l' w r' d q)
  show ?case
  proof (cases "q = []")
    case True
    then show ?thesis using 3 by (cases d) auto
  next
    case False
    moreover have "shape h (Some b) (if d then n_right (h b) else n_left (h b)) (if d then r' else l')" using 3(2) by auto
    ultimately show ?thesis using 3(1) [of "Some b"] 3(3) by (cases d) auto
  qed
qed auto

text \<open>A subtree is replaced by one with the same address at its top; nothing else changes.\<close>

lemma shape_put:
  assumes "shape h par p T" and "distinct (addrs T)" and "sub T q = Nd a l v r"
    and "\<And>x. x \<in> set (addrs T) \<Longrightarrow> x \<notin> set (addrs (Nd a l v r)) \<Longrightarrow> h' x = h x"
    and "shape h' (n_parent (h a)) (Some a) (Nd a l' v' r')"
  shows "shape h' par p (put T q (Nd a l' v' r'))"
  using assms(1-4)
proof (induction T q arbitrary: par p rule: sub.induct)
  case (1 T)
  then show ?case using assms(5) by auto
next
  case (3 b lb w rb d q)
  define C where "C = (if d then rb else lb)"
  define N where "N = (if d then lb else rb)"
  have cin: "set (addrs (Nd a l v r)) \<subseteq> set (addrs C)" using addrs_sub [of C q] 3(4) by (simp add: C_def)
  have dis: "set (addrs C) \<inter> set (addrs N) = {}" "b \<notin> set (addrs C)" using 3(3) by (auto simp: C_def N_def)
  have "h' b = h b" using 3(5) [of b] dis cin by auto
  moreover have "h' x = h x" if "x \<in> set (addrs N)" for x
    using 3(5) [of x] dis cin that by (auto simp: N_def split: if_splits)
  moreover have "shape h (Some b) (child (\<not> d) (h b)) N" using 3(2) by (simp add: N_def child_def)
  ultimately have "h' b = h b" "shape h' (Some b) (child (\<not> d) (h b)) N"
    using shape_frame [of h "Some b" "child (\<not> d) (h b)" N h'] by blast+
  moreover have "shape h' (Some b) (child d (h b)) (put C q (Nd a l' v' r'))"
  proof (unfold C_def, rule 3(1))
    show "shape h (Some b) (child d (h b)) (if d then rb else lb)" using 3(2) by (simp add: child_def)
    show "distinct (addrs (if d then rb else lb))" using 3(3) by simp
    show "sub (if d then rb else lb) q = Nd a l v r" using 3(4) by simp
    show "h' x = h x" if "x \<in> set (addrs (if d then rb else lb))" "x \<notin> set (addrs (Nd a l v r))" for x
      using 3(5) [of x] that by (cases d) auto
  qed
  ultimately show ?case using 3(2) by (cases d) (auto simp: C_def N_def child_def)
qed auto

section \<open>The invariant\<close>

text \<open>The nodes that the allocator still has, besides the free list.\<close>

definition page_nodes :: "addr \<Rightarrow> nat \<Rightarrow> addr list" where
  "page_nodes s n = map (\<lambda>k. s + k * node_size) [0..<n div node_size]"

definition avail :: "ngx_radix_tree \<Rightarrow> addr list" where
  "avail t = page_nodes (rt_start t) (rt_size t) @ concat (map (\<lambda>page. page_nodes page (rt_pagesize t)) (rt_pool t))"

definition radix_repr :: "ngx_radix_tree \<Rightarrow> rtrie \<Rightarrow> addr list \<Rightarrow> bool" where
  "radix_repr t T fl \<longleftrightarrow> shape (rt_mem t) None (Some (rt_root t)) T \<and> free_list (rt_mem t) (rt_free t) fl
     \<and> distinct (addrs T @ fl @ avail t) \<and> node_size \<le> rt_pagesize t"

lemma page_nodes_step: "node_size \<le> n \<Longrightarrow> page_nodes s n = s # page_nodes (s + node_size) (n - node_size)"
proof -
  assume "node_size \<le> n"
  then have "n div node_size = Suc ((n - node_size) div node_size)" by (simp add: node_size_def le_div_geq)
  then show ?thesis unfolding page_nodes_def by (simp only: upt_conv_Cons [of 0 "Suc _"] map_Suc_upt [symmetric] map_map) (simp add: o_def)
qed

lemma page_nodes_small [simp]: "n < node_size \<Longrightarrow> page_nodes s n = []"
  by (simp add: page_nodes_def)

lemma alloc_none: "node_size \<le> rt_pagesize t \<Longrightarrow> free_list (rt_mem t) (rt_free t) fl \<Longrightarrow> ngx_radix_alloc t = None \<Longrightarrow> fl = [] \<and> avail t = []"
  by (cases fl) (auto simp: ngx_radix_alloc_def avail_def Let_def split: if_splits list.splits)

lemma alloc_some:
  assumes "ngx_radix_alloc t = Some (p, t')" and "free_list (rt_mem t) (rt_free t) fl" and "node_size \<le> rt_pagesize t"
  shows "rt_mem t' = rt_mem t \<and> rt_root t' = rt_root t \<and> rt_pagesize t' = rt_pagesize t
    \<and> (\<exists>fl'. free_list (rt_mem t) (rt_free t') fl' \<and> fl @ avail t = p # fl' @ avail t')"
proof (cases fl)
  case Nil
  then show ?thesis
    using assms by (auto simp: ngx_radix_alloc_def avail_def Let_def page_nodes_step not_less split: if_splits list.splits)
next
  case (Cons a fl')
  then show ?thesis using assms by (auto simp: ngx_radix_alloc_def avail_def)
qed

lemma set_node_sel [simp]:
  "rt_mem (set_node a f t) = (rt_mem t)(a := f (rt_mem t a))" "rt_root (set_node a f t) = rt_root t"
  "rt_free (set_node a f t) = rt_free t" "rt_pagesize (set_node a f t) = rt_pagesize t" "avail (set_node a f t) = avail t"
  by (simp_all add: set_node_def avail_def)

lemma mset_swap:
  assumes "P + N = T + N'" and "N' + F' + A' = N + F + (A :: 'a multiset)"
  shows "P + (F' + A') = T + (F + A)"
proof -
  have "P + (F' + A') + N = (P + N) + (F' + A')" by (simp add: ac_simps)
  also have "\<dots> = T + (N' + F' + A')" unfolding assms(1) by (simp add: ac_simps)
  also have "\<dots> = T + (F + A) + N" unfolding assms(2) by (simp add: ac_simps)
  finally show ?thesis by simp
qed

text \<open>Replacing the subtree below a node, in memory and in the trie.\<close>

lemma repr_put:
  assumes "radix_repr t T fl" and "sub T q = Nd a l v r"
    and "rt_root t' = rt_root t" and "node_size \<le> rt_pagesize t'"
    and "shape (rt_mem t') (n_parent (rt_mem t a)) (Some a) (Nd a l' v' r')"
    and "\<And>x. x \<in> set (addrs T) \<Longrightarrow> x \<notin> set (addrs (Nd a l v r)) \<Longrightarrow> rt_mem t' x = rt_mem t x"
    and "free_list (rt_mem t') (rt_free t') fl'"
    and "mset (addrs (Nd a l' v' r')) + mset fl' + mset (avail t') = mset (addrs (Nd a l v r)) + mset fl + mset (avail t)"
  shows "radix_repr t' (put T q (Nd a l' v' r')) fl'"
proof -
  have d: "distinct (addrs T @ fl @ avail t)" and s: "shape (rt_mem t) None (Some (rt_root t)) T"
    using assms(1) by (simp_all add: radix_repr_def)
  have "mset (addrs (put T q (Nd a l' v' r'))) + mset (addrs (Nd a l v r)) = mset (addrs T) + mset (addrs (Nd a l' v' r'))"
    using mset_addrs_put [of T q "Nd a l' v' r'"] assms(2) by simp
  from mset_swap [OF this assms(8)]
  have "mset (addrs (put T q (Nd a l' v' r')) @ fl' @ avail t') = mset (addrs T @ fl @ avail t)" by (simp only: mset_append)
  then have "distinct (addrs (put T q (Nd a l' v' r')) @ fl' @ avail t')" using d mset_eq_imp_distinct_iff by blast
  moreover have "shape (rt_mem t') None (Some (rt_root t)) (put T q (Nd a l' v' r'))"
    using d by (intro shape_put [OF s _ assms(2) _ assms(5)] assms(6)) auto
  ultimately show ?thesis using assms(3,4,7) by (simp add: radix_repr_def)
qed

lemma distinct_sub: "distinct (addrs T) \<Longrightarrow> distinct (addrs (sub T p))"
proof (induction T p rule: sub.induct)
  case (3 a l v r d p)
  then show ?case by (cases d) auto
qed auto

lemma repr_distinct:
  assumes "radix_repr t T fl" and "sub T q = Nd a l v r"
  shows "distinct (a # addrs l @ addrs r)" "set (a # addrs l @ addrs r) \<inter> (set fl \<union> set (avail t)) = {}"
    "set fl \<inter> set (avail t) = {}" "distinct fl" "shape (rt_mem t) (n_parent (rt_mem t a)) (Some a) (Nd a l v r)"
  using addrs_sub [of T q] distinct_sub [of T q] shape_sub [OF _ assms(2)] assms by (auto simp: radix_repr_def)

lemma shape_frame2:
  "shape h par p T \<Longrightarrow> (\<And>x. x \<noteq> a \<Longrightarrow> x \<noteq> b \<Longrightarrow> h' x = h x) \<Longrightarrow> a \<notin> set (addrs T) \<Longrightarrow> b \<notin> set (addrs T) \<Longrightarrow> shape h' par p T"
  by (metis shape_frame)

lemma free_list_frame2:
  "free_list h p fl \<Longrightarrow> (\<And>x. x \<noteq> a \<Longrightarrow> x \<noteq> b \<Longrightarrow> h' x = h x) \<Longrightarrow> a \<notin> set fl \<Longrightarrow> b \<notin> set fl \<Longrightarrow> free_list h' p fl"
  by (metis free_list_frame)

lemma repr_set_value:
  assumes "radix_repr t T fl" and "sub T q = Nd a l v r"
  shows "radix_repr (radix_set_value a w t) (put T q (Nd a l w r)) fl"
proof (rule repr_put [OF assms])
  note d = repr_distinct [OF assms]
  have h: "rt_mem (radix_set_value a w t) x = rt_mem t x" if "x \<noteq> a" for x using that by (simp add: radix_set_value_def)
  have "shape (rt_mem (radix_set_value a w t)) (Some a) (n_left (rt_mem t a)) l"
    "shape (rt_mem (radix_set_value a w t)) (Some a) (n_right (rt_mem t a)) r"
    using d(1,5) by (auto intro!: shape_frame2 [of "rt_mem t", OF _ h, where b = a])
  then show "shape (rt_mem (radix_set_value a w t)) (n_parent (rt_mem t a)) (Some a) (Nd a l w r)"
    using d(5) by (simp add: radix_set_value_def)
  show "free_list (rt_mem (radix_set_value a w t)) (rt_free (radix_set_value a w t)) fl"
    using assms(1) d(2) by (auto simp: radix_repr_def radix_set_value_def intro: free_list_frame2 [of "rt_mem t", where b = a])
qed (use assms in \<open>auto simp: radix_set_value_def radix_repr_def\<close>)

text \<open>A new leaf below a node.\<close>

definition link :: "bool \<Rightarrow> rtrie \<Rightarrow> rtrie \<Rightarrow> rtrie" where
  "link d T S = (case T of Tip \<Rightarrow> Tip | Nd a l v r \<Rightarrow> if d then Nd a l v S else Nd a S v r)"

definition leaf :: "addr \<Rightarrow> rtrie" where
  "leaf a = Nd a Tip NGX_RADIX_NO_VALUE Tip"

lemma repr_new:
  assumes "radix_repr t T fl" and "sub T q = Nd a l v r" and "(if d then r else l) = Tip" and "radix_new d a t = Some (nx, t')"
  shows "\<exists>fl'. radix_repr t' (put T q (link d (Nd a l v r) (leaf nx))) fl'"
proof -
  obtain u where u: "ngx_radix_alloc t = Some (nx, u)"
    and t': "t' = set_node a (set_child d (Some nx)) (set_node nx (\<lambda>n. n\<lparr>n_right := None, n_left := None, n_parent := Some a, n_value := NGX_RADIX_NO_VALUE\<rparr>) u)"
    using assms(4) by (auto simp: radix_new_def Let_def split: option.splits)
  have fl: "free_list (rt_mem t) (rt_free t) fl" "node_size \<le> rt_pagesize t" using assms(1) by (simp_all add: radix_repr_def)
  obtain fl' where al: "rt_mem u = rt_mem t" "rt_root u = rt_root t" "rt_pagesize u = rt_pagesize t"
    "free_list (rt_mem t) (rt_free u) fl'" "fl @ avail t = nx # fl' @ avail u"
    using alloc_some [OF u fl] by auto
  have sub_fl: "set fl' \<subseteq> set (fl @ avail t)" "nx \<in> set (fl @ avail t)" "nx \<notin> set fl'"
    using assms(1) al(5) by (auto simp: radix_repr_def)
  note d = repr_distinct [OF assms(1,2)]
  have ne: "nx \<noteq> a" "nx \<notin> set (addrs l)" "nx \<notin> set (addrs r)" "a \<notin> set fl'" using d(2) sub_fl by auto
  have h: "rt_mem t' x = rt_mem t x" if "x \<noteq> a" "x \<noteq> nx" for x using that by (simp add: t' al)
  have "shape (rt_mem t') (Some a) (n_left (rt_mem t a)) l" "shape (rt_mem t') (Some a) (n_right (rt_mem t a)) r"
    using d(1,5) ne by (auto intro!: shape_frame2 [of "rt_mem t", OF _ h])
  then have sh: "shape (rt_mem t') (n_parent (rt_mem t a)) (Some a) (link d (Nd a l v r) (leaf nx))"
    using d(5) ne assms(3) by (cases d) (auto simp: t' al link_def leaf_def set_child_def)
  have fr: "free_list (rt_mem t') (rt_free t') fl'"
  proof -
    have "rt_free t' = rt_free u" by (simp add: t')
    then show ?thesis using free_list_frame2 [OF al(4) h ne(4) sub_fl(3)] by simp
  qed
  have root: "rt_root t' = rt_root t" "node_size \<le> rt_pagesize t'" using fl(2) by (simp_all add: t' al)
  have frame: "rt_mem t' x = rt_mem t x" if "x \<in> set (addrs T)" "x \<notin> set (addrs (Nd a l v r))" for x
    using that h [of x] sub_fl(2) assms(1) by (auto simp: radix_repr_def)
  have "mset fl + mset (avail t) = add_mset nx (mset fl' + mset (avail t'))"
    using arg_cong [OF al(5), of mset] by (simp add: t')
  then have ms: "mset (addrs (link d (Nd a l v r) (leaf nx))) + mset fl' + mset (avail t') = mset (addrs (Nd a l v r)) + mset fl + mset (avail t)"
    using assms(3) by (cases d) (simp_all add: link_def leaf_def add.assoc)
  show ?thesis
  proof (cases d)
    case True
    with repr_put [OF assms(1,2) root sh [unfolded link_def, simplified True rtrie.case if_True] frame fr] ms show ?thesis
      by (auto simp: link_def)
  next
    case False
    with repr_put [OF assms(1,2) root sh [unfolded link_def, simplified False rtrie.case if_False] frame fr] ms show ?thesis
      by (auto simp: link_def)
  qed
qed

section \<open>Insertion along a path\<close>

text \<open>The loops of the insertion for any width of the key, over the bits of the key under the mask.\<close>

fun path_walk :: "(addr \<Rightarrow> ngx_radix_node) \<Rightarrow> bool list \<Rightarrow> addr \<Rightarrow> addr \<times> bool list" where
  "path_walk h [] node = (node, [])"
| "path_walk h (d # p) node = (case child d (h node) of None \<Rightarrow> (node, d # p) | Some nx \<Rightarrow> path_walk h p nx)"

fun path_grow :: "bool list \<Rightarrow> addr \<Rightarrow> ngx_radix_tree \<Rightarrow> addr option \<times> ngx_radix_tree" where
  "path_grow [] node t = (Some node, t)"
| "path_grow (d # p) node t =
     (case radix_new d node t of None \<Rightarrow> (None, t) | Some (nx, t) \<Rightarrow> path_grow p nx t)"

definition path_insert :: "bool list \<Rightarrow> 64 word \<Rightarrow> ngx_radix_tree \<Rightarrow> ngx_rc \<times> ngx_radix_tree" where
  "path_insert p v t =
     (case path_walk (rt_mem t) p (rt_root t) of
        (node, []) \<Rightarrow>
          if n_value (rt_mem t node) \<noteq> NGX_RADIX_NO_VALUE then (NGX_BUSY, t) else (NGX_OK, radix_set_value node v t)
      | (node, d # p) \<Rightarrow>
          (case path_grow (d # p) node t of
             (None, t) \<Rightarrow> (NGX_ERROR, t)
           | (Some node, t) \<Rightarrow> (NGX_OK, radix_set_value node v t)))"

lemma shape_child: "shape h par (Some a) (Nd a l v r) \<Longrightarrow> shape h (Some a) (child d (h a)) (if d then r else l)"
  by (simp add: child_def)

lemma path_walk_sub:
  assumes "shape h par (Some a) T" and "path_walk h p a = (b, rest)"
  shows "\<exists>q l v r. p = q @ rest \<and> sub T q = Nd b l v r \<and> (rest \<noteq> [] \<longrightarrow> (if hd rest then r else l) = Tip)"
  using assms
proof (induction h p a arbitrary: par T rule: path_walk.induct)
  case (1 h a)
  then show ?case by (cases T) auto
next
  case (2 h d p a)
  obtain l v r where T: "T = Nd a l v r" using 2(2) by (cases T) auto
  have c: "shape h (Some a) (child d (h a)) (if d then r else l)" using shape_child 2(2) T by blast
  show ?case
  proof (cases "child d (h a)")
    case None
    then have "(if d then r else l) = Tip" using c by (cases "if d then r else l") auto
    then show ?thesis using 2(3) None T by (intro exI [of _ "[]"]) auto
  next
    case (Some nx)
    then obtain q l' v' r' where "p = q @ rest" "sub (if d then r else l) q = Nd b l' v' r'" "rest \<noteq> [] \<longrightarrow> (if hd rest then r' else l') = Tip"
      using 2(1) [OF Some, of "Some a" "if d then r else l"] 2(3) c by auto
    then show ?thesis using T by (intro exI [of _ "d # q"]) auto
  qed
qed

lemma link_eq: "link d (Nd a l v r) S = Nd a (if d then l else S) v (if d then S else r)"
  by (simp add: link_def)

lemma sub_link: "sub (link d (Nd a l v r) S) p = (case p of [] \<Rightarrow> link d (Nd a l v r) S | e # q \<Rightarrow> if e = d then sub S q else sub (Nd a l v r) p)"
  by (cases p) (auto simp: link_def)

lemma look_link_leaf:
  assumes "(if d then r else l) = Tip"
  shows "look (link d (Nd a l v r) (leaf x)) = look (Nd a l v r)"
proof
  fix p
  show "look (link d (Nd a l v r) (leaf x)) p = look (Nd a l v r) p"
  proof (cases p)
    case (Cons e q)
    have "top_value (sub (leaf x) q) = None" by (cases q) (auto simp: leaf_def top_value_def)
    then show ?thesis using Cons assms by (cases "e = d") (auto simp: look_def sub_link top_value_def)
  qed (simp add: look_def link_eq top_value_def)
qed

lemma look_put_same: "sub T q = S \<Longrightarrow> S \<noteq> Tip \<Longrightarrow> S' \<noteq> Tip \<Longrightarrow> look S' = look S \<Longrightarrow> look (put T q S') = look T"
proof
  fix p
  assume a: "sub T q = S" "S \<noteq> Tip" "S' \<noteq> Tip" "look S' = look S"
  have "look S w = look T (q @ w)" for w using a(1) by (simp add: look_def sub_append)
  then show "look (put T q S') p = look T p" using a by (auto simp: look_put prefix_def)
qed

text \<open>The paths that a trie has.\<close>

definition paths :: "rtrie \<Rightarrow> bool list set" where
  "paths T = {p. sub T p \<noteq> Tip}"

lemma paths_put:
  assumes "sub T q \<noteq> Tip" and "S \<noteq> Tip"
  shows "p \<in> paths (put T q S) \<longleftrightarrow> (if prefix q p then drop (length q) p \<in> paths S else p \<in> paths T)"
  using sub_put_other [OF assms, of p] by (simp add: paths_def)

lemma grow_paths:
  assumes "radix_repr t T fl" and "sub T q = Nd b l v r" and "p \<noteq> [] \<longrightarrow> (if hd p then r else l) = Tip" and "path_grow p b t = (res, t')"
  shows "\<exists>T' fl'. radix_repr t' T' fl' \<and> look T' = look T \<and> (\<forall>s\<in>paths T'. s \<in> paths T \<or> prefix s (q @ p))
    \<and> (case res of None \<Rightarrow> ngx_radix_alloc t' = None
       | Some b' \<Rightarrow> \<exists>l' v' r'. sub T' (q @ p) = Nd b' l' v' r' \<and> (p \<noteq> [] \<longrightarrow> v' = NGX_RADIX_NO_VALUE))"
  using assms
proof (induction p b t arbitrary: T fl q l v r rule: path_grow.induct)
  case (1 b t)
  then show ?case by auto
next
  case (2 d p b t)
  show ?case
  proof (cases "radix_new d b t")
    case None
    then have "ngx_radix_alloc t = None" by (auto simp: radix_new_def Let_def split: option.splits)
    then show ?thesis using 2(2,5) None by auto
  next
    case (Some r')
    obtain nx u where nu: "r' = (nx, u)" by fastforce
    have tip: "(if d then r else l) = Tip" using 2(4) by simp
    define S where "S = link d (Nd b l v r) (leaf nx)"
    define T1 where "T1 = put T q S"
    obtain fl1 where r1: "radix_repr u T1 fl1"
      using repr_new [OF 2(2,3) tip] Some nu by (auto simp: T1_def S_def)
    have ne: "sub T q \<noteq> Tip" "S \<noteq> Tip" using 2(3) by (auto simp: S_def link_eq)
    have at: "sub T1 (q @ [d]) = Nd nx Tip NGX_RADIX_NO_VALUE Tip"
      using ne by (auto simp: sub_append T1_def S_def link_eq leaf_def)
    have lk: "look T1 = look T"
      unfolding T1_def by (rule look_put_same [OF 2(3)]) (use ne look_link_leaf [OF tip] in \<open>simp_all add: S_def\<close>)
    have S1: "s \<in> paths S \<Longrightarrow> s \<in> paths (Nd b l v r) \<or> s = [d]" for s
      by (cases s; cases "tl s") (auto simp: paths_def S_def sub_link leaf_def split: if_splits)
    have pt: "s \<in> paths T \<or> prefix s (q @ d # p)" if s: "s \<in> paths T1" for s
    proof (cases "prefix q s")
      case True
      then obtain w where w: "s = q @ w" by (auto simp: prefix_def)
      then have "w \<in> paths S" using s paths_put [OF ne, of s] by (simp add: T1_def)
      then show ?thesis using S1 [of w] w 2(3) by (auto simp: paths_def sub_append)
    qed (use s paths_put [OF ne, of s] in \<open>simp add: T1_def\<close>)
    from 2(1) [OF Some nu [symmetric] r1 at] obtain T' fl' where IH: "radix_repr t' T' fl'" "look T' = look T1"
      "\<forall>s\<in>paths T'. s \<in> paths T1 \<or> prefix s ((q @ [d]) @ p)"
      "case res of None \<Rightarrow> ngx_radix_alloc t' = None
       | Some b' \<Rightarrow> \<exists>l' v' r'. sub T' ((q @ [d]) @ p) = Nd b' l' v' r' \<and> (p \<noteq> [] \<longrightarrow> v' = NGX_RADIX_NO_VALUE)"
      using 2(5) Some nu by auto
    have "v' = NGX_RADIX_NO_VALUE" if "sub T' (q @ d # p) = Nd b' l' v' r'" for b' l' v' r'
    proof -
      have "look T' (q @ d # p) = None"
      proof -
        have "look T (q @ d # p) = None" using 2(3) tip by (auto simp: look_def sub_append top_value_def)
        then show ?thesis using IH(2) lk by simp
      qed
      then show ?thesis using that by (simp add: look_def top_value_def split: if_splits)
    qed
    moreover have "\<forall>s\<in>paths T'. s \<in> paths T \<or> prefix s (q @ d # p)" using IH(3) pt by auto
    moreover have "look T' = look T" using IH(2) lk by simp
    ultimately show ?thesis using IH(1,4) by (intro exI [of _ T'] exI [of _ fl']) (auto split: option.splits)
  qed
qed

lemma look_set_value:
  assumes "sub T q = Nd b l v r"
  shows "look (put T q (Nd b l w r)) = (look T)(q := if w = NGX_RADIX_NO_VALUE then None else Some w)"
proof
  fix p
  show "look (put T q (Nd b l w r)) p = ((look T)(q := if w = NGX_RADIX_NO_VALUE then None else Some w)) p"
  proof (cases "prefix q p")
    case True
    then obtain s where "p = q @ s" by (auto simp: prefix_def)
    then show ?thesis using assms by (cases s) (auto simp: look_put look_def sub_append top_value_def)
  qed (use assms in \<open>auto simp: look_put\<close>)
qed

lemma paths_set_value: "sub T q = Nd b l v r \<Longrightarrow> paths (put T q (Nd b l w r)) = paths T"
proof (rule set_eqI)
  fix p assume a: "sub T q = Nd b l v r"
  show "p \<in> paths (put T q (Nd b l w r)) \<longleftrightarrow> p \<in> paths T"
  proof (cases "prefix q p")
    case True
    then obtain s where "p = q @ s" by (auto simp: prefix_def)
    then have "p \<in> paths (put T q (Nd b l w r)) \<longleftrightarrow> s \<in> paths (Nd b l w r)" using a by (simp add: paths_put)
    then show ?thesis using a \<open>p = q @ s\<close> by (cases s) (auto simp: paths_def sub_append)
  qed (use a in \<open>auto simp: paths_put\<close>)
qed

text \<open>The tree is a table of values under paths of at most \<open>W\<close> bits.\<close>

definition radix_table :: "nat \<Rightarrow> ngx_radix_tree \<Rightarrow> (bool list \<rightharpoonup> 64 word) \<Rightarrow> bool" where
  "radix_table W t M \<longleftrightarrow> (\<exists>T fl. radix_repr t T fl \<and> M = look T \<and> (\<forall>p\<in>paths T. length p \<le> W))"

definition radix_val :: "64 word \<Rightarrow> 64 word option" where
  "radix_val v = (if v = NGX_RADIX_NO_VALUE then None else Some v)"

lemma path_insert_table:
  assumes "radix_table W t M" and "length p \<le> W" and "path_insert p v t = (rc, t')"
  shows "if M p \<noteq> None then rc = NGX_BUSY \<and> t' = t
    else rc = NGX_OK \<and> radix_table W t' (M(p := radix_val v))
       \<or> rc = NGX_ERROR \<and> radix_table W t' M \<and> ngx_radix_alloc t' = None"
proof -
  obtain T fl where r: "radix_repr t T fl" and M: "M = look T" and W: "\<forall>p\<in>paths T. length p \<le> W"
    using assms(1) by (auto simp: radix_table_def)
  obtain b rest where bw: "path_walk (rt_mem t) p (rt_root t) = (b, rest)" by fastforce
  have sh: "shape (rt_mem t) None (Some (rt_root t)) T" using r by (simp add: radix_repr_def)
  from path_walk_sub [OF this bw] obtain q l w r' where p: "p = q @ rest" and b: "sub T q = Nd b l w r'"
    and tip: "rest \<noteq> [] \<longrightarrow> (if hd rest then r' else l) = Tip" by auto
  show ?thesis
  proof (cases rest)
    case Nil
    then have "n_value (rt_mem t b) = w" using repr_distinct(5) [OF r b] by simp
    moreover have "M p = radix_val w" using M b p Nil by (simp add: look_def top_value_def radix_val_def)
    moreover have "radix_table W (radix_set_value b v t) (M(p := radix_val v))" 
      unfolding radix_table_def radix_val_def
      using repr_set_value [OF r b, of v] look_set_value [OF b, of v] paths_set_value [OF b, of v] W M p Nil by auto
    ultimately show ?thesis using assms(3) bw Nil by (auto simp: path_insert_def radix_val_def split: if_splits)
  next
    case (Cons d rs)
    obtain res u where g: "path_grow rest b t = (res, u)" by fastforce
    from grow_paths [OF r b tip g] obtain T' fl' where T': "radix_repr u T' fl'" "look T' = look T"
      "\<forall>s\<in>paths T'. s \<in> paths T \<or> prefix s (q @ rest)"
      and res: "case res of None \<Rightarrow> ngx_radix_alloc u = None
       | Some b' \<Rightarrow> \<exists>l' v' r'. sub T' (q @ rest) = Nd b' l' v' r' \<and> (rest \<noteq> [] \<longrightarrow> v' = NGX_RADIX_NO_VALUE)" by auto
    have none: "M p = None" using M b p Cons tip by (auto simp: look_def sub_append top_value_def)
    have W': "\<forall>s\<in>paths T'. length s \<le> W" using T'(3) W assms(2) p prefix_length_le by fastforce
    show ?thesis
    proof (cases res)
      case None
      then have "(rc, t') = (NGX_ERROR, u)" using assms(3) bw Cons g by (simp add: path_insert_def)
      then show ?thesis using none T' W' M None res by (auto simp: radix_table_def)
    next
      case (Some b')
      then have e: "(rc, t') = (NGX_OK, radix_set_value b' v u)" using assms(3) bw Cons g by (simp add: path_insert_def)
      obtain l' v' r' where at: "sub T' p = Nd b' l' v' r'" using res Some p by auto
      have "radix_table W t' (M(p := radix_val v))"
        unfolding radix_table_def radix_val_def
        using repr_set_value [OF T'(1) at, of v] look_set_value [OF at, of v] paths_set_value [OF at, of v] T'(2) W' M e by auto
      then show ?thesis using none e by simp
    qed
  qed
qed

section \<open>Deletion along a path\<close>

fun path_down :: "(addr \<Rightarrow> ngx_radix_node) \<Rightarrow> bool list \<Rightarrow> addr option \<Rightarrow> addr option" where
  "path_down h [] p = p"
| "path_down h (d # ds) p = (case p of None \<Rightarrow> None | Some a \<Rightarrow> path_down h ds (child d (h a)))"

lemma path_down_None [simp]: "path_down h ds None = None"
  by (cases ds) auto

lemma path_down_sub: "shape h par p T \<Longrightarrow> path_down h ds p = (case sub T ds of Tip \<Rightarrow> None | Nd a l v r \<Rightarrow> Some a)"
proof (induction T ds arbitrary: par p rule: sub.induct)
  case (3 a l v r d ds)
  then show ?case using shape_child [of h par a l v r d] by auto
qed (auto split: rtrie.splits)

text \<open>A leaf is unlinked and put on the free list.\<close>

definition radix_unlink :: "addr \<Rightarrow> addr \<Rightarrow> ngx_radix_tree \<Rightarrow> ngx_radix_tree" where
  "radix_unlink q node t =
     (let t = (if n_right (rt_mem t q) = Some node then set_node q (\<lambda>n. n\<lparr>n_right := None\<rparr>) t
               else set_node q (\<lambda>n. n\<lparr>n_left := None\<rparr>) t)
      in (set_node node (\<lambda>n. n\<lparr>n_right := rt_free t\<rparr>) t)\<lparr>rt_free := Some node\<rparr>)"

lemma repr_unlink:
  assumes "radix_repr t T fl" and "sub T q = Nd b l w r" and "(if d then r else l) = Nd a Tip v Tip"
  shows "radix_repr (radix_unlink b a t) (put T q (link d (Nd b l w r) Tip)) (a # fl)"
proof -
  define u where "u = set_node b (set_child d None) t"
  note d = repr_distinct [OF assms(1,2)]
  have ab: "a \<noteq> b" "a \<notin> set fl" "b \<notin> set fl" using d assms(3) by (cases d; auto)+
  have other: "a \<notin> set (addrs (if d then l else r))" "b \<notin> set (addrs (if d then l else r))" using d(1) assms(3) by (cases d; auto)+
  have "n_right (rt_mem t b) = Some a \<longleftrightarrow> d"
  proof (cases d)
    case False
    then have "a \<notin> set (addrs r)" using other by simp
    then show ?thesis using d(5) False by (cases r) auto
  qed (use d(5) assms(3) in auto)
  then have t': "radix_unlink b a t = (set_node a (\<lambda>n. n\<lparr>n_right := rt_free u\<rparr>) u)\<lparr>rt_free := Some a\<rparr>"
    unfolding radix_unlink_def u_def by (cases d) (simp_all add: set_child_def set_node_def)
  define t' where "t' = radix_unlink b a t"
  have m: "rt_mem t' = (rt_mem t)(b := set_child d None (rt_mem t b), a := (rt_mem t a)\<lparr>n_right := rt_free t\<rparr>)"
    and sel: "rt_root t' = rt_root t" "rt_free t' = Some a" "rt_pagesize t' = rt_pagesize t" "avail t' = avail t"
    using ab by (simp_all add: t'_def t' u_def avail_def set_node_def)
  have h: "rt_mem t' x = rt_mem t x" if "x \<noteq> a" "x \<noteq> b" for x using that by (simp add: m)
  have "shape (rt_mem t) (Some b) (child (\<not> d) (rt_mem t b)) (if d then l else r)"
    using d(5) by (auto simp: child_def)
  from shape_frame2 [OF this h other] have sl: "shape (rt_mem t') (Some b) (child (\<not> d) (rt_mem t b)) (if d then l else r)" .
  have nb: "rt_mem t' b = set_child d None (rt_mem t b)" using ab by (simp add: m)
  have sh: "shape (rt_mem t') (n_parent (rt_mem t b)) (Some b) (Nd b (if d then l else Tip) w (if d then Tip else r))"
    using d(5) sl by (cases d) (auto simp: nb child_def set_child_def)
  have "free_list (rt_mem t') (rt_free t) fl"
    using free_list_frame2 [OF _ h ab(2,3)] assms(1) by (auto simp: radix_repr_def)
  then have fr: "free_list (rt_mem t') (rt_free t') (a # fl)" by (simp add: sel m)
  have frame: "rt_mem t' x = rt_mem t x" if "x \<in> set (addrs T)" "x \<notin> set (addrs (Nd b l w r))" for x
    using that assms(3) by (intro h; cases d) auto
  have ms: "mset (addrs (Nd b (if d then l else Tip) w (if d then Tip else r))) + mset (a # fl) + mset (avail t')
      = mset (addrs (Nd b l w r)) + mset fl + mset (avail t)"
    using assms(3) by (cases d) (simp_all add: sel)
  have ps: "node_size \<le> rt_pagesize t'" using assms(1) by (simp add: sel radix_repr_def)
  from repr_put [OF assms(1,2) sel(1) ps sh frame fr ms] show ?thesis by (simp add: link_eq t'_def)
qed

lemma look_unlink:
  assumes "sub T q = Nd b l w r" and "(if d then r else l) = Nd a Tip v Tip"
  shows "look (put T q (link d (Nd b l w r) Tip)) = (look T)(q @ [d] := None)"
    and "paths (put T q (link d (Nd b l w r) Tip)) \<subseteq> paths T"
proof -
  have ne: "sub T q \<noteq> Tip" "link d (Nd b l w r) Tip \<noteq> Tip" using assms(1) by (auto simp: link_eq)
  have leaf: "sub (Nd a Tip v Tip) (e # y) = Tip" for e y by simp
  have L: "top_value (sub (link d (Nd b l w r) Tip) s) = (if s = [d] then None else top_value (sub (Nd b l w r) s))" for s
    using assms(2) by (cases s; cases "tl s"; cases d) (auto simp: sub_link link_eq top_value_def split: if_splits)
  show "look (put T q (link d (Nd b l w r) Tip)) = (look T)(q @ [d] := None)"
  proof
    fix p
    show "look (put T q (link d (Nd b l w r) Tip)) p = ((look T)(q @ [d] := None)) p"
    proof (cases "prefix q p")
      case True
      then obtain s where "p = q @ s" by (auto simp: prefix_def)
      then show ?thesis using assms(1) L [of s] by (auto simp: look_put [OF ne] look_def sub_append)
    qed (auto simp: look_put [OF ne])
  qed
  show "paths (put T q (link d (Nd b l w r) Tip)) \<subseteq> paths T"
  proof
    fix p assume p: "p \<in> paths (put T q (link d (Nd b l w r) Tip))"
    show "p \<in> paths T"
    proof (cases "prefix q p")
      case True
      then obtain s where "p = q @ s" by (auto simp: prefix_def)
      then show ?thesis using assms(1) p by (cases s) (auto simp: paths_put [OF ne] paths_def sub_append sub_link split: if_splits)
    qed (use p in \<open>auto simp: paths_put [OF ne]\<close>)
  qed
qed

lemma radix_prune_unfold:
  "n_parent (rt_mem t node) = Some q \<Longrightarrow> radix_prune node t =
    (let t = radix_unlink q node t; n = rt_mem t q
     in if n_right n \<noteq> None \<or> n_left n \<noteq> None then Some (Some t)
        else if n_value n \<noteq> NGX_RADIX_NO_VALUE then Some (Some t)
        else if n_parent n = None then Some (Some t)
        else radix_prune q t)"
  by (subst radix_prune.simps) (simp add: radix_unlink_def Let_def)

text \<open>A deletion along a path gives the nodes that it takes out of the tree to the free list, takes out only nodes on the path, and
  leaves no leaf without a value on the path, except the root.\<close>

definition pruned :: "bool list \<Rightarrow> rtrie \<Rightarrow> addr list \<Rightarrow> rtrie \<Rightarrow> addr list \<Rightarrow> bool" where
  "pruned p T fl T' fl' \<longleftrightarrow> mset (addrs T' @ fl') = mset (addrs T @ fl) \<and> paths T' \<subseteq> paths T \<and> (\<forall>s\<in>paths T - paths T'. prefix s p)
     \<and> (\<forall>s a v. s \<noteq> [] \<and> prefix s p \<and> sub T' s = Nd a Tip v Tip \<longrightarrow> v \<noteq> NGX_RADIX_NO_VALUE)"

lemma sub_inner:
  assumes "sub T p \<noteq> Tip" and "strict_prefix s p"
  shows "sub T s \<noteq> Nd a Tip v Tip"
proof
  assume leaf: "sub T s = Nd a Tip v Tip"
  obtain e y where "p = s @ e # y" using assms(2) by (rule strict_prefixE')
  then have "sub T p = Tip" using leaf by (simp add: sub_append)
  then show False using assms(1) by simp
qed

lemma unlink_pruned:
  assumes "sub T q = Nd b l w r" and "(if d then r else l) = Nd a Tip v Tip"
  defines "U \<equiv> put T q (link d (Nd b l w r) Tip)"
  shows "mset (addrs U @ a # fl) = mset (addrs T @ fl)" and "s \<in> paths T \<Longrightarrow> s \<notin> paths U \<Longrightarrow> s = q @ [d]" and "q @ [d] \<notin> paths U"
proof -
  have ne: "sub T q \<noteq> Tip" "link d (Nd b l w r) Tip \<noteq> Tip" using assms(1) by (auto simp: link_eq)
  have "mset (addrs U) + mset (addrs (Nd b l w r)) = mset (addrs T) + mset (addrs (link d (Nd b l w r) Tip))"
    using mset_addrs_put [OF ne(1)] assms(1) by (simp add: U_def)
  moreover have "mset (addrs (Nd b l w r)) = add_mset a (mset (addrs (link d (Nd b l w r) Tip)))"
    using assms(2) by (cases d) (simp_all add: link_eq)
  moreover have "A + B = C + D \<Longrightarrow> B = add_mset a D \<Longrightarrow> add_mset a A = C" for A B C D :: "addr multiset" by simp
  ultimately have "add_mset a (mset (addrs U)) = mset (addrs T)" by blast
  then show "mset (addrs U @ a # fl) = mset (addrs T @ fl)" by simp
  show "q @ [d] \<notin> paths U" using ne by (simp add: U_def paths_def sub_append link_eq)
  show "s = q @ [d]" if s: "s \<in> paths T" "s \<notin> paths U"
  proof (cases "prefix q s")
    case True
    then obtain y where y: "s = q @ y" by (auto simp: prefix_def)
    then show ?thesis using s assms(1,2)
      by (cases y; cases "tl y") (auto simp: U_def paths_put [OF ne] paths_def sub_append sub_link link_eq split: if_splits)
  qed (use s in \<open>auto simp: U_def paths_put [OF ne]\<close>)
qed

lemma radix_prune_table:
  assumes "radix_repr t T fl" and "sub T q = Nd a Tip v Tip" and "q \<noteq> []"
  shows "\<exists>t' T' fl'. radix_prune a t = Some (Some t') \<and> radix_repr t' T' fl' \<and> look T' = (look T)(q := None) \<and> avail t' = avail t \<and> pruned q T fl T' fl'"
  using assms
proof (induction q arbitrary: t T fl a v rule: rev_induct)
  case (snoc d q)
  have sh: "shape (rt_mem t) None (Some (rt_root t)) T" using snoc(2) by (simp add: radix_repr_def)
  obtain b l w r where b: "sub T q = Nd b l w r" "n_parent (rt_mem t a) = Some b" "(if d then r else l) = Nd a Tip v Tip"
    using shape_parent [OF sh snoc(3)] by auto
  define u where "u = radix_unlink b a t"
  define U where "U = put T q (link d (Nd b l w r) Tip)"
  have U: "radix_repr u U (a # fl)" "look U = (look T)(q @ [d] := None)" "paths U \<subseteq> paths T"
    unfolding u_def U_def using repr_unlink [OF snoc(2) b(1,3)] look_unlink [OF b(1,3)] by auto
  note P = unlink_pruned [OF b(1,3), folded U_def]
  have av: "avail u = avail t" by (simp add: u_def radix_unlink_def avail_def set_node_def Let_def)
  have tip: "p = None \<Longrightarrow> shape h par p S \<Longrightarrow> S = Tip" for h par p S by (cases S) auto
  have bU: "sub U q = Nd b (if d then l else Tip) w (if d then Tip else r)" using b(1) by (simp add: U_def link_eq)
  have shU: "shape (rt_mem u) (n_parent (rt_mem u b)) (Some b) (Nd b (if d then l else Tip) w (if d then Tip else r))"
    by (rule repr_distinct(5) [OF U(1) bU])
  have step: "radix_prune a t =
    (let n = rt_mem u b
     in if n_right n \<noteq> None \<or> n_left n \<noteq> None then Some (Some u)
        else if n_value n \<noteq> NGX_RADIX_NO_VALUE then Some (Some u)
        else if n_parent n = None then Some (Some u)
        else radix_prune b u)"
    using radix_prune_unfold [OF b(2)] by (simp add: u_def Let_def)
  show ?case
  proof (cases "n_right (rt_mem u b) \<noteq> None \<or> n_left (rt_mem u b) \<noteq> None \<or> n_value (rt_mem u b) \<noteq> NGX_RADIX_NO_VALUE \<or> n_parent (rt_mem u b) = None")
    case True
    then have stop: "radix_prune a t = Some (Some u)" using step by (auto simp: Let_def)
    have "v' \<noteq> NGX_RADIX_NO_VALUE" if s: "s \<noteq> []" "prefix s (q @ [d])" "sub U s = Nd a' Tip v' Tip" for s a' v'
    proof -
      consider "s = q @ [d]" | "s = q" | "strict_prefix s q" using s(2) by (auto simp: strict_prefix_def)
      then show ?thesis
      proof cases
        case 1
        then show ?thesis using P(3) s(3) by (simp add: paths_def)
      next
        case 2
        then have "sub U q = Nd b Tip w Tip" "v' = w" using s(3) bU by auto
        moreover have "n_right (rt_mem u b) = None" "n_left (rt_mem u b) = None" "n_value (rt_mem u b) = w" using calculation bU shU by auto
        moreover have "n_parent (rt_mem u b) \<noteq> None"
          using shape_parent [of "rt_mem u" None "Some (rt_root u)" U q b] calculation(1) 2 s(1) U(1) by (auto simp: radix_repr_def)
        ultimately show ?thesis using True by auto
      next
        case 3
        then show ?thesis using sub_inner [of U q s a' v'] bU s(3) by simp
      qed
    qed
    then have "\<forall>s a v. s \<noteq> [] \<and> prefix s (q @ [d]) \<and> sub U s = Nd a Tip v Tip \<longrightarrow> v \<noteq> NGX_RADIX_NO_VALUE" by blast
    then have "pruned (q @ [d]) T fl U (a # fl)" unfolding pruned_def using P(1,2) U(3) by blast
    then show ?thesis using stop U av by blast
  next
    case False
    then have n: "n_right (rt_mem u b) = None" "n_left (rt_mem u b) = None" "n_value (rt_mem u b) = NGX_RADIX_NO_VALUE"
      "n_parent (rt_mem u b) \<noteq> None" and pr: "radix_prune a t = radix_prune b u"
      using step by (auto simp: Let_def split: if_splits)
    have bl: "sub U q = Nd b Tip NGX_RADIX_NO_VALUE Tip" using bU shU n tip by (auto split: if_splits)
    have "q \<noteq> []"
    proof
      assume "q = []"
      then have "U = Nd b Tip NGX_RADIX_NO_VALUE Tip" using bl by simp
      then show False using U(1) n(4) by (simp add: radix_repr_def)
    qed
    from snoc(1) [OF U(1) bl this] obtain t' T' fl' where R: "radix_prune b u = Some (Some t')" "radix_repr t' T' fl'"
      "look T' = (look U)(q := None)" "avail t' = avail u" "pruned q U (a # fl) T' fl'" by blast
    have "look U q = None" using bl by (simp add: look_def top_value_def)
    then have "look T' = (look T)(q @ [d] := None)" using R(3) U(2) by auto
    moreover have "pruned (q @ [d]) T fl T' fl'"
    proof -
      have "sub T' (q @ [d]) = Tip" using R(5) P(3) by (auto simp: pruned_def paths_def)
      then have "\<forall>s a v. s \<noteq> [] \<and> prefix s (q @ [d]) \<and> sub T' s = Nd a Tip v Tip \<longrightarrow> v \<noteq> NGX_RADIX_NO_VALUE"
        using R(5) unfolding pruned_def prefix_snoc by (metis rtrie.distinct(1))
      moreover have "prefix s (q @ [d])" if "s \<in> paths T" "s \<notin> paths T'" for s
        using that R(5) P(2) [of s] unfolding pruned_def prefix_snoc by blast
      moreover have "mset (addrs T' @ fl') = mset (addrs T @ fl)" using R(5) P(1) [of fl] by (simp add: pruned_def)
      ultimately show ?thesis using R(5) U(3) unfolding pruned_def by blast
    qed
    moreover have "radix_prune a t = Some (Some t')" "avail t' = avail t" using pr R(1,4) av by simp_all
    ultimately show ?thesis using R(2) by blast
  qed
qed simp

lemma radix_remove_table:
  assumes "radix_table W t M"
  shows "case radix_remove (path_down (rt_mem t) p (Some (rt_root t))) t of
      None \<Rightarrow> False
    | Some None \<Rightarrow> p = [] \<and> n_left (rt_mem t (rt_root t)) = None \<and> n_right (rt_mem t (rt_root t)) = None
    | Some (Some (rc, t')) \<Rightarrow>
        \<not> (p = [] \<and> n_left (rt_mem t (rt_root t)) = None \<and> n_right (rt_mem t (rt_root t)) = None)
        \<and> radix_table W t' (M(p := None)) \<and> (rc = NGX_OK \<or> rc = NGX_ERROR \<and> M p = None \<and> t' = t)"
proof -
  obtain T fl where r: "radix_repr t T fl" and M: "M = look T" and W: "\<forall>p\<in>paths T. length p \<le> W"
    using assms(1) by (auto simp: radix_table_def)
  have sh: "shape (rt_mem t) None (Some (rt_root t)) T" using r by (simp add: radix_repr_def)
  note down = path_down_sub [OF sh, of p]
  show ?thesis
  proof (cases "sub T p")
    case Tip
    moreover have "p \<noteq> []" using Tip sh by auto
    moreover have "M p = None" using Tip M by (simp add: look_def top_value_def)
    ultimately show ?thesis using assms down by (auto simp: radix_remove_def fun_upd_idem)
  next
    case (Nd a l v r')
    note sha = repr_distinct(5) [OF r Nd]
    have lr: "n_left (rt_mem t a) = None \<longleftrightarrow> l = Tip" "n_right (rt_mem t a) = None \<longleftrightarrow> r' = Tip"
      using sha by (cases l; cases r'; auto)+
    have root: "p = [] \<Longrightarrow> a = rt_root t" using Nd sh by auto
    show ?thesis
    proof (cases "l = Tip \<and> r' = Tip")
      case True
      have pr: "n_parent (rt_mem t a) = None" if "p = []" using that Nd sh by auto
      show ?thesis
      proof (cases "p = []")
        case p: True
        have "radix_prune a t = Some None" using pr [OF p] by (subst radix_prune.simps) simp
        then show ?thesis using down Nd True lr root p by (simp add: radix_remove_def)
      next
        case False
        then obtain t' T' fl' where "radix_prune a t = Some (Some t')" "radix_repr t' T' fl'" "look T' = (look T)(p := None)" "paths T' \<subseteq> paths T"
          using radix_prune_table [OF r] Nd True unfolding pruned_def by blast
        moreover from this have "radix_table W t' (M(p := None))"
          unfolding radix_table_def using W M by (metis subsetD)
        ultimately show ?thesis using down Nd True lr False by (simp add: radix_remove_def)
      qed
    next
      case False
      have v: "n_value (rt_mem t a) = v" using sha by simp
      have Mp: "M p = (if v = NGX_RADIX_NO_VALUE then None else Some v)" using M Nd by (simp add: look_def top_value_def)
      have "radix_table W (radix_set_value a NGX_RADIX_NO_VALUE t) (M(p := None))"
        unfolding radix_table_def
        using repr_set_value [OF r Nd, of NGX_RADIX_NO_VALUE] look_set_value [OF Nd, of NGX_RADIX_NO_VALUE] paths_set_value [OF Nd] W M by auto
      then show ?thesis using down Nd False lr v Mp assms root by (auto simp: radix_remove_def fun_upd_idem)
    qed
  qed
qed

text \<open>What a successful deletion does with the nodes.\<close>

definition gives_back :: "bool list \<Rightarrow> ngx_radix_tree \<Rightarrow> ngx_radix_tree \<Rightarrow> bool" where
  "gives_back p t t' \<longleftrightarrow> (\<exists>T fl T' fl'. radix_repr t T fl \<and> radix_repr t' T' fl' \<and> avail t' = avail t \<and> pruned p T fl T' fl')"

lemma set_value_pruned:
  assumes "sub T p = Nd a l v r" and "l \<noteq> Tip \<or> r \<noteq> Tip"
  shows "pruned p T fl (put T p (Nd a l w r)) fl"
proof -
  have ne: "sub T p \<noteq> Tip" using assms(1) by simp
  have "mset (addrs (put T p (Nd a l w r))) = mset (addrs T)" using mset_addrs_put [OF ne, of "Nd a l w r"] assms(1) by simp
  moreover have "v' \<noteq> NGX_RADIX_NO_VALUE" if "prefix s p" "sub (put T p (Nd a l w r)) s = Nd a' Tip v' Tip" for s a' v'
    using that sub_inner [of "put T p (Nd a l w r)" p s a' v'] ne assms(2) by (cases "s = p") (auto simp: strict_prefix_def)
  moreover have "paths (put T p (Nd a l w r)) = paths T" using paths_set_value [OF assms(1)] by auto
  ultimately show ?thesis by (auto simp: pruned_def)
qed

lemma radix_remove_gives_back:
  assumes "radix_table W t M" and "radix_remove (path_down (rt_mem t) p (Some (rt_root t))) t = Some (Some (NGX_OK, t'))"
  shows "gives_back p t t'"
proof -
  obtain T fl where r: "radix_repr t T fl" using assms(1) by (auto simp: radix_table_def)
  have sh: "shape (rt_mem t) None (Some (rt_root t)) T" using r by (simp add: radix_repr_def)
  note down = path_down_sub [OF sh, of p]
  obtain a l v r' where a: "sub T p = Nd a l v r'" using assms(2) down by (cases "sub T p") (auto simp: radix_remove_def)
  have lr: "n_left (rt_mem t a) = None \<longleftrightarrow> l = Tip" "n_right (rt_mem t a) = None \<longleftrightarrow> r' = Tip"
    using repr_distinct(5) [OF r a] by (cases l; cases r'; auto)+
  show ?thesis
  proof (cases "l = Tip \<and> r' = Tip")
    case True
    then have pr: "radix_prune a t = Some (Some t')" using assms(2) down a lr by (simp add: radix_remove_def)
    have "p \<noteq> []"
    proof
      assume "p = []"
      then have "n_parent (rt_mem t a) = None" using a sh by auto
      then show False using pr by (subst (asm) radix_prune.simps) simp
    qed
    then show ?thesis using radix_prune_table [OF r] a True pr r unfolding gives_back_def by fastforce
  next
    case False
    then have "t' = radix_set_value a NGX_RADIX_NO_VALUE t" using assms(2) down a lr by (auto simp: radix_remove_def Let_def split: if_splits)
    then show ?thesis
      using repr_set_value [OF r a, of NGX_RADIX_NO_VALUE] set_value_pruned [OF a, of fl NGX_RADIX_NO_VALUE] False r unfolding gives_back_def
      by (intro exI [of _ T] exI [of _ fl] exI [of _ "put T p (Nd a l NGX_RADIX_NO_VALUE r')"])
        (auto simp: radix_set_value_def set_node_def avail_def)
  qed
qed

section \<open>Search\<close>

fun trie_find :: "rtrie \<Rightarrow> (nat \<Rightarrow> bool) \<Rightarrow> 64 word \<Rightarrow> 64 word" where
  "trie_find Tip f v = v"
| "trie_find (Nd a l w r) f v =
     trie_find (if f 0 then r else l) (\<lambda>n. f (Suc n)) (if w \<noteq> NGX_RADIX_NO_VALUE then w else v)"

lemma look_Nd: "look (Nd a l w r) [] = radix_val w" "look (Nd a l w r) (d # p) = look (if d then r else l) p"
  by (simp_all add: look_def top_value_def radix_val_def)

lemma trie_find_match:
  "(\<exists>k. look T (map f [0..<k]) = Some (trie_find T f v) \<and> (\<forall>j>k. look T (map f [0..<j]) = None))
   \<or> trie_find T f v = v \<and> (\<forall>k. look T (map f [0..<k]) = None)"
proof (induction T arbitrary: f v)
  case Tip
  then show ?case by (simp add: look_def top_value_def)
next
  case (Nd a l w r)
  define C where "C = (if f 0 then r else l)"
  define g where "g = (\<lambda>n. f (Suc n))"
  define v' where "v' = (if w \<noteq> NGX_RADIX_NO_VALUE then w else v)"
  have IH: "(\<exists>k. look C (map g [0..<k]) = Some (trie_find C g v') \<and> (\<forall>j>k. look C (map g [0..<j]) = None))
    \<or> trie_find C g v' = v' \<and> (\<forall>k. look C (map g [0..<k]) = None)"
    using Nd by (simp add: C_def)
  have step: "look (Nd a l w r) (map f [0..<Suc k]) = look C (map g [0..<k])" for k
  proof -
    have "map f [0..<Suc k] = f 0 # map g [0..<k]" by (simp only: upt_conv_Cons [of 0 "Suc k"] map_Suc_upt [symmetric] map_map) (simp add: g_def o_def)
    then show ?thesis by (simp only: look_Nd C_def)
  qed
  have zero: "look (Nd a l w r) (map f [0..<0]) = radix_val w" by (simp add: look_Nd)
  have tf: "trie_find (Nd a l w r) f v = trie_find C g v'" by (simp add: C_def g_def v'_def)
  from IH show ?case
  proof
    assume "\<exists>k. look C (map g [0..<k]) = Some (trie_find C g v') \<and> (\<forall>j>k. look C (map g [0..<j]) = None)"
    then obtain k where k: "look C (map g [0..<k]) = Some (trie_find C g v')" "\<forall>j>k. look C (map g [0..<j]) = None" by auto
    have "look (Nd a l w r) (map f [0..<j]) = None" if "j > Suc k" for j
    proof -
      obtain i where i: "j = Suc i" "i > k" using \<open>j > Suc k\<close> by (cases j) auto
      show ?thesis unfolding i(1) step using k(2) i(2) by blast
    qed
    moreover have "look (Nd a l w r) (map f [0..<Suc k]) = Some (trie_find (Nd a l w r) f v)" unfolding step tf by (rule k(1))
    ultimately show ?thesis by blast
  next
    assume a: "trie_find C g v' = v' \<and> (\<forall>k. look C (map g [0..<k]) = None)"
    have pos: "look (Nd a l w r) (map f [0..<j]) = None" if j: "j > 0" for j
    proof -
      obtain i where "j = Suc i" using j by (cases j) auto
      then show ?thesis unfolding \<open>j = Suc i\<close> step using a by blast
    qed
    show ?thesis
    proof (cases "w = NGX_RADIX_NO_VALUE")
      case True
      have "look (Nd a l w r) (map f [0..<k]) = None" for k
        using pos [of k] zero True by (cases "k = 0") (simp_all add: radix_val_def)
      then show ?thesis using a tf True by (simp add: v'_def)
    next
      case False
      then have "look (Nd a l w r) (map f [0..<0]) = Some (trie_find (Nd a l w r) f v)"
        using zero a tf by (simp add: radix_val_def v'_def)
      then show ?thesis using pos by blast
    qed
  qed
qed

end
