(* ===== verification/Ngx_Prefix_Table.thy ===== *)
theory Ngx_Prefix_Table
  imports Ngx_Radix
begin

unbundle bit_operations_syntax

text \<open>
  The loops of the radix trees over keys of 32 and of 128 bits walk along the bits of the key that the mask covers
  (definitions in \<open>Ngx_Radix\<close>). A tree is a table of values under bit strings: the locale \<open>prefix_table\<close> is the
  contract that the clients rely on, interpreted for both widths.
\<close>

section \<open>The loops over a 32-bit key\<close>

text \<open>The bits of the key that the mask covers, up to the first bit that it does not.\<close>

fun masked :: "bool list \<Rightarrow> bool list \<Rightarrow> bool list" where
  "masked (k # ks) (True # ms) = k # masked ks ms"
| "masked _ _ = []"

lemma length_masked: "length (masked ks ms) \<le> length ks"
  by (induction ks ms rule: masked.induct) auto

definition bits32 :: "32 word \<Rightarrow> bool list" where
  "bits32 key = map (\<lambda>k. bit key (31 - k)) [0..<32]"

lemma length_bits32 [simp]: "length (bits32 key) = 32"
  by (simp add: bits32_def)

definition at32 :: "nat \<Rightarrow> 32 word" where
  "at32 n = drop_bit n 0x80000000"

lemma at32_bit: "(key AND at32 n \<noteq> 0) = (n < 32 \<and> bit key (31 - n))" "(at32 n AND key \<noteq> 0) = (n < 32 \<and> bit key (31 - n))"
proof -
  have "bit (0x80000000 :: 32 word) j = (j = 31)" for j
  proof -
    have "(0x80000000 :: 32 word) = 2 ^ 31" by simp
    then have "bit (0x80000000 :: 32 word) j = bit (2 ^ 31 :: 32 word) j" by (simp only:)
    also have "\<dots> = (j = 31)" unfolding bit_exp_iff by auto
    finally show ?thesis .
  qed
  then have b: "bit (at32 n) k = (n + k = 31)" for k by (simp add: at32_def bit_drop_bit_eq)
  have "at32 n = (if n < 32 then push_bit (31 - n) 1 else 0)"
    by (rule bit_word_eqI) (auto simp: b bit_simps)
  then show "(key AND at32 n \<noteq> 0) = (n < 32 \<and> bit key (31 - n))" by (simp add: bit_iff_and_push_bit_not_eq_0)
  then show "(at32 n AND key \<noteq> 0) = (n < 32 \<and> bit key (31 - n))" by (simp add: and.commute)
qed

lemma at32_step: "drop_bit (Suc 0) (at32 n) = at32 (Suc n)" "at32 0 = 0x80000000"
  by (simp_all add: at32_def)

definition rest32 :: "32 word \<Rightarrow> 32 word \<Rightarrow> nat \<Rightarrow> bool list" where
  "rest32 key m n = masked (drop n (bits32 key)) (drop n (bits32 m))"

lemma rest32_step:
  "rest32 key m n = (if at32 n AND m \<noteq> 0 then (key AND at32 n \<noteq> 0) # rest32 key m (Suc n) else [])"
proof (cases "n < 32")
  case True
  have d: "drop n (bits32 w) = bit w (31 - n) # drop (Suc n) (bits32 w)" for w
    using True Cons_nth_drop_Suc [of n "bits32 w"] by (simp add: bits32_def)
  show ?thesis unfolding rest32_def at32_bit d [of key] d [of m] using True by (cases "bit m (31 - n)") auto
qed (simp add: rest32_def at32_bit)

lemma radix32_walk_path:
  "\<exists>n' node nx. radix32_walk h key m (at32 n) a = (at32 n', node, nx) \<and> path_walk h (rest32 key m n) a = (node, rest32 key m n')
    \<and> (nx = None \<longleftrightarrow> rest32 key m n' \<noteq> [])"
proof (induction "32 - n" arbitrary: n a)
  case 0
  then have "rest32 key m n = []" "at32 n AND m = 0" using at32_bit(2) [of n m] rest32_step [of key m n] by auto
  then show ?case by (subst radix32_walk.simps) auto
next
  case (Suc k)
  show ?case
  proof (cases "at32 n AND m = 0")
    case True
    then have "rest32 key m n = []" by (subst rest32_step) simp
    then show ?thesis using True by (subst radix32_walk.simps) auto
  next
    case False
    have r: "rest32 key m n = (key AND at32 n \<noteq> 0) # rest32 key m (Suc n)" using False by (subst rest32_step) simp
    show ?thesis
    proof (cases "child (key AND at32 n \<noteq> 0) (h a)")
      case None
      then show ?thesis using False by (subst radix32_walk.simps) (auto simp: r intro!: exI [of _ n])
    next
      case (Some nx)
      have "k = 32 - Suc n" using Suc(2) by simp
      from Suc(1) [OF this, of nx] show ?thesis using Some False by (subst radix32_walk.simps) (simp add: r at32_step)
    qed
  qed
qed

lemma radix32_grow_path: "radix32_grow key m (at32 n) a t = path_grow (rest32 key m n) a t"
proof (induction "32 - n" arbitrary: n a t)
  case 0
  then have "rest32 key m n = []" "at32 n AND m = 0" using at32_bit(2) [of n m] rest32_step [of key m n] by auto
  then show ?case by (subst radix32_grow.simps) auto
next
  case (Suc k)
  then have "k = 32 - Suc n" by simp
  from Suc(1) [OF this] show ?case
    by (subst radix32_grow.simps, subst rest32_step) (auto simp: at32_step split: option.split)
qed

lemma radix32_down_path: "radix32_down h key m (at32 n) p = path_down h (rest32 key m n) p"
proof (induction "32 - n" arbitrary: n p)
  case 0
  then have "rest32 key m n = []" "at32 n AND m = 0" using at32_bit(2) [of n m] rest32_step [of key m n] by auto
  then show ?case by (subst radix32_down.simps) (auto split: option.split)
next
  case (Suc k)
  then have "k = 32 - Suc n" by simp
  from Suc(1) [OF this] show ?case
    by (subst radix32_down.simps, subst rest32_step) (auto simp: at32_step split: option.split)
qed

lemma radix32_insert_path: "ngx_radix32tree_insert key m v t = path_insert (masked (bits32 key) (bits32 m)) v t"
proof -
  have r0: "rest32 key m 0 = masked (bits32 key) (bits32 m)" by (simp add: rest32_def)
  from radix32_walk_path [of "rt_mem t" key m 0 "rt_root t"] obtain n' node nx where
    "radix32_walk (rt_mem t) key m 0x80000000 (rt_root t) = (at32 n', node, nx)"
    "path_walk (rt_mem t) (masked (bits32 key) (bits32 m)) (rt_root t) = (node, rest32 key m n')" "nx = None \<longleftrightarrow> rest32 key m n' \<noteq> []"
    by (auto simp: at32_step r0)
  then show ?thesis
    unfolding ngx_radix32tree_insert_def path_insert_def
    by (cases nx; cases "rest32 key m n'") (simp_all add: radix32_grow_path)
qed

lemma radix32_find_trie:
  "shape h par p T \<Longrightarrow> radix32_find_loop h key (at32 n) p v = Some (trie_find T (\<lambda>k. key AND at32 (n + k) \<noteq> 0) v)"
proof (induction T arbitrary: par p n v)
  case Tip
  then show ?case by (subst radix32_find_loop.simps) simp
next
  case (Nd a l w r)
  define d where "d = (key AND at32 n \<noteq> 0)"
  have "shape h (Some a) (child d (h a)) (if d then r else l)" using shape_child Nd(3) by fastforce
  moreover have "p = Some a" "n_value (h a) = w" using Nd(3) by auto
  ultimately show ?case
    using Nd(1,2) [of "Some a" "child d (h a)" "Suc n"]
    by (subst radix32_find_loop.simps) (auto simp: at32_step d_def [symmetric] split: if_splits)
qed

section \<open>The loops over a 128-bit key\<close>

definition at128 :: "nat \<Rightarrow> u_char" where
  "at128 n = drop_bit (n mod 8) 0x80"

lemma addr_bits_nth: "n < 8 * length key \<Longrightarrow> addr_bits key ! n = bit (rd key (n div 8)) (7 - n mod 8)"
proof (induction key arbitrary: n)
  case (Cons c key)
  show ?case
  proof (cases "n < 8")
    case True
    then show ?thesis by (simp add: nth_append byte_bits_def rd_def)
  next
    case False
    then obtain k where k: "n = k + 8" by (metis add.commute le_Suc_ex not_less)
    moreover have "(k + 8) div 8 = Suc (k div 8)" "(k + 8) mod 8 = k mod 8" by simp_all
    moreover have "rd (c # key) (Suc j) = rd key j" for j by (simp add: rd_def)
    ultimately show ?thesis using Cons by (simp add: nth_append del: div_add_self2)
  qed
qed simp

lemma length_addr_bits [simp]: "length (addr_bits key) = 8 * length key"
  by (induction key) auto

lemma at128_bit: "(c AND at128 n \<noteq> 0) = bit c (7 - n mod 8)" "(at128 n AND c \<noteq> 0) = bit c (7 - n mod 8)"
proof -
  have "bit (0x80 :: u_char) j = (j = 7)" for j
  proof -
    have "(0x80 :: u_char) = 2 ^ 7" by simp
    then have "bit (0x80 :: u_char) j = bit (2 ^ 7 :: u_char) j" by (simp only:)
    also have "\<dots> = (j = 7)" unfolding bit_exp_iff by auto
    finally show ?thesis .
  qed
  then have b: "bit (at128 n) k = (n mod 8 + k = 7)" for k by (simp add: at128_def bit_drop_bit_eq)
  have "n mod 8 < 8" by simp
  then have "at128 n = push_bit (7 - n mod 8) 1"
    by (intro bit_word_eqI) (auto simp: b bit_simps)
  then show "(c AND at128 n \<noteq> 0) = bit c (7 - n mod 8)" by (simp add: bit_iff_and_push_bit_not_eq_0)
  then show "(at128 n AND c \<noteq> 0) = bit c (7 - n mod 8)" by (simp add: and.commute)
qed

lemma at128_step:
  "drop_bit (Suc 0) (at128 n) = (if Suc n mod 8 = 0 then 0 else at128 (Suc n))" "Suc n mod 8 = 0 \<Longrightarrow> at128 (Suc n) = 0x80" "at128 0 = 0x80"
proof -
  have "n mod 8 < 8" by simp
  then have "(n mod 8 = 7 \<and> Suc n mod 8 = 0) \<or> (n mod 8 < 7 \<and> Suc n mod 8 = Suc (n mod 8))"
    unfolding mod_Suc by auto
  then consider "n mod 8 = 7" "Suc n mod 8 = 0" | "n mod 8 < 7" "Suc n mod 8 = Suc (n mod 8)" by (elim disjE conjE)
  then show "drop_bit (Suc 0) (at128 n) = (if Suc n mod 8 = 0 then 0 else at128 (Suc n))"
  proof cases
    case 1
    then show ?thesis by (simp add: at128_def)
  next
    case 2
    then show ?thesis by (simp only: at128_def drop_bit_drop_bit) simp
  qed
qed (simp_all add: at128_def)

definition rest128 :: "bytes \<Rightarrow> bytes \<Rightarrow> nat \<Rightarrow> bool list" where
  "rest128 key m n = masked (drop n (addr_bits key)) (drop n (addr_bits m))"

lemma rest128_end [simp]: "length key = 16 \<Longrightarrow> rest128 key m 128 = []"
  by (simp add: rest128_def)

lemma rest128_step:
  assumes "length key = 16" and "length m = 16" and "n < 128"
  shows "rest128 key m n =
    (if at128 n AND rd m (n div 8) \<noteq> 0 then (rd key (n div 8) AND at128 n \<noteq> 0) # rest128 key m (Suc n) else [])"
proof -
  have d: "drop n (addr_bits w) = bit (rd w (n div 8)) (7 - n mod 8) # drop (Suc n) (addr_bits w)" if "length w = 16" for w
    using that assms(3) Cons_nth_drop_Suc [of n "addr_bits w"] addr_bits_nth [of n w] by simp
  show ?thesis unfolding rest128_def at128_bit d [OF assms(1)] d [OF assms(2)] by (cases "bit (rd m (n div 8)) (7 - n mod 8)") auto
qed

text \<open>The next position of the cursor.\<close>

lemma pos128_cases:
  assumes "n < 128"
  obtains "drop_bit (Suc 0) (at128 n) \<noteq> 0" "drop_bit (Suc 0) (at128 n) = at128 (Suc n)" "Suc n div 8 = n div 8" "Suc n < 128"
  | "drop_bit (Suc 0) (at128 n) = 0" "n div 8 + 1 = 16" "Suc n = 128"
  | "drop_bit (Suc 0) (at128 n) = 0" "n div 8 + 1 \<noteq> 16" "Suc n div 8 = n div 8 + 1" "at128 (Suc n) = 0x80" "Suc n < 128"
proof (cases "Suc n mod 8 = 0")
  case True
  then have "drop_bit (Suc 0) (at128 n) = 0" "at128 (Suc n) = 0x80" using at128_step by simp_all
  moreover obtain k where k: "Suc n = 8 * k" using True by (metis mod_0_imp_dvd dvdE)
  moreover have "Suc n div 8 = n div 8 + 1" using True by (simp add: div_Suc)
  moreover have "n div 8 + 1 = 16 \<longleftrightarrow> Suc n = 128" "Suc n = 128 \<or> Suc n < 128"
    using calculation assms by auto
  ultimately show ?thesis using that(2,3) by blast
next
  case False
  then have e: "drop_bit (Suc 0) (at128 n) = at128 (Suc n)" using at128_step(1) [of n] by simp
  have "- 1 AND at128 (Suc n) \<noteq> 0" unfolding at128_bit by (simp add: bit_simps)
  then have "at128 (Suc n) \<noteq> 0" by auto
  moreover have "Suc n div 8 = n div 8" using False by (simp add: div_Suc)
  moreover have "Suc n < 128" using False assms by (cases "Suc n = 128") auto
  ultimately show ?thesis using that(1) e by simp
qed

lemma radix128_walk_path:
  assumes "length key = 16" and "length m = 16" and "n < 128"
  shows "\<exists>n' ib node nx. radix128_walk h key m (n div 8) (at128 n) a = (ib, node, nx) \<and> path_walk h (rest128 key m n) a = (node, rest128 key m n')
    \<and> (nx = None \<longleftrightarrow> rest128 key m n' \<noteq> []) \<and> (nx = None \<longrightarrow> n' < 128 \<and> ib = (n' div 8, at128 n'))"
  using assms(3)
proof (induction "128 - n" arbitrary: n a rule: less_induct)
  case less
  note st = rest128_step [OF assms(1,2) less(2)]
  show ?case
  proof (cases "at128 n AND rd m (n div 8) = 0")
    case True
    then have "rest128 key m n = []" using st by simp
    then show ?thesis using True by (subst radix128_walk.simps) (auto intro!: exI [of _ n])
  next
    case False
    define d where "d = (rd key (n div 8) AND at128 n \<noteq> 0)"
    have r: "rest128 key m n = d # rest128 key m (Suc n)" using st False by (simp add: d_def)
    show ?thesis
    proof (cases "child d (h a)")
      case None
      then show ?thesis using False less(2)
        by (subst radix128_walk.simps) (auto simp: r d_def [symmetric] intro!: exI [of _ n])
    next
      case (Some nx)
      have w: "radix128_walk h key m (n div 8) (at128 n) a =
          (if drop_bit (Suc 0) (at128 n) \<noteq> 0 then radix128_walk h key m (n div 8) (drop_bit (Suc 0) (at128 n)) nx
           else if n div 8 + 1 = 16 then ((n div 8 + 1, 0), nx, Some nx)
           else radix128_walk h key m (n div 8 + 1) 0x80 nx)"
        using Some False by (subst radix128_walk.simps) (simp add: d_def [symmetric])
      have pw: "path_walk h (rest128 key m n) a = path_walk h (rest128 key m (Suc n)) nx" using Some by (simp add: r)
      have IH: "Suc n < 128 \<Longrightarrow> \<exists>n' ib node nx'. radix128_walk h key m (Suc n div 8) (at128 (Suc n)) nx = (ib, node, nx')
          \<and> path_walk h (rest128 key m (Suc n)) nx = (node, rest128 key m n')
          \<and> (nx' = None \<longleftrightarrow> rest128 key m n' \<noteq> []) \<and> (nx' = None \<longrightarrow> n' < 128 \<and> ib = (n' div 8, at128 n'))"
        using less(1) [of "Suc n"] by simp
      from less(2) show ?thesis
      proof (cases rule: pos128_cases)
        case 2
        then have "rest128 key m (Suc n) = []" using assms(1) by simp
        then show ?thesis unfolding w pw using 2 by (auto intro!: exI [of _ "Suc n"])
      qed (use IH in \<open>simp_all add: w pw\<close>)
    qed
  qed
qed

lemma radix128_grow_path:
  assumes "length key = 16" and "length m = 16" and "n < 128"
  shows "radix128_grow key m (n div 8) (at128 n) a t = path_grow (rest128 key m n) a t"
  using assms(3)
proof (induction "128 - n" arbitrary: n a t rule: less_induct)
  case less
  note st = rest128_step [OF assms(1,2) less(2)]
  have IH: "Suc n < 128 \<Longrightarrow> radix128_grow key m (Suc n div 8) (at128 (Suc n)) a t = path_grow (rest128 key m (Suc n)) a t" for a t
    using less(1) [of "Suc n"] by simp
  from less(2) show ?case
  proof (cases rule: pos128_cases)
    case 2
    then have "rest128 key m (Suc n) = []" using assms(1) by simp
    then show ?thesis unfolding st using 2 by (subst radix128_grow.simps) (simp split: option.split)
  next
    case 1
    then show ?thesis unfolding st using IH by (subst radix128_grow.simps) (simp split: option.split)
  next
    case 3
    then show ?thesis unfolding st using IH by (subst radix128_grow.simps) (simp split: option.split)
  qed
qed

lemma radix128_down_path:
  assumes "length key = 16" and "length m = 16" and "n < 128"
  shows "radix128_down h key m (n div 8) (at128 n) p = path_down h (rest128 key m n) p"
  using assms(3)
proof (induction "128 - n" arbitrary: n p rule: less_induct)
  case less
  note st = rest128_step [OF assms(1,2) less(2)]
  have IH: "Suc n < 128 \<Longrightarrow> radix128_down h key m (Suc n div 8) (at128 (Suc n)) p = path_down h (rest128 key m (Suc n)) p" for p
    using less(1) [of "Suc n"] by simp
  from less(2) show ?case
  proof (cases rule: pos128_cases)
    case 2
    then have "rest128 key m (Suc n) = []" using assms(1) by simp
    then show ?thesis unfolding st using 2 by (subst radix128_down.simps) (simp add: Let_def split: option.split)
  next
    case 1
    then show ?thesis unfolding st using IH by (subst radix128_down.simps) (simp add: Let_def split: option.split)
  next
    case 3
    then show ?thesis unfolding st using IH by (subst radix128_down.simps) (simp add: Let_def split: option.split)
  qed
qed

lemma radix128_insert_path:
  assumes "length key = 16" and "length m = 16"
  shows "ngx_radix128tree_insert key m v t = path_insert (masked (addr_bits key) (addr_bits m)) v t"
proof -
  have r0: "rest128 key m 0 = masked (addr_bits key) (addr_bits m)" by (simp add: rest128_def)
  have s0: "(0 :: nat) div 8 = 0" "at128 0 = 0x80" using at128_step(3) by simp_all
  have "(0 :: nat) < 128" by simp
  from radix128_walk_path [OF assms this, of "rt_mem t" "rt_root t", unfolded s0 r0] obtain n' ib node nx where w:
    "radix128_walk (rt_mem t) key m 0 0x80 (rt_root t) = (ib, node, nx)"
    "path_walk (rt_mem t) (masked (addr_bits key) (addr_bits m)) (rt_root t) = (node, rest128 key m n')"
    "nx = None \<longleftrightarrow> rest128 key m n' \<noteq> []" "nx = None \<longrightarrow> n' < 128 \<and> ib = (n' div 8, at128 n')"
    by blast
  then show ?thesis
    unfolding ngx_radix128tree_insert_def path_insert_def
    by (cases nx; cases "rest128 key m n'") (simp_all add: radix128_grow_path [OF assms])
qed

lemma radix128_find_trie:
  "shape h par p T \<Longrightarrow> radix128_find_loop h key (n div 8) (at128 n) p v =
    Some (trie_find T (\<lambda>k. rd key ((n + k) div 8) AND at128 (n + k) \<noteq> 0) v)"
proof (induction T arbitrary: par p n v)
  case Tip
  then show ?case by (subst radix128_find_loop.simps) simp
next
  case (Nd a l w r)
  define d where "d = (rd key (n div 8) AND at128 n \<noteq> 0)"
  have "shape h (Some a) (child d (h a)) (if d then r else l)" using shape_child Nd(3) by fastforce
  then have IH: "radix128_find_loop h key (Suc n div 8) (at128 (Suc n)) (child d (h a)) v' =
      Some (trie_find (if d then r else l) (\<lambda>k. rd key ((Suc n + k) div 8) AND at128 (Suc n + k) \<noteq> 0) v')" for v'
    using Nd(1,2) [of "Some a" "child d (h a)" "Suc n"] by (cases d) auto
  have p: "p = Some a" "n_value (h a) = w" using Nd(3) by auto
  have "Suc n div 8 = (if Suc n mod 8 = 0 then n div 8 + 1 else n div 8)" by (simp add: div_Suc)
  then have "radix128_find_loop h key (n div 8) (at128 n) p v =
      radix128_find_loop h key (Suc n div 8) (at128 (Suc n)) (child d (h a)) (if w \<noteq> NGX_RADIX_NO_VALUE then w else v)"
    using p at128_step(1,2) [of n] at128_bit(1) [of "- 1" "Suc n"]
    by (subst radix128_find_loop.simps) (auto simp: Let_def d_def [symmetric] bit_simps)
  then show ?case unfolding IH by (simp add: d_def)
qed

section \<open>The contract of a table of prefixes\<close>

text \<open>The value under the longest prefix of a key that has one.\<close>

definition longest_match :: "(bool list \<rightharpoonup> 64 word) \<Rightarrow> bool list \<Rightarrow> 64 word \<Rightarrow> bool" where
  "longest_match M bits v \<longleftrightarrow>
     (\<exists>k\<le>length bits. M (take k bits) = Some v \<and> (\<forall>j. k < j \<and> j \<le> length bits \<longrightarrow> M (take j bits) = None))
     \<or> v = NGX_RADIX_NO_VALUE \<and> (\<forall>k\<le>length bits. M (take k bits) = None)"

definition radix_oom :: "ngx_radix_tree \<Rightarrow> bool" where
  "radix_oom t \<longleftrightarrow> ngx_radix_alloc t = None"

definition bare_root :: "ngx_radix_tree \<Rightarrow> bool" where
  "bare_root t \<longleftrightarrow> n_left (rt_mem t (rt_root t)) = None \<and> n_right (rt_mem t (rt_root t)) = None"

lemma find_by_trie:
  assumes "radix_table W t M" and "\<And>T. shape (rt_mem t) None (Some (rt_root t)) T \<Longrightarrow> r = Some (trie_find T f NGX_RADIX_NO_VALUE)"
    and "bits = map f [0..<W]"
  shows "\<exists>v. r = Some v \<and> longest_match M bits v"
proof -
  obtain T fl where r: "radix_repr t T fl" and M: "M = look T" and W: "\<forall>p\<in>paths T. length p \<le> W"
    using assms(1) by (auto simp: radix_table_def)
  define v where "v = trie_find T f NGX_RADIX_NO_VALUE"
  have "r = Some v" using assms(2) r by (simp add: radix_repr_def v_def)
  moreover have tk: "take k bits = map f [0..<k]" if "k \<le> W" for k using that by (simp add: assms(3) take_map)
  have out: "k \<le> W" if "look T (map f [0..<k]) \<noteq> None" for k
  proof -
    have "map f [0..<k] \<in> paths T" using that by (auto simp: look_def top_value_def paths_def split: rtrie.splits)
    then show ?thesis using W by fastforce
  qed
  have "longest_match M bits v"
    using trie_find_match [of T f NGX_RADIX_NO_VALUE]
  proof (elim disjE exE conjE)
    fix k assume k: "look T (map f [0..<k]) = Some (trie_find T f NGX_RADIX_NO_VALUE)" "\<forall>j>k. look T (map f [0..<j]) = None"
    then have "k \<le> W" using out [of k] by simp
    moreover have "M (take j bits) = None" if "k < j" "j \<le> W" for j using k(2) that tk [of j] by (simp add: M)
    ultimately show ?thesis unfolding longest_match_def using k(1) tk [of k] by (auto simp: M v_def assms(3))
  next
    assume "trie_find T f NGX_RADIX_NO_VALUE = NGX_RADIX_NO_VALUE" "\<forall>k. look T (map f [0..<k]) = None"
    then show ?thesis unfolding longest_match_def using tk by (auto simp: M v_def assms(3))
  qed
  ultimately show ?thesis by blast
qed

text \<open>The operations on the table: a network that is there is not replaced, and without memory nothing is
  entered; a deletion leaves the other networks, and dereferences a null pointer exactly for
  the empty prefix in a tree of one node.\<close>

definition insert_spec :: "('t \<Rightarrow> (bool list \<rightharpoonup> 64 word) \<Rightarrow> bool) \<Rightarrow> ('t \<Rightarrow> bool) \<Rightarrow> (bool list \<rightharpoonup> 64 word) \<Rightarrow> bool list \<Rightarrow> 64 word \<Rightarrow> 't \<Rightarrow> ngx_rc \<times> 't \<Rightarrow> bool" where
  "insert_spec table out_of_memory M p v t res =
     (case res of (rc, t') \<Rightarrow>
        if M p \<noteq> None then rc = NGX_BUSY \<and> t' = t
        else rc = NGX_OK \<and> table t' (M(p := radix_val v)) \<or> rc = NGX_ERROR \<and> table t' M \<and> out_of_memory t')"

definition delete_spec :: "('t \<Rightarrow> (bool list \<rightharpoonup> 64 word) \<Rightarrow> bool) \<Rightarrow> ('t \<Rightarrow> bool) \<Rightarrow> (bool list \<rightharpoonup> 64 word) \<Rightarrow> bool list \<Rightarrow> 't \<Rightarrow> (ngx_rc \<times> 't) option option \<Rightarrow> bool" where
  "delete_spec table bare M p t res =
     (case res of
        None \<Rightarrow> False
      | Some None \<Rightarrow> p = [] \<and> bare t
      | Some (Some (rc, t')) \<Rightarrow>
          \<not> (p = [] \<and> bare t) \<and> table t' (M(p := None)) \<and> (rc = NGX_OK \<or> rc = NGX_ERROR \<and> M p = None \<and> t' = t))"

text \<open>What a client of a radix tree relies on, for one width of keys; \<open>path\<close> are the bits of a network.\<close>

locale prefix_table =
  fixes table :: "'t \<Rightarrow> (bool list \<rightharpoonup> 64 word) \<Rightarrow> bool"
    and bare :: "'t \<Rightarrow> bool" and out_of_memory :: "'t \<Rightarrow> bool"
    and ok :: "'k \<Rightarrow> bool" and bits :: "'k \<Rightarrow> bool list"
    and insert :: "'k \<Rightarrow> 'k \<Rightarrow> 64 word \<Rightarrow> 't \<Rightarrow> ngx_rc \<times> 't"
    and delete :: "'k \<Rightarrow> 'k \<Rightarrow> 't \<Rightarrow> (ngx_rc \<times> 't) option option"
    and find :: "'k \<Rightarrow> 't \<Rightarrow> 64 word option"
  assumes insert_law: "table t M \<Longrightarrow> ok key \<Longrightarrow> ok m \<Longrightarrow>
      insert_spec table out_of_memory M (masked (bits key) (bits m)) v t (insert key m v t)"
    and delete_law: "table t M \<Longrightarrow> ok key \<Longrightarrow> ok m \<Longrightarrow>
      delete_spec table bare M (masked (bits key) (bits m)) t (delete key m t)"
    and find_law: "table t M \<Longrightarrow> ok key \<Longrightarrow> \<exists>v. find key t = Some v \<and> longest_match M (bits key) v"
begin

text \<open>An address in a network that was just entered gets its value, unless there is a network inside of it
  that has the address.\<close>

lemma insert_find:
  assumes "table t M" "ok key" "ok m" "ok a" "v \<noteq> NGX_RADIX_NO_VALUE" "insert key m v t = (NGX_OK, t')"
    and "masked (bits key) (bits m) = take n (bits a)" "n \<le> length (bits a)"
    and "\<And>k. n < k \<Longrightarrow> k \<le> length (bits a) \<Longrightarrow> M (take k (bits a)) = None"
  shows "find a t' = Some v"
proof -
  define p where "p = take n (bits a)"
  have "table t' (M(p \<mapsto> v))"
    using insert_law [OF assms(1-3), of v] assms(5-7) by (simp add: insert_spec_def p_def radix_val_def split: if_splits)
  from find_law [OF this assms(4)] obtain w where w: "find a t' = Some w" "longest_match (M(p \<mapsto> v)) (bits a) w" by auto
  have self: "(M(p \<mapsto> v)) (take n (bits a)) = Some v" by (simp add: p_def)
  have above: "(M(p \<mapsto> v)) (take k (bits a)) = None" if k: "n < k" "k \<le> length (bits a)" for k
  proof -
    have "length (take k (bits a)) \<noteq> length p" using k assms(8) by (simp add: p_def)
    then have "take k (bits a) \<noteq> p" by metis
    then show ?thesis using assms(9) k by simp
  qed
  from w(2) show ?thesis
    unfolding longest_match_def
  proof (elim disjE exE conjE)
    fix k assume k: "k \<le> length (bits a)" "(M(p \<mapsto> v)) (take k (bits a)) = Some w"
      "\<forall>j. k < j \<and> j \<le> length (bits a) \<longrightarrow> (M(p \<mapsto> v)) (take j (bits a)) = None"
    have "k = n"
    proof (rule ccontr)
      assume "k \<noteq> n"
      then consider "k < n" | "n < k" by linarith
      then show False using k self above [of k] assms(8) by cases auto
    qed
    then show ?thesis using k(2) self w(1) by simp
  next
    assume "\<forall>k\<le>length (bits a). (M(p \<mapsto> v)) (take k (bits a)) = None"
    then show ?thesis using self assms(8) by auto
  qed
qed

end

lemma path_insert_spec:
  "radix_table W t M \<Longrightarrow> length p \<le> W \<Longrightarrow> insert_spec (radix_table W) radix_oom M p v t (path_insert p v t)"
  using path_insert_table [of W t M p v] by (cases "path_insert p v t") (simp add: insert_spec_def radix_oom_def)

lemma radix_remove_spec:
  "radix_table W t M \<Longrightarrow> delete_spec (radix_table W) bare_root M p t (radix_remove (path_down (rt_mem t) p (Some (rt_root t))) t)"
  unfolding delete_spec_def bare_root_def by (rule radix_remove_table)

text \<open>A deletion goes down along the bits of the key that the mask covers.\<close>

lemma radix_delete_path:
  "ngx_radix32tree_delete key m t = radix_remove (path_down (rt_mem t) (masked (bits32 key) (bits32 m)) (Some (rt_root t))) t"
  "length key6 = 16 \<Longrightarrow> length m6 = 16 \<Longrightarrow>
    ngx_radix128tree_delete key6 m6 t = radix_remove (path_down (rt_mem t) (masked (addr_bits key6) (addr_bits m6)) (Some (rt_root t))) t"
  using radix32_down_path [of "rt_mem t" key m 0] radix128_down_path [of key6 m6 0 "rt_mem t"]
  by (simp_all add: ngx_radix32tree_delete_def at32_step rest32_def ngx_radix128tree_delete_def at128_step(3) rest128_def)

interpretation radix32: prefix_table "radix_table 32" bare_root radix_oom "\<lambda>_. True" bits32
    ngx_radix32tree_insert ngx_radix32tree_delete ngx_radix32tree_find
proof
  fix t M key m v
  assume t: "radix_table 32 t M"
  define p where "p = masked (bits32 key) (bits32 m)"
  have "length p \<le> 32" using length_masked [of "bits32 key" "bits32 m"] by (simp add: p_def)
  then show "insert_spec (radix_table 32) radix_oom M (masked (bits32 key) (bits32 m)) v t (ngx_radix32tree_insert key m v t)"
    using path_insert_spec [OF t] by (simp add: radix32_insert_path p_def)
  show "delete_spec (radix_table 32) bare_root M (masked (bits32 key) (bits32 m)) t (ngx_radix32tree_delete key m t)"
    unfolding radix_delete_path by (rule radix_remove_spec [OF t])
next
  fix t M key
  assume t: "radix_table 32 t M"
  have b: "bits32 key = map (\<lambda>k. key AND at32 k \<noteq> 0) [0..<32]" by (auto simp: bits32_def at32_bit simp del: upt_rec_numeral)
  show "\<exists>v. ngx_radix32tree_find key t = Some v \<and> longest_match M (bits32 key) v"
    unfolding b
    by (rule find_by_trie [OF t _ refl])
      (use radix32_find_trie [of _ None _ _ key 0] in \<open>simp add: ngx_radix32tree_find_def at32_step\<close>)
qed

interpretation radix128: prefix_table "radix_table 128" bare_root radix_oom "\<lambda>key. length key = 16" addr_bits
    ngx_radix128tree_insert ngx_radix128tree_delete ngx_radix128tree_find
proof
  fix t M v and key m :: bytes
  assume t: "radix_table 128 t M" and k: "length key = 16" "length m = 16"
  define p where "p = masked (addr_bits key) (addr_bits m)"
  have "length p \<le> 128" using length_masked [of "addr_bits key" "addr_bits m"] k by (simp add: p_def)
  then show "insert_spec (radix_table 128) radix_oom M (masked (addr_bits key) (addr_bits m)) v t (ngx_radix128tree_insert key m v t)"
    using path_insert_spec [OF t] by (simp add: radix128_insert_path [OF k] p_def)
  show "delete_spec (radix_table 128) bare_root M (masked (addr_bits key) (addr_bits m)) t (ngx_radix128tree_delete key m t)"
    unfolding radix_delete_path(2) [OF k] by (rule radix_remove_spec [OF t])
next
  fix t M and key :: bytes
  assume t: "radix_table 128 t M" and k: "length key = 16"
  have b: "addr_bits key = map (\<lambda>k. rd key (k div 8) AND at128 k \<noteq> 0) [0..<128]"
    by (rule nth_equalityI) (simp_all add: k addr_bits_nth at128_bit del: upt_rec_numeral)
  show "\<exists>v. ngx_radix128tree_find key t = Some v \<and> longest_match M (addr_bits key) v"
    unfolding b
    by (rule find_by_trie [OF t _ refl])
      (use radix128_find_trie [of _ None _ _ key 0] in \<open>simp add: ngx_radix128tree_find_def at128_step(3)\<close>)
qed

section \<open>A new tree\<close>

lemma insert_no_value:
  assumes "radix_table W t Map.empty" and "32 \<le> W" and "ngx_radix32tree_insert key m NGX_RADIX_NO_VALUE t = (rc, t')"
  shows "radix_table W t' Map.empty"
proof -
  define p where "p = masked (bits32 key) (bits32 m)"
  have "length p \<le> W" using length_masked [of "bits32 key" "bits32 m"] assms(2) by (simp add: p_def)
  from path_insert_spec [OF assms(1) this, of NGX_RADIX_NO_VALUE] assms(3) show ?thesis
    by (auto simp: insert_spec_def radix32_insert_path p_def [symmetric] radix_val_def fun_upd_idem)
qed

lemma prealloc_keys_returns:
  assumes "radix_table W t Map.empty" and "32 \<le> W" and "inc = 0 \<or> unat inc dvd 2 ^ 32" and "unat inc dvd unat key"
  shows "\<exists>r. radix_prealloc_keys inc m key t = Some r \<and> (\<forall>t'. r = Some t' \<longrightarrow> radix_table W t' Map.empty)"
  using assms(1,4)
proof (induction "2 ^ 32 - unat key" arbitrary: key t rule: less_induct)
  case less
  obtain rc u where u: "ngx_radix32tree_insert key m NGX_RADIX_NO_VALUE t = (rc, u)" by fastforce
  note tu = insert_no_value [OF less(2) assms(2) u]
  show ?case
  proof (cases "rc = NGX_OK \<and> key + inc \<noteq> 0")
    case False
    then show ?thesis using u tu by (subst radix_prealloc_keys.simps) auto
  next
    case True
    define K I where "K = unat key" and "I = unat inc"
    have K: "K < 2 ^ 32" unfolding K_def by (rule order_less_le_trans [OF unsigned_less]) simp
    have I0: "I \<noteq> 0"
    proof
      assume "I = 0"
      then have "inc = 0" "key = 0" using less(3) by (simp_all add: I_def unat_eq_0)
      then show False using True by simp
    qed
    have "K + I \<le> 2 ^ 32"
    proof -
      have "I dvd K" "I dvd 2 ^ 32" using less(3) assms(3) I0 by (auto simp: K_def I_def)
      then obtain a b where ab: "K = I * a" "2 ^ 32 = I * b" unfolding dvd_def by blast
      then have "a < b" using K I0 by (metis mult_less_cancel1)
      then have "I * Suc a \<le> I * b" by (intro mult_le_mono) auto
      then show ?thesis using ab by simp
    qed
    moreover have "K + I \<noteq> 2 ^ 32"
    proof
      assume "K + I = 2 ^ 32"
      then have "word_of_nat (K + I) = (0 :: 32 word)" by simp
      then show False using True by (simp add: K_def I_def)
    qed
    ultimately have lt: "K + I < 2 ^ 32" by simp
    then have un: "unat (key + inc) = K + I"
      by (simp add: K_def I_def unat_word_ariths(1))
    have "2 ^ 32 - unat (key + inc) < 2 ^ 32 - unat key" "unat inc dvd unat (key + inc)"
      using un lt I0 less(3) by (simp_all add: K_def I_def)
    from less(1) [OF this(1) tu this(2)] show ?thesis
      using True u by (subst radix_prealloc_keys.simps) simp
  qed
qed

lemma at32_dvd: "at32 n = 0 \<or> unat (at32 n) dvd 2 ^ 32"
proof (cases "n < 32")
  case True
  have "(at32 n) = 2 ^ (31 - n)"
  proof -
    have "(0x80000000 :: 32 word) = 2 ^ (n + (31 - n))" using True by simp
    then show ?thesis unfolding at32_def by (simp only: drop_bit_exp_eq) (use True in simp)
  qed
  moreover have "unat (2 ^ (31 - n) :: 32 word) = 2 ^ (31 - n)"
  proof -
    have "(2 :: nat) ^ (31 - n) < 2 ^ 32" by (rule power_strict_increasing) auto
    then have "unat (word_of_nat (2 ^ (31 - n)) :: 32 word) = 2 ^ (31 - n)"
      by (simp only: unat_of_nat) simp
    then show ?thesis by (simp only: of_nat_power of_nat_numeral)
  qed
  ultimately show ?thesis using le_imp_power_dvd [of "31 - n" 32 "2 :: nat"] by simp
next
  case False
  then show ?thesis using at32_bit(1) [of "- 1" n] by simp
qed

lemma prealloc_returns:
  "radix_table W t Map.empty \<Longrightarrow> 32 \<le> W \<Longrightarrow>
    \<exists>r. radix_prealloc n m (at32 i) t = Some r \<and> (\<forall>t'. r = Some t' \<longrightarrow> radix_table W t' Map.empty)"
proof (induction n arbitrary: m i t)
  case (Suc n)
  define m' where "m' = drop_bit (Suc 0) m OR 0x80000000"
  obtain r where r: "radix_prealloc_keys (at32 i) m' 0 t = Some r" "\<forall>t'. r = Some t' \<longrightarrow> radix_table W t' Map.empty"
    using prealloc_keys_returns [OF Suc(2,3) at32_dvd, of i 0 m'] by auto
  show ?case
  proof (cases r)
    case None
    then show ?thesis using r(1) by (simp add: m'_def)
  next
    case (Some u)
    then show ?thesis using r Suc(1) [of u m' "Suc i"] Suc(3) by (simp add: m'_def [symmetric] at32_step Let_def)
  qed
qed simp

lemma new_tree:
  assumes "distinct (concat (map (\<lambda>page. page_nodes page pagesize) pool))" and "node_size \<le> pagesize"
    and "ngx_radix_alloc \<lparr>rt_mem = mem, rt_root = 0, rt_free = None, rt_start = 0, rt_size = 0, rt_pool = pool, rt_pagesize = pagesize\<rparr> = Some (root, t)"
  shows "radix_table W (set_node root (\<lambda>n. n\<lparr>n_right := None, n_left := None, n_parent := None, n_value := NGX_RADIX_NO_VALUE\<rparr>) (t\<lparr>rt_root := root\<rparr>)) Map.empty"
proof -
  define t0 where "t0 = \<lparr>rt_mem = mem, rt_root = 0, rt_free = None, rt_start = 0, rt_size = 0, rt_pool = pool, rt_pagesize = pagesize\<rparr>"
  define u where "u = set_node root (\<lambda>n. n\<lparr>n_right := None, n_left := None, n_parent := None, n_value := NGX_RADIX_NO_VALUE\<rparr>) (t\<lparr>rt_root := root\<rparr>)"
  have f: "free_list (rt_mem t0) (rt_free t0) []" "node_size \<le> rt_pagesize t0" "ngx_radix_alloc t0 = Some (root, t)"
    using assms(2,3) by (simp_all add: t0_def)
  from alloc_some [OF f(3,1,2)] obtain fl where a: "rt_mem t = mem" "rt_pagesize t = pagesize"
    "free_list mem (rt_free t) fl" "avail t0 = root # fl @ avail t" by (auto simp: t0_def)
  have av: "avail t0 = concat (map (\<lambda>page. page_nodes page pagesize) pool)"
    by (simp add: avail_def t0_def node_size_def)
  have fl: "fl = []" using f(3) a(3) by (cases fl) (auto simp: ngx_radix_alloc_def t0_def Let_def split: if_splits list.splits)
  have "avail (t\<lparr>rt_root := root\<rparr>) = avail t" by (simp add: avail_def)
  then have "radix_repr u (leaf root) []"
    using a fl assms(1,2) by (simp add: radix_repr_def u_def leaf_def av [symmetric])
  moreover have "look (leaf root) = Map.empty"
  proof
    fix p show "look (leaf root) p = None" by (cases p) (simp_all add: look_def leaf_def top_value_def)
  qed
  moreover have "p \<in> paths (leaf root) \<Longrightarrow> length p \<le> W" for p by (cases p) (simp_all add: paths_def leaf_def)
  ultimately show ?thesis unfolding radix_table_def u_def [symmetric] by (intro exI [of _ "leaf root"] exI [of _ "[]"]) auto
qed

lemma radix_create_table:
  assumes "distinct (concat (map (\<lambda>page. page_nodes page pagesize) pool))" and "node_size \<le> pagesize" and "32 \<le> W"
  shows "\<exists>r. ngx_radix_tree_create mem pool pagesize preallocate = Some r \<and> (\<forall>t. r = Some t \<longrightarrow> radix_table W t Map.empty)"
proof (cases "ngx_radix_alloc \<lparr>rt_mem = mem, rt_root = 0, rt_free = None, rt_start = 0, rt_size = 0, rt_pool = pool, rt_pagesize = pagesize\<rparr>")
  case None
  then show ?thesis by (simp add: ngx_radix_tree_create_def)
next
  case (Some r)
  obtain root t where r: "r = (root, t)" by fastforce
  note nt = new_tree [OF assms(1,2) Some [unfolded r], of W]
  show ?thesis
    unfolding ngx_radix_tree_create_def Some r using prealloc_returns [OF nt assms(3), of _ 0 0]
    by (simp add: at32_step(2) Let_def split: option.split)
qed

section \<open>Properties\<close>

text \<open>A tree of one node.\<close>

definition tree0 :: ngx_radix_tree where
  "tree0 = \<lparr>rt_mem = (\<lambda>_. \<lparr>n_right = None, n_left = None, n_parent = None, n_value = NGX_RADIX_NO_VALUE\<rparr>),
     rt_root = 0, rt_free = None, rt_start = 32, rt_size = 288, rt_pool = [], rt_pagesize = 320\<rparr>"

lemma tree0_table: "32 \<le> W \<Longrightarrow> radix_table W tree0 Map.empty"
proof -
  assume W: "32 \<le> W"
  define mem where "mem = (\<lambda>_ :: addr. \<lparr>n_right = None, n_left = None, n_parent = None, n_value = NGX_RADIX_NO_VALUE\<rparr>)"
  have "distinct (concat (map (\<lambda>page. page_nodes page 320) [0]))"
    by (simp add: page_nodes_def distinct_map inj_on_def node_size_def del: upt_rec_numeral)
  from radix_create_table [OF this _ W, of mem "Some 0"] obtain r where
    r: "ngx_radix_tree_create mem [0] 320 (Some 0) = Some r" "\<forall>t. r = Some t \<longrightarrow> radix_table W t Map.empty"
    by (auto simp: node_size_def)
  have "ngx_radix_tree_create mem [0] 320 (Some 0) = Some (Some tree0)"
    by (simp add: ngx_radix_tree_create_def ngx_radix_alloc_def node_size_def set_node_def tree0_def mem_def fun_upd_idem)
  with r show ?thesis by simp
qed

text \<open>C27: The trees of \<open>ngx_radix_tree.c\<close>, pointers, free list and pages of memory included, are tables of values under
  bit strings, for 32-bit keys and for keys of 16 bytes: an insertion enters the value under the bits of the key that
  the mask covers, or answers \<open>NGX_BUSY\<close> and changes nothing if there is one, or answers \<open>NGX_ERROR\<close> with the table
  unchanged when memory is out; a deletion removes exactly the value under that prefix and keeps the tree
  sound; it dereferences a null pointer exactly if the prefix is empty and the root is the only node. A deletion that succeeds
  takes only nodes on the way to the prefix out of the tree, puts exactly those on the free list, and leaves
  no node but the root on that way that has neither a value nor children.\<close>

theorem radix_tree_refines:
  "(radix_table 32 t M \<longrightarrow>
      insert_spec (radix_table 32) radix_oom M (masked (bits32 key) (bits32 m)) v t (ngx_radix32tree_insert key m v t)
    \<and> delete_spec (radix_table 32) bare_root M (masked (bits32 key) (bits32 m)) t (ngx_radix32tree_delete key m t)
    \<and> (\<forall>t'. ngx_radix32tree_delete key m t = Some (Some (NGX_OK, t')) \<longrightarrow> gives_back (masked (bits32 key) (bits32 m)) t t'))
   \<and> (radix_table 128 t M \<and> length key6 = 16 \<and> length m6 = 16 \<longrightarrow>
      insert_spec (radix_table 128) radix_oom M (masked (addr_bits key6) (addr_bits m6)) v t (ngx_radix128tree_insert key6 m6 v t)
    \<and> delete_spec (radix_table 128) bare_root M (masked (addr_bits key6) (addr_bits m6)) t (ngx_radix128tree_delete key6 m6 t)
    \<and> (\<forall>t'. ngx_radix128tree_delete key6 m6 t = Some (Some (NGX_OK, t')) \<longrightarrow> gives_back (masked (addr_bits key6) (addr_bits m6)) t t'))"
  using radix32.insert_law radix32.delete_law radix128.insert_law radix128.delete_law radix_remove_gives_back radix_delete_path by metis

theorem radix_tree_refines_witness:
  "insert_spec (radix_table 32) radix_oom Map.empty (masked (bits32 0x0a000000) (bits32 0xff000000)) 7 tree0
     (ngx_radix32tree_insert 0x0a000000 0xff000000 7 tree0)"
  using radix_tree_refines [of tree0 Map.empty "0x0a000000" "0xff000000" 7] tree0_table [of 32] by simp

text \<open>\<open>ngx_radix32tree_find\<close> and \<open>ngx_radix128tree_find\<close> return, on every tree that stands for a table, the value
  under the longest prefix of the key that has one, and \<open>NGX_RADIX_NO_VALUE\<close> if none has.\<close>

lemma radix_find_longest:
  "(radix_table 32 t M \<longrightarrow> (\<exists>v. ngx_radix32tree_find key t = Some v \<and> longest_match M (bits32 key) v))
   \<and> (radix_table 128 t M \<and> length key6 = 16 \<longrightarrow> (\<exists>v. ngx_radix128tree_find key6 t = Some v \<and> longest_match M (addr_bits key6) v))"
  using radix32.find_law radix128.find_law by blast

text \<open>C28: \<open>ngx_radix_tree_create\<close> returns, however many levels it allocates in advance: the loop over the keys of a
  level ends when the key wraps to 0. The new tree, if memory lasts, stands for the empty table.\<close>

theorem radix_create_returns:
  assumes "distinct (concat (map (\<lambda>page. page_nodes page pagesize) pool))" and "node_size \<le> pagesize"
  shows "\<exists>r. ngx_radix_tree_create mem pool pagesize preallocate = Some r
    \<and> (\<forall>t. r = Some t \<longrightarrow> radix_table 32 t Map.empty \<and> radix_table 128 t Map.empty)"
  using radix_create_table [OF assms, of 32 mem preallocate] radix_create_table [OF assms, of 128 mem preallocate] by auto

theorem radix_create_returns_witness:
  "\<exists>r. ngx_radix_tree_create (rt_mem tree0) [4096, 8192] 4096 None = Some r
    \<and> (\<forall>t. r = Some t \<longrightarrow> radix_table 32 t Map.empty \<and> radix_table 128 t Map.empty)"
proof -
  have "distinct (page_nodes a 4096)" for a
    by (simp add: page_nodes_def distinct_map inj_on_def node_size_def del: upt_rec_numeral)
  moreover have "set (page_nodes 4096 4096) \<inter> set (page_nodes 8192 4096) = {}"
    by (auto simp: page_nodes_def node_size_def simp del: upt_rec_numeral)
  ultimately have "distinct (concat (map (\<lambda>page. page_nodes page 4096) [4096, 8192]))" by simp
  from radix_create_returns [OF this, of "rt_mem tree0" None] show ?thesis by (simp add: node_size_def)
qed

end
