(* ===== verification/Http_Geo.thy ===== *)
theory Http_Geo
  imports Ngx_Prefix_Table
begin

unbundle bit_operations_syntax

text \<open>
  The geo module with networks (src/http/modules/ngx_http_geo_module.c): the directives of a \<open>geo\<close> block are read as
  networks (\<open>Ngx_Cidr\<close>) and entered into two radix trees (\<open>Ngx_Prefix_Table\<close>), and the variable is looked up there. A
  client of the contract of the trees: the updates are proved once for both families of addresses.
\<close>

section \<open>The directives of a geo block\<close>

record ngx_http_geo_trees =
  geo_tree :: ngx_radix_tree
  geo_tree6 :: ngx_radix_tree

text \<open>One case of \<open>ngx_http_geo_cidr_add\<close>, for a tree with its operations. The result is whether the code
  returns \<open>NGX_CONF_OK\<close>. The old value of a duplicate is searched for a warning only.\<close>

definition geo_replace ::
  "('k \<Rightarrow> 'k \<Rightarrow> 64 word \<Rightarrow> 't \<Rightarrow> ngx_rc \<times> 't) \<Rightarrow> ('k \<Rightarrow> 'k \<Rightarrow> 't \<Rightarrow> (ngx_rc \<times> 't) option option) \<Rightarrow>
   'k \<Rightarrow> 'k \<Rightarrow> 64 word \<Rightarrow> 't \<Rightarrow> (bool \<times> 't) option option" where
  "geo_replace ins del key m v t =
     (case ins key m v t of
        (rc, t) \<Rightarrow>
          if rc = NGX_OK then Some (Some (True, t))
          else if rc = NGX_ERROR then Some (Some (False, t))
          else
            (case del key m t of
               None \<Rightarrow> None
             | Some None \<Rightarrow> Some None
             | Some (Some (rc, t)) \<Rightarrow>
                 if rc = NGX_ERROR then Some (Some (False, t))
                 else (case ins key m v t of (rc, t) \<Rightarrow> Some (Some (rc = NGX_OK, t)))))"






text \<open>The value of the variable for an address, null if \<open>ngx_http_geo_addr\<close> finds none. The address of a Unix domain
  socket is taken for an IPv4 address, which lies at the third byte of the path.\<close>

definition ngx_http_geo_cidr_variable :: "sockaddr option \<Rightarrow> ngx_http_geo_trees \<Rightarrow> 64 word option" where
  "ngx_http_geo_cidr_variable addr tr =
     (case addr of
        None \<Rightarrow> ngx_radix32tree_find INADDR_NONE (geo_tree tr)
      | Some (Sa_in6 p port) \<Rightarrow>
          if IN6_IS_ADDR_V4MAPPED p then
            ngx_radix32tree_find (push_bit 24 (ucast (rd p 12)) + push_bit 16 (ucast (rd p 13)) + push_bit 8 (ucast (rd p 14)) + ucast (rd p 15))
              (geo_tree tr)
          else ngx_radix128tree_find p (geo_tree6 tr)
      | Some (Sa_in a port) \<Rightarrow> ngx_radix32tree_find (htonl a) (geo_tree tr)
      | Some (Sa_unix path) \<Rightarrow> ngx_radix32tree_find (ipv4 (rd path 2) (rd path 3) (rd path 4) (rd path 5)) (geo_tree tr))"

section \<open>Networks as bit strings\<close>

lemma bits32_htonl: "bits32 (htonl a) = addr_bits (in_addr_bytes a)"
proof -
  have "bits32 w = byte_bits (ucast (drop_bit 24 w)) @ byte_bits (ucast (drop_bit 16 w)) @ byte_bits (ucast (drop_bit 8 w)) @ byte_bits (ucast w)" for w :: "32 word"
    by (simp add: bits32_def byte_bits_def upt_rec bit_simps)
  from this [of "htonl a"] have "bits32 (htonl a) = addr_bits (in_addr_bytes (htonl (htonl a)))"
    by (simp add: in_addr_htonl)
  then show ?thesis by (simp only: htonl_htonl)
qed


lemma masked_Nil [simp]: "masked [] ys = []"
  by (cases ys) auto




section \<open>Directives as updates of two tables\<close>

context prefix_table
begin

text \<open>A network that is there already is deleted and entered again.\<close>

lemma replace_law:
  assumes t: "table t M" and k: "ok key" "ok m" and v: "v \<noteq> NGX_RADIX_NO_VALUE" and p: "p = masked (bits key) (bits m)"
  shows "case geo_replace insert delete key m v t of
      None \<Rightarrow> False
    | Some None \<Rightarrow> p = [] \<and> bare t
    | Some (Some (True, t')) \<Rightarrow> table t' (M(p \<mapsto> v))
    | Some (Some (False, t')) \<Rightarrow> out_of_memory t' \<and> (table t' M \<or> table t' (M(p := None)))"
proof -
  obtain rc t1 where i1: "insert key m v t = (rc, t1)" by fastforce
  note law1 = insert_law [OF t k, of v, folded p, unfolded i1 insert_spec_def prod.case]
  show ?thesis
  proof (cases "M p")
    case None
    then have "rc = NGX_OK \<and> table t1 (M(p \<mapsto> v)) \<or> rc = NGX_ERROR \<and> table t1 M \<and> out_of_memory t1"
      using law1 v by (simp add: radix_val_def)
    then show ?thesis by (auto simp: geo_replace_def i1)
  next
    case (Some w)
    then have busy: "rc = NGX_BUSY" "t1 = t" using law1 by simp_all
    note law2 = delete_law [OF t k, folded p, unfolded delete_spec_def]
    show ?thesis
    proof (cases "delete key m t")
      case None
      then show ?thesis using law2 by simp
    next
      case d: (Some r)
      show ?thesis
      proof (cases r)
        case None
        then show ?thesis using d law2 by (simp add: geo_replace_def i1 busy)
      next
        case (Some rt)
        obtain rc2 t2 where rt: "rt = (rc2, t2)" by fastforce
        have t2: "rc2 = NGX_OK" "table t2 (M(p := None))" using law2 d Some rt \<open>M p = Some w\<close> by auto
        obtain rc3 t3 where i3: "insert key m v t2 = (rc3, t3)" by fastforce
        have "rc3 = NGX_OK \<and> table t3 (M(p \<mapsto> v)) \<or> rc3 = NGX_ERROR \<and> table t3 (M(p := None)) \<and> out_of_memory t3"
          using insert_law [OF t2(2) k, of v, folded p] v by (simp add: i3 insert_spec_def radix_val_def)
        then show ?thesis using d Some rt t2(1) by (auto simp: geo_replace_def i1 busy i3)
      qed
    qed
  qed
qed

end

type_synonym geo_maps = "(bool list \<rightharpoonup> 64 word) \<times> (bool list \<rightharpoonup> 64 word)"

definition geo_table :: "ngx_http_geo_trees \<Rightarrow> geo_maps \<Rightarrow> bool" where
  "geo_table tr M \<longleftrightarrow> radix_table 32 (geo_tree tr) (fst M) \<and> radix_table 128 (geo_tree6 tr) (snd M)"


text \<open>The address and the length of the prefix that the text of a network stands for.\<close>

definition network :: "bytes \<Rightarrow> (bytes \<times> nat) option" where
  "network s =
     (case text_addr (takeWhile (\<lambda>c. c \<noteq> SLASH) s) of
        None \<Rightarrow> None
      | Some net \<Rightarrow>
          (case prefix_len net (dropWhile (\<lambda>c. c \<noteq> SLASH) s) of
             None \<Rightarrow> None
           | Some n \<Rightarrow> if n > int (8 * length net) then None else Some (net, nat n)))"












text \<open>Two trees of one node each.\<close>

definition trees0 :: ngx_http_geo_trees where
  "trees0 = \<lparr>geo_tree = tree0, geo_tree6 = tree0\<rparr>"

lemma trees0_table: "geo_table trees0 (Map.empty, Map.empty)"
  using tree0_table by (simp add: geo_table_def trees0_def)


lemma bits32_ipv4: "bits32 (ipv4 a b c d) = addr_bits [a, b, c, d]"
  using bits32_htonl [of "htonl (ipv4 a b c d)"] unfolding htonl_htonl in_addr_htonl ipv4_bytes .

text \<open>C30: The value of a \<open>geo\<close> variable is the one of the longest network that the address of the client is in: for IPv4
  and IPv4-mapped addresses in the first table, for other IPv6 addresses in the second; without an address
  it is the one for 255.255.255.255. The address of a Unix domain socket is not told from an IPv4 address, whose
  bytes are then the third to the sixth byte of the path.\<close>

theorem geo_cidr_variable_longest:
  assumes "geo_table tr M"
  shows "(\<exists>v. ngx_http_geo_cidr_variable None tr = Some v \<and> longest_match (fst M) (replicate 32 True) v)
    \<and> (sa_ok sa \<longrightarrow> (\<exists>v. ngx_http_geo_cidr_variable (Some sa) tr = Some v \<and>
         (case sa of
            Sa_unix path \<Rightarrow> longest_match (fst M) (addr_bits [rd path 2, rd path 3, rd path 4, rd path 5]) v
          | _ \<Rightarrow> longest_match (if length (sa_addr sa) = 4 then fst M else snd M) (addr_bits (sa_addr sa)) v)))"
proof (intro conjI impI)
  have t: "radix_table 32 (geo_tree tr) (fst M)" "radix_table 128 (geo_tree6 tr) (snd M)"
    using assms by (simp_all add: geo_table_def)
  note f = radix32.find_law [OF t(1)]
  have "bits32 INADDR_NONE = replicate 32 True" by code_simp
  then show "\<exists>v. ngx_http_geo_cidr_variable None tr = Some v \<and> longest_match (fst M) (replicate 32 True) v"
    using f [of INADDR_NONE] by (simp add: ngx_http_geo_cidr_variable_def)
  assume ok: "sa_ok sa"
  show "\<exists>v. ngx_http_geo_cidr_variable (Some sa) tr = Some v \<and>
         (case sa of
            Sa_unix path \<Rightarrow> longest_match (fst M) (addr_bits [rd path 2, rd path 3, rd path 4, rd path 5]) v
          | _ \<Rightarrow> longest_match (if length (sa_addr sa) = 4 then fst M else snd M) (addr_bits (sa_addr sa)) v)"
  proof (cases sa)
    case (Sa_in a port)
    then show ?thesis using f [of "htonl a"] by (simp add: ngx_http_geo_cidr_variable_def sa_addr_def bits32_htonl)
  next
    case (Sa_unix path)
    then show ?thesis using f [of "ipv4 (rd path 2) (rd path 3) (rd path 4) (rd path 5)"]
      by (simp add: ngx_http_geo_cidr_variable_def bits32_ipv4 del: addr_bits_simps)
  next
    case (Sa_in6 p port)
    then have l: "length p = 16" using ok by (simp add: sa_ok_def)
    show ?thesis
    proof (cases "IN6_IS_ADDR_V4MAPPED p")
      case False
      then show ?thesis using Sa_in6 l radix128.find_law [OF t(2), of p] by (simp add: ngx_http_geo_cidr_variable_def sa_addr_def)
    next
      case True
      have "drop 12 p = [rd p 12, rd p 13, rd p 14, rd p 15]"
        using l by (intro nth_equalityI) (auto simp: rd_def less_Suc_eq numeral_eq_Suc)
      then show ?thesis using Sa_in6 True f [of "ipv4 (rd p 12) (rd p 13) (rd p 14) (rd p 15)"]
        by (simp add: ngx_http_geo_cidr_variable_def sa_addr_def bits32_ipv4 ipv4_sum del: addr_bits_simps)
    qed
  qed
qed

theorem geo_cidr_variable_longest_witness:
  "\<exists>v. ngx_http_geo_cidr_variable (Some (Sa_in 0x0100000a 80)) trees0 = Some v
     \<and> longest_match Map.empty (addr_bits (in_addr_bytes 0x0100000a)) v"
  using geo_cidr_variable_longest [OF trees0_table, of "Sa_in 0x0100000a 80"] by (simp add: sa_ok_def sa_addr_def)

end
