(* ===== verification/Http_Round_Robin.thy ===== *)
theory Http_Round_Robin
  imports Ngx_Time Ngx_Inet
begin

unbundle bit_operations_syntax

text \<open>
The choice of a server by weighted round robin (http/ngx_http_upstream_round_robin.c): the peers that
the configuration or a resolved name gives, the choice of a peer for a request and its release.
The chain of peers and backup peers is a list; a peer is named by its place in the chain and its index.
Sessions of TLS are left out, and so are the locks of a shared zone: every operation runs as a whole.
\<close>

section \<open>Peers\<close>

text \<open>The weights are signed, the counters unsigned, all of 64 bits; where they may wrap, they are reduced.\<close>

record ngx_http_upstream_rr_peer =
  rr_sockaddr :: sockaddr
  rr_name :: bytes
  rr_server :: bytes
  current_weight :: int
  effective_weight :: int
  rr_weight :: int
  conns :: int
  max_conns :: int
  fails :: int
  accessed :: int
  checked :: int
  max_fails :: int
  fail_timeout :: int
  rr_down :: bool

record ngx_http_upstream_rr_peers =
  rr_number :: nat
  total_weight :: int
  rr_single :: bool
  rr_weighted :: bool
  rr_peers :: "ngx_http_upstream_rr_peer list"

text \<open>An upstream: its peers, and the backup peers behind \<open>next\<close>.\<close>

type_synonym rr_upstream = "ngx_http_upstream_rr_peers list"

text \<open>The state of a request: \<open>peers\<close> is the place in the chain of peers, \<open>current\<close> the place and the index of the
  peer, \<open>tried\<close> an array of bits.\<close>

record ngx_http_upstream_rr_peer_data =
  rrp_peers :: nat
  rrp_current :: "(nat \<times> nat) option"
  rrp_tried :: "64 word list"

section \<open>Configuration\<close>

record ngx_http_upstream_server =
  srv_name :: bytes
  srv_addrs :: "(sockaddr \<times> bytes) list"
  srv_weight :: int
  srv_max_conns :: int
  srv_max_fails :: int
  srv_fail_timeout :: int
  srv_down :: bool
  srv_backup :: bool

definition rr_server_peers :: "ngx_http_upstream_server \<Rightarrow> ngx_http_upstream_rr_peer list" where
  "rr_server_peers s =
     map (\<lambda>(sa, name).
       \<lparr>rr_sockaddr = sa, rr_name = name, rr_server = srv_name s,
        current_weight = 0, effective_weight = srv_weight s, rr_weight = srv_weight s,
        conns = 0, max_conns = srv_max_conns s, fails = 0, accessed = 0, checked = 0,
        max_fails = srv_max_fails s, fail_timeout = srv_fail_timeout s, rr_down = srv_down s\<rparr>) (srv_addrs s)"

text \<open>The peers of the servers that are backup servers or not; \<open>single\<close> is cleared when there are backup servers.\<close>

definition rr_group :: "bool \<Rightarrow> ngx_http_upstream_server list \<Rightarrow> ngx_http_upstream_rr_peers" where
  "rr_group backup servers =
     (let servers = filter (\<lambda>s. srv_backup s = backup) servers;
          n = sum_list (map (\<lambda>s. length (srv_addrs s)) servers);
          w = u64 (sum_list (map (\<lambda>s. int (length (srv_addrs s)) * srv_weight s) servers))
      in \<lparr>rr_number = n, total_weight = w, rr_single = (n = 1), rr_weighted = (w \<noteq> int n),
          rr_peers = concat (map rr_server_peers servers)\<rparr>)"

definition ngx_http_upstream_init_round_robin :: "ngx_http_upstream_server list \<Rightarrow> rr_upstream option" where
  "ngx_http_upstream_init_round_robin servers =
     (let peers = rr_group False servers; backup = rr_group True servers in
      if rr_number peers = 0 then None
      else if rr_number backup = 0 then Some [peers]
      else Some [peers\<lparr>rr_single := False\<rparr>, backup\<lparr>rr_single := False\<rparr>])"

text \<open>An upstream that is defined by its addresses only, at configuration time or by a name that was resolved.\<close>

definition rr_plain_peer :: "sockaddr \<times> bytes \<Rightarrow> ngx_http_upstream_rr_peer" where
  "rr_plain_peer a =
     \<lparr>rr_sockaddr = fst a, rr_name = snd a, rr_server = [],
      current_weight = 0, effective_weight = 1, rr_weight = 1,
      conns = 0, max_conns = 0, fails = 0, accessed = 0, checked = 0,
      max_fails = 1, fail_timeout = 10, rr_down = False\<rparr>"

definition rr_plain_group :: "(sockaddr \<times> bytes) list \<Rightarrow> ngx_http_upstream_rr_peers" where
  "rr_plain_group addrs =
     \<lparr>rr_number = length addrs, total_weight = int (length addrs), rr_single = (length addrs = 1), rr_weighted = False,
      rr_peers = map rr_plain_peer addrs\<rparr>"

text \<open>The part of \<open>ngx_http_upstream_init_round_robin\<close> for an upstream without servers, given what
  \<open>ngx_inet_resolve_host\<close> answers for its host and port.\<close>

definition rr_implicit :: "16 word \<Rightarrow> (sockaddr \<times> bytes) list option \<Rightarrow> rr_upstream option" where
  "rr_implicit port resolved =
     (if port = 0 then None
      else case resolved of None \<Rightarrow> None | Some addrs \<Rightarrow> Some [rr_plain_group addrs])"

text \<open>The peers of \<open>ngx_http_upstream_create_round_robin_peer\<close>: one address that is known, or the addresses of a name with the port.\<close>

record ngx_http_upstream_resolved =
  ur_host :: bytes
  ur_name :: "bytes option"
  ur_port :: "16 word"
  ur_naddrs :: nat
  ur_addrs :: "sockaddr list"
  ur_sockaddr :: "sockaddr option"

definition NGX_SOCKADDR_STRLEN :: nat where "NGX_SOCKADDR_STRLEN = 5 + SUN_PATH_SIZE"

definition rr_resolved_group :: "ngx_http_upstream_resolved \<Rightarrow> ngx_http_upstream_rr_peers" where
  "rr_resolved_group ur =
     \<lparr>rr_number = ur_naddrs ur, total_weight = 0, rr_single = (ur_naddrs ur = 1), rr_weighted = False,
      rr_peers =
        (case ur_sockaddr ur of
           Some sa \<Rightarrow> [rr_plain_peer (sa, case ur_name ur of Some name \<Rightarrow> name | None \<Rightarrow> ur_host ur)]
         | None \<Rightarrow>
             map (\<lambda>a. let sa = ngx_inet_set_port a (ur_port ur) in rr_plain_peer (sa, ngx_sock_ntop sa NGX_SOCKADDR_STRLEN True))
               (take (ur_naddrs ur) (ur_addrs ur)))\<rparr>"

definition uintptr_bits :: nat where "uintptr_bits = 64"

definition rr_words :: "nat \<Rightarrow> nat" where
  "rr_words n = (n + (uintptr_bits - 1)) div uintptr_bits"

definition ngx_http_upstream_create_round_robin_peer ::
  "ngx_http_upstream_resolved \<Rightarrow> rr_upstream \<times> ngx_http_upstream_rr_peer_data" where
  "ngx_http_upstream_create_round_robin_peer ur =
     (let peers = rr_resolved_group ur; n = rr_number peers
      in ([peers], \<lparr>rrp_peers = 0, rrp_current = None, rrp_tried = replicate (if n \<le> uintptr_bits then 1 else rr_words n) 0\<rparr>))"

definition ngx_http_upstream_init_round_robin_peer :: "rr_upstream \<Rightarrow> ngx_http_upstream_rr_peer_data" where
  "ngx_http_upstream_init_round_robin_peer us =
     (let n = rr_number (us ! 0);
          n = (if length us > 1 \<and> rr_number (us ! 1) > n then rr_number (us ! 1) else n)
      in \<lparr>rrp_peers = 0, rrp_current = None, rrp_tried = replicate (if n \<le> uintptr_bits then 1 else rr_words n) 0\<rparr>)"

definition ngx_http_upstream_tries :: "rr_upstream \<Rightarrow> nat" where
  "ngx_http_upstream_tries us = rr_number (us ! 0) + (if length us > 1 then rr_number (us ! 1) else 0)"

section \<open>Choosing a peer\<close>

definition is_tried :: "64 word list \<Rightarrow> nat \<Rightarrow> bool" where
  "is_tried tried i \<longleftrightarrow> tried ! (i div uintptr_bits) AND push_bit (i mod uintptr_bits) 1 \<noteq> 0"

definition set_tried :: "64 word list \<Rightarrow> nat \<Rightarrow> 64 word list" where
  "set_tried tried p =
     (let n = p div uintptr_bits; m = push_bit (p mod uintptr_bits) 1 in tried[n := tried ! n OR m])"

text \<open>The reasons to pass over a peer.\<close>

definition rr_unusable :: "int \<Rightarrow> ngx_http_upstream_rr_peer \<Rightarrow> bool" where
  "rr_unusable now peer \<longleftrightarrow>
     rr_down peer
     \<or> (max_fails peer \<noteq> 0 \<and> fails peer \<ge> max_fails peer \<and> s64 (now - checked peer) \<le> fail_timeout peer)
     \<or> (max_conns peer \<noteq> 0 \<and> conns peer \<ge> max_conns peer)"

text \<open>The loop over the peers: the best one so far with its weight, and the total.\<close>

fun rr_scan :: "int \<Rightarrow> 64 word list \<Rightarrow> nat \<Rightarrow> (nat \<times> int) option \<Rightarrow> int \<Rightarrow> ngx_http_upstream_rr_peer list \<Rightarrow>
    (nat \<times> int) option \<times> int \<times> ngx_http_upstream_rr_peer list" where
  "rr_scan now tried i best tot [] = (best, tot, [])"
| "rr_scan now tried i best tot (peer # ps) =
     (if is_tried tried i \<or> rr_unusable now peer then
        (case rr_scan now tried (i + 1) best tot ps of (best, tot, ps) \<Rightarrow> (best, tot, peer # ps))
      else
        let cw = s64 (current_weight peer + effective_weight peer);
            tot = s64 (tot + effective_weight peer);
            ew = (if effective_weight peer < rr_weight peer then effective_weight peer + 1 else effective_weight peer);
            peer = peer\<lparr>current_weight := cw, effective_weight := ew\<rparr>;
            best = (case best of None \<Rightarrow> Some (i, cw) | Some (p, bw) \<Rightarrow> if cw > bw then Some (i, cw) else best)
        in case rr_scan now tried (i + 1) best tot ps of (best, tot, ps) \<Rightarrow> (best, tot, peer # ps))"

definition ngx_http_upstream_get_peer ::
  "int \<Rightarrow> 64 word list \<Rightarrow> ngx_http_upstream_rr_peer list \<Rightarrow> nat option \<times> 64 word list \<times> ngx_http_upstream_rr_peer list" where
  "ngx_http_upstream_get_peer now tried ps =
     (case rr_scan now tried 0 None 0 ps of
        (None, tot, ps) \<Rightarrow> (None, tried, ps)
      | (Some (p, bw), tot, ps) \<Rightarrow>
          let best = ps ! p;
              best = best\<lparr>current_weight := s64 (current_weight best - tot)\<rparr>;
              best = (if s64 (now - checked best) > fail_timeout best then best\<lparr>checked := now\<rparr> else best)
          in (Some p, set_tried tried p, ps[p := best]))"

text \<open>\<open>ngx_http_upstream_get_round_robin_peer\<close>, from a place in the chain of peers on. The locks are taken by one process
  only.\<close>

definition rr_use :: "nat \<Rightarrow> ngx_http_upstream_rr_peers \<Rightarrow> ngx_http_upstream_rr_peers" where
  "rr_use p peers =
     peers\<lparr>rr_peers := (rr_peers peers)[p := (rr_peers peers ! p)\<lparr>conns := u64 (conns (rr_peers peers ! p) + 1)\<rparr>]\<rparr>"

definition rr_take :: "int \<Rightarrow> ngx_http_upstream_rr_peers \<Rightarrow> ngx_http_upstream_rr_peer_data \<Rightarrow>
    bool \<times> ngx_http_upstream_rr_peers \<times> ngx_http_upstream_rr_peer_data" where
  "rr_take now peers rrp =
     (if rr_single peers then
        let peer = rr_peers peers ! 0 in
        if rr_down peer then (False, peers, rrp)
        else if max_conns peer \<noteq> 0 \<and> conns peer \<ge> max_conns peer then (False, peers, rrp)
        else (True, rr_use 0 peers, rrp\<lparr>rrp_current := Some (rrp_peers rrp, 0)\<rparr>)
      else
        case ngx_http_upstream_get_peer now (rrp_tried rrp) (rr_peers peers) of
          (None, tried, ps) \<Rightarrow> (False, peers\<lparr>rr_peers := ps\<rparr>, rrp)
        | (Some p, tried, ps) \<Rightarrow>
            (True, rr_use p (peers\<lparr>rr_peers := ps\<rparr>), rrp\<lparr>rrp_current := Some (rrp_peers rrp, p), rrp_tried := tried\<rparr>))"

definition rr_backup :: "ngx_http_upstream_rr_peers \<Rightarrow> ngx_http_upstream_rr_peer_data \<Rightarrow> ngx_http_upstream_rr_peer_data" where
  "rr_backup backup rrp =
     (let n = rr_words (rr_number backup)
      in rrp\<lparr>rrp_peers := rrp_peers rrp + 1, rrp_tried := replicate n 0 @ drop n (rrp_tried rrp)\<rparr>)"

fun rr_get :: "int \<Rightarrow> rr_upstream \<Rightarrow> ngx_http_upstream_rr_peer_data \<Rightarrow> ngx_rc \<times> rr_upstream \<times> ngx_http_upstream_rr_peer_data" where
  "rr_get now [] rrp = (NGX_BUSY, [], rrp)"
| "rr_get now (peers # us) rrp =
     (case rr_take now peers rrp of
        (True, peers, rrp) \<Rightarrow> (NGX_OK, peers # us, rrp)
      | (False, peers, rrp) \<Rightarrow>
          (case us of
             [] \<Rightarrow> (NGX_BUSY, peers # us, rrp)
           | backup # _ \<Rightarrow> (case rr_get now us (rr_backup backup rrp) of (rc, us, rrp) \<Rightarrow> (rc, peers # us, rrp))))"

definition ngx_http_upstream_get_round_robin_peer ::
  "int \<Rightarrow> rr_upstream \<Rightarrow> ngx_http_upstream_rr_peer_data \<Rightarrow> ngx_rc \<times> rr_upstream \<times> ngx_http_upstream_rr_peer_data" where
  "ngx_http_upstream_get_round_robin_peer now us rrp =
     (case rr_get now (drop (rrp_peers rrp) us) rrp of (rc, us', rrp') \<Rightarrow> (rc, take (rrp_peers rrp) us @ us', rrp'))"

section \<open>Releasing a peer\<close>

text \<open>Whether the state has \<open>NGX_PEER_FAILED\<close>, and \<open>pc->tries\<close>.\<close>

definition rr_release :: "int \<Rightarrow> bool \<Rightarrow> ngx_http_upstream_rr_peer \<Rightarrow> ngx_http_upstream_rr_peer" where
  "rr_release now failed peer =
     (let peer =
        (if failed then
           let peer = peer\<lparr>fails := u64 (fails peer + 1), accessed := now, checked := now\<rparr>;
               ew = (if max_fails peer \<noteq> 0 then s64 (effective_weight peer - u64 (rr_weight peer) div max_fails peer) else effective_weight peer)
           in peer\<lparr>effective_weight := (if ew < 0 then 0 else ew)\<rparr>
         else if accessed peer < checked peer then peer\<lparr>fails := 0\<rparr> else peer)
      in peer\<lparr>conns := u64 (conns peer - 1)\<rparr>)"

definition rr_update :: "nat \<Rightarrow> (ngx_http_upstream_rr_peer \<Rightarrow> ngx_http_upstream_rr_peer) \<Rightarrow> ngx_http_upstream_rr_peers \<Rightarrow> ngx_http_upstream_rr_peers" where
  "rr_update p f peers = peers\<lparr>rr_peers := (rr_peers peers)[p := f (rr_peers peers ! p)]\<rparr>"

definition ngx_http_upstream_free_round_robin_peer ::
  "int \<Rightarrow> bool \<Rightarrow> rr_upstream \<Rightarrow> ngx_http_upstream_rr_peer_data \<Rightarrow> nat \<Rightarrow> rr_upstream \<times> nat" where
  "ngx_http_upstream_free_round_robin_peer now failed us rrp tries =
     (case rrp_current rrp of
        None \<Rightarrow> (us, tries)
      | Some (g, p) \<Rightarrow>
          if rr_single (us ! rrp_peers rrp) then
            (us[g := rr_update p (\<lambda>peer. peer\<lparr>conns := u64 (conns peer - 1)\<rparr>) (us ! g)], 0)
          else
            (us[g := rr_update p (rr_release now failed) (us ! g)], if tries \<noteq> 0 then tries - 1 else tries))"

section \<open>The choice\<close>

lemma s64_mod: "s64 x = (x + 2 ^ 63) mod 2 ^ 64 - 2 ^ 63"
  by (simp add: s64_def signed_take_bit_eq_take_bit_shift take_bit_eq_mod)

lemma s64_range: "- (2 ^ 63) \<le> s64 x" "s64 x < 2 ^ 63"
  by (simp_all add: s64_mod)

lemma s64_dvd: "2 ^ 64 dvd s64 x - x"
proof -
  have "s64 x - x = - ((x + 2 ^ 63) - (x + 2 ^ 63) mod 2 ^ 64)" unfolding s64_mod by (simp add: algebra_simps)
  then show ?thesis by (metis dvd_minus_iff dvd_minus_mod)
qed

lemma s64_cong:
  assumes "2 ^ 64 dvd x - y"
  shows "s64 x = s64 y"
proof -
  have "(x + 2 ^ 63) mod 2 ^ 64 = (y + 2 ^ 63) mod 2 ^ 64" using assms unfolding mod_eq_dvd_iff add_diff_cancel_right .
  then show ?thesis unfolding s64_mod by (rule arg_cong)
qed

lemma s64_add [simp]: "s64 (s64 x + y) = s64 (x + y)" "s64 (y + s64 x) = s64 (y + x)" "s64 (y - s64 x) = s64 (y - x)" "s64 (s64 x - y) = s64 (x - y)"
  using s64_dvd [of x] by (auto intro!: s64_cong simp: dvd_diff_commute)

definition rr_skip :: "int \<Rightarrow> 64 word list \<Rightarrow> nat \<Rightarrow> ngx_http_upstream_rr_peer \<Rightarrow> bool" where
  "rr_skip now tried i peer \<longleftrightarrow> is_tried tried i \<or> rr_unusable now peer"

definition rr_bump :: "ngx_http_upstream_rr_peer \<Rightarrow> ngx_http_upstream_rr_peer" where
  "rr_bump peer = peer\<lparr>current_weight := s64 (current_weight peer + effective_weight peer),
     effective_weight := (if effective_weight peer < rr_weight peer then effective_weight peer + 1 else effective_weight peer)\<rparr>"

definition rr_share :: "int \<Rightarrow> 64 word list \<Rightarrow> nat \<Rightarrow> ngx_http_upstream_rr_peer \<Rightarrow> int" where
  "rr_share now tried i peer = (if rr_skip now tried i peer then 0 else effective_weight peer)"

definition rr_total :: "int \<Rightarrow> 64 word list \<Rightarrow> nat \<Rightarrow> ngx_http_upstream_rr_peer \<Rightarrow> int \<Rightarrow> int" where
  "rr_total now tried i peer tot = (if rr_skip now tried i peer then tot else s64 (tot + effective_weight peer))"

definition rr_visit :: "int \<Rightarrow> 64 word list \<Rightarrow> nat \<Rightarrow> ngx_http_upstream_rr_peer \<Rightarrow> ngx_http_upstream_rr_peer" where
  "rr_visit now tried i peer = (if rr_skip now tried i peer then peer else rr_bump peer)"

definition rr_better :: "int \<Rightarrow> 64 word list \<Rightarrow> nat \<Rightarrow> ngx_http_upstream_rr_peer \<Rightarrow> (nat \<times> int) option \<Rightarrow> (nat \<times> int) option" where
  "rr_better now tried i peer best =
     (let cw = current_weight (rr_bump peer) in
      if rr_skip now tried i peer then best
      else case best of None \<Rightarrow> Some (i, cw) | Some (p, bw) \<Rightarrow> if cw > bw then Some (i, cw) else best)"

lemma rr_scan_step:
  "rr_scan now tried i best tot (peer # ps) =
    (case rr_scan now tried (Suc i) (rr_better now tried i peer best) (rr_total now tried i peer tot) ps of
       (best, tot, ps) \<Rightarrow> (best, tot, rr_visit now tried i peer # ps))"
  by (cases best; cases "rr_skip now tried i peer")
    (simp_all add: rr_skip_def rr_visit_def rr_total_def rr_bump_def rr_better_def Let_def)

lemma rr_scan_peers:
  "rr_scan now tried i best tot ps = (best', tot', ps') \<Longrightarrow>
    ps' = map (\<lambda>(j, peer). rr_visit now tried j peer) (enumerate i ps)
    \<and> s64 tot' = s64 (tot + sum_list (map (\<lambda>(j, peer). rr_share now tried j peer) (enumerate i ps)))"
proof (induction ps arbitrary: i best tot best' tot' ps')
  case (Cons peer ps)
  obtain qs where qs: "rr_scan now tried (Suc i) (rr_better now tried i peer best) (rr_total now tried i peer tot) ps = (best', tot', qs)"
    "ps' = rr_visit now tried i peer # qs"
    using Cons(2) unfolding rr_scan_step by (auto split: prod.splits)
  have "s64 (rr_total now tried i peer tot + y) = s64 (tot + (rr_share now tried i peer + y))" for y
    by (simp add: rr_total_def rr_share_def add.assoc)
  with Cons(1) [OF qs(1)] qs(2) show ?case by simp
qed simp

lemma rr_scan_best:
  assumes "rr_scan now tried i best tot ps = (best', tot', ps')"
  shows "(best' = None \<longleftrightarrow> best = None \<and> (\<forall>j<length ps. rr_skip now tried (i + j) (ps ! j)))
    \<and> (\<forall>p bw. best' = Some (p, bw) \<longrightarrow>
         (best = Some (p, bw) \<or> (\<exists>j<length ps. p = i + j \<and> \<not> rr_skip now tried p (ps ! j) \<and> bw = current_weight (rr_bump (ps ! j))))
         \<and> (\<forall>j<length ps. \<not> rr_skip now tried (i + j) (ps ! j) \<longrightarrow> current_weight (rr_bump (ps ! j)) \<le> bw)
         \<and> (\<forall>q b. best = Some (q, b) \<longrightarrow> b \<le> bw))"
  using assms
proof (induction ps arbitrary: i best tot tot' ps')
  case (Cons peer ps)
  obtain qs where "rr_scan now tried (Suc i) (rr_better now tried i peer best) (rr_total now tried i peer tot) ps = (best', tot', qs)"
    using Cons(2) unfolding rr_scan_step by (auto split: prod.splits)
  note IH = Cons(1) [OF this]
  have all: "(\<forall>j<length (peer # ps). P j) \<longleftrightarrow> P 0 \<and> (\<forall>j<length ps. P (Suc j))" for P
    by (simp add: All_less_Suc2)
  have ex: "(\<exists>j<length (peer # ps). P j) \<longleftrightarrow> P 0 \<or> (\<exists>j<length ps. P (Suc j))" for P
    by (simp add: Ex_less_Suc2)
  show ?case
    unfolding all ex using IH
    by (cases best; cases "rr_skip now tried i peer")
      (fastforce simp: rr_better_def Let_def split: if_splits)+
qed auto

lemma get_peer_none:
  "ngx_http_upstream_get_peer now tried ps = (None, tried', ps') \<Longrightarrow>
    tried' = tried \<and> ps' = ps \<and> (\<forall>i<length ps. rr_skip now tried i (ps ! i))"
proof -
  assume g: "ngx_http_upstream_get_peer now tried ps = (None, tried', ps')"
  obtain best tot qs where s: "rr_scan now tried 0 None 0 ps = (best, tot, qs)" by (cases "rr_scan now tried 0 None 0 ps")
  have b: "best = None" "tried' = tried" "ps' = qs"
    using g s by (auto simp: ngx_http_upstream_get_peer_def Let_def split: option.splits prod.splits)
  then have skip: "\<forall>i<length ps. rr_skip now tried i (ps ! i)" using rr_scan_best [OF s] by simp
  have "qs = ps"
    using rr_scan_peers [OF s] skip by (auto simp: list_eq_iff_nth_eq nth_enumerate_eq rr_visit_def)
  with b skip show ?thesis by simp
qed

lemma get_peer_some:
  assumes "ngx_http_upstream_get_peer now tried ps = (Some p, tried', ps')"
  shows "p < length ps" "\<not> rr_skip now tried p (ps ! p)" "tried' = set_tried tried p" "length ps' = length ps"
    and "\<And>j. j < length ps \<Longrightarrow> \<not> rr_skip now tried j (ps ! j) \<Longrightarrow>
      current_weight (rr_bump (ps ! j)) \<le> current_weight (rr_bump (ps ! p))"
    and "\<And>j. j < length ps \<Longrightarrow> j \<noteq> p \<Longrightarrow> ps' ! j = rr_visit now tried j (ps ! j)"
    and "\<exists>c. ps' ! p = (rr_bump (ps ! p))\<lparr>current_weight := s64 (current_weight (rr_bump (ps ! p))
        - (\<Sum>j<length ps. rr_share now tried j (ps ! j))), checked := c\<rparr> \<and> (c = now \<or> c = checked (ps ! p))"
proof -
  obtain best tot qs where s: "rr_scan now tried 0 None 0 ps = (best, tot, qs)" by (cases "rr_scan now tried 0 None 0 ps")
  obtain bw where b: "best = Some (p, bw)" and t: "tried' = set_tried tried p"
    and ps': "ps' = qs[p := (let best = (qs ! p)\<lparr>current_weight := s64 (current_weight (qs ! p) - tot)\<rparr>
        in if s64 (now - checked best) > fail_timeout best then best\<lparr>checked := now\<rparr> else best)]"
    using assms s by (auto simp: ngx_http_upstream_get_peer_def Let_def split: option.splits prod.splits)
  have qs: "qs = map (\<lambda>(j, peer). rr_visit now tried j peer) (enumerate 0 ps)"
    "s64 tot = s64 (sum_list (map (\<lambda>(j, peer). rr_share now tried j peer) (enumerate 0 ps)))" using rr_scan_peers [OF s] by simp_all
  have q: "length qs = length ps" "\<And>j. j < length ps \<Longrightarrow> qs ! j = rr_visit now tried j (ps ! j)"
    by (simp_all add: qs nth_enumerate_eq)
  have "sum_list (map (\<lambda>(j, peer). rr_share now tried j peer) (enumerate 0 ps)) = (\<Sum>j<length ps. rr_share now tried j (ps ! j))"
    unfolding sum_list_sum_nth by (simp add: nth_enumerate_eq atLeast0LessThan)
  then have tot: "s64 (x - tot) = s64 (x - (\<Sum>j<length ps. rr_share now tried j (ps ! j)))" for x using qs(2) by (metis s64_add(3))
  note best = rr_scan_best [OF s, THEN conjunct2, rule_format, OF b]
  show p: "p < length ps" and u: "\<not> rr_skip now tried p (ps ! p)" using best by auto
  show "tried' = set_tried tried p" by (rule t)
  show "length ps' = length ps" by (simp add: ps' q)
  show "current_weight (rr_bump (ps ! j)) \<le> current_weight (rr_bump (ps ! p))" if "j < length ps" "\<not> rr_skip now tried j (ps ! j)" for j
    using best that by auto
  show "ps' ! j = rr_visit now tried j (ps ! j)" if "j < length ps" "j \<noteq> p" for j using that by (simp add: ps' q)
  have qp: "qs ! p = rr_bump (ps ! p)" using q(2) [OF p] u by (simp add: rr_visit_def)
  have upd: "r\<lparr>current_weight := x\<rparr> = r\<lparr>current_weight := x, checked := checked r\<rparr>" for r :: ngx_http_upstream_rr_peer and x
    by (cases r) simp
  have ck: "checked (rr_bump r) = checked r" for r by (simp add: rr_bump_def)
  show "\<exists>c. ps' ! p = (rr_bump (ps ! p))\<lparr>current_weight := s64 (current_weight (rr_bump (ps ! p))
        - (\<Sum>j<length ps. rr_share now tried j (ps ! j))), checked := c\<rparr> \<and> (c = now \<or> c = checked (ps ! p))"
  proof (cases "s64 (now - checked (ps ! p)) > fail_timeout (rr_bump (ps ! p))")
    case True
    then show ?thesis using p by (intro exI [of _ now]) (simp add: ps' q qp tot Let_def ck)
  next
    case False
    then show ?thesis using p upd [of _ "rr_bump (ps ! p)"]
      by (intro exI [of _ "checked (ps ! p)"]) (simp add: ps' q qp tot Let_def ck)
  qed
qed

section \<open>The peers that were tried\<close>

lemma is_tried_bit: "is_tried tried i = bit (tried ! (i div uintptr_bits)) (i mod uintptr_bits)"
  by (simp add: is_tried_def bit_iff_and_push_bit_not_eq_0)

lemma is_tried_set:
  assumes "p div uintptr_bits < length tried"
  shows "is_tried (set_tried tried p) i \<longleftrightarrow> i = p \<or> is_tried tried i"
proof (cases "i div uintptr_bits = p div uintptr_bits")
  case True
  then have eq: "i mod uintptr_bits = p mod uintptr_bits \<longleftrightarrow> i = p" by (metis div_mult_mod_eq)
  have "p mod uintptr_bits < 64" by (simp add: uintptr_bits_def)
  then show ?thesis using True assms eq
    unfolding is_tried_bit set_tried_def Let_def by (auto simp: bit_or_iff bit_exp_iff)
next
  case False
  then show ?thesis unfolding is_tried_bit set_tried_def Let_def by auto
qed

lemma is_tried_zero: "i div uintptr_bits < n \<Longrightarrow> \<not> is_tried (replicate n 0) i"
  by (simp add: is_tried_bit)

lemma words_enough: "i < n \<Longrightarrow> i div uintptr_bits < (if n \<le> uintptr_bits then 1 else rr_words n)"
proof -
  assume "i < n"
  then have "i div 64 \<le> (n - 1) div 64" by (intro div_le_mono) simp
  moreover have "(n + 63) div 64 = (n - 1) div 64 + 1" if "n > 0"
  proof -
    have "n + 63 = (n - 1) + 64" using that by simp
    then show ?thesis by simp
  qed
  ultimately show ?thesis using \<open>i < n\<close> by (auto simp: uintptr_bits_def rr_words_def)
qed

section \<open>Fairness\<close>

text \<open>A request that takes a peer and releases it with success.\<close>

definition rr_request :: "int \<Rightarrow> rr_upstream \<Rightarrow> (nat \<times> nat) option \<times> rr_upstream" where
  "rr_request now us =
     (case ngx_http_upstream_get_round_robin_peer now us (ngx_http_upstream_init_round_robin_peer us) of
        (rc, us, rrp) \<Rightarrow>
          if rc = NGX_OK then
            (rrp_current rrp, fst (ngx_http_upstream_free_round_robin_peer now False us rrp (ngx_http_upstream_tries us)))
          else (None, us))"

fun rr_run :: "int list \<Rightarrow> rr_upstream \<Rightarrow> (nat \<times> nat) option list \<times> rr_upstream" where
  "rr_run [] us = ([], us)"
| "rr_run (now # ns) us = (case rr_request now us of (c, us) \<Rightarrow> (case rr_run ns us of (cs, us) \<Rightarrow> (c # cs, us)))"

text \<open>A peer that is in use, has not failed too often and has its full weight.\<close>

definition rr_healthy :: "ngx_http_upstream_rr_peer \<Rightarrow> bool" where
  "rr_healthy peer \<longleftrightarrow> \<not> rr_down peer \<and> (max_conns peer = 0 \<or> conns peer < max_conns peer)
     \<and> (max_fails peer = 0 \<or> fails peer < max_fails peer) \<and> 0 \<le> fails peer
     \<and> effective_weight peer = rr_weight peer \<and> 0 < rr_weight peer \<and> 0 \<le> conns peer \<and> conns peer < 2 ^ 64 - 1"

lemma healthy_usable: "rr_healthy peer \<Longrightarrow> \<not> rr_unusable now peer"
  by (auto simp: rr_healthy_def rr_unusable_def)

lemma healthy_bump: "rr_healthy peer \<Longrightarrow> rr_bump peer = peer\<lparr>current_weight := s64 (current_weight peer + rr_weight peer)\<rparr>"
  by (cases peer) (simp add: rr_healthy_def rr_bump_def)

lemma u64_conns: "0 \<le> c \<Longrightarrow> c < 2 ^ 64 - 1 \<Longrightarrow> u64 (u64 (c + 1) - 1) = c"
  by (simp add: u64_def)

lemma rr_request_healthy:
  assumes "\<not> rr_single peers" and "rr_number peers = length (rr_peers peers)" and "rr_peers peers \<noteq> []"
    and "\<And>peer. peer \<in> set (rr_peers peers) \<Longrightarrow> rr_healthy peer"
    and "\<And>j. j < length (rr_peers peers) \<Longrightarrow> - (2 ^ 63) \<le> current_weight (rr_peers peers ! j) + rr_weight (rr_peers peers ! j)
            - (\<Sum>i<length (rr_peers peers). rr_weight (rr_peers peers ! i))
        \<and> current_weight (rr_peers peers ! j) + rr_weight (rr_peers peers ! j) < 2 ^ 63"
  shows "\<exists>p ps'. rr_request now [peers] = (Some (0, p), [peers\<lparr>rr_peers := ps'\<rparr>]) \<and> p < length (rr_peers peers)
    \<and> length ps' = length (rr_peers peers) \<and> (\<forall>peer\<in>set ps'. rr_healthy peer)
    \<and> (\<forall>j<length (rr_peers peers). rr_weight (ps' ! j) = rr_weight (rr_peers peers ! j)
        \<and> current_weight (ps' ! j) = current_weight (rr_peers peers ! j) + rr_weight (rr_peers peers ! j)
            - (if j = p then \<Sum>i<length (rr_peers peers). rr_weight (rr_peers peers ! i) else 0)
        \<and> current_weight (rr_peers peers ! j) + rr_weight (rr_peers peers ! j)
            \<le> current_weight (rr_peers peers ! p) + rr_weight (rr_peers peers ! p))"
proof -
  define ps where "ps = rr_peers peers"
  define tried where "tried = rrp_tried (ngx_http_upstream_init_round_robin_peer [peers])"
  define T where "T = (\<Sum>i<length ps. rr_weight (ps ! i))"
  have tried: "tried = replicate (if length ps \<le> uintptr_bits then 1 else rr_words (length ps)) 0"
    using assms(2) by (simp add: tried_def ps_def ngx_http_upstream_init_round_robin_peer_def)
  have H: "rr_healthy (ps ! i)" if "i < length ps" for i using assms(4) that by (simp add: ps_def)
  have fits: "s64 (current_weight (ps ! j) + rr_weight (ps ! j)) = current_weight (ps ! j) + rr_weight (ps ! j)"
    "s64 (current_weight (ps ! j) + rr_weight (ps ! j) - T) = current_weight (ps ! j) + rr_weight (ps ! j) - T" if j: "j < length ps" for j
  proof -
    have "0 \<le> T" unfolding T_def using H by (intro sum_nonneg) (simp add: rr_healthy_def less_imp_le)
    then show "s64 (current_weight (ps ! j) + rr_weight (ps ! j)) = current_weight (ps ! j) + rr_weight (ps ! j)"
      "s64 (current_weight (ps ! j) + rr_weight (ps ! j) - T) = current_weight (ps ! j) + rr_weight (ps ! j) - T"
      using assms(5) [of j] j by (auto simp: ps_def [symmetric] T_def [symmetric] intro!: s64_id)
  qed
  have skip: "\<not> rr_skip now tried i (ps ! i)" if "i < length ps" for i
    using is_tried_zero [OF words_enough [OF that]] healthy_usable [OF H [OF that]] by (simp add: rr_skip_def tried)
  obtain res tried' qs where g: "ngx_http_upstream_get_peer now tried ps = (res, tried', qs)"
    by (cases "ngx_http_upstream_get_peer now tried ps")
  have "res \<noteq> None" using get_peer_none [of now tried ps tried' qs] g skip [of 0] assms(3) by (auto simp: ps_def)
  then obtain p where g: "ngx_http_upstream_get_peer now tried ps = (Some p, tried', qs)" using g by auto
  note G = get_peer_some [OF g]
  have share: "(\<Sum>j<length ps. rr_share now tried j (ps ! j)) = T"
    unfolding T_def using skip H by (intro sum.cong) (auto simp: rr_share_def rr_healthy_def)
  have qj: "qs ! j = (ps ! j)\<lparr>current_weight := current_weight (ps ! j) + rr_weight (ps ! j)\<rparr>" if "j < length ps" "j \<noteq> p" for j
    using G(6) [OF that] skip [OF that(1)] healthy_bump [OF H [OF that(1)]] fits(1) [OF that(1)] by (simp add: rr_visit_def)
  obtain c where qp: "qs ! p = (ps ! p)\<lparr>current_weight := current_weight (ps ! p) + rr_weight (ps ! p) - T, checked := c\<rparr>"
    using G(7) healthy_bump [OF H [OF G(1)]] fits [OF G(1)] by (auto simp: share)
  define f where "f = (\<lambda>peer :: ngx_http_upstream_rr_peer.
    rr_release now False (peer\<lparr>conns := u64 (conns peer + 1)\<rparr>))"
  define ps' where "ps' = qs[p := f (qs ! p)]"
  have req: "rr_request now [peers] = (Some (0, p), [peers\<lparr>rr_peers := ps'\<rparr>])"
  proof -
    have init: "ngx_http_upstream_init_round_robin_peer [peers] = \<lparr>rrp_peers = 0, rrp_current = None, rrp_tried = tried\<rparr>"
      by (simp add: tried_def ngx_http_upstream_init_round_robin_peer_def Let_def)
    show ?thesis
      unfolding rr_request_def init ngx_http_upstream_get_round_robin_peer_def
      using assms(1) g G(1,4)
      by (simp add: ps_def [symmetric] Let_def rr_take_def rr_use_def ngx_http_upstream_free_round_robin_peer_def rr_update_def ps'_def f_def)
  qed
  have fp: "f (qs ! p) = (qs ! p)\<lparr>fails := fails (f (qs ! p))\<rparr>" "fails (f (qs ! p)) = 0 \<or> fails (f (qs ! p)) = fails (ps ! p)"
    using H [OF G(1)] u64_conns [of "conns (ps ! p)"]
    by (cases "ps ! p"; simp add: f_def rr_release_def qp rr_healthy_def Let_def)+
  have hp: "rr_healthy (f (qs ! p))"
    using H [OF G(1)] fp(2) by (subst fp(1)) (auto simp: qp rr_healthy_def)
  have hj: "rr_healthy (qs ! j)" if "j < length ps" "j \<noteq> p" for j using H [OF that(1)] by (simp add: qj [OF that] rr_healthy_def)
  have heal: "\<forall>peer\<in>set ps'. rr_healthy peer"
    using hp hj G(1,4) by (auto simp: ps'_def in_set_conv_nth nth_list_update)
  have w: "rr_weight (ps' ! j) = rr_weight (ps ! j) \<and> current_weight (ps' ! j) = current_weight (ps ! j) + rr_weight (ps ! j) - (if j = p then T else 0)
      \<and> current_weight (ps ! j) + rr_weight (ps ! j) \<le> current_weight (ps ! p) + rr_weight (ps ! p)" if j: "j < length ps" for j
  proof -
    have "current_weight (ps ! j) + rr_weight (ps ! j) \<le> current_weight (ps ! p) + rr_weight (ps ! p)"
      using G(5) [OF j skip [OF j]] healthy_bump [OF H [OF j]] healthy_bump [OF H [OF G(1)]] fits(1) [OF j] fits(1) [OF G(1)] by simp
    moreover have "rr_weight (f (qs ! p)) = rr_weight (qs ! p)" "current_weight (f (qs ! p)) = current_weight (qs ! p)"
      by (subst fp(1), simp)+
    ultimately show ?thesis using j qj [OF j] qp G(1,4) by (cases "j = p") (auto simp: ps'_def)
  qed
  have len: "length ps' = length ps" using G(4) by (simp add: ps'_def)
  show ?thesis using req G(1) len heal w unfolding ps_def [symmetric] T_def by blast
qed

text \<open>Weights that are above the negated sum and add up to 0 are bounded above as well.\<close>

lemma weights_bound:
  fixes w c :: "nat \<Rightarrow> int"
  assumes "(\<Sum>j<n. c j) = 0" and "T = (\<Sum>j<n. w j)" and "\<And>j. j < n \<Longrightarrow> - T < c j" and "\<And>j. j < n \<Longrightarrow> 0 < w j"
    and "(int n + 1) * T < 2 ^ 63" and "i < n"
  shows "- (2 ^ 63) \<le> c i + w i - T \<and> c i + w i < 2 ^ 63"
proof -
  have w: "w i \<le> T" unfolding assms(2) using assms(4,6) by (intro member_le_sum) (auto intro: less_imp_le)
  have "c i + T \<le> (\<Sum>j<n. c j + T)" using assms(3,6) by (intro member_le_sum [where f = "\<lambda>j. c j + T"]) (auto simp: less_imp_le minus_less_iff dest!: assms(3))
  then have c: "c i + T \<le> int n * T" using assms(1) by (simp add: sum.distrib)
  have T: "0 < T" "T \<le> int n * T" using w assms(4) [OF assms(6)] assms(6) by auto
  have "int n * T + T < 2 ^ 63" using assms(5) by (simp add: distrib_right)
  then show ?thesis using w c T assms(3) [OF assms(6)] assms(4) [OF assms(6)] by linarith
qed

lemma rr_run_healthy:
  assumes "\<not> rr_single peers" and "rr_number peers = length (rr_peers peers)" and "rr_peers peers \<noteq> []"
    and "\<And>peer. peer \<in> set (rr_peers peers) \<Longrightarrow> rr_healthy peer"
    and "(\<Sum>j<length (rr_peers peers). current_weight (rr_peers peers ! j)) = 0"
    and "T = (\<Sum>j<length (rr_peers peers). rr_weight (rr_peers peers ! j))"
    and "\<And>j. j < length (rr_peers peers) \<Longrightarrow> - T < current_weight (rr_peers peers ! j)"
    and "(int (length (rr_peers peers)) + 1) * T < 2 ^ 63"
  shows "\<exists>cs ps'. rr_run ns [peers] = (cs, [peers\<lparr>rr_peers := ps'\<rparr>]) \<and> length ps' = length (rr_peers peers)
    \<and> (\<Sum>j<length ps'. current_weight (ps' ! j)) = 0
    \<and> (\<forall>j<length ps'. - T < current_weight (ps' ! j)
        \<and> current_weight (ps' ! j) = current_weight (rr_peers peers ! j) + int (length ns) * rr_weight (rr_peers peers ! j)
            - T * int (count_list cs (Some (0, j))))"
  using assms
proof (induction ns arbitrary: peers)
  case Nil
  then show ?case by (intro exI [of _ "[]"] exI [of _ "rr_peers peers"]) simp
next
  case (Cons now ns)
  define ps where "ps = rr_peers peers"
  define n where "n = length ps"
  have bound: "- (2 ^ 63) \<le> current_weight (ps ! j) + rr_weight (ps ! j) - (\<Sum>i<length ps. rr_weight (ps ! i))
      \<and> current_weight (ps ! j) + rr_weight (ps ! j) < 2 ^ 63" if "j < length ps" for j
    using weights_bound [OF Cons(6-8) _ Cons(9), of j] Cons(5,7) that by (simp add: ps_def rr_healthy_def)
  from rr_request_healthy [OF Cons(2-5) bound [unfolded ps_def], of now] obtain p qs where req: "rr_request now [peers] = (Some (0, p), [peers\<lparr>rr_peers := qs\<rparr>])"
    and p: "p < n" and len: "length qs = n" and heal: "\<forall>peer\<in>set qs. rr_healthy peer"
    and step: "\<forall>j<n. rr_weight (qs ! j) = rr_weight (ps ! j)
        \<and> current_weight (qs ! j) = current_weight (ps ! j) + rr_weight (ps ! j) - (if j = p then T else 0)
        \<and> current_weight (ps ! j) + rr_weight (ps ! j) \<le> current_weight (ps ! p) + rr_weight (ps ! p)"
    unfolding Cons(7) ps_def n_def by metis
  have n0: "0 < n" using Cons(4) by (simp add: n_def ps_def)
  have T: "T = (\<Sum>j<n. rr_weight (ps ! j))" using Cons(7) by (simp add: n_def ps_def)
  have w0: "0 < rr_weight (ps ! j)" if "j < n" for j using Cons(5) that by (simp add: n_def ps_def rr_healthy_def)
  have T0: "0 < T" unfolding T using w0 n0 by (intro sum_pos) auto
  have s0: "(\<Sum>j<n. current_weight (ps ! j)) = 0" using Cons(6) by (simp add: n_def ps_def)
  have sT: "(\<Sum>j<n. current_weight (ps ! j) + rr_weight (ps ! j)) = T" by (simp add: sum.distrib s0 T)
  have pos: "0 < current_weight (ps ! p) + rr_weight (ps ! p)"
  proof (rule ccontr)
    assume "\<not> 0 < current_weight (ps ! p) + rr_weight (ps ! p)"
    then have "(\<Sum>j<n. current_weight (ps ! j) + rr_weight (ps ! j)) \<le> (\<Sum>j<n. 0)" using step by (intro sum_mono) auto
    then show False using sT T0 by simp
  qed
  have sq: "(\<Sum>j<n. current_weight (qs ! j)) = 0"
  proof -
    have "(\<Sum>j<n. current_weight (qs ! j)) = (\<Sum>j<n. (current_weight (ps ! j) + rr_weight (ps ! j)) - (if j = p then T else 0))"
      using step by (intro sum.cong) auto
    also have "\<dots> = T - (\<Sum>j<n. if j = p then T else 0)" unfolding sum_subtractf sT ..
    finally show ?thesis using p by simp
  qed
  have Tq: "T = (\<Sum>j<n. rr_weight (qs ! j))" unfolding T using step by (intro sum.cong) auto
  have lo: "- T < current_weight (qs ! j)" if j: "j < n" for j
  proof (cases "j = p")
    case True
    then show ?thesis using step p pos by simp
  next
    case False
    then show ?thesis using step j w0 [OF j] Cons(8) [of j] by (simp add: ps_def n_def)
  qed
  define peers1 where "peers1 = peers\<lparr>rr_peers := qs\<rparr>"
  have P: "\<not> rr_single peers1" "rr_number peers1 = length (rr_peers peers1)" "rr_peers peers1 \<noteq> []"
    "\<And>peer. peer \<in> set (rr_peers peers1) \<Longrightarrow> rr_healthy peer"
    "(\<Sum>j<length (rr_peers peers1). current_weight (rr_peers peers1 ! j)) = 0"
    "T = (\<Sum>j<length (rr_peers peers1). rr_weight (rr_peers peers1 ! j))"
    "\<And>j. j < length (rr_peers peers1) \<Longrightarrow> - T < current_weight (rr_peers peers1 ! j)"
    "(int (length (rr_peers peers1)) + 1) * T < 2 ^ 63"
    using Cons(2,3,9) heal len n0 sq Tq lo by (auto simp: peers1_def n_def ps_def)
  have "rr_peers peers1 = qs" by (simp add: peers1_def)
  from Cons(1) [OF P] obtain cs ps' where IH: "rr_run ns [peers1] = (cs, [peers1\<lparr>rr_peers := ps'\<rparr>])" "length ps' = n"
    "(\<Sum>j<length ps'. current_weight (ps' ! j)) = 0"
    "\<forall>j<length ps'. - T < current_weight (ps' ! j) \<and> current_weight (ps' ! j) = current_weight (qs ! j) + int (length ns) * rr_weight (qs ! j)
            - T * int (count_list cs (Some (0, j)))"
    unfolding \<open>rr_peers peers1 = qs\<close> len by blast
  have run: "rr_run (now # ns) [peers] = (Some (0, p) # cs, [peers\<lparr>rr_peers := ps'\<rparr>])"
    using req IH(1) by (simp add: peers1_def)
  have "current_weight (ps' ! j) = current_weight (ps ! j) + int (length (now # ns)) * rr_weight (ps ! j)
            - T * int (count_list (Some (0, p) # cs) (Some (0, j)))" if "j < n" for j
    using IH(2,4) step that by (auto simp: algebra_simps)
  then have "\<forall>j<length ps'. - T < current_weight (ps' ! j) \<and> current_weight (ps' ! j) = current_weight (ps ! j)
      + int (length (now # ns)) * rr_weight (ps ! j) - T * int (count_list (Some (0, p) # cs) (Some (0, j)))"
    using IH(2,4) by blast
  then show ?case unfolding ps_def [symmetric] n_def [symmetric] using run IH(2,3) by blast
qed

text \<open>C31: With several peers, all in order, and weights whose sum, times the number of peers plus one, is below 2^63,
  weighted round robin is exact and smooth: in every run of requests from the start, each of which gives its peer back before
  the next comes, none of the peers gets more than its share of the requests so far by a request or more, and after as many
  requests as the sum of the weights, each peer was chosen exactly as often as its weight says and all current weights are 0
  again.\<close>

theorem round_robin_fair:
  assumes "\<not> rr_single peers" and "rr_number peers = length (rr_peers peers)" and "rr_peers peers \<noteq> []"
    and "\<And>peer. peer \<in> set (rr_peers peers) \<Longrightarrow> rr_healthy peer \<and> current_weight peer = 0"
    and "T = (\<Sum>j<length (rr_peers peers). rr_weight (rr_peers peers ! j))" and "(int (length (rr_peers peers)) + 1) * T < 2 ^ 63"
  shows "\<exists>cs ps'. rr_run ns [peers] = (cs, [peers\<lparr>rr_peers := ps'\<rparr>]) \<and> length ps' = length (rr_peers peers)
    \<and> (\<forall>j<length ps'. T * (int (count_list cs (Some (0, j))) - 1) < int (length ns) * rr_weight (rr_peers peers ! j))
    \<and> (int (length ns) = T \<longrightarrow>
        (\<forall>j<length ps'. int (count_list cs (Some (0, j))) = rr_weight (rr_peers peers ! j) \<and> current_weight (ps' ! j) = 0))"
proof -
  define ps where "ps = rr_peers peers"
  have h: "rr_healthy (ps ! j)" "current_weight (ps ! j) = 0" if "j < length ps" for j using assms(4) that by (simp_all add: ps_def)
  have T0: "0 < T" unfolding assms(5) ps_def [symmetric] using h assms(3) by (intro sum_pos) (auto simp: rr_healthy_def ps_def)
  have "\<exists>cs ps'. rr_run ns [peers] = (cs, [peers\<lparr>rr_peers := ps'\<rparr>]) \<and> length ps' = length ps
    \<and> (\<Sum>j<length ps'. current_weight (ps' ! j)) = 0
    \<and> (\<forall>j<length ps'. - T < current_weight (ps' ! j)
        \<and> current_weight (ps' ! j) = current_weight (ps ! j) + int (length ns) * rr_weight (ps ! j) - T * int (count_list cs (Some (0, j))))"
    unfolding ps_def by (rule rr_run_healthy [OF assms(1-3)]) (use assms(4-6) h T0 in \<open>auto simp: ps_def\<close>)
  then obtain cs ps' where r: "rr_run ns [peers] = (cs, [peers\<lparr>rr_peers := ps'\<rparr>])" "length ps' = length ps"
    "(\<Sum>j<length ps'. current_weight (ps' ! j)) = 0"
    and all: "\<forall>j<length ps'. - T < current_weight (ps' ! j)
        \<and> current_weight (ps' ! j) = current_weight (ps ! j) + int (length ns) * rr_weight (ps ! j) - T * int (count_list cs (Some (0, j)))"
    by blast
  have cw: "- T < current_weight (ps' ! j)"
    "current_weight (ps' ! j) = int (length ns) * rr_weight (ps ! j) - T * int (count_list cs (Some (0, j)))" if "j < length ps'" for j
    using all h(2) r(2) that by auto
  have share: "T * (int (count_list cs (Some (0, j))) - 1) < int (length ns) * rr_weight (ps ! j)" if "j < length ps'" for j
    using cw [OF that] by (simp add: right_diff_distrib)
  have exact: "int (count_list cs (Some (0, j))) = rr_weight (ps ! j) \<and> current_weight (ps' ! j) = 0" if T: "int (length ns) = T" and j: "j < length ps'" for j
  proof -
    have eq: "current_weight (ps' ! i) = T * (rr_weight (ps ! i) - int (count_list cs (Some (0, i))))" if "i < length ps'" for i
      using cw(2) [OF that] T by (simp add: right_diff_distrib)
    have nonneg: "0 \<le> current_weight (ps' ! i)" if i: "i < length ps'" for i
    proof -
      have "T * (- 1) < T * (rr_weight (ps ! i) - int (count_list cs (Some (0, i))))" using cw(1) [OF i] eq [OF i] by simp
      then have "- 1 < rr_weight (ps ! i) - int (count_list cs (Some (0, i)))" using T0 by (simp only: mult_less_cancel_left_pos)
      then show ?thesis unfolding eq [OF i] using T0 by simp
    qed
    have "current_weight (ps' ! j) = 0"
      using r(3) nonneg j by (subst (asm) sum_nonneg_eq_0_iff) auto
    then show ?thesis using eq [OF j] T0 by simp
  qed
  show ?thesis using r(1,2) share exact unfolding ps_def by blast
qed

section \<open>The invariant of the weights\<close>

definition peer_inv :: "ngx_http_upstream_rr_peer \<Rightarrow> bool" where
  "peer_inv peer \<longleftrightarrow> 0 \<le> effective_weight peer \<and> effective_weight peer \<le> rr_weight peer \<and> rr_weight peer < 2 ^ 63
     \<and> - (2 ^ 63) \<le> current_weight peer \<and> current_weight peer < 2 ^ 63 \<and> 0 \<le> max_fails peer
     \<and> 0 \<le> conns peer \<and> conns peer < 2 ^ 64 \<and> 0 \<le> fails peer \<and> fails peer < 2 ^ 64"

definition group_inv :: "ngx_http_upstream_rr_peers \<Rightarrow> bool" where
  "group_inv peers \<longleftrightarrow> rr_number peers = length (rr_peers peers) \<and> rr_peers peers \<noteq> []
     \<and> (rr_single peers \<longrightarrow> length (rr_peers peers) = 1)
     \<and> (\<forall>peer\<in>set (rr_peers peers). peer_inv peer)
     \<and> 2 ^ 64 dvd (\<Sum>j<length (rr_peers peers). current_weight (rr_peers peers ! j))"

text \<open>What the code does not change of a peer.\<close>

definition peer_config :: "ngx_http_upstream_rr_peer \<Rightarrow> sockaddr \<times> bytes \<times> bytes \<times> int \<times> int \<times> int \<times> int \<times> bool" where
  "peer_config peer = (rr_sockaddr peer, rr_name peer, rr_server peer, rr_weight peer, max_conns peer, max_fails peer, fail_timeout peer, rr_down peer)"

definition same_config :: "ngx_http_upstream_rr_peers \<Rightarrow> ngx_http_upstream_rr_peers \<Rightarrow> bool" where
  "same_config peers peers' \<longleftrightarrow> rr_single peers' = rr_single peers \<and> rr_number peers' = rr_number peers
     \<and> total_weight peers' = total_weight peers \<and> rr_weighted peers' = rr_weighted peers \<and> map peer_config (rr_peers peers') = map peer_config (rr_peers peers)"

lemma u64_range: "0 \<le> u64 x" "u64 x < 2 ^ 64"
  by (simp_all add: u64_def)

lemma bump_inv: "peer_inv peer \<Longrightarrow> peer_inv (rr_bump peer)"
  using s64_range by (auto simp: peer_inv_def rr_bump_def)

lemma visit_inv: "peer_inv peer \<Longrightarrow> peer_inv (rr_visit now tried j peer)"
  by (simp add: rr_visit_def bump_inv)

lemma visit_weight: "2 ^ 64 dvd current_weight (rr_visit now tried j peer) - (current_weight peer + rr_share now tried j peer)"
  using s64_dvd [of "current_weight peer + effective_weight peer"] by (simp add: rr_visit_def rr_share_def rr_bump_def)

lemma visit_config: "peer_config (rr_visit now tried j peer) = peer_config peer" "peer_config (rr_bump peer) = peer_config peer"
  by (simp_all add: rr_visit_def rr_bump_def peer_config_def)

lemma get_peer_keeps:
  assumes "ngx_http_upstream_get_peer now tried ps = (Some p, tried', ps')" and "\<forall>peer\<in>set ps. peer_inv peer"
  shows "\<forall>peer\<in>set ps'. peer_inv peer"
    and "2 ^ 64 dvd (\<Sum>j<length ps'. current_weight (ps' ! j)) - (\<Sum>j<length ps. current_weight (ps ! j))"
    and "map peer_config ps' = map peer_config ps"
proof -
  note G = get_peer_some [OF assms(1)]
  define tot where "tot = (\<Sum>j<length ps. rr_share now tried j (ps ! j))"
  obtain c where c: "ps' ! p = (rr_bump (ps ! p))\<lparr>current_weight := s64 (current_weight (rr_bump (ps ! p)) - tot), checked := c\<rparr>"
    using G(7) by (auto simp: tot_def)
  have "peer_inv (ps' ! j)" if j: "j < length ps" for j
  proof (cases "j = p")
    case True
    have "peer_inv (rr_bump (ps ! p))" using bump_inv assms(2) G(1) by simp
    then show ?thesis unfolding True c using s64_range by (simp add: peer_inv_def)
  qed (use G(6) [OF j] visit_inv assms(2) j in simp)
  then show "\<forall>peer\<in>set ps'. peer_inv peer" using G(4) by (metis in_set_conv_nth)
  have "2 ^ 64 dvd current_weight (ps' ! j) - (current_weight (ps ! j) + rr_share now tried j (ps ! j) - (if j = p then tot else 0))" if j: "j < length ps" for j
  proof (cases "j = p")
    case True
    have "current_weight (ps' ! p) = s64 (current_weight (ps ! p) + effective_weight (ps ! p) - tot)"
      unfolding c by (simp add: rr_bump_def)
    then show ?thesis using True G(2) s64_dvd [of "current_weight (ps ! p) + effective_weight (ps ! p) - tot"] by (simp add: rr_share_def)
  qed (use G(6) [OF j] visit_weight in simp)
  then have "2 ^ 64 dvd (\<Sum>j<length ps. current_weight (ps' ! j) - (current_weight (ps ! j) + rr_share now tried j (ps ! j) - (if j = p then tot else 0)))"
    by (intro dvd_sum) simp
  also have "(\<Sum>j<length ps. current_weight (ps' ! j) - (current_weight (ps ! j) + rr_share now tried j (ps ! j) - (if j = p then tot else 0)))
      = (\<Sum>j<length ps. current_weight (ps' ! j)) - (\<Sum>j<length ps. current_weight (ps ! j))"
    using G(1) by (simp add: sum_subtractf sum.distrib tot_def)
  finally show "2 ^ 64 dvd (\<Sum>j<length ps'. current_weight (ps' ! j)) - (\<Sum>j<length ps. current_weight (ps ! j))" using G(4) by simp
  have "peer_config (ps' ! j) = peer_config (ps ! j)" if j: "j < length ps" for j
  proof (cases "j = p")
    case True
    have "peer_config (ps' ! p) = peer_config (rr_bump (ps ! p))" unfolding c by (simp add: peer_config_def)
    then show ?thesis using True by (simp add: visit_config)
  qed (use G(6) [OF j] visit_config in simp)
  then show "map peer_config ps' = map peer_config ps" using G(4) by (simp add: list_eq_iff_nth_eq)
qed

text \<open>A change of one peer that keeps its weight.\<close>

lemma group_update:
  assumes "group_inv peers" and "p < length (rr_peers peers)" and "peer_inv (f (rr_peers peers ! p))"
    and "current_weight (f (rr_peers peers ! p)) = current_weight (rr_peers peers ! p)"
    and "peer_config (f (rr_peers peers ! p)) = peer_config (rr_peers peers ! p)"
  shows "group_inv (rr_update p f peers) \<and> same_config peers (rr_update p f peers)"
proof -
  define ps where "ps = rr_peers peers"
  have "current_weight (ps[p := f (ps ! p)] ! j) = current_weight (ps ! j)" for j
    using assms(2,4) by (cases "j = p") (simp_all add: ps_def)
  moreover have "\<forall>peer\<in>set (ps[p := f (ps ! p)]). peer_inv peer"
    using assms(1,3) set_update_subset_insert by (fastforce simp: group_inv_def ps_def)
  moreover have "map peer_config (ps[p := f (ps ! p)]) = map peer_config ps"
    using assms(2,5) by (metis list_update_id map_update ps_def)
  ultimately show ?thesis using assms(1) by (simp add: group_inv_def same_config_def rr_update_def ps_def [symmetric])
qed

lemma use_update: "rr_use p peers = rr_update p (\<lambda>peer. peer\<lparr>conns := u64 (conns peer + 1)\<rparr>) peers"
  by (simp add: rr_use_def rr_update_def)

lemma use_inv: "group_inv peers \<Longrightarrow> p < length (rr_peers peers) \<Longrightarrow> group_inv (rr_use p peers) \<and> same_config peers (rr_use p peers)"
  unfolding use_update
  by (rule group_update) (use u64_range in \<open>auto simp: group_inv_def peer_inv_def peer_config_def\<close>)

lemma same_config_refl: "same_config peers peers"
  by (simp add: same_config_def)

lemma same_config_trans: "same_config a b \<Longrightarrow> same_config b c \<Longrightarrow> same_config a c"
  by (simp add: same_config_def)

definition us_keep :: "rr_upstream \<Rightarrow> rr_upstream \<Rightarrow> bool" where
  "us_keep us us' \<longleftrightarrow> list_all group_inv us' \<and> list_all2 same_config us us'"

lemma us_keep_refl: "list_all group_inv us \<Longrightarrow> us_keep us us"
  by (simp add: us_keep_def list_all2_refl same_config_refl)

section \<open>The whole chain of peers\<close>

text \<open>The peers of a group that cannot be taken.\<close>

definition group_refuses :: "int \<Rightarrow> 64 word list \<Rightarrow> ngx_http_upstream_rr_peers \<Rightarrow> bool" where
  "group_refuses now tried peers \<longleftrightarrow>
     (if rr_single peers then rr_down (rr_peers peers ! 0) \<or> (max_conns (rr_peers peers ! 0) \<noteq> 0 \<and> conns (rr_peers peers ! 0) \<ge> max_conns (rr_peers peers ! 0))
      else \<forall>j<length (rr_peers peers). is_tried tried j \<or> rr_unusable now (rr_peers peers ! j))"

definition group_takes :: "int \<Rightarrow> 64 word list \<Rightarrow> ngx_http_upstream_rr_peers \<Rightarrow> nat \<Rightarrow> bool" where
  "group_takes now tried peers p \<longleftrightarrow> p < length (rr_peers peers) \<and> \<not> rr_down (rr_peers peers ! p)
     \<and> (max_conns (rr_peers peers ! p) = 0 \<or> conns (rr_peers peers ! p) < max_conns (rr_peers peers ! p))
     \<and> (\<not> rr_single peers \<longrightarrow> \<not> is_tried tried p \<and> \<not> rr_unusable now (rr_peers peers ! p))"

lemma rr_take_false:
  assumes "rr_take now peers rrp = (False, peers', rrp')"
  shows "peers' = peers \<and> rrp' = rrp \<and> group_refuses now (rrp_tried rrp) peers"
proof (cases "rr_single peers")
  case True
  then show ?thesis using assms by (auto simp: rr_take_def group_refuses_def Let_def split: if_splits)
next
  case False
  then obtain tried' ps' where g: "ngx_http_upstream_get_peer now (rrp_tried rrp) (rr_peers peers) = (None, tried', ps')"
    and "peers' = peers\<lparr>rr_peers := ps'\<rparr>" "rrp' = rrp"
    using assms by (auto simp: rr_take_def split: prod.splits option.splits)
  with get_peer_none [OF g] False show ?thesis by (simp add: group_refuses_def rr_skip_def)
qed

lemma rr_take_true:
  assumes "rr_take now peers rrp = (True, peers', rrp')" and "group_inv peers"
  shows "group_inv peers' \<and> same_config peers peers' \<and> rrp_peers rrp' = rrp_peers rrp
    \<and> (\<exists>p. rrp_current rrp' = Some (rrp_peers rrp, p) \<and> group_takes now (rrp_tried rrp) peers p
        \<and> conns (rr_peers peers' ! p) = u64 (conns (rr_peers peers ! p) + 1)
        \<and> rrp_tried rrp' = (if rr_single peers then rrp_tried rrp else set_tried (rrp_tried rrp) p))"
proof (cases "rr_single peers")
  case True
  then have l: "0 < length (rr_peers peers)" using assms(2) by (simp add: group_inv_def)
  from assms(1) True have "peers' = rr_use 0 peers" "rrp' = rrp\<lparr>rrp_current := Some (rrp_peers rrp, 0)\<rparr>" "group_takes now (rrp_tried rrp) peers 0"
    using l by (auto simp: rr_take_def group_takes_def Let_def split: if_splits)
  then show ?thesis using use_inv [OF assms(2) l] True l by (auto simp: rr_use_def)
next
  case False
  then obtain p tried' ps' where g: "ngx_http_upstream_get_peer now (rrp_tried rrp) (rr_peers peers) = (Some p, tried', ps')"
    and r: "peers' = rr_use p (peers\<lparr>rr_peers := ps'\<rparr>)" "rrp' = rrp\<lparr>rrp_current := Some (rrp_peers rrp, p), rrp_tried := tried'\<rparr>"
    using assms by (auto simp: rr_take_def split: prod.splits option.splits)
  note G = get_peer_some [OF g]
  have inv: "\<forall>peer\<in>set (rr_peers peers). peer_inv peer" using assms(2) by (simp add: group_inv_def)
  note K = get_peer_keeps [OF g inv]
  define peers1 where "peers1 = peers\<lparr>rr_peers := ps'\<rparr>"
  have g1: "group_inv peers1" "same_config peers peers1"
    using assms(2) K G(4) dvd_add [OF K(2), of "\<Sum>j<length (rr_peers peers). current_weight (rr_peers peers ! j)"]
    by (auto simp: group_inv_def same_config_def peers1_def False)
  have p1: "p < length (rr_peers peers1)" using G(1,4) by (simp add: peers1_def)
  have "conns (ps' ! p) = conns (rr_peers peers ! p)" using G(7) by (auto simp: rr_bump_def)
  moreover have "group_takes now (rrp_tried rrp) peers p"
    using G(1,2) by (auto simp: group_takes_def rr_skip_def rr_unusable_def)
  ultimately show ?thesis
    using use_inv [OF g1(1) p1] g1(2) r False G(3) p1 same_config_trans [OF g1(2)] by (auto simp: peers1_def rr_use_def)
qed

text \<open>The words of \<open>tried\<close> cover the peers of every group.\<close>

definition tried_fits :: "64 word list \<Rightarrow> rr_upstream \<Rightarrow> bool" where
  "tried_fits tried us \<longleftrightarrow> (\<forall>peers\<in>set us. \<forall>j<rr_number peers. j div uintptr_bits < length tried)"

definition group_tried :: "64 word list \<Rightarrow> nat \<Rightarrow> 64 word list" where
  "group_tried tried k = (if k = 0 then tried else replicate (length tried) 0)"

lemma words_bound: "j < n \<Longrightarrow> j div uintptr_bits < rr_words n"
  using words_enough [of j n] by (auto simp: uintptr_bits_def rr_words_def split: if_splits)

lemma words_fit: "(\<forall>j<n. j div uintptr_bits < len) \<Longrightarrow> rr_words n \<le> len"
proof (cases n)
  case (Suc m)
  assume "\<forall>j<n. j div uintptr_bits < len"
  then have "m div uintptr_bits < len" using Suc by simp
  moreover have "rr_words n = m div uintptr_bits + 1" using Suc by (simp add: rr_words_def uintptr_bits_def div_add_self2)
  ultimately show ?thesis by simp
qed (simp add: rr_words_def uintptr_bits_def)

lemma backup_tried:
  assumes "tried_fits (rrp_tried rrp) (backup # us)" and "j < rr_number backup"
  shows "\<not> is_tried (rrp_tried (rr_backup backup rrp)) j" "length (rrp_tried (rr_backup backup rrp)) = length (rrp_tried rrp)"
proof -
  have le: "rr_words (rr_number backup) \<le> length (rrp_tried rrp)" using assms(1) words_fit by (auto simp: tried_fits_def)
  then show "length (rrp_tried (rr_backup backup rrp)) = length (rrp_tried rrp)" by (simp add: rr_backup_def Let_def)
  show "\<not> is_tried (rrp_tried (rr_backup backup rrp)) j"
    using words_bound [OF assms(2)] by (simp add: rr_backup_def Let_def is_tried_bit nth_append)
qed

lemma refuses_cong:
  "(\<And>j. j < length (rr_peers peers) \<Longrightarrow> is_tried a j = is_tried b j) \<Longrightarrow> group_refuses now a peers = group_refuses now b peers"
  by (auto simp: group_refuses_def)

lemma takes_cong:
  "(\<And>j. j < length (rr_peers peers) \<Longrightarrow> is_tried a j = is_tried b j) \<Longrightarrow> group_takes now a peers p = group_takes now b peers p"
  by (auto simp: group_takes_def)

text \<open>The answer for a chain of peers: the groups in front of the one that has the peer refuse, and with \<open>NGX_BUSY\<close> all do.\<close>

definition rr_answer :: "int \<Rightarrow> 64 word list \<Rightarrow> nat \<Rightarrow> rr_upstream \<Rightarrow> ngx_rc \<Rightarrow> ngx_http_upstream_rr_peer_data \<Rightarrow> bool" where
  "rr_answer now tried base us rc rrp' \<longleftrightarrow>
     rc = NGX_OK \<and> (\<exists>k p. k < length us \<and> rrp_current rrp' = Some (base + k, p) \<and> rrp_peers rrp' = base + k
         \<and> group_takes now (group_tried tried k) (us ! k) p
         \<and> (\<forall>i<k. group_refuses now (group_tried tried i) (us ! i))
         \<and> (\<not> rr_single (us ! k) \<longrightarrow> (\<forall>j<length (rr_peers (us ! k)).
              is_tried (rrp_tried rrp') j \<longleftrightarrow> j = p \<or> is_tried (group_tried tried k) j)))
     \<or> rc = NGX_BUSY \<and> (\<forall>i<length us. group_refuses now (group_tried tried i) (us ! i))"

lemma answer_here:
  assumes "rr_take now peers rrp = (True, peers', rrp')" and "group_inv peers" and "tried_fits (rrp_tried rrp) (peers # us)"
  shows "rr_answer now (rrp_tried rrp) (rrp_peers rrp) (peers # us) NGX_OK rrp'"
proof -
  from rr_take_true [OF assms(1,2)] obtain p where p: "rrp_current rrp' = Some (rrp_peers rrp, p)" "group_takes now (rrp_tried rrp) peers p"
    "rrp_tried rrp' = (if rr_single peers then rrp_tried rrp else set_tried (rrp_tried rrp) p)" "rrp_peers rrp' = rrp_peers rrp" by auto
  have "p div uintptr_bits < length (rrp_tried rrp)"
    using assms(2,3) p(2) by (simp add: tried_fits_def group_inv_def group_takes_def)
  then show ?thesis
    unfolding rr_answer_def using p is_tried_set
    by (intro disjI1 conjI exI [of _ "0 :: nat"] exI [of _ p]) (auto simp: group_tried_def)
qed

lemma answer_later:
  assumes "group_refuses now (rrp_tried rrp) peers" and "us = backup # us1" and "tried_fits (rrp_tried rrp) us" and "group_inv backup"
    and "rr_answer now (rrp_tried (rr_backup backup rrp)) (Suc (rrp_peers rrp)) us rc rrp'"
  shows "rr_answer now (rrp_tried rrp) (rrp_peers rrp) (peers # us) rc rrp'"
proof -
  define T where "T = rrp_tried (rr_backup backup rrp)"
  have number: "rr_number backup = length (rr_peers backup)" using assms(4) by (simp add: group_inv_def)
  have len: "length T = length (rrp_tried rrp)"
    using assms(2-4) backup_tried(2) [of rrp backup us1 0] by (simp add: T_def group_inv_def)
  have same: "is_tried (group_tried T k) j = is_tried (group_tried (rrp_tried rrp) (Suc k)) j"
    if "k < length us" "j < length (rr_peers (us ! k))" for k j
  proof (cases k)
    case 0
    then have j: "j < rr_number backup" using that(2) assms(2) number by simp
    then have "j div uintptr_bits < length (rrp_tried rrp)" using assms(2,3) by (simp add: tried_fits_def)
    then show ?thesis using 0 backup_tried(1) [of rrp backup us1 j] j assms(2,3) is_tried_zero by (simp add: group_tried_def T_def)
  qed (simp add: group_tried_def len)
  have ref: "group_refuses now (group_tried T k) (us ! k) = group_refuses now (group_tried (rrp_tried rrp) (Suc k)) (us ! k)" if "k < length us" for k
    using same [OF that] by (intro refuses_cong) simp
  have first: "group_refuses now (group_tried (rrp_tried rrp) 0) peers" using assms(1) by (simp add: group_tried_def)
  show ?thesis
    using assms(5) unfolding rr_answer_def T_def [symmetric]
  proof (elim disjE conjE exE)
    fix k p
    assume k: "k < length us" "rrp_current rrp' = Some (Suc (rrp_peers rrp) + k, p)" "rrp_peers rrp' = Suc (rrp_peers rrp) + k"
      "group_takes now (group_tried T k) (us ! k) p" "\<forall>i<k. group_refuses now (group_tried T i) (us ! i)"
      "\<not> rr_single (us ! k) \<longrightarrow> (\<forall>j<length (rr_peers (us ! k)). is_tried (rrp_tried rrp') j \<longleftrightarrow> j = p \<or> is_tried (group_tried T k) j)"
      and rc: "rc = NGX_OK"
    have "group_takes now (group_tried (rrp_tried rrp) (Suc k)) (us ! k) p" using k(4) takes_cong [OF same [OF k(1)]] by blast
    moreover have "\<forall>i<Suc k. group_refuses now (group_tried (rrp_tried rrp) i) ((peers # us) ! i)"
      using first k(1,5) ref by (auto simp: less_Suc_eq_0_disj)
    moreover have "\<not> rr_single (us ! k) \<longrightarrow> (\<forall>j<length (rr_peers (us ! k)). is_tried (rrp_tried rrp') j \<longleftrightarrow> j = p \<or> is_tried (group_tried (rrp_tried rrp) (Suc k)) j)"
      using k(6) same [OF k(1)] by simp
    ultimately show "rc = NGX_OK \<and> (\<exists>k p. k < length (peers # us) \<and> rrp_current rrp' = Some (rrp_peers rrp + k, p) \<and> rrp_peers rrp' = rrp_peers rrp + k
         \<and> group_takes now (group_tried (rrp_tried rrp) k) ((peers # us) ! k) p
         \<and> (\<forall>i<k. group_refuses now (group_tried (rrp_tried rrp) i) ((peers # us) ! i))
         \<and> (\<not> rr_single ((peers # us) ! k) \<longrightarrow> (\<forall>j<length (rr_peers ((peers # us) ! k)).
              is_tried (rrp_tried rrp') j \<longleftrightarrow> j = p \<or> is_tried (group_tried (rrp_tried rrp) k) j)))
     \<or> rc = NGX_BUSY \<and> (\<forall>i<length (peers # us). group_refuses now (group_tried (rrp_tried rrp) i) ((peers # us) ! i))"
      using k(1-3) rc by (intro disjI1 conjI exI [of _ "Suc k"] exI [of _ p]) simp_all
  next
    assume "rc = NGX_BUSY" "\<forall>i<length us. group_refuses now (group_tried T i) (us ! i)"
    then have "rc = NGX_BUSY \<and> (\<forall>i<length (peers # us). group_refuses now (group_tried (rrp_tried rrp) i) ((peers # us) ! i))"
      using first ref by (auto simp: less_Suc_eq_0_disj)
    then show "rc = NGX_OK \<and> (\<exists>k p. k < length (peers # us) \<and> rrp_current rrp' = Some (rrp_peers rrp + k, p) \<and> rrp_peers rrp' = rrp_peers rrp + k
         \<and> group_takes now (group_tried (rrp_tried rrp) k) ((peers # us) ! k) p
         \<and> (\<forall>i<k. group_refuses now (group_tried (rrp_tried rrp) i) ((peers # us) ! i))
         \<and> (\<not> rr_single ((peers # us) ! k) \<longrightarrow> (\<forall>j<length (rr_peers ((peers # us) ! k)).
              is_tried (rrp_tried rrp') j \<longleftrightarrow> j = p \<or> is_tried (group_tried (rrp_tried rrp) k) j)))
     \<or> rc = NGX_BUSY \<and> (\<forall>i<length (peers # us). group_refuses now (group_tried (rrp_tried rrp) i) ((peers # us) ! i))"
      by (rule disjI2)
  qed
qed

lemma rr_get_answer:
  "rr_get now us rrp = (rc, us', rrp') \<Longrightarrow> us \<noteq> [] \<Longrightarrow> list_all group_inv us \<Longrightarrow> tried_fits (rrp_tried rrp) us \<Longrightarrow>
    us_keep us us' \<and> rr_answer now (rrp_tried rrp) (rrp_peers rrp) us rc rrp'"
proof (induction us arbitrary: rrp rc us' rrp')
  case (Cons peers us)
  have inv: "group_inv peers" "list_all group_inv us" using Cons(4) by simp_all
  obtain ok peers1 rrp1 where t: "rr_take now peers rrp = (ok, peers1, rrp1)" by (cases "rr_take now peers rrp")
  show ?case
  proof (cases ok)
    case True
    then have tt: "rr_take now peers rrp = (True, peers1, rrp1)" and r: "rc = NGX_OK" "us' = peers1 # us" "rrp' = rrp1"
      using Cons(2) t by simp_all
    have "us_keep (peers # us) us'"
      using rr_take_true [OF tt inv(1)] inv(2) us_keep_refl [OF inv(2)] by (simp add: us_keep_def r)
    then show ?thesis using answer_here [OF tt inv(1) Cons(5)] r by simp
  next
    case False
    then have "rr_take now peers rrp = (False, peers1, rrp1)" using t by simp
    note f = rr_take_false [OF this]
    show ?thesis
    proof (cases us)
      case Nil
      then have "rc = NGX_BUSY" "us' = [peers]" using Cons(2) t False f by simp_all
      then show ?thesis using Nil f inv by (simp add: us_keep_def same_config_refl rr_answer_def group_tried_def)
    next
      case U: (Cons backup us1)
      obtain us2 where g: "rr_get now us (rr_backup backup rrp) = (rc, us2, rrp')" and us': "us' = peers # us2"
        using Cons(2) t False f U by (auto split: prod.splits)
      have ft: "tried_fits (rrp_tried rrp) us" using Cons(5) by (simp add: tried_fits_def)
      have bi: "group_inv backup" using inv(2) U by simp
      have len: "length (rrp_tried (rr_backup backup rrp)) = length (rrp_tried rrp)"
        using backup_tried(2) [of rrp backup us1 0] ft U bi by (simp add: group_inv_def)
      then have "tried_fits (rrp_tried (rr_backup backup rrp)) us" using ft by (simp add: tried_fits_def)
      from Cons(1) [OF g _ inv(2) this] U have IH: "us_keep us us2"
        "rr_answer now (rrp_tried (rr_backup backup rrp)) (rrp_peers (rr_backup backup rrp)) us rc rrp'" by simp_all
      have "rrp_peers (rr_backup backup rrp) = Suc (rrp_peers rrp)" by (simp add: rr_backup_def Let_def)
      then show ?thesis
        using IH answer_later [OF _ U ft bi, of now peers rc rrp'] f inv(1) us' by (simp add: us_keep_def same_config_refl)
    qed
  qed
qed simp

section \<open>Properties\<close>

lemma get_answer:
  assumes "ngx_http_upstream_get_round_robin_peer now us rrp = (rc, us', rrp')" and "list_all group_inv us"
    and "rrp_peers rrp < length us" and "tried_fits (rrp_tried rrp) us"
  shows "us_keep us us' \<and> rr_answer now (rrp_tried rrp) (rrp_peers rrp) (drop (rrp_peers rrp) us) rc rrp'"
proof -
  define d where "d = rrp_peers rrp"
  obtain vs where g: "rr_get now (drop d us) rrp = (rc, vs, rrp')" and us': "us' = take d us @ vs"
    using assms(1) by (auto simp: ngx_http_upstream_get_round_robin_peer_def d_def split: prod.splits)
  have inv: "list_all group_inv (take d us)" "list_all group_inv (drop d us)"
    using assms(2) append_take_drop_id [of d us] list_all_append by metis+
  have "tried_fits (rrp_tried rrp) (drop d us)" using assms(4) set_drop_subset [of d us] by (auto simp: tried_fits_def)
  from rr_get_answer [OF g _ inv(2) this] assms(3) have
    a: "us_keep (drop d us) vs" "rr_answer now (rrp_tried rrp) (rrp_peers rrp) (drop d us) rc rrp'" by (simp_all add: d_def)
  have "us_keep (take d us @ drop d us) (take d us @ vs)"
    using a(1) inv(1) us_keep_refl [OF inv(1)] list_all2_appendI [of same_config "take d us" "take d us" "drop d us" vs]
    by (simp only: us_keep_def list_all_append simp_thms)
  then show ?thesis using a(2) us' by (simp add: d_def)
qed

text \<open>An upstream of two servers, the second with three times the weight, and a backup server.\<close>

definition servers0 :: "ngx_http_upstream_server list" where
  "servers0 = map (\<lambda>(w, b). \<lparr>srv_name = [], srv_addrs = [(Sa_in 0x0100007f 80, [])], srv_weight = w, srv_max_conns = 0,
     srv_max_fails = 1, srv_fail_timeout = 10, srv_down = False, srv_backup = b\<rparr>) [(1, False), (3, False), (1, True)]"

lemma server_peers_inv:
  "0 \<le> srv_weight s \<Longrightarrow> srv_weight s < 2 ^ 63 \<Longrightarrow> 0 \<le> srv_max_fails s \<Longrightarrow> peer \<in> set (rr_server_peers s) \<Longrightarrow> peer_inv peer \<and> current_weight peer = 0"
  by (auto simp: rr_server_peers_def peer_inv_def)

lemma rr_group_inv:
  assumes "\<And>s. s \<in> set servers \<Longrightarrow> 0 \<le> srv_weight s \<and> srv_weight s < 2 ^ 63 \<and> 0 \<le> srv_max_fails s" and "rr_number (rr_group b servers) \<noteq> 0"
  shows "group_inv (rr_group b servers)"
proof -
  define S where "S = filter (\<lambda>s. srv_backup s = b) servers"
  define ps where "ps = concat (map rr_server_peers S)"
  have g: "rr_peers (rr_group b servers) = ps" by (simp add: rr_group_def S_def ps_def Let_def)
  have len: "length ps = rr_number (rr_group b servers)"
    by (simp add: rr_group_def S_def [symmetric] ps_def Let_def length_concat o_def rr_server_peers_def)
  have inv: "peer_inv peer \<and> current_weight peer = 0" if pin: "peer \<in> set ps" for peer
  proof -
    obtain s where s: "s \<in> set S" "peer \<in> set (rr_server_peers s)" using pin unfolding ps_def set_concat set_map by blast
    then have "s \<in> set servers" by (simp add: S_def)
    then show ?thesis using server_peers_inv s(2) assms(1) by blast
  qed
  have "(\<Sum>j<length ps. current_weight (ps ! j)) = (\<Sum>j<length ps. 0)" using inv by (intro sum.cong) auto
  then show ?thesis using inv assms(2) len unfolding group_inv_def g by (auto simp: rr_group_def Let_def)
qed

lemma implicit_inv: "rr_implicit port (Some addrs) = Some us \<Longrightarrow> addrs \<noteq> [] \<Longrightarrow> list_all group_inv us"
  by (auto simp: rr_implicit_def rr_plain_group_def rr_plain_peer_def group_inv_def peer_inv_def split: if_splits)

lemma create_inv:
  assumes "0 < ur_naddrs ur" and "ur_sockaddr ur \<noteq> None \<Longrightarrow> ur_naddrs ur = 1" and "ur_sockaddr ur = None \<Longrightarrow> length (ur_addrs ur) = ur_naddrs ur"
    and "ngx_http_upstream_create_round_robin_peer ur = (us, rrp)"
  shows "list_all group_inv us \<and> tried_fits (rrp_tried rrp) us"
proof -
  have "group_inv (rr_resolved_group ur)"
    using assms(1-3) by (auto simp: rr_resolved_group_def rr_plain_peer_def group_inv_def peer_inv_def Let_def split: option.splits)
  then show ?thesis
    using assms(4) words_enough [of _ "rr_number (rr_resolved_group ur)"]
    by (auto simp: ngx_http_upstream_create_round_robin_peer_def Let_def tried_fits_def)
qed

lemma init_Some:
  assumes "ngx_http_upstream_init_round_robin servers = Some us"
  shows "us = (if rr_number (rr_group True servers) = 0 then [rr_group False servers]
      else [(rr_group False servers)\<lparr>rr_single := False\<rparr>, (rr_group True servers)\<lparr>rr_single := False\<rparr>])"
    "rr_number (rr_group False servers) \<noteq> 0"
  using assms by (simp_all add: ngx_http_upstream_init_round_robin_def Let_def split: if_splits)

lemma init_inv:
  assumes "ngx_http_upstream_init_round_robin servers = Some us"
    and "\<And>s. s \<in> set servers \<Longrightarrow> 0 \<le> srv_weight s \<and> srv_weight s < 2 ^ 63 \<and> 0 \<le> srv_max_fails s"
  shows "list_all group_inv us"
proof -
  have single: "group_inv peers \<Longrightarrow> group_inv (peers\<lparr>rr_single := False\<rparr>)" for peers by (simp add: group_inv_def)
  have inv: "rr_number (rr_group b servers) \<noteq> 0 \<Longrightarrow> group_inv (rr_group b servers)" for b
    using rr_group_inv assms(2) by blast
  show ?thesis unfolding init_Some(1) [OF assms(1)] using inv [OF init_Some(2) [OF assms(1)]] inv [of True] single by auto
qed

lemma init_tried: "ngx_http_upstream_init_round_robin servers = Some us \<Longrightarrow>
  tried_fits (rrp_tried (ngx_http_upstream_init_round_robin_peer us)) us \<and> rrp_peers (ngx_http_upstream_init_round_robin_peer us) < length us"
proof -
  assume a: "ngx_http_upstream_init_round_robin servers = Some us"
  define n where "n = (if length us > 1 \<and> rr_number (us ! 1) > rr_number (us ! 0) then rr_number (us ! 1) else rr_number (us ! 0))"
  have t: "rrp_tried (ngx_http_upstream_init_round_robin_peer us) = replicate (if n \<le> uintptr_bits then 1 else rr_words n) 0"
    by (simp add: ngx_http_upstream_init_round_robin_peer_def n_def Let_def)
  have us: "us \<noteq> []" "length us \<le> 2" unfolding init_Some(1) [OF a] by simp_all
  have le: "rr_number peers \<le> n" if pin: "peers \<in> set us" for peers
  proof -
    obtain i where i: "i < length us" "peers = us ! i" using pin by (metis in_set_conv_nth)
    then consider "i = 0" | "i = 1" using us(2) by linarith
    then show ?thesis using i by cases (auto simp: n_def)
  qed
  have "j div uintptr_bits < (if n \<le> uintptr_bits then 1 else rr_words n)" if "peers \<in> set us" "j < rr_number peers" for peers j
    using words_enough [of j n] le [OF that(1)] that(2) by linarith
  then show ?thesis
    using us(1) unfolding tried_fits_def t length_replicate by (simp add: ngx_http_upstream_init_round_robin_peer_def Let_def)
qed


lemma servers0_init:
  "\<exists>us. ngx_http_upstream_init_round_robin servers0 = Some us"
  "s \<in> set servers0 \<Longrightarrow> 0 \<le> srv_weight s \<and> srv_weight s < 2 ^ 63 \<and> 0 \<le> srv_max_fails s"
  by (auto simp: servers0_def ngx_http_upstream_init_round_robin_def rr_group_def Let_def)


lemma release_keeps:
  assumes "peer_inv peer"
  shows "peer_inv (rr_release now failed peer)" "current_weight (rr_release now failed peer) = current_weight peer"
    "peer_config (rr_release now failed peer) = peer_config peer"
proof -
  have w: "0 \<le> rr_weight peer" "rr_weight peer < 2 ^ 63" "u64 (rr_weight peer) = rr_weight peer"
    using assms by (auto simp: peer_inv_def u64_id)
  have "s64 (effective_weight peer - u64 (rr_weight peer) div max_fails peer) = effective_weight peer - rr_weight peer div max_fails peer
      \<and> 0 \<le> rr_weight peer div max_fails peer" if "max_fails peer \<noteq> 0"
  proof -
    have m: "0 < max_fails peer" using assms that by (auto simp: peer_inv_def)
    have "0 \<le> rr_weight peer div max_fails peer" using m w(1) by (simp add: pos_imp_zdiv_nonneg_iff)
    moreover have "rr_weight peer div max_fails peer \<le> rr_weight peer" using int_div_le_self [of "rr_weight peer" "max_fails peer"] w(1) by (cases "rr_weight peer = 0") auto
    ultimately show ?thesis using assms w unfolding w(3) by (auto simp: peer_inv_def intro!: s64_id)
  qed
  then show "peer_inv (rr_release now failed peer)"
    using assms u64_range by (auto simp: rr_release_def peer_inv_def Let_def)
  show "current_weight (rr_release now failed peer) = current_weight peer" "peer_config (rr_release now failed peer) = peer_config peer"
    by (auto simp: rr_release_def peer_config_def Let_def)
qed

lemma us_update:
  assumes "list_all group_inv us" and "g < length us" and "group_inv x" and "same_config (us ! g) x"
  shows "us_keep us (us[g := x])"
proof -
  have "list_all group_inv (us[g := x])" using assms by (simp add: list_all_length nth_list_update)
  moreover have "list_all2 same_config us (us[g := x])"
    using assms by (auto simp: list_all2_conv_all_nth nth_list_update same_config_refl)
  ultimately show ?thesis by (simp add: us_keep_def)
qed

text \<open>C33: The peers of an upstream stay well-formed: those that a configuration with weights below 2^63 makes are, and taking
  or releasing a peer keeps every effective weight between 0 and the weight, all weights and counters in 64 bits, the
  sum of the current weights of a group 0 modulo 2^64, and every field that the configuration
  sets and the code does not use as a counter: address, name, server, weight, limits and down of each peer, and number, total
  weight, weighted and single of each group.\<close>

theorem round_robin_invariant:
  "(ngx_http_upstream_init_round_robin servers = Some usa \<and> (\<forall>s\<in>set servers. 0 \<le> srv_weight s \<and> srv_weight s < 2 ^ 63 \<and> 0 \<le> srv_max_fails s) \<longrightarrow>
      list_all group_inv usa \<and> tried_fits (rrp_tried (ngx_http_upstream_init_round_robin_peer usa)) usa)
   \<and> (list_all group_inv us \<and> rrp_peers rrp < length us \<and> tried_fits (rrp_tried rrp) us
       \<and> ngx_http_upstream_get_round_robin_peer now us rrp = (rc, us', rrp') \<longrightarrow> us_keep us us')
   \<and> (list_all group_inv us \<and> rrp_current rrp = Some (g, p) \<and> g < length us \<and> p < length (rr_peers (us ! g)) \<longrightarrow>
       us_keep us (fst (ngx_http_upstream_free_round_robin_peer now failed us rrp tries)))"
proof (intro conjI impI; elim conjE)
  assume a: "ngx_http_upstream_init_round_robin servers = Some usa" "\<forall>s\<in>set servers. 0 \<le> srv_weight s \<and> srv_weight s < 2 ^ 63 \<and> 0 \<le> srv_max_fails s"
  show "list_all group_inv usa" using init_inv [OF a(1)] a(2) by blast
  show "tried_fits (rrp_tried (ngx_http_upstream_init_round_robin_peer usa)) usa" using init_tried [OF a(1)] by simp
next
  assume "list_all group_inv us" "rrp_peers rrp < length us" "tried_fits (rrp_tried rrp) us"
    "ngx_http_upstream_get_round_robin_peer now us rrp = (rc, us', rrp')"
  then show "us_keep us us'" using get_answer by blast
next
  assume a: "list_all group_inv us" "rrp_current rrp = Some (g, p)" "g < length us" "p < length (rr_peers (us ! g))"
  have gi: "group_inv (us ! g)" using a(1,3) by (simp add: list_all_length)
  then have pi: "peer_inv (rr_peers (us ! g) ! p)" using a(4) by (simp add: group_inv_def)
  have "group_inv (rr_update p f (us ! g)) \<and> same_config (us ! g) (rr_update p f (us ! g))"
    if "f = rr_release now failed \<or> f = (\<lambda>peer. peer\<lparr>conns := u64 (conns peer - 1)\<rparr>)" for f
    using that release_keeps [OF pi] pi u64_range
    by (intro group_update [OF gi a(4)]) (auto simp: peer_inv_def peer_config_def)
  then show "us_keep us (fst (ngx_http_upstream_free_round_robin_peer now failed us rrp tries))"
    using us_update [OF a(1,3)] a(2) by (simp add: ngx_http_upstream_free_round_robin_peer_def)
qed

theorem round_robin_invariant_witness:
  "\<exists>us us'. ngx_http_upstream_init_round_robin servers0 = Some us \<and> list_all group_inv us
     \<and> us' = fst (snd (ngx_http_upstream_get_round_robin_peer 100 us (ngx_http_upstream_init_round_robin_peer us))) \<and> us_keep us us'
     \<and> us_keep us' (fst (ngx_http_upstream_free_round_robin_peer 100 True us'
         (snd (snd (ngx_http_upstream_get_round_robin_peer 100 us (ngx_http_upstream_init_round_robin_peer us)))) 3))"
proof -
  obtain us where us: "ngx_http_upstream_init_round_robin servers0 = Some us" using servers0_init(1) by blast
  define rrp where "rrp = ngx_http_upstream_init_round_robin_peer us"
  obtain rc us' rrp' where g: "ngx_http_upstream_get_round_robin_peer 100 us rrp = (rc, us', rrp')" by (cases "ngx_http_upstream_get_round_robin_peer 100 us rrp")
  have inv: "list_all group_inv us" using round_robin_invariant [where servers = servers0 and usa = us] us servers0_init(2) by blast
  have fits: "rrp_peers rrp < length us" "tried_fits (rrp_tried rrp) us" using init_tried [OF us] by (simp_all add: rrp_def)
  have keep: "us_keep us us'" using round_robin_invariant [where us = us and rrp = rrp and now = 100 and rc = rc and us' = us' and rrp' = rrp'] inv fits g by blast
  have s: "s64 1 = 1" "s64 3 = 3" by (simp_all add: s64_id)
  have cur: "rrp_current rrp' = Some (0, 1)" "length us' = 2" "length (rr_peers (us' ! 0)) = 2"
    using g unfolding rrp_def init_Some(1) [OF us]
    by (auto simp: servers0_def rr_group_def rr_server_peers_def ngx_http_upstream_init_round_robin_peer_def Let_def uintptr_bits_def
      ngx_http_upstream_get_round_robin_peer_def rr_take_def ngx_http_upstream_get_peer_def is_tried_def rr_unusable_def rr_use_def s)
  have "us_keep us' (fst (ngx_http_upstream_free_round_robin_peer 100 True us' rrp' 3))"
    using round_robin_invariant [where us = us' and rrp = rrp' and g = 0 and p = 1 and now = 100 and failed = True and tries = 3] keep cur by (simp add: us_keep_def)
  then show ?thesis using us inv keep g by (auto simp: rrp_def)
qed

theorem round_robin_fair_witness:
  "\<exists>peers. peers = rr_group False servers0 \<and> (\<exists>cs ps'. rr_run [7, 7, 8, 9] [peers] = (cs, [peers\<lparr>rr_peers := ps'\<rparr>]) \<and> length ps' = 2
     \<and> int (count_list cs (Some (0, 0))) = 1 \<and> int (count_list cs (Some (0, 1))) = 3 \<and> current_weight (ps' ! 1) = 0)"
proof -
  define peers where "peers = rr_group False servers0"
  have p: "\<not> rr_single peers" "rr_number peers = length (rr_peers peers)" "rr_peers peers \<noteq> []" "length (rr_peers peers) = 2"
    "\<And>peer. peer \<in> set (rr_peers peers) \<Longrightarrow> rr_healthy peer \<and> current_weight peer = 0"
    "4 = (\<Sum>j<length (rr_peers peers). rr_weight (rr_peers peers ! j))"
    "rr_weight (rr_peers peers ! 0) = 1" "rr_weight (rr_peers peers ! 1) = 3" "(int (length (rr_peers peers)) + 1) * 4 < 2 ^ 63"
    by (auto simp: peers_def servers0_def rr_group_def rr_server_peers_def Let_def rr_healthy_def numeral_2_eq_2)
  from round_robin_fair [OF p(1-3,5,6,9), of "[7, 7, 8, 9]"] obtain cs ps' where
    c: "rr_run [7, 7, 8, 9] [peers] = (cs, [peers\<lparr>rr_peers := ps'\<rparr>])" "length ps' = length (rr_peers peers)"
    "\<forall>j<length ps'. int (count_list cs (Some (0, j))) = rr_weight (rr_peers peers ! j) \<and> current_weight (ps' ! j) = 0"
    by auto
  then have "length ps' = 2" using p(4) by simp
  with c(3) p(7,8) have "int (count_list cs (Some (0, 0))) = 1" "int (count_list cs (Some (0, 1))) = 3" "current_weight (ps' ! 1) = 0" by auto
  then show ?thesis using c(1) \<open>length ps' = 2\<close> by (auto simp: peers_def)
qed

end
