(* ===== verification/Ngx_Rbtree.thy ===== *)
theory Ngx_Rbtree
  imports Ngx_Base
begin

unbundle bit_operations_syntax

text \<open>
Red-black trees (core/ngx_rbtree.c, core/ngx_rbtree.h), every function of the file, on nodes in memory with
their parent pointers, and the proof about insertion. A tree is represented by its shape; a place in it by
the subtree there and the way up, so that a step of the code is a step at a place.
\<close>

section \<open>Nodes and trees\<close>

text \<open>Nodes are at addresses; a tree comes with the memory that its nodes are in. The colour is red or not.\<close>

record ngx_rbtree_node =
  rb_key :: "64 word"
  rb_left :: nat
  rb_right :: nat
  rb_parent :: nat
  rb_red :: bool

record ngx_rbtree =
  rb_mem :: "nat \<Rightarrow> ngx_rbtree_node"
  rb_root :: nat
  rb_sentinel :: nat

definition rb_at :: "nat \<Rightarrow> (ngx_rbtree_node \<Rightarrow> ngx_rbtree_node) \<Rightarrow> ngx_rbtree \<Rightarrow> ngx_rbtree" where
  "rb_at a f tree = tree\<lparr>rb_mem := (rb_mem tree)(a := f (rb_mem tree a))\<rparr>"

abbreviation key_of :: "ngx_rbtree \<Rightarrow> nat \<Rightarrow> 64 word" where "key_of tree a \<equiv> rb_key (rb_mem tree a)"
abbreviation left_of :: "ngx_rbtree \<Rightarrow> nat \<Rightarrow> nat" where "left_of tree a \<equiv> rb_left (rb_mem tree a)"
abbreviation right_of :: "ngx_rbtree \<Rightarrow> nat \<Rightarrow> nat" where "right_of tree a \<equiv> rb_right (rb_mem tree a)"
abbreviation parent_of :: "ngx_rbtree \<Rightarrow> nat \<Rightarrow> nat" where "parent_of tree a \<equiv> rb_parent (rb_mem tree a)"

abbreviation set_left :: "nat \<Rightarrow> nat \<Rightarrow> ngx_rbtree \<Rightarrow> ngx_rbtree" where "set_left a v \<equiv> rb_at a (\<lambda>n. n\<lparr>rb_left := v\<rparr>)"
abbreviation set_right :: "nat \<Rightarrow> nat \<Rightarrow> ngx_rbtree \<Rightarrow> ngx_rbtree" where "set_right a v \<equiv> rb_at a (\<lambda>n. n\<lparr>rb_right := v\<rparr>)"
abbreviation set_parent :: "nat \<Rightarrow> nat \<Rightarrow> ngx_rbtree \<Rightarrow> ngx_rbtree" where "set_parent a v \<equiv> rb_at a (\<lambda>n. n\<lparr>rb_parent := v\<rparr>)"

definition ngx_rbt_red :: "nat \<Rightarrow> ngx_rbtree \<Rightarrow> ngx_rbtree" where "ngx_rbt_red a = rb_at a (\<lambda>n. n\<lparr>rb_red := True\<rparr>)"
definition ngx_rbt_black :: "nat \<Rightarrow> ngx_rbtree \<Rightarrow> ngx_rbtree" where "ngx_rbt_black a = rb_at a (\<lambda>n. n\<lparr>rb_red := False\<rparr>)"
definition ngx_rbt_is_red :: "ngx_rbtree \<Rightarrow> nat \<Rightarrow> bool" where "ngx_rbt_is_red tree a = rb_red (rb_mem tree a)"
definition ngx_rbt_is_black :: "ngx_rbtree \<Rightarrow> nat \<Rightarrow> bool" where "ngx_rbt_is_black tree a = (\<not> ngx_rbt_is_red tree a)"
definition ngx_rbt_copy_color :: "nat \<Rightarrow> nat \<Rightarrow> ngx_rbtree \<Rightarrow> ngx_rbtree" where
  "ngx_rbt_copy_color a b tree = rb_at a (\<lambda>n. n\<lparr>rb_red := rb_red (rb_mem tree b)\<rparr>) tree"

definition ngx_rbtree_init :: "nat \<Rightarrow> (nat \<Rightarrow> ngx_rbtree_node) \<Rightarrow> ngx_rbtree" where
  "ngx_rbtree_init s m = ngx_rbt_black s \<lparr>rb_mem = m, rb_root = s, rb_sentinel = s\<rparr>"

section \<open>Rotations\<close>

definition ngx_rbtree_left_rotate :: "nat \<Rightarrow> ngx_rbtree \<Rightarrow> ngx_rbtree" where
  "ngx_rbtree_left_rotate node tree =
     (let temp = right_of tree node;
          tree = set_right node (left_of tree temp) tree;
          tree = (if left_of tree temp \<noteq> rb_sentinel tree then set_parent (left_of tree temp) node tree else tree);
          tree = set_parent temp (parent_of tree node) tree;
          tree =
            (if node = rb_root tree then tree\<lparr>rb_root := temp\<rparr>
             else if node = left_of tree (parent_of tree node) then set_left (parent_of tree node) temp tree
             else set_right (parent_of tree node) temp tree);
          tree = set_left temp node tree
      in set_parent node temp tree)"

definition ngx_rbtree_right_rotate :: "nat \<Rightarrow> ngx_rbtree \<Rightarrow> ngx_rbtree" where
  "ngx_rbtree_right_rotate node tree =
     (let temp = left_of tree node;
          tree = set_left node (right_of tree temp) tree;
          tree = (if right_of tree temp \<noteq> rb_sentinel tree then set_parent (right_of tree temp) node tree else tree);
          tree = set_parent temp (parent_of tree node) tree;
          tree =
            (if node = rb_root tree then tree\<lparr>rb_root := temp\<rparr>
             else if node = right_of tree (parent_of tree node) then set_right (parent_of tree node) temp tree
             else set_left (parent_of tree node) temp tree);
          tree = set_right temp node tree
      in set_parent node temp tree)"

section \<open>Insertion\<close>

text \<open>The way down to a free place, for a comparison of keys: the parent, and whether the place is on its left.\<close>

partial_function (option) rb_place :: "(64 word \<Rightarrow> 64 word \<Rightarrow> bool) \<Rightarrow> 64 word \<Rightarrow> ngx_rbtree \<Rightarrow> nat \<Rightarrow> (nat \<times> bool) option" where
  "rb_place lt k tree temp =
     (let l = lt k (key_of tree temp); p = (if l then left_of tree temp else right_of tree temp) in
      if p = rb_sentinel tree then Some (temp, l) else rb_place lt k tree p)"

definition rb_link :: "nat \<Rightarrow> nat \<times> bool \<Rightarrow> ngx_rbtree \<Rightarrow> ngx_rbtree" where
  "rb_link node place tree =
     (case place of (temp, l) \<Rightarrow>
        let tree = (if l then set_left temp node tree else set_right temp node tree);
            tree = set_parent node temp tree;
            tree = set_left node (rb_sentinel tree) tree;
            tree = set_right node (rb_sentinel tree) tree
        in ngx_rbt_red node tree)"

definition ngx_rbtree_insert_value :: "nat \<Rightarrow> nat \<Rightarrow> ngx_rbtree \<Rightarrow> ngx_rbtree option" where
  "ngx_rbtree_insert_value temp node tree =
     map_option (\<lambda>place. rb_link node place tree) (rb_place (\<lambda>k k'. k < k') (key_of tree node) tree temp)"

text \<open>The keys of timers may wrap around.\<close>

definition ngx_rbtree_insert_timer_value :: "nat \<Rightarrow> nat \<Rightarrow> ngx_rbtree \<Rightarrow> ngx_rbtree option" where
  "ngx_rbtree_insert_timer_value temp node tree =
     map_option (\<lambda>place. rb_link node place tree) (rb_place (\<lambda>k k'. sint (k - k') < 0) (key_of tree node) tree temp)"

text \<open>One turn of the loop that restores the balance.\<close>

definition rb_insert_step :: "nat \<Rightarrow> ngx_rbtree \<Rightarrow> nat \<times> ngx_rbtree" where
  "rb_insert_step node tree =
     (if parent_of tree node = left_of tree (parent_of tree (parent_of tree node)) then
        let temp = right_of tree (parent_of tree (parent_of tree node)) in
        if ngx_rbt_is_red tree temp then
          let tree = ngx_rbt_black (parent_of tree node) tree;
              tree = ngx_rbt_black temp tree;
              tree = ngx_rbt_red (parent_of tree (parent_of tree node)) tree
          in (parent_of tree (parent_of tree node), tree)
        else
          let (node, tree) =
                (if node = right_of tree (parent_of tree node) then
                   let node = parent_of tree node in (node, ngx_rbtree_left_rotate node tree)
                 else (node, tree));
              tree = ngx_rbt_black (parent_of tree node) tree;
              tree = ngx_rbt_red (parent_of tree (parent_of tree node)) tree
          in (node, ngx_rbtree_right_rotate (parent_of tree (parent_of tree node)) tree)
      else
        let temp = left_of tree (parent_of tree (parent_of tree node)) in
        if ngx_rbt_is_red tree temp then
          let tree = ngx_rbt_black (parent_of tree node) tree;
              tree = ngx_rbt_black temp tree;
              tree = ngx_rbt_red (parent_of tree (parent_of tree node)) tree
          in (parent_of tree (parent_of tree node), tree)
        else
          let (node, tree) =
                (if node = left_of tree (parent_of tree node) then
                   let node = parent_of tree node in (node, ngx_rbtree_right_rotate node tree)
                 else (node, tree));
              tree = ngx_rbt_black (parent_of tree node) tree;
              tree = ngx_rbt_red (parent_of tree (parent_of tree node)) tree
          in (node, ngx_rbtree_left_rotate (parent_of tree (parent_of tree node)) tree))"

partial_function (option) rb_insert_loop :: "nat \<Rightarrow> ngx_rbtree \<Rightarrow> ngx_rbtree option" where
  "rb_insert_loop node tree =
     (if node \<noteq> rb_root tree \<and> ngx_rbt_is_red tree (parent_of tree node) then
        case rb_insert_step node tree of (node, tree) \<Rightarrow> rb_insert_loop node tree
      else Some tree)"

text \<open>The place is found by the function that the tree was made with.\<close>

definition ngx_rbtree_insert :: "(nat \<Rightarrow> nat \<Rightarrow> ngx_rbtree \<Rightarrow> ngx_rbtree option) \<Rightarrow> nat \<Rightarrow> ngx_rbtree \<Rightarrow> ngx_rbtree option" where
  "ngx_rbtree_insert ins node tree =
     (if rb_root tree = rb_sentinel tree then
        let tree = set_parent node 0 tree;
            tree = set_left node (rb_sentinel tree) tree;
            tree = set_right node (rb_sentinel tree) tree;
            tree = ngx_rbt_black node tree
        in Some (tree\<lparr>rb_root := node\<rparr>)
      else
        case ins (rb_root tree) node tree of
          None \<Rightarrow> None
        | Some tree \<Rightarrow> map_option (\<lambda>tree. ngx_rbt_black (rb_root tree) tree) (rb_insert_loop node tree))"

section \<open>Search\<close>

partial_function (option) ngx_rbtree_min :: "nat \<Rightarrow> ngx_rbtree \<Rightarrow> nat option" where
  "ngx_rbtree_min node tree =
     (if left_of tree node \<noteq> rb_sentinel tree then ngx_rbtree_min (left_of tree node) tree else Some node)"

text \<open>The way up from a node without a right child; address 0 is the null pointer.\<close>

partial_function (option) rb_next_up :: "nat \<Rightarrow> ngx_rbtree \<Rightarrow> nat option" where
  "rb_next_up node tree =
     (let parent = parent_of tree node in
      if node = rb_root tree then Some 0
      else if node = left_of tree parent then Some parent
      else rb_next_up parent tree)"

definition ngx_rbtree_next :: "nat \<Rightarrow> ngx_rbtree \<Rightarrow> nat option" where
  "ngx_rbtree_next node tree =
     (if right_of tree node \<noteq> rb_sentinel tree then ngx_rbtree_min (right_of tree node) tree else rb_next_up node tree)"

section \<open>Deletion\<close>

text \<open>The node that leaves its place, and the child that takes it.\<close>

definition rb_subst :: "nat \<Rightarrow> ngx_rbtree \<Rightarrow> (nat \<times> nat) option" where
  "rb_subst node tree =
     (if left_of tree node = rb_sentinel tree then Some (node, right_of tree node)
      else if right_of tree node = rb_sentinel tree then Some (node, left_of tree node)
      else
        map_option (\<lambda>subst. (subst, if left_of tree subst \<noteq> rb_sentinel tree then left_of tree subst else right_of tree subst))
          (ngx_rbtree_min (right_of tree node) tree))"

definition rb_clear :: "nat \<Rightarrow> ngx_rbtree \<Rightarrow> ngx_rbtree" where
  "rb_clear node = rb_at node (\<lambda>n. n\<lparr>rb_left := 0, rb_right := 0, rb_parent := 0, rb_key := 0\<rparr>)"

text \<open>The node \<open>subst\<close> takes the place of the node that is deleted.\<close>

definition rb_replace :: "nat \<Rightarrow> nat \<Rightarrow> ngx_rbtree \<Rightarrow> ngx_rbtree" where
  "rb_replace node subst tree =
     (let tree = set_left subst (left_of tree node) tree;
          tree = set_right subst (right_of tree node) tree;
          tree = set_parent subst (parent_of tree node) tree;
          tree = ngx_rbt_copy_color subst node tree;
          tree =
            (if node = rb_root tree then tree\<lparr>rb_root := subst\<rparr>
             else if node = left_of tree (parent_of tree node) then set_left (parent_of tree node) subst tree
             else set_right (parent_of tree node) subst tree);
          tree = (if left_of tree subst \<noteq> rb_sentinel tree then set_parent (left_of tree subst) subst tree else tree)
      in if right_of tree subst \<noteq> rb_sentinel tree then set_parent (right_of tree subst) subst tree else tree)"

definition rb_unlink :: "nat \<Rightarrow> nat \<Rightarrow> nat \<Rightarrow> ngx_rbtree \<Rightarrow> ngx_rbtree" where
  "rb_unlink node subst temp tree =
     (let tree =
            (if subst = left_of tree (parent_of tree subst) then set_left (parent_of tree subst) temp tree
             else set_right (parent_of tree subst) temp tree);
          tree =
            (if subst = node then set_parent temp (parent_of tree subst) tree
             else
               let tree =
                 (if parent_of tree subst = node then set_parent temp subst tree
                  else set_parent temp (parent_of tree subst) tree)
               in rb_replace node subst tree)
      in rb_clear node tree)"

text \<open>One turn of the loop that restores the balance.\<close>

definition rb_delete_step :: "nat \<Rightarrow> ngx_rbtree \<Rightarrow> nat \<times> ngx_rbtree" where
  "rb_delete_step temp tree =
     (if temp = left_of tree (parent_of tree temp) then
        let w = right_of tree (parent_of tree temp);
            (w, tree) =
              (if ngx_rbt_is_red tree w then
                 let tree = ngx_rbt_black w tree;
                     tree = ngx_rbt_red (parent_of tree temp) tree;
                     tree = ngx_rbtree_left_rotate (parent_of tree temp) tree
                 in (right_of tree (parent_of tree temp), tree)
               else (w, tree))
        in
        if ngx_rbt_is_black tree (left_of tree w) \<and> ngx_rbt_is_black tree (right_of tree w) then
          let tree = ngx_rbt_red w tree in (parent_of tree temp, tree)
        else
          let (w, tree) =
                (if ngx_rbt_is_black tree (right_of tree w) then
                   let tree = ngx_rbt_black (left_of tree w) tree;
                       tree = ngx_rbt_red w tree;
                       tree = ngx_rbtree_right_rotate w tree
                   in (right_of tree (parent_of tree temp), tree)
                 else (w, tree));
              tree = ngx_rbt_copy_color w (parent_of tree temp) tree;
              tree = ngx_rbt_black (parent_of tree temp) tree;
              tree = ngx_rbt_black (right_of tree w) tree;
              tree = ngx_rbtree_left_rotate (parent_of tree temp) tree
          in (rb_root tree, tree)
      else
        let w = left_of tree (parent_of tree temp);
            (w, tree) =
              (if ngx_rbt_is_red tree w then
                 let tree = ngx_rbt_black w tree;
                     tree = ngx_rbt_red (parent_of tree temp) tree;
                     tree = ngx_rbtree_right_rotate (parent_of tree temp) tree
                 in (left_of tree (parent_of tree temp), tree)
               else (w, tree))
        in
        if ngx_rbt_is_black tree (left_of tree w) \<and> ngx_rbt_is_black tree (right_of tree w) then
          let tree = ngx_rbt_red w tree in (parent_of tree temp, tree)
        else
          let (w, tree) =
                (if ngx_rbt_is_black tree (left_of tree w) then
                   let tree = ngx_rbt_black (right_of tree w) tree;
                       tree = ngx_rbt_red w tree;
                       tree = ngx_rbtree_left_rotate w tree
                   in (left_of tree (parent_of tree temp), tree)
                 else (w, tree));
              tree = ngx_rbt_copy_color w (parent_of tree temp) tree;
              tree = ngx_rbt_black (parent_of tree temp) tree;
              tree = ngx_rbt_black (left_of tree w) tree;
              tree = ngx_rbtree_right_rotate (parent_of tree temp) tree
          in (rb_root tree, tree))"

partial_function (option) rb_delete_loop :: "nat \<Rightarrow> ngx_rbtree \<Rightarrow> (nat \<times> ngx_rbtree) option" where
  "rb_delete_loop temp tree =
     (if temp \<noteq> rb_root tree \<and> ngx_rbt_is_black tree temp then
        case rb_delete_step temp tree of (temp, tree) \<Rightarrow> rb_delete_loop temp tree
      else Some (temp, tree))"

definition ngx_rbtree_delete :: "nat \<Rightarrow> ngx_rbtree \<Rightarrow> ngx_rbtree option" where
  "ngx_rbtree_delete node tree =
     (case rb_subst node tree of
        None \<Rightarrow> None
      | Some (subst, temp) \<Rightarrow>
          if subst = rb_root tree then
            let tree = tree\<lparr>rb_root := temp\<rparr>;
                tree = ngx_rbt_black temp tree
            in Some (rb_clear node tree)
          else
            let red = ngx_rbt_is_red tree subst;
                tree = rb_unlink node subst temp tree
            in if red then Some tree
               else map_option (\<lambda>(temp, tree). ngx_rbt_black temp tree) (rb_delete_loop temp tree))"

section \<open>Directions\<close>

text \<open>The code is written out for left and right; for the proofs the side is a parameter.\<close>

definition ch :: "bool \<Rightarrow> ngx_rbtree_node \<Rightarrow> nat" where
  "ch d n = (if d then rb_left n else rb_right n)"

definition sc :: "bool \<Rightarrow> nat \<Rightarrow> ngx_rbtree_node \<Rightarrow> ngx_rbtree_node" where
  "sc d v n = (if d then n\<lparr>rb_left := v\<rparr> else n\<lparr>rb_right := v\<rparr>)"

lemma ch_sc [simp]:
  "ch d (sc d v n) = v" "ch (\<not> d) (sc d v n) = ch (\<not> d) n" "ch d (sc (\<not> d) v n) = ch d n"
  "rb_parent (sc d v n) = rb_parent n" "rb_red (sc d v n) = rb_red n" "rb_key (sc d v n) = rb_key n"
  by (simp_all add: ch_def sc_def)

lemma ch_sides:
  "ch True = rb_left" "ch False = rb_right" "sc True v = (\<lambda>n. n\<lparr>rb_left := v\<rparr>)" "sc False v = (\<lambda>n. n\<lparr>rb_right := v\<rparr>)"
  by (simp_all add: ch_def sc_def fun_eq_iff)

lemma ch_other [simp]:
  "ch d (n\<lparr>rb_parent := v\<rparr>) = ch d n" "ch d (n\<lparr>rb_red := c\<rparr>) = ch d n"
  by (simp_all add: ch_def)

lemma rb_at_sel [simp]:
  "rb_mem (rb_at a f tree) = (rb_mem tree)(a := f (rb_mem tree a))" "rb_root (rb_at a f tree) = rb_root tree"
  "rb_sentinel (rb_at a f tree) = rb_sentinel tree"
  by (simp_all add: rb_at_def)

definition rot :: "bool \<Rightarrow> nat \<Rightarrow> ngx_rbtree \<Rightarrow> ngx_rbtree" where
  "rot d node tree =
     (let temp = ch (\<not> d) (rb_mem tree node);
          tree = rb_at node (sc (\<not> d) (ch d (rb_mem tree temp))) tree;
          tree = (if ch d (rb_mem tree temp) \<noteq> rb_sentinel tree then set_parent (ch d (rb_mem tree temp)) node tree else tree);
          tree = set_parent temp (parent_of tree node) tree;
          tree =
            (if node = rb_root tree then tree\<lparr>rb_root := temp\<rparr>
             else if node = ch d (rb_mem tree (parent_of tree node)) then rb_at (parent_of tree node) (sc d temp) tree
             else rb_at (parent_of tree node) (sc (\<not> d) temp) tree);
          tree = rb_at temp (sc d node) tree
      in set_parent node temp tree)"

lemma rotate_rot: "ngx_rbtree_left_rotate = rot True" "ngx_rbtree_right_rotate = rot False"
  unfolding fun_eq_iff ngx_rbtree_left_rotate_def ngx_rbtree_right_rotate_def rot_def not_True_eq_False not_False_eq_True ch_sides
  by (rule allI, rule allI, rule refl)+

section \<open>Shapes\<close>

text \<open>The nodes of a tree with their colours, and a place in a tree: the way up, with the other sides.\<close>

datatype rbt = Lf | Nd bool rbt nat rbt

type_synonym way = "(bool \<times> bool \<times> nat \<times> rbt) list"

definition nd :: "bool \<Rightarrow> bool \<Rightarrow> rbt \<Rightarrow> nat \<Rightarrow> rbt \<Rightarrow> rbt" where
  "nd d c x a y = (if d then Nd c x a y else Nd c y a x)"

fun ad :: "rbt \<Rightarrow> nat list" where
  "ad Lf = []"
| "ad (Nd c l a r) = ad l @ a # ad r"

fun cad :: "way \<Rightarrow> nat list" where
  "cad [] = []"
| "cad ((d, c, a, y) # C) = a # ad y @ cad C"

fun up :: "way \<Rightarrow> nat" where
  "up [] = 0"
| "up ((d, c, a, y) # C) = a"

fun plug :: "way \<Rightarrow> rbt \<Rightarrow> rbt" where
  "plug [] t = t"
| "plug ((d, c, a, y) # C) t = plug C (nd d c t a y)"

fun shp :: "(nat \<Rightarrow> ngx_rbtree_node) \<Rightarrow> nat \<Rightarrow> nat \<Rightarrow> rbt \<Rightarrow> bool" where
  "shp m s p Lf = (p = s)"
| "shp m s p (Nd c l a r) = (p = a \<and> a \<noteq> s \<and> rb_red (m a) = c \<and> shp m s (rb_left (m a)) l \<and> shp m s (rb_right (m a)) r
     \<and> (l \<noteq> Lf \<longrightarrow> rb_parent (m (rb_left (m a))) = a) \<and> (r \<noteq> Lf \<longrightarrow> rb_parent (m (rb_right (m a))) = a))"

fun ctxp :: "(nat \<Rightarrow> ngx_rbtree_node) \<Rightarrow> nat \<Rightarrow> nat \<Rightarrow> nat \<Rightarrow> way \<Rightarrow> bool" where
  "ctxp m s root p [] = (root = p)"
| "ctxp m s root p ((d, c, a, y) # C) = (a \<noteq> s \<and> ch d (m a) = p \<and> rb_red (m a) = c \<and> shp m s (ch (\<not> d) (m a)) y
     \<and> (y \<noteq> Lf \<longrightarrow> rb_parent (m (ch (\<not> d) (m a))) = a) \<and> (C \<noteq> [] \<longrightarrow> rb_parent (m a) = up C) \<and> ctxp m s root a C)"

definition zp :: "ngx_rbtree \<Rightarrow> way \<Rightarrow> nat \<Rightarrow> rbt \<Rightarrow> bool" where
  "zp tree C p t \<longleftrightarrow> shp (rb_mem tree) (rb_sentinel tree) p t \<and> (C \<noteq> [] \<longrightarrow> parent_of tree p = up C)
     \<and> ctxp (rb_mem tree) (rb_sentinel tree) (rb_root tree) p C \<and> distinct (ad t @ cad C) \<and> \<not> rb_red (rb_mem tree (rb_sentinel tree))"

lemma nd_simps [simp]: "nd d c x a y \<noteq> Lf" "Lf \<noteq> nd d c x a y" "set (ad (nd d c x a y)) = insert a (set (ad x) \<union> set (ad y))"
  "distinct (ad (nd d c x a y)) \<longleftrightarrow> distinct (ad x) \<and> distinct (ad y) \<and> a \<notin> set (ad x) \<and> a \<notin> set (ad y) \<and> set (ad x) \<inter> set (ad y) = {}"
  "nd d c x a y = nd d c' x' a' y' \<longleftrightarrow> c = c' \<and> x = x' \<and> a = a' \<and> y = y'"
  by (auto simp: nd_def)

lemma nd_ex: "t \<noteq> Lf \<Longrightarrow> \<exists>c x a y. t = nd d c x a y"
  by (cases t; cases d) (simp_all add: nd_def)

lemma shp_nd [simp]:
  "shp m s p (nd d c x a y) \<longleftrightarrow> p = a \<and> a \<noteq> s \<and> rb_red (m a) = c \<and> shp m s (ch d (m a)) x \<and> shp m s (ch (\<not> d) (m a)) y
     \<and> (x \<noteq> Lf \<longrightarrow> rb_parent (m (ch d (m a))) = a) \<and> (y \<noteq> Lf \<longrightarrow> rb_parent (m (ch (\<not> d) (m a))) = a)"
  by (auto simp: nd_def ch_def)

lemma shp_root: "shp m s p t \<Longrightarrow> (t = Lf \<longleftrightarrow> p = s) \<and> (t \<noteq> Lf \<longrightarrow> p \<in> set (ad t))"
  by (cases t) auto

lemma shp_sentinel: "shp m s p t \<Longrightarrow> s \<notin> set (ad t)"
  by (induction t arbitrary: p) auto

lemma ctxp_sentinel: "ctxp m s root p C \<Longrightarrow> s \<notin> set (cad C)"
  by (induction m s root p C rule: ctxp.induct) (auto dest: shp_sentinel)

lemma shp_frame: "(\<And>i. i \<in> set (ad t) \<Longrightarrow> m' i = m i) \<Longrightarrow> shp m s p t \<Longrightarrow> shp m' s p t"
proof (induction t arbitrary: p)
  case (Nd c l a r)
  then have "m' a = m a" by simp
  moreover have "l \<noteq> Lf \<Longrightarrow> m' (rb_left (m a)) = m (rb_left (m a))" "r \<noteq> Lf \<Longrightarrow> m' (rb_right (m a)) = m (rb_right (m a))"
    using Nd.prems shp_root [of m s "rb_left (m a)" l] shp_root [of m s "rb_right (m a)" r] by auto
  ultimately show ?case using Nd by auto
qed simp

lemma shp_agree:
  "shp m s p t \<Longrightarrow> (\<And>i. i \<in> set (ad t) \<Longrightarrow> i \<noteq> a \<Longrightarrow> m' i = m i) \<Longrightarrow> a \<notin> set (ad t) \<Longrightarrow> t \<noteq> Lf \<Longrightarrow> m' p = m p"
  using shp_root by blast

lemma shp_reparent:
  assumes "shp m s p t" and "distinct (ad t)" and "\<And>i. i \<in> set (ad t) \<Longrightarrow> i \<noteq> p \<Longrightarrow> m' i = m i" and "m' p = (m p)\<lparr>rb_parent := v\<rparr>"
  shows "shp m' s p t"
proof (cases t)
  case (Nd c l a r)
  have f: "shp m' s (rb_left (m a)) l" "shp m' s (rb_right (m a)) r"
    using assms Nd by (auto intro!: shp_frame [where m = m])
  have "l \<noteq> Lf \<Longrightarrow> m' (rb_left (m a)) = m (rb_left (m a))"
    by (rule shp_agree [of m s _ l p]) (use assms Nd in auto)
  moreover have "r \<noteq> Lf \<Longrightarrow> m' (rb_right (m a)) = m (rb_right (m a))"
    by (rule shp_agree [of m s _ r p]) (use assms Nd in auto)
  ultimately show ?thesis using f assms Nd by auto
qed (use assms in simp)

lemma ctxp_frame: "(\<And>i. i \<in> set (cad C) \<Longrightarrow> m' i = m i) \<Longrightarrow> ctxp m s root p C \<Longrightarrow> ctxp m' s root p C"
proof (induction m s root p C rule: ctxp.induct)
  case (2 m s root p d c a y C)
  then have "m' a = m a" "shp m' s (ch (\<not> d) (m a)) y" by (auto intro!: shp_frame [where m = m])
  moreover have "y \<noteq> Lf \<Longrightarrow> m' (ch (\<not> d) (m a)) = m (ch (\<not> d) (m a))"
    using "2.prems" shp_root [of m s "ch (\<not> d) (m a)" y] by auto
  ultimately show ?case using 2 by auto
qed simp

text \<open>The way up, when another node takes the place.\<close>

lemma ctxp_swap:
  assumes "ctxp m s root p ((d, c, a, y) # C)" and "distinct (cad ((d, c, a, y) # C))"
    and "\<And>i. i \<in> set (cad ((d, c, a, y) # C)) \<Longrightarrow> i \<noteq> a \<Longrightarrow> m' i = m i" and "m' a = sc d q (m a)"
  shows "ctxp m' s root q ((d, c, a, y) # C)"
proof -
  have f: "shp m' s (ch (\<not> d) (m a)) y" "ctxp m' s root a C"
    using assms by (auto intro!: shp_frame [where m = m] ctxp_frame [where m = m])
  moreover have "y \<noteq> Lf \<Longrightarrow> m' (ch (\<not> d) (m a)) = m (ch (\<not> d) (m a))"
    by (rule shp_agree [of m s _ y a]) (use assms in auto)
  ultimately show ?thesis using assms(1,4) by auto
qed

lemma zp_up: "zp tree ((d, c, a, y) # C) p t \<Longrightarrow> zp tree C a (nd d c t a y)"
  by (auto simp: zp_def)

lemma zp_down:
  assumes "zp tree C a (nd d c t a y)" and "t = Lf \<Longrightarrow> parent_of tree (ch d (rb_mem tree a)) = a"
  shows "zp tree ((d, c, a, y) # C) (ch d (rb_mem tree a)) t"
  using assms by (cases "t = Lf") (auto simp: zp_def)

lemma zp_point: "zp tree C p t \<Longrightarrow> t \<noteq> Lf \<Longrightarrow> \<exists>c l r. t = Nd c l p r"
  by (cases t) (auto simp: zp_def)

section \<open>Steps on a place in a tree\<close>

lemma ctxp_root: "ctxp m s root p C \<Longrightarrow> C \<noteq> [] \<Longrightarrow> root \<in> set (cad C)"
proof (induction C arbitrary: p)
  case (Cons f C)
  then show ?case by (cases f; cases "C = []") auto
qed simp

lemma zp_root:
  assumes "zp tree C p t" and "t \<noteq> Lf"
  shows "p = rb_root tree \<longleftrightarrow> C = []"
proof
  assume "p = rb_root tree"
  then show "C = []" using assms ctxp_root [of "rb_mem tree" "rb_sentinel tree" "rb_root tree" p C] shp_root [of "rb_mem tree" "rb_sentinel tree" p t] by (auto simp: zp_def)
qed (use assms in \<open>auto simp: zp_def\<close>)

lemma zp_side:
  assumes "zp tree ((d, c, g, w) # C) p t" and "t \<noteq> Lf \<or> w \<noteq> Lf"
  shows "p = ch d' (rb_mem tree g) \<longleftrightarrow> d' = d"
proof (cases "d' = d")
  case False
  then have "ch d' (rb_mem tree g) = ch (\<not> d) (rb_mem tree g)" by (cases d; cases d') auto
  moreover have "p \<noteq> ch (\<not> d) (rb_mem tree g)"
    using assms shp_root [of "rb_mem tree" "rb_sentinel tree" p t] shp_root [of "rb_mem tree" "rb_sentinel tree" "ch (\<not> d) (rb_mem tree g)" w]
    unfolding zp_def by auto
  ultimately show ?thesis using False by simp
qed (use assms in \<open>auto simp: zp_def\<close>)

text \<open>The memory after a rotation.\<close>

lemma rot_mem:
  assumes z: "zp tree C a (nd d c x a (nd d c' y b w))"
  defines "m \<equiv> rb_mem tree" and "m' \<equiv> rb_mem (rot d a tree)"
  defines "q \<equiv> ch d (m b)"
  shows "m' a = (sc (\<not> d) q (m a))\<lparr>rb_parent := b\<rparr>" and "m' b = sc d a ((m b)\<lparr>rb_parent := rb_parent (m a)\<rparr>)"
    and "y \<noteq> Lf \<Longrightarrow> m' q = (m q)\<lparr>rb_parent := a\<rparr>" and "C = (e, k, g, v) # D \<Longrightarrow> m' g = sc e b (m g)"
    and "i \<noteq> a \<Longrightarrow> i \<noteq> b \<Longrightarrow> (y \<noteq> Lf \<Longrightarrow> i \<noteq> q) \<Longrightarrow> (C \<noteq> [] \<Longrightarrow> i \<noteq> up C) \<Longrightarrow> m' i = m i"
    and "rb_root (rot d a tree) = (if C = [] then b else rb_root tree)"
    and "rb_sentinel (rot d a tree) = rb_sentinel tree"
proof -
  note zd = z [unfolded zp_def, folded m_def]
  have b: "ch (\<not> d) (m a) = b" and ab: "a \<noteq> b" and q: "shp m (rb_sentinel tree) q y" using zd by (auto simp: q_def)
  have qs: "q = rb_sentinel tree \<longleftrightarrow> y = Lf" "y \<noteq> Lf \<Longrightarrow> q \<noteq> a \<and> q \<noteq> b" using shp_root [OF q] zd by auto
  have r: "a = rb_root tree \<longleftrightarrow> C = []" using zp_root [OF z] by simp
  have g: "up C \<noteq> a" "up C \<noteq> b" "y \<noteq> Lf \<Longrightarrow> up C \<noteq> q" "rb_parent (m a) = up C" if ne: "C \<noteq> []"
  proof -
    obtain e k g v D where C: "C = (e, k, g, v) # D" using ne by (cases C) auto
    show "up C \<noteq> a" "up C \<noteq> b" "rb_parent (m a) = up C" using zd C by auto
    show "up C \<noteq> q" if "y \<noteq> Lf" using zd C shp_root [OF q] that by auto
  qed
  note ne = qs ab ab [symmetric] qs(2) [THEN conjunct1, symmetric] qs(2) [THEN conjunct2, symmetric]
  define m2 where "m2 = (if y = Lf then m(a := sc (\<not> d) q (m a)) else m(a := sc (\<not> d) q (m a), q := (m q)\<lparr>rb_parent := a\<rparr>))"
  define m3 where "m3 = m2(b := (m b)\<lparr>rb_parent := rb_parent (m a)\<rparr>)"
  define t3 where "t3 = tree\<lparr>rb_mem := m3\<rparr>"
  define t4 where "t4 = (if C = [] then t3\<lparr>rb_root := b\<rparr> else if a = ch d (m3 (up C)) then rb_at (up C) (sc d b) t3 else rb_at (up C) (sc (\<not> d) b) t3)"
  have m2: "m2 b = m b" "m2 a = sc (\<not> d) q (m a)" using ne by (simp_all add: m2_def)
  have m3: "m3 a = sc (\<not> d) q (m a)" "m3 b = (m b)\<lparr>rb_parent := rb_parent (m a)\<rparr>" "y \<noteq> Lf \<Longrightarrow> m3 q = (m q)\<lparr>rb_parent := a\<rparr>"
    "i \<noteq> a \<Longrightarrow> i \<noteq> b \<Longrightarrow> (y \<noteq> Lf \<Longrightarrow> i \<noteq> q) \<Longrightarrow> m3 i = m i" for i using ne by (simp_all add: m3_def m2_def)
  have R: "rot d a tree = set_parent a b (rb_at b (sc d a) t4)"
  proof -
    have e1: "ch (\<not> d) (rb_mem tree a) = b" "ch d (rb_mem tree b) = q" using b by (simp_all add: m_def q_def)
    have e2: "rb_at a (sc (\<not> d) q) tree = tree\<lparr>rb_mem := m(a := sc (\<not> d) q (m a))\<rparr>" by (simp add: rb_at_def m_def)
    have e3: "(if q \<noteq> rb_sentinel tree then set_parent q a (tree\<lparr>rb_mem := m(a := sc (\<not> d) q (m a))\<rparr>)
        else tree\<lparr>rb_mem := m(a := sc (\<not> d) q (m a))\<rparr>) = tree\<lparr>rb_mem := m2\<rparr>"
      using ne by (cases "y = Lf") (simp_all add: m2_def rb_at_def)
    have e4: "set_parent b (parent_of (tree\<lparr>rb_mem := m2\<rparr>) a) (tree\<lparr>rb_mem := m2\<rparr>) = t3"
      using m2 by (simp add: t3_def m3_def rb_at_def)
    have e5: "ch d (rb_mem (tree\<lparr>rb_mem := m(a := sc (\<not> d) q (m a))\<rparr>) b) = q" using ab by (simp add: q_def)
    have e6: "C \<noteq> [] \<Longrightarrow> parent_of t3 a = up C" "rb_root t3 = rb_root tree" "rb_mem t3 = m3" using g(4) m3(1) by (simp_all add: t3_def)
    have e7: "rb_sentinel (tree\<lparr>rb_mem := n\<rparr>) = rb_sentinel tree" for n by simp
    show ?thesis unfolding rot_def Let_def e1 e2 e5 e7 e3 e4 e6(2,3) r t4_def using e6(1) by (cases "C = []") (simp_all only: if_True if_False simp_thms e6(3))
  qed
  have sib: "a = ch d (m3 (up C)) \<longleftrightarrow> d = e" if C: "C = (e, k, g, v) # D" for e k g v D
  proof -
    have "m3 (up C) = m (up C)" using g C by (intro m3(4)) auto
    then show ?thesis using zp_side [of tree e k g v D a] z C by (auto simp: m_def)
  qed
  have side': "(\<not> d) = e" if "d \<noteq> e" for e using that by blast
  have t4: "rb_mem t4 = (if C = [] then m3 else m3(up C := sc e b (m (up C))))" if C: "C = [] \<or> C = (e, k, g, v) # D" for e k g v D
  proof (cases "C = []")
    case False
    then have C': "C = (e, k, g, v) # D" using C by simp
    have "m3 (up C) = m (up C)" using g [OF False] by (intro m3(4)) auto
    then show ?thesis using sib [OF C'] side' [of e] False by (cases "d = e") (simp_all add: t4_def t3_def)
  qed (simp add: t4_def t3_def)
  have t4o: "i \<noteq> up C \<or> C = [] \<Longrightarrow> rb_mem t4 i = m3 i" for i by (auto simp: t4_def t3_def)
  have t4a: "rb_mem t4 a = m3 a" "rb_mem t4 b = m3 b" "y \<noteq> Lf \<Longrightarrow> rb_mem t4 q = m3 q" using t4o g by metis+
  have t4r: "rb_root t4 = (if C = [] then b else rb_root tree)" "rb_sentinel t4 = rb_sentinel tree" by (simp_all add: t4_def t3_def)
  show "m' a = (sc (\<not> d) q (m a))\<lparr>rb_parent := b\<rparr>" "m' b = sc d a ((m b)\<lparr>rb_parent := rb_parent (m a)\<rparr>)"
    using t4a m3(1,2) ab by (simp_all add: m'_def R)
  show "m' q = (m q)\<lparr>rb_parent := a\<rparr>" if "y \<noteq> Lf"
    using t4a(3) m3(3) ne that by (simp add: m'_def R)
  show "m' g = sc e b (m g)" if C: "C = (e, k, g, v) # D"
    using t4 [of e k g v D] g(1,2) C by (simp add: m'_def R)
  show "m' i = m i" if "i \<noteq> a" "i \<noteq> b" "y \<noteq> Lf \<Longrightarrow> i \<noteq> q" "C \<noteq> [] \<Longrightarrow> i \<noteq> up C"
  proof -
    have "rb_mem t4 i = m i" using t4o [of i] m3(4) [of i] that by metis
    then show ?thesis using that(1,2) by (simp add: m'_def R)
  qed
  show "rb_root (rot d a tree) = (if C = [] then b else rb_root tree)" "rb_sentinel (rot d a tree) = rb_sentinel tree"
    using t4r by (simp_all add: R)
qed

lemma zp_rot:
  assumes z: "zp tree C a (nd d c x a (nd d c' y b w))"
  shows "zp (rot d a tree) C b (nd d c' (nd d c x a y) b w)"
proof -
  define m where "m = rb_mem tree"
  define m' where "m' = rb_mem (rot d a tree)"
  define s where "s = rb_sentinel tree"
  define q where "q = ch d (m b)"
  note zd = z [unfolded zp_def, folded m_def s_def]
  note M = rot_mem [OF z, folded m_def m'_def s_def, folded q_def]
  have S: "a \<noteq> s" "b \<noteq> s" "rb_red (m a) = c" "rb_red (m b) = c'" "ch (\<not> d) (m a) = b" "shp m s (ch d (m a)) x" "shp m s q y"
    "shp m s (ch (\<not> d) (m b)) w" "x \<noteq> Lf \<longrightarrow> rb_parent (m (ch d (m a))) = a" "w \<noteq> Lf \<longrightarrow> rb_parent (m (ch (\<not> d) (m b))) = b"
    "C \<noteq> [] \<longrightarrow> rb_parent (m a) = up C" "ctxp m s (rb_root tree) a C" "\<not> rb_red (m s)"
    using zd by (simp_all add: q_def)
  have dist: "distinct (ad (nd d c x a (nd d c' y b w)) @ cad C)" using zd by blast
  have D: "a \<noteq> b" "a \<notin> set (ad x)" "a \<notin> set (ad y)" "a \<notin> set (ad w)" "b \<notin> set (ad x)" "b \<notin> set (ad y)" "b \<notin> set (ad w)"
    "set (ad x) \<inter> set (ad y) = {}" "set (ad x) \<inter> set (ad w) = {}" "set (ad y) \<inter> set (ad w) = {}"
    "distinct (ad x)" "distinct (ad y)" "distinct (ad w)" "distinct (cad C)"
    "a \<notin> set (cad C)" "b \<notin> set (cad C)" "set (ad x) \<inter> set (cad C) = {}" "set (ad y) \<inter> set (cad C) = {}" "set (ad w) \<inter> set (cad C) = {}"
    using dist by auto
  have in_way: "up C \<in> set (cad C)" if "C \<noteq> []" using that by (cases C) auto
  have q: "y \<noteq> Lf \<Longrightarrow> q \<in> set (ad y)" using shp_root [OF S(7)] by simp
  have ns: "s \<notin> set (ad y)" "s \<notin> set (cad C)" using shp_sentinel [OF S(7)] ctxp_sentinel [OF S(12)] by blast+
  have same: "m' i = m i" if "i \<noteq> a" "i \<noteq> b" "i \<notin> set (ad y) \<or> i \<noteq> q" "i \<notin> set (cad C) \<or> i \<noteq> up C" for i
    by (rule M(5)) (use that q in_way in blast)+
  have x: "shp m' s (ch d (m a)) x" by (rule shp_frame [OF same S(6)]) (use D in auto)
  have w: "shp m' s (ch (\<not> d) (m b)) w" by (rule shp_frame [OF same S(8)]) (use D in auto)
  have xp: "m' (ch d (m a)) = m (ch d (m a))" if "x \<noteq> Lf" by (rule same) (use shp_root [OF S(6)] D that in auto)
  have wp: "m' (ch (\<not> d) (m b)) = m (ch (\<not> d) (m b))" if "w \<noteq> Lf" by (rule same) (use shp_root [OF S(8)] D that in auto)
  have y: "shp m' s q y"
  proof (cases "y = Lf")
    case False
    show ?thesis
    proof (rule shp_reparent [where v = a and m' = m', OF S(7) D(12) _ M(3) [OF False]])
      show "m' i = m i" if "i \<in> set (ad y)" "i \<noteq> q" for i by (rule same) (use that D in auto)
    qed
  qed (use S(7) in simp)
  have s': "m' s = m s" by (rule same) (use S(1,2) ns in auto)
  have C: "ctxp m' s (rb_root (rot d a tree)) b C"
  proof (cases C)
    case (Cons f D')
    obtain e k g v where f: "f = (e, k, g, v)" by (cases f)
    have "ctxp m' s (rb_root tree) b ((e, k, g, v) # D')"
    proof (rule ctxp_swap [of m s _ a])
      show "m' i = m i" if "i \<in> set (cad ((e, k, g, v) # D'))" "i \<noteq> g" for i by (rule same) (use that D Cons f in auto)
    qed (use S(12) D(14) Cons f M(4) in auto)
    then show ?thesis using M(6) Cons f by simp
  qed (use M(6) in simp)
  have A: "ch d (m' a) = ch d (m a)" "ch (\<not> d) (m' a) = q" "rb_parent (m' a) = b" "rb_red (m' a) = rb_red (m a)" "ch d (m' b) = a"
    "ch (\<not> d) (m' b) = ch (\<not> d) (m b)" "rb_red (m' b) = rb_red (m b)" "rb_parent (m' b) = rb_parent (m a)" using M(1,2) by simp_all
  have "shp m' s b (nd d c' (nd d c x a y) b w)"
    unfolding shp_nd A using S(1-10) A x w xp wp y M(3) by simp
  moreover have "distinct (ad (nd d c' (nd d c x a y) b w) @ cad C)" using dist by auto
  ultimately show ?thesis unfolding zp_def M(7) m'_def [symmetric]
    using S(11,13) s' C A by simp
qed

lemma nd_flip: "nd d c x a y = nd (\<not> d) c y a x"
  by (simp add: nd_def)

lemma zp_color:
  assumes "zp tree C a (nd d c x a y)"
  shows "zp (rb_at a (\<lambda>n. n\<lparr>rb_red := k\<rparr>) tree) C a (nd d k x a y)"
proof -
  define m where "m = rb_mem tree"
  define s where "s = rb_sentinel tree"
  define m' where "m' = m(a := (m a)\<lparr>rb_red := k\<rparr>)"
  note zd = assms [unfolded zp_def, folded m_def s_def]
  have D: "a \<notin> set (ad x)" "a \<notin> set (ad y)" "a \<notin> set (cad C)" "a \<noteq> s" using zd by auto
  have S: "shp m s (ch d (m a)) x" "shp m s (ch (\<not> d) (m a)) y" "ctxp m s (rb_root tree) a C" using zd by simp_all
  have f: "shp m' s (ch d (m a)) x" "shp m' s (ch (\<not> d) (m a)) y" "ctxp m' s (rb_root tree) a C"
    using D by (auto simp: m'_def intro!: shp_frame [OF _ S(1)] shp_frame [OF _ S(2)] ctxp_frame [OF _ S(3)])
  have p: "x \<noteq> Lf \<Longrightarrow> m' (ch d (m a)) = m (ch d (m a))" "y \<noteq> Lf \<Longrightarrow> m' (ch (\<not> d) (m a)) = m (ch (\<not> d) (m a))"
    using shp_root [OF S(1)] shp_root [OF S(2)] D by (auto simp: m'_def)
  have A: "ch e (m' a) = ch e (m a)" "rb_parent (m' a) = rb_parent (m a)" "rb_red (m' a) = k" for e by (simp_all add: m'_def)
  have "shp m' s a (nd d k x a y)" unfolding shp_nd A using f p D(4) zd by simp
  moreover have "distinct (ad (nd d k x a y) @ cad C)" using zd by auto
  ultimately show ?thesis unfolding zp_def rb_at_sel m_def [symmetric] s_def [symmetric] m'_def [symmetric] A
    using zd f(3) D(4) by (simp add: m'_def)
qed

lemma black_sentinel: "zp tree C p t \<Longrightarrow> ngx_rbt_black (rb_sentinel tree) tree = tree"
  by (simp add: zp_def ngx_rbt_black_def rb_at_def fun_upd_idem)

text \<open>What a step on a tree leaves alone: the keys, and the memory of others.\<close>

definition quiet :: "nat set \<Rightarrow> ngx_rbtree \<Rightarrow> ngx_rbtree \<Rightarrow> bool" where
  "quiet A tree tree' \<longleftrightarrow> (\<forall>i. i \<notin> A \<longrightarrow> rb_mem tree' i = rb_mem tree i) \<and> (\<forall>i. key_of tree' i = key_of tree i)
     \<and> rb_sentinel tree' = rb_sentinel tree"

lemma quiet_refl: "quiet A tree tree"
  by (simp add: quiet_def)

lemma quiet_trans: "quiet A x y \<Longrightarrow> quiet A y z \<Longrightarrow> quiet A x z"
  by (simp add: quiet_def)

lemma quiet_mono: "A \<subseteq> B \<Longrightarrow> quiet A x y \<Longrightarrow> quiet B x y"
  by (auto simp: quiet_def)

lemma quiet_color: "a \<in> A \<Longrightarrow> quiet A tree (rb_at a (\<lambda>n. n\<lparr>rb_red := k\<rparr>) tree)"
  by (auto simp: quiet_def)

lemma quiet_root: "quiet A tree (tree\<lparr>rb_root := r\<rparr>)"
  by (simp add: quiet_def)

lemma rot_key:
  assumes "zp tree C a (nd d c x a (nd d c' y b w))"
  shows "key_of (rot d a tree) i = key_of tree i"
proof -
  note M = rot_mem [OF assms]
  consider "i = a" | "i = b" | "y \<noteq> Lf" "i = ch d (rb_mem tree b)" | "C \<noteq> []" "i = up C"
    | "i \<noteq> a" "i \<noteq> b" "y \<noteq> Lf \<Longrightarrow> i \<noteq> ch d (rb_mem tree b)" "C \<noteq> [] \<Longrightarrow> i \<noteq> up C"
    by metis
  then show ?thesis
  proof cases
    case 4
    then obtain e k g v D where "C = (e, k, g, v) # D" by (cases C) auto
    then show ?thesis using M(4) 4 by simp
  next
    case 5
    then show ?thesis using M(5) by simp
  qed (use M(1-3) in simp_all)
qed

lemma quiet_rot:
  assumes "zp tree C a (nd d c x a (nd d c' y b w))"
  shows "quiet (set (ad (nd d c x a (nd d c' y b w)) @ cad C)) tree (rot d a tree)"
  unfolding quiet_def
proof (intro conjI allI impI)
  fix i assume i: "i \<notin> set (ad (nd d c x a (nd d c' y b w)) @ cad C)"
  have "C \<noteq> [] \<Longrightarrow> up C \<in> set (cad C)" by (cases C) auto
  moreover have "y \<noteq> Lf \<Longrightarrow> ch d (rb_mem tree b) \<in> set (ad y)"
    using assms shp_root [of "rb_mem tree" "rb_sentinel tree" "ch d (rb_mem tree b)" y] by (simp add: zp_def)
  ultimately show "rb_mem (rot d a tree) i = rb_mem tree i" using i by (intro rot_mem(5) [OF assms]) auto
qed (use rot_mem(7) [OF assms] rot_key [OF assms] in simp_all)

section \<open>Balance\<close>

fun isred :: "rbt \<Rightarrow> bool" where
  "isred Lf = False"
| "isred (Nd c l a r) = c"

text \<open>Every way down has the same number of black nodes, and the children of a red node are black.\<close>

fun ok :: "nat \<Rightarrow> rbt \<Rightarrow> bool" where
  "ok n Lf = (n = 0)"
| "ok n (Nd c l a r) = (if c then ok n l \<and> ok n r \<and> \<not> isred l \<and> \<not> isred r else n > 0 \<and> ok (n - 1) l \<and> ok (n - 1) r)"

fun cred :: "way \<Rightarrow> bool" where
  "cred [] = False"
| "cred ((d, c, a, y) # C) = c"

fun cok :: "nat \<Rightarrow> way \<Rightarrow> bool" where
  "cok n [] = True"
| "cok n ((d, c, a, y) # C) = (ok n y \<and> (c \<longrightarrow> \<not> isred y \<and> C \<noteq> [] \<and> \<not> cred C) \<and> cok (if c then n else n + 1) C)"

lemma isred_nd [simp]: "isred (nd d c x a y) = c"
  by (simp add: nd_def)

lemma ok_nd [simp]:
  "ok n (nd d c x a y) \<longleftrightarrow> (if c then ok n x \<and> ok n y \<and> \<not> isred x \<and> \<not> isred y else n > 0 \<and> ok (n - 1) x \<and> ok (n - 1) y)"
  by (auto simp: nd_def)

lemma ok_plug: "ok n t \<Longrightarrow> cok n C \<Longrightarrow> \<not> (isred t \<and> cred C) \<Longrightarrow> \<exists>k. ok k (plug C t)"
proof (induction C t arbitrary: n rule: plug.induct)
  case (2 d c a y C t)
  show ?case
  proof (cases c)
    case True
    then show ?thesis using 2(1) [of n] 2(2-4) by auto
  next
    case False
    then show ?thesis using 2(1) [of "n + 1"] 2(2-4) by auto
  qed
qed auto

lemma plug_ok: "ok k (plug C t) \<Longrightarrow> \<not> isred (plug C t) \<Longrightarrow> \<exists>n. ok n t \<and> cok n C \<and> \<not> (isred t \<and> cred C) \<and> (C = [] \<longrightarrow> \<not> isred t)"
proof (induction C t rule: plug.induct)
  case (2 d c a y C t)
  then obtain n where "ok n (nd d c t a y)" "cok n C" "\<not> (c \<and> cred C)" "C = [] \<longrightarrow> \<not> c" by auto
  then show ?case by (intro exI [of _ "if c then n else n - 1"]) auto
qed auto

lemma ad_rot: "ad (nd d c' (nd d c x a y) b w) = ad (nd d c x a (nd d c' y b w))"
  by (simp add: nd_def)

lemma ad_paint: "ad (nd d c x a y) = ad (nd d c' x a y)"
  by (simp add: nd_def)

lemma ad_nd_cong: "ad x = ad x' \<Longrightarrow> ad y = ad y' \<Longrightarrow> ad (nd d c x a y) = ad (nd d c' x' a y')"
  by (simp add: nd_def)

lemma ad_plug_cong: "ad t = ad t' \<Longrightarrow> ad (plug C t) = ad (plug C t')"
proof (induction C t arbitrary: t' rule: plug.induct)
  case (2 d c a y C t)
  show ?case using 2(1) [OF ad_nd_cong [OF 2(2) refl]] by simp
qed simp

lemma set_ad_plug: "set (ad (plug C t)) = set (ad t) \<union> set (cad C)"
  by (induction C t rule: plug.induct) auto

lemma zp_plug: "zp tree C p t \<Longrightarrow> zp tree [] (rb_root tree) (plug C t)"
proof (induction C t arbitrary: p rule: plug.induct)
  case (1 t)
  then show ?case by (simp add: zp_def)
next
  case (2 d c a y C t)
  then show ?case using zp_up by fastforce
qed

section \<open>Insertion\<close>

lemma color_reads [simp]:
  "parent_of (ngx_rbt_black a tree) i = parent_of tree i" "parent_of (ngx_rbt_red a tree) i = parent_of tree i"
  "ch d (rb_mem (ngx_rbt_black a tree) i) = ch d (rb_mem tree i)" "ch d (rb_mem (ngx_rbt_red a tree) i) = ch d (rb_mem tree i)"
  "rb_root (ngx_rbt_black a tree) = rb_root tree" "rb_root (ngx_rbt_red a tree) = rb_root tree"
  "rb_sentinel (ngx_rbt_black a tree) = rb_sentinel tree" "rb_sentinel (ngx_rbt_red a tree) = rb_sentinel tree"
  "parent_of (ngx_rbt_copy_color a b tree) i = parent_of tree i" "ch d (rb_mem (ngx_rbt_copy_color a b tree) i) = ch d (rb_mem tree i)"
  "rb_root (ngx_rbt_copy_color a b tree) = rb_root tree" "rb_sentinel (ngx_rbt_copy_color a b tree) = rb_sentinel tree"
  by (simp_all add: ngx_rbt_black_def ngx_rbt_red_def ngx_rbt_copy_color_def)

lemmas zp_black = zp_color [where k = False, folded ngx_rbt_black_def]
lemmas zp_red = zp_color [where k = True, folded ngx_rbt_red_def]
lemmas quiet_black = quiet_color [where k = False, folded ngx_rbt_black_def]
lemmas quiet_red = quiet_color [where k = True, folded ngx_rbt_red_def]

fun blk :: "rbt \<Rightarrow> rbt" where
  "blk Lf = Lf"
| "blk (Nd c l a r) = Nd False l a r"

lemma blk_nd [simp]: "blk (nd d c x a y) = nd d False x a y"
  by (simp add: nd_def)

lemma blk_simps [simp]: "ad (blk t) = ad t" "\<not> isred (blk t)" "blk t = Lf \<longleftrightarrow> t = Lf"
  by (cases t; simp)+

lemma ok_blk: "ok n t \<Longrightarrow> isred t \<Longrightarrow> ok (n + 1) (blk t)"
  by (cases t) auto

lemma shp_red: "shp m s p t \<Longrightarrow> \<not> rb_red (m s) \<Longrightarrow> rb_red (m p) = isred t"
  by (cases t) auto

lemma zp_isred: "zp tree C p t \<Longrightarrow> ngx_rbt_is_red tree p = isred t"
  by (auto simp: zp_def ngx_rbt_is_red_def dest: shp_red)

lemma zp_reads:
  assumes "zp tree ((d, c, a, y) # C) p t"
  shows "parent_of tree p = a" "ch d (rb_mem tree a) = p" "ngx_rbt_is_red tree a = c" "C \<noteq> [] \<Longrightarrow> parent_of tree a = up C"
    "ngx_rbt_is_red tree (ch (\<not> d) (rb_mem tree a)) = isred y"
  using assms by (auto simp: zp_def ngx_rbt_is_red_def dest: shp_red)

text \<open>To the other child, and the colour of that one.\<close>

lemma zp_across:
  assumes "zp tree ((d, c, a, y) # C) p t" and "y \<noteq> Lf"
  shows "zp tree ((\<not> d, c, a, t) # C) (ch (\<not> d) (rb_mem tree a)) y"
  using zp_down [of tree C a "\<not> d" c y t] zp_up [OF assms(1)] assms(2) by (simp add: nd_flip [of d])

lemma zp_paint: "zp tree C p t \<Longrightarrow> zp (ngx_rbt_black p tree) C p (blk t)"
proof (cases t)
  case Lf
  assume z: "zp tree C p t"
  then have "ngx_rbt_black p tree = tree" using black_sentinel [OF z] Lf by (simp add: zp_def)
  then show ?thesis using z Lf by simp
next
  case (Nd c l a r)
  assume z: "zp tree C p t"
  then have "p = a" "t = nd True c l a r" using Nd by (auto simp: zp_def nd_def)
  then show ?thesis using zp_black z by simp
qed

definition ins_step :: "bool \<Rightarrow> nat \<Rightarrow> ngx_rbtree \<Rightarrow> nat \<times> ngx_rbtree" where
  "ins_step e node tree =
     (let temp = ch (\<not> e) (rb_mem tree (parent_of tree (parent_of tree node))) in
      if ngx_rbt_is_red tree temp then
        let tree = ngx_rbt_black (parent_of tree node) tree;
            tree = ngx_rbt_black temp tree;
            tree = ngx_rbt_red (parent_of tree (parent_of tree node)) tree
        in (parent_of tree (parent_of tree node), tree)
      else
        let (node, tree) =
              (if node = ch (\<not> e) (rb_mem tree (parent_of tree node)) then
                 let node = parent_of tree node in (node, rot e node tree)
               else (node, tree));
            tree = ngx_rbt_black (parent_of tree node) tree;
            tree = ngx_rbt_red (parent_of tree (parent_of tree node)) tree
        in (node, rot (\<not> e) (parent_of tree (parent_of tree node)) tree))"

lemma rb_insert_step_side:
  "rb_insert_step node tree = ins_step (parent_of tree node = ch True (rb_mem tree (parent_of tree (parent_of tree node)))) node tree"
  unfolding rb_insert_step_def ins_step_def rotate_rot
  by (cases "parent_of tree node = left_of tree (parent_of tree (parent_of tree node))")
    (simp_all only: ch_sides if_True if_False not_True_eq_False not_False_eq_True simp_thms)

lemma insert_side:
  assumes "zp tree ((d, c, p, y) # (e, k, g, u) # C) n t"
  shows "rb_insert_step n tree = ins_step e n tree"
proof -
  have "parent_of tree n = p" "parent_of tree p = g" using zp_reads(1,4) [OF assms] by simp_all
  moreover have "p = ch True (rb_mem tree g) \<longleftrightarrow> True = e" using zp_side [OF zp_up [OF assms]] by simp
  ultimately show ?thesis unfolding rb_insert_step_side by simp
qed

lemma insert_red:
  assumes z: "zp tree ((d, c, p, y) # (e, k, g, u) # C) n t" and "isred u"
  defines "A \<equiv> set (ad t) \<union> set (cad ((d, c, p, y) # (e, k, g, u) # C))"
  shows "\<exists>tree'. rb_insert_step n tree = (g, tree') \<and> zp tree' C g (nd e True (nd d False t p y) g (blk u)) \<and> quiet A tree tree'"
proof -
  have r: "parent_of tree n = p" "parent_of tree p = g" using zp_reads(1,4) [OF z] by simp_all
  define b where "b = ch (\<not> e) (rb_mem tree g)"
  have u: "u \<noteq> Lf" using assms(2) by auto
  have red: "ngx_rbt_is_red tree b" using zp_reads(5) [OF zp_up [OF z]] assms(2) by (simp add: b_def)
  have bA: "b \<in> A" using zp_up [OF z] u shp_root [of "rb_mem tree" "rb_sentinel tree" b u] by (auto simp: A_def b_def zp_def)
  define t1 where "t1 = ngx_rbt_black p tree"
  define t2 where "t2 = ngx_rbt_black b t1"
  have z1: "zp t1 ((e, k, g, u) # C) p (nd d False t p y)" unfolding t1_def by (rule zp_black [OF zp_up [OF z]])
  have "zp t1 ((\<not> e, k, g, nd d False t p y) # C) b u" using zp_across [OF z1 u] by (simp add: t1_def b_def)
  then have "zp t2 ((\<not> e, k, g, nd d False t p y) # C) b (blk u)" unfolding t2_def by (rule zp_paint)
  then have "zp t2 C g (nd e k (nd d False t p y) g (blk u))" unfolding nd_flip [of e] by (rule zp_up)
  then have "zp (ngx_rbt_red g t2) C g (nd e True (nd d False t p y) g (blk u))" by (rule zp_red)
  moreover have "rb_insert_step n tree = (g, ngx_rbt_red g t2)"
    using red unfolding insert_side [OF z] by (simp add: ins_step_def Let_def r b_def [symmetric] t2_def t1_def)
  moreover have "quiet A tree (ngx_rbt_red g t2)"
    unfolding t2_def t1_def using bA by (intro quiet_trans [OF quiet_trans [OF quiet_black quiet_black] quiet_red]) (simp_all add: A_def)
  ultimately show ?thesis by blast
qed

text \<open>The last turn, from the outer grandchild on.\<close>

lemma insert_outer:
  assumes z: "zp tree ((e, c, p, y) # (e, k, g, u) # C) n t"
  defines "A \<equiv> set (ad t) \<union> set (cad ((e, c, p, y) # (e, k, g, u) # C))"
  defines "tree' \<equiv> rot (\<not> e) g (ngx_rbt_red g (ngx_rbt_black p tree))"
  shows "zp tree' C p (nd e False t p (nd e True y g u))" "quiet A tree tree'"
    "t \<noteq> Lf \<Longrightarrow> zp tree' ((e, False, p, nd e True y g u) # C) n t"
proof -
  define t2 where "t2 = ngx_rbt_red g (ngx_rbt_black p tree)"
  have "zp t2 C g (nd e True (nd e False t p y) g u)"
    unfolding t2_def by (rule zp_red [OF zp_up [OF zp_black [OF zp_up [OF z]]]])
  then have z2: "zp t2 C g (nd (\<not> e) True u g (nd (\<not> e) False y p t))" by (simp only: nd_flip [of "\<not> e"] not_not)
  have "zp tree' C p (nd (\<not> e) False (nd (\<not> e) True u g y) p t)"
    unfolding tree'_def t2_def [symmetric] by (rule zp_rot [OF z2])
  then show z3: "zp tree' C p (nd e False t p (nd e True y g u))" by (simp only: nd_flip [of "\<not> e"] not_not)
  show "quiet A tree tree'"
    unfolding tree'_def
  proof (rule quiet_trans [OF quiet_trans [OF quiet_black quiet_red]])
    have "set (ad (nd (\<not> e) True u g (nd (\<not> e) False y p t)) @ cad C) \<subseteq> A" by (auto simp: A_def)
    then show "quiet A (ngx_rbt_red g (ngx_rbt_black p tree)) (rot (\<not> e) g (ngx_rbt_red g (ngx_rbt_black p tree)))"
      using quiet_mono quiet_rot [OF z2] unfolding t2_def by blast
  qed (simp_all add: A_def)
  show "zp tree' ((e, False, p, nd e True y g u) # C) n t" if t: "t \<noteq> Lf"
  proof -
    obtain l r c' where "t = Nd c' l n r" using zp_point [OF z t] by blast
    then have "n = ch e (rb_mem tree' p)" using z3 by (simp add: zp_def)
    then show ?thesis using zp_down [OF z3] t by blast
  qed
qed

lemma outer_step:
  assumes z: "zp tree ((e, c, p, y) # (e, k, g, u) # C) n t" and "t \<noteq> Lf" and "\<not> isred u"
  shows "rb_insert_step n tree = (n, rot (\<not> e) g (ngx_rbt_red g (ngx_rbt_black p tree)))"
proof -
  have r: "parent_of tree n = p" "parent_of tree p = g" using zp_reads(1,4) [OF z] by simp_all
  have "\<not> ngx_rbt_is_red tree (ch (\<not> e) (rb_mem tree g))" using zp_reads(5) [OF zp_up [OF z]] assms(3) by simp
  moreover have "n \<noteq> ch (\<not> e) (rb_mem tree p)" using zp_side [OF z] assms(2) by simp
  ultimately show ?thesis unfolding insert_side [OF z] by (simp add: ins_step_def r)
qed

lemma inner_rot:
  assumes z: "zp tree ((\<not> e, c, p, y) # (e, k, g, u) # C) n (nd e c' t1 n t2)"
  shows "zp (rot e p tree) ((e, c', n, t2) # (e, k, g, u) # C) p (nd e c y p t1)"
    "quiet (set (ad (nd e c' t1 n t2)) \<union> set (cad ((\<not> e, c, p, y) # (e, k, g, u) # C))) tree (rot e p tree)"
proof -
  have z1: "zp tree ((e, k, g, u) # C) p (nd e c y p (nd e c' t1 n t2))" using zp_up [OF z] by (simp only: nd_flip [of "\<not> e"] not_not)
  have z2: "zp (rot e p tree) ((e, k, g, u) # C) n (nd e c' (nd e c y p t1) n t2)" by (rule zp_rot [OF z1])
  moreover have "ch e (rb_mem (rot e p tree) n) = p" using z2 by (simp add: zp_def)
  ultimately show "zp (rot e p tree) ((e, c', n, t2) # (e, k, g, u) # C) p (nd e c y p t1)" using zp_down [OF z2] by simp
  show "quiet (set (ad (nd e c' t1 n t2)) \<union> set (cad ((\<not> e, c, p, y) # (e, k, g, u) # C))) tree (rot e p tree)"
    by (rule quiet_mono [OF _ quiet_rot [OF z1]]) auto
qed

lemma inner_step:
  assumes z: "zp tree ((\<not> e, c, p, y) # (e, k, g, u) # C) n (nd e c' t1 n t2)" and "\<not> isred u"
  shows "rb_insert_step n tree = (p, rot (\<not> e) g (ngx_rbt_red g (ngx_rbt_black n (rot e p tree))))"
proof -
  have r: "parent_of tree n = p" "parent_of tree p = g" using zp_reads(1,4) [OF z] by simp_all
  have r': "parent_of (rot e p tree) p = n" "parent_of (rot e p tree) n = g" using zp_reads(1,4) [OF inner_rot(1) [OF z]] by simp_all
  have nr: "\<not> ngx_rbt_is_red tree (ch (\<not> e) (rb_mem tree g))" using zp_reads(5) [OF zp_up [OF z]] assms(2) by simp
  have side: "n = ch (\<not> e) (rb_mem tree p)" using zp_side [OF z] by simp
  show ?thesis unfolding insert_side [OF z] ins_step_def Let_def r by (simp add: nr r' side [symmetric])
qed

lemma insert_last:
  assumes z: "zp tree ((d, True, p, y) # (e, False, g, u) # C) n t" and t: "isred t" and u: "\<not> isred u"
    and "ok h t" "ok h y" "\<not> isred y" "ok h u"
  defines "A \<equiv> set (ad t) \<union> set (cad ((d, True, p, y) # (e, False, g, u) # C))"
  shows "\<exists>n' q t' w tree'. rb_insert_step n tree = (n', tree') \<and> zp tree' ((e, False, q, w) # C) n' t' \<and> quiet A tree tree'
    \<and> ok (h + 1) (nd e False t' q w) \<and> ad (nd e False t' q w) = ad (nd e False (nd d True t p y) g u)"
proof -
  have t0: "t \<noteq> Lf" using t by auto
  show ?thesis
  proof (cases "d = e")
    case True
    note O = insert_outer [OF z [unfolded True]]
    have "rb_insert_step n tree = (n, rot (\<not> e) g (ngx_rbt_red g (ngx_rbt_black p tree)))"
      by (rule outer_step [OF z [unfolded True] t0 u])
    moreover have "ok (h + 1) (nd e False t p (nd e True y g u))" using assms by simp
    moreover have "ad (nd e False t p (nd e True y g u)) = ad (nd e False (nd d True t p y) g u)" unfolding True by (simp add: nd_def)
    ultimately show ?thesis using O(3) [OF t0] O(2) unfolding A_def True by blast
  next
    case False
    then have d: "d = (\<not> e)" by blast
    obtain t1 t2 where t': "t = nd e True t1 n t2" using nd_ex [OF t0, of e] z t by (auto simp: zp_def)
    note z' = z [unfolded d t']
    note O = insert_outer [OF inner_rot(1) [OF z']]
    have "rb_insert_step n tree = (p, rot (\<not> e) g (ngx_rbt_red g (ngx_rbt_black n (rot e p tree))))" by (rule inner_step [OF z' u])
    moreover have "ok (h + 1) (nd e False (nd e True y p t1) n (nd e True t2 g u))" using assms t' by simp
    moreover have "ad (nd e False (nd e True y p t1) n (nd e True t2 g u)) = ad (nd e False (nd d True t p y) g u)"
      unfolding d t' by (simp add: nd_def)
    moreover have "quiet A tree (rot (\<not> e) g (ngx_rbt_red g (ngx_rbt_black n (rot e p tree))))"
      by (rule quiet_trans [OF quiet_mono [OF _ inner_rot(2) [OF z']] quiet_mono [OF _ O(2)]]) (auto simp: A_def t' d)
    ultimately show ?thesis using O(3) [OF nd_simps(1)] by blast
  qed
qed

text \<open>A red-black tree: its nodes are linked as the shape says, and it is balanced.\<close>

definition rb_tree :: "ngx_rbtree \<Rightarrow> rbt \<Rightarrow> bool" where
  "rb_tree tree t \<longleftrightarrow> zp tree [] (rb_root tree) t \<and> (\<exists>k. ok k t) \<and> \<not> isred t"

lemma ok_blk_ex: "ok k t \<Longrightarrow> \<exists>k. ok k (blk t)"
proof (cases "isred t")
  case False
  then have "blk t = t" by (cases t) auto
  then show "ok k t \<Longrightarrow> ?thesis" by auto
qed (use ok_blk in blast)

lemma insert_loop:
  assumes "zp tree C n t" and "isred t" and "ok h t" and "cok h C"
  shows "\<exists>tree' t'. rb_insert_loop n tree = Some tree' \<and> zp tree' [] (rb_root tree') t' \<and> (\<exists>k. ok k (blk t'))
    \<and> ad t' = ad (plug C t) \<and> quiet (set (ad t) \<union> set (cad C)) tree tree'"
  using assms
proof (induction "length C" arbitrary: C n t h tree rule: less_induct)
  case less
  have t0: "t \<noteq> Lf" using less.prems(2) by auto
  show ?case
  proof (cases C)
    case Nil
    have "rb_insert_loop n tree = Some tree" using zp_root [OF less.prems(1) t0] Nil by (subst rb_insert_loop.simps) simp
    moreover have "zp tree [] (rb_root tree) t" using zp_plug [OF less.prems(1)] Nil by simp
    ultimately show ?thesis using ok_blk_ex [OF less.prems(3)] quiet_refl Nil by auto
  next
    case (Cons f C1)
    obtain d c p y where f: "f = (d, c, p, y)" by (cases f)
    note z = less.prems(1) [unfolded Cons f]
    note R = zp_reads [OF z]
    show ?thesis
    proof (cases c)
      case False
      have "rb_insert_loop n tree = Some tree" using R(1,3) False by (subst rb_insert_loop.simps) simp
      moreover obtain k where "ok k (plug C t)" using ok_plug [OF less.prems(3,4)] Cons f False by auto
      ultimately show ?thesis using zp_plug [OF less.prems(1)] ok_blk_ex quiet_refl by blast
    next
      case True
      then obtain e g u C2 where C1: "C1 = (e, False, g, u) # C2" using less.prems(4) Cons f by (cases C1) auto
      have z': "zp tree ((d, True, p, y) # (e, False, g, u) # C2) n t" using z C1 True by simp
      have H: "ok h y" "\<not> isred y" "ok h u" "cok (h + 1) C2" using less.prems(4) Cons f C1 True by auto
      have C: "C = (d, True, p, y) # (e, False, g, u) # C2" using Cons f C1 True by simp
      have step: "rb_insert_loop n tree = (case rb_insert_step n tree of (n, tree) \<Rightarrow> rb_insert_loop n tree)"
        using zp_root [OF less.prems(1) t0] R(1,3) True C by (subst rb_insert_loop.simps) simp
      show ?thesis
      proof (cases "isred u")
        case red: True
        define t2 where "t2 = nd e True (nd d False t p y) g (blk u)"
        from insert_red [OF z' red, folded C t2_def] obtain tree1 where s1: "rb_insert_step n tree = (g, tree1)" "zp tree1 C2 g t2"
          "quiet (set (ad t) \<union> set (cad C)) tree tree1" by (elim exE conjE)
        have "ok (h + 1) t2" "isred t2" using less.prems(3) H ok_blk [OF H(3) red] by (simp_all add: t2_def)
        moreover have "length C2 < length C" using C by simp
        ultimately obtain tree' t' where r: "rb_insert_loop g tree1 = Some tree'"
          "zp tree' [] (rb_root tree') t'" "\<exists>k. ok k (blk t')" "ad t' = ad (plug C2 t2)" "quiet (set (ad t2) \<union> set (cad C2)) tree1 tree'"
          using less.hyps [OF _ s1(2) _ _ H(4)] by blast
        have "ad t2 = ad (nd e False (nd d True t p y) g u)" unfolding t2_def by (intro ad_nd_cong) simp_all
        then have "ad (plug C2 t2) = ad (plug C t)" unfolding C plug.simps by (rule ad_plug_cong)
        moreover have A: "set (ad t2) \<union> set (cad C2) = set (ad t) \<union> set (cad C)" unfolding t2_def C by (simp add: Un_ac insert_commute)
        moreover have "rb_insert_loop n tree = Some tree'" using step s1(1) r(1) by simp
        ultimately show ?thesis using r(2-4) quiet_trans [OF s1(3) r(5) [unfolded A]] by (intro exI [of _ tree'] exI [of _ t']) simp
      next
        case black: False
        from insert_last [OF z' less.prems(2) black less.prems(3) H(1-3), folded C] obtain n' q t' w tree' where
          r: "rb_insert_step n tree = (n', tree')" "zp tree' ((e, False, q, w) # C2) n' t'" "quiet (set (ad t) \<union> set (cad C)) tree tree'"
          "ok (h + 1) (nd e False t' q w)" "ad (nd e False t' q w) = ad (nd e False (nd d True t p y) g u)" by (elim exE conjE)
        have "rb_insert_loop n' tree' = Some tree'" using zp_reads(1,3) [OF r(2)] by (subst rb_insert_loop.simps) simp
        moreover obtain k where "ok k (plug ((e, False, q, w) # C2) t')" using ok_plug [OF r(4) H(4)] by auto
        moreover have "ad (plug ((e, False, q, w) # C2) t') = ad (plug C t)" unfolding C using ad_plug_cong [OF r(5)] by simp
        ultimately show ?thesis using step r(1,3) zp_plug [OF r(2)] ok_blk_ex by auto
      qed
    qed
  qed
qed

section \<open>The place of a new node\<close>

fun pre :: "way \<Rightarrow> nat list" where
  "pre [] = []"
| "pre ((d, c, a, y) # C) = pre C @ (if d then [] else ad y @ [a])"

fun post :: "way \<Rightarrow> nat list" where
  "post [] = []"
| "post ((d, c, a, y) # C) = (if d then a # ad y else []) @ post C"

lemma ad_plug: "ad (plug C t) = pre C @ ad t @ post C"
  by (induction C t rule: plug.induct) (simp_all add: nd_def)

lemma plug_append: "plug (D @ C) t = plug C (plug D t)"
  by (induction D t rule: plug.induct) simp_all

text \<open>At every node on the way the side is the one that the comparison gives.\<close>

definition led :: "(64 word \<Rightarrow> 64 word \<Rightarrow> bool) \<Rightarrow> 64 word \<Rightarrow> ngx_rbtree \<Rightarrow> way \<Rightarrow> bool" where
  "led lt k tree C \<longleftrightarrow> (\<forall>(d, c, a, y)\<in>set C. lt k (key_of tree a) = d)"

lemma place_found:
  assumes "zp tree C temp t" and "t \<noteq> Lf"
  shows "\<exists>p l c y D. rb_place lt k tree temp = Some (p, l) \<and> zp tree (D @ C) p (nd l c Lf p y) \<and> plug D (nd l c Lf p y) = t
    \<and> led lt k tree ((l, c, p, y) # D)"
  using assms
proof (induction "size t" arbitrary: C temp t rule: less_induct)
  case less
  define l where "l = lt k (key_of tree temp)"
  obtain c x y where t: "t = nd l c x temp y" using nd_ex [OF less.prems(2), of l] less.prems(1) by (auto simp: zp_def)
  define p where "p = ch l (rb_mem tree temp)"
  have p: "(if l then left_of tree temp else right_of tree temp) = p" by (simp add: p_def ch_def)
  have x: "shp (rb_mem tree) (rb_sentinel tree) p x" using less.prems(1) t by (simp add: zp_def p_def)
  have unf: "rb_place lt k tree temp = (if p = rb_sentinel tree then Some (temp, l) else rb_place lt k tree p)"
    unfolding rb_place.simps [of lt k tree temp] Let_def l_def [symmetric] p by (rule refl)
  show ?case
  proof (cases "x = Lf")
    case True
    then have "rb_place lt k tree temp = Some (temp, l)" unfolding unf using x by simp
    then show ?thesis using less.prems(1) t True by (intro exI [of _ temp] exI [of _ l] exI [of _ c] exI [of _ y] exI [of _ "[]"]) (simp add: led_def l_def)
  next
    case False
    have "zp tree ((l, c, temp, y) # C) p x" using zp_down [of tree C temp l c x y] less.prems(1) t False by (simp add: p_def)
    moreover have "size x < size t" unfolding t by (simp add: nd_def)
    ultimately obtain p' l' c' y' D where r: "rb_place lt k tree p = Some (p', l')" "zp tree (D @ (l, c, temp, y) # C) p' (nd l' c' Lf p' y')"
      "plug D (nd l' c' Lf p' y') = x" "led lt k tree ((l', c', p', y') # D)" using less.hyps False by blast
    have "led lt k tree ((l', c', p', y') # D @ [(l, c, temp, y)])" using r(4) by (auto simp: led_def l_def)
    moreover have "plug (D @ [(l, c, temp, y)]) (nd l' c' Lf p' y') = t" using r(3) t by (simp add: plug_append)
    moreover have "rb_place lt k tree temp = Some (p', l')" unfolding unf using x False shp_root [OF x] r(1) by simp
    ultimately show ?thesis using r(2) by (metis append.assoc append_Cons append_Nil)
  qed
qed

lemma link_zp:
  assumes z: "zp tree C p (nd l c Lf p y)" and n: "n \<notin> set (ad (nd l c Lf p y) @ cad C)" "n \<noteq> rb_sentinel tree"
  shows "zp (rb_link n (p, l) tree) ((l, c, p, y) # C) n (Nd True Lf n Lf)" "quiet (insert n {p}) tree (rb_link n (p, l) tree)"
proof -
  define m where "m = rb_mem tree"
  define s where "s = rb_sentinel tree"
  define m' where "m' = m(p := sc l n (m p), n := (m n)\<lparr>rb_parent := p, rb_left := s, rb_right := s, rb_red := True\<rparr>)"
  note zd = z [unfolded zp_def, folded m_def s_def]
  have np: "n \<noteq> p" "n \<noteq> s" "p \<noteq> s" using n zd by (auto simp: s_def)
  have "rb_link n (p, l) tree = tree\<lparr>rb_mem := m'\<rparr>"
    using np by (simp add: rb_link_def Let_def ngx_rbt_red_def rb_at_def m'_def sc_def m_def s_def fun_upd_def fun_eq_iff)
  then have L: "rb_mem (rb_link n (p, l) tree) = m'" "rb_root (rb_link n (p, l) tree) = rb_root tree" "rb_sentinel (rb_link n (p, l) tree) = s"
    by (simp_all add: s_def)
  have S: "shp m s (ch (\<not> l) (m p)) y" "ctxp m s (rb_root tree) p C" using zd by simp_all
  have D: "p \<notin> set (ad y)" "p \<notin> set (cad C)" "n \<notin> set (ad y)" "n \<notin> set (cad C)" using zd n by auto
  have f: "shp m' s (ch (\<not> l) (m p)) y" by (rule shp_frame [OF _ S(1)]) (use D in \<open>auto simp: m'_def\<close>)
  have g: "ctxp m' s (rb_root tree) p C" by (rule ctxp_frame [OF _ S(2)]) (use D in \<open>auto simp: m'_def\<close>)
  have q: "y \<noteq> Lf \<Longrightarrow> m' (ch (\<not> l) (m p)) = m (ch (\<not> l) (m p))" using shp_root [OF S(1)] D by (auto simp: m'_def)
  have P: "ch l (m' p) = n" "ch (\<not> l) (m' p) = ch (\<not> l) (m p)" "rb_red (m' p) = rb_red (m p)" "rb_parent (m' p) = rb_parent (m p)"
    "m' n = (m n)\<lparr>rb_parent := p, rb_left := s, rb_right := s, rb_red := True\<rparr>" "m' s = m s" using np by (simp_all add: m'_def)
  have "ctxp m' s (rb_root tree) n ((l, c, p, y) # C)" unfolding ctxp.simps P using f g q zd np by simp
  moreover have "distinct (ad (Nd True Lf n Lf) @ cad ((l, c, p, y) # C))" using zd D np by auto
  ultimately show "zp (rb_link n (p, l) tree) ((l, c, p, y) # C) n (Nd True Lf n Lf)"
    unfolding zp_def L using P np zd by simp
  show "quiet (insert n {p}) tree (rb_link n (p, l) tree)" unfolding quiet_def L using np by (auto simp: m'_def m_def s_def)
qed

section \<open>Order of the nodes\<close>

text \<open>The function that a tree is made with compares keys; where it is an order, the nodes of the tree are sorted, and a new node
  comes after those it is not smaller than.\<close>

definition rb_insert_by :: "(64 word \<Rightarrow> 64 word \<Rightarrow> bool) \<Rightarrow> nat \<Rightarrow> nat \<Rightarrow> ngx_rbtree \<Rightarrow> ngx_rbtree option" where
  "rb_insert_by lt temp node tree = map_option (\<lambda>place. rb_link node place tree) (rb_place lt (key_of tree node) tree temp)"

definition rb_sorted :: "(64 word \<Rightarrow> 64 word \<Rightarrow> bool) \<Rightarrow> (nat \<Rightarrow> 64 word) \<Rightarrow> nat list \<Rightarrow> bool" where
  "rb_sorted lt ky xs \<longleftrightarrow> sorted_wrt (\<lambda>a b. \<not> lt (ky b) (ky a)) xs"

definition rb_put :: "(64 word \<Rightarrow> 64 word \<Rightarrow> bool) \<Rightarrow> (nat \<Rightarrow> 64 word) \<Rightarrow> nat \<Rightarrow> nat list \<Rightarrow> nat list" where
  "rb_put lt ky n xs = takeWhile (\<lambda>a. \<not> lt (ky n) (ky a)) xs @ n # dropWhile (\<lambda>a. \<not> lt (ky n) (ky a)) xs"

lemma rb_put_split:
  assumes "\<And>a. a \<in> set xs \<Longrightarrow> \<not> lt (ky n) (ky a)" and "\<And>a. a \<in> set ys \<Longrightarrow> lt (ky n) (ky a)"
  shows "rb_put lt ky n (xs @ ys) = xs @ n # ys"
  using assms by (cases ys) (simp_all add: rb_put_def takeWhile_append2 dropWhile_append2)

lemma set_rb_put: "set (rb_put lt ky n xs) = insert n (set xs)"
proof -
  have "set xs = set (takeWhile (\<lambda>a. \<not> lt (ky n) (ky a)) xs) \<union> set (dropWhile (\<lambda>a. \<not> lt (ky n) (ky a)) xs)"
    by (metis set_append takeWhile_dropWhile_id)
  then show ?thesis unfolding rb_put_def by simp
qed

locale rb_order =
  fixes lt :: "64 word \<Rightarrow> 64 word \<Rightarrow> bool" and K :: "64 word set"
  assumes lt_asym: "x \<in> K \<Longrightarrow> y \<in> K \<Longrightarrow> lt x y \<Longrightarrow> \<not> lt y x"
    and lt_up: "x \<in> K \<Longrightarrow> y \<in> K \<Longrightarrow> z \<in> K \<Longrightarrow> lt x y \<Longrightarrow> \<not> lt z y \<Longrightarrow> lt x z"
    and lt_down: "x \<in> K \<Longrightarrow> y \<in> K \<Longrightarrow> z \<in> K \<Longrightarrow> \<not> lt x y \<Longrightarrow> \<not> lt y z \<Longrightarrow> \<not> lt x z"
begin

lemma led_pre:
  assumes "led lt k tree C" and "rb_sorted lt (key_of tree) (pre C)" and "k \<in> K" and "key_of tree ` set (pre C) \<subseteq> K" and "a \<in> set (pre C)"
  shows "\<not> lt k (key_of tree a)"
  using assms
proof (induction C rule: pre.induct)
  case (2 d c b y C)
  show ?case
  proof (cases "a \<in> set (pre C)")
    case True
    then show ?thesis using 2 by (auto simp: led_def rb_sorted_def sorted_wrt_append)
  next
    case False
    then have d: "\<not> d" "\<not> lt k (key_of tree b)" "a = b \<or> a \<in> set (ad y)" using 2(2,6) by (auto simp: led_def split: if_splits)
    then show ?thesis using 2(3-5) lt_down [of k "key_of tree b" "key_of tree a"] by (auto simp: rb_sorted_def sorted_wrt_append)
  qed
qed simp

lemma led_post:
  assumes "led lt k tree C" and "rb_sorted lt (key_of tree) (post C)" and "k \<in> K" and "key_of tree ` set (post C) \<subseteq> K" and "a \<in> set (post C)"
  shows "lt k (key_of tree a)"
  using assms
proof (induction C rule: post.induct)
  case (2 d c b y C)
  show ?case
  proof (cases "a \<in> set (post C)")
    case True
    then show ?thesis using 2 by (auto simp: led_def rb_sorted_def sorted_wrt_append split: if_splits)
  next
    case False
    then have d: "d" "lt k (key_of tree b)" "a = b \<or> a \<in> set (ad y)" using 2(2,6) by (auto simp: led_def split: if_splits)
    then show ?thesis using 2(3-5) lt_up [of k "key_of tree b" "key_of tree a"] by (auto simp: rb_sorted_def sorted_wrt_append)
  qed
qed simp

lemma rb_put_sorted:
  assumes "rb_sorted lt ky (xs @ ys)" and "\<And>a. a \<in> set xs \<Longrightarrow> \<not> lt (ky n) (ky a)" and "\<And>a. a \<in> set ys \<Longrightarrow> lt (ky n) (ky a)"
    and "ky ` set (xs @ ys) \<subseteq> K" and "ky n \<in> K"
  shows "rb_sorted lt ky (xs @ n # ys)"
proof -
  have "\<not> lt (ky a) (ky n)" if "a \<in> set ys" for a using assms(3) [OF that] assms(4,5) that lt_asym by auto
  then show ?thesis using assms(1,2) by (auto simp: rb_sorted_def sorted_wrt_append)
qed

lemma insert_tree:
  assumes t: "rb_tree tree t" and n: "n \<notin> set (ad t)" "n \<noteq> rb_sentinel tree" and srt: "rb_sorted lt (key_of tree) (ad t)"
    and K: "key_of tree ` insert n (set (ad t)) \<subseteq> K"
  shows "\<exists>tree' t'. ngx_rbtree_insert (rb_insert_by lt) n tree = Some tree' \<and> rb_tree tree' t'
    \<and> ad t' = rb_put lt (key_of tree) n (ad t) \<and> rb_sorted lt (key_of tree') (ad t') \<and> quiet (insert n (set (ad t))) tree tree'"
proof (cases t)
  case Lf
  then have r: "rb_root tree = rb_sentinel tree" using t by (simp add: rb_tree_def zp_def)
  define m where "m = (rb_mem tree)(n := (rb_mem tree n)\<lparr>rb_parent := 0, rb_left := rb_sentinel tree, rb_right := rb_sentinel tree, rb_red := False\<rparr>)"
  have "ngx_rbtree_insert (rb_insert_by lt) n tree = Some (tree\<lparr>rb_mem := m, rb_root := n\<rparr>)"
    using r by (simp add: ngx_rbtree_insert_def Let_def ngx_rbt_black_def rb_at_def m_def)
  moreover have "rb_tree (tree\<lparr>rb_mem := m, rb_root := n\<rparr>) (Nd False Lf n Lf)"
    using n t by (auto simp: rb_tree_def zp_def m_def intro!: exI [of _ 1])
  moreover have "quiet {n} tree (tree\<lparr>rb_mem := m, rb_root := n\<rparr>)" by (simp add: quiet_def m_def)
  ultimately show ?thesis using Lf by (intro exI conjI) (auto simp: rb_put_def rb_sorted_def)
next
  case (Nd c0 l0 a0 r0)
  then have t0: "t \<noteq> Lf" by simp
  have z: "zp tree [] (rb_root tree) t" and "\<exists>k. ok k t" "\<not> isred t" using t by (auto simp: rb_tree_def)
  have rs: "rb_root tree \<noteq> rb_sentinel tree" using z shp_root [of "rb_mem tree" "rb_sentinel tree" "rb_root tree" t] t0 by (simp add: zp_def)
  define k where "k = key_of tree n"
  from place_found [OF z t0, of lt k] obtain p l c y D where pl: "rb_place lt k tree (rb_root tree) = Some (p, l)"
    "zp tree D p (nd l c Lf p y)" "plug D (nd l c Lf p y) = t" "led lt k tree ((l, c, p, y) # D)" by auto
  define C where "C = (l, c, p, y) # D"
  define t1 where "t1 = rb_link n (p, l) tree"
  have adt: "set (ad t) = insert p (set (ad y) \<union> set (cad D))" using pl(3) set_ad_plug [of D "nd l c Lf p y"] by simp
  have z1: "zp t1 C n (Nd True Lf n Lf)" "quiet (insert n {p}) tree t1"
    using link_zp [OF pl(2), of n] n adt by (simp_all add: t1_def C_def)
  have plugC: "plug C Lf = t" using pl(3) by (simp add: C_def)
  obtain h where "ok h Lf" "cok h C" using plug_ok [of _ C Lf] plugC \<open>\<exists>k. ok k t\<close> \<open>\<not> isred t\<close> by auto
  then have "ok h (Nd True Lf n Lf)" "cok h C" by simp_all
  from insert_loop [OF z1(1) _ this] obtain tree2 t2 where lp: "rb_insert_loop n t1 = Some tree2" "zp tree2 [] (rb_root tree2) t2"
    "\<exists>k. ok k (blk t2)" "ad t2 = ad (plug C (Nd True Lf n Lf))" "quiet (insert n (set (cad C))) t1 tree2" by auto
  have xs: "ad t = pre C @ post C" "ad t2 = pre C @ n # post C" using ad_plug [of C] plugC lp(4) by (metis ad.simps(1) append_Nil, simp)
  have A: "insert n (set (cad C)) = insert n (set (ad t))" using adt by (auto simp: C_def)
  define tree' where "tree' = ngx_rbt_black (rb_root tree2) tree2"
  have "ngx_rbtree_insert (rb_insert_by lt) n tree = Some tree'"
    using rs pl(1) lp(1) by (simp add: ngx_rbtree_insert_def rb_insert_by_def k_def t1_def tree'_def)
  moreover have "rb_tree tree' (blk t2)" using zp_paint [OF lp(2)] lp(3) by (simp add: rb_tree_def tree'_def)
  moreover have q: "quiet (insert n (set (ad t))) tree tree'"
  proof -
    have "rb_root tree2 \<in> set (ad t2)" 
    proof -
      have "t2 \<noteq> Lf" using xs(2) by auto
      then show ?thesis using lp(2) shp_root [of "rb_mem tree2" "rb_sentinel tree2" "rb_root tree2" t2] unfolding zp_def by blast
    qed
    then have "rb_root tree2 \<in> insert n (set (ad t))" using xs by auto
    then show ?thesis unfolding tree'_def using z1(2) lp(5) adt
      by (intro quiet_trans [OF quiet_trans [OF quiet_mono [OF _ z1(2)] lp(5) [unfolded A]] quiet_black]) auto
  qed
  moreover have split: "\<And>a. a \<in> set (pre C) \<Longrightarrow> \<not> lt k (key_of tree a)" "\<And>a. a \<in> set (post C) \<Longrightarrow> lt k (key_of tree a)"
    using led_pre [of k tree C] led_post [of k tree C] pl(4) srt K xs(1) by (auto simp: C_def [symmetric] rb_sorted_def sorted_wrt_append k_def)
  moreover have "ad (blk t2) = rb_put lt (key_of tree) n (ad t)"
    unfolding xs(1) using split xs(2) by (subst rb_put_split) (simp_all add: k_def)
  moreover have "key_of tree' = key_of tree" using q by (simp add: quiet_def fun_eq_iff)
  moreover have "rb_sorted lt (key_of tree) (pre C @ n # post C)" using srt xs(1) split K by (intro rb_put_sorted) (auto simp: k_def)
  ultimately show ?thesis using xs(2) by (intro exI [of _ tree'] exI [of _ "blk t2"]) simp
qed

end

text \<open>Plain keys are ordered as numbers.\<close>

interpretation value_order: rb_order "\<lambda>k k'. k < k'" UNIV
  by unfold_locales auto

text \<open>Timers are ordered as long as they are in a window of less than half of the range, wherever it begins.\<close>

definition timer_lt :: "64 word \<Rightarrow> 64 word \<Rightarrow> bool" where
  "timer_lt k k' \<longleftrightarrow> sint (k - k') < 0"

definition timer_window :: "64 word \<Rightarrow> 64 word set" where
  "timer_window base = {k. uint (k - base) < 2 ^ 63}"

lemma timer_diff:
  assumes "k \<in> timer_window base" and "k' \<in> timer_window base"
  shows "sint (k - k') = uint (k - base) - uint (k' - base)"
proof -
  define x where "x = uint (k - base)"
  define y where "y = uint (k' - base)"
  have xy: "0 \<le> x" "x < 2 ^ 63" "0 \<le> y" "y < 2 ^ 63" using assms by (simp_all add: timer_window_def x_def y_def)
  have "k - k' = (k - base) - (k' - base)" by simp
  also have "\<dots> = word_of_int (x - y)" by (simp add: x_def y_def)
  finally have "sint (k - k') = signed_take_bit 63 (x - y)" by (simp only: sint_sbintrunc') simp
  also have "\<dots> = x - y" using xy by (intro signed_take_bit_int_eq_self) simp_all
  finally show ?thesis by (simp add: x_def y_def)
qed

interpretation timer_order: rb_order timer_lt "timer_window base" for base
  by unfold_locales (simp_all add: timer_lt_def timer_diff)

lemma insert_functions:
  "ngx_rbtree_insert_value = rb_insert_by (\<lambda>k k'. k < k')" "ngx_rbtree_insert_timer_value = rb_insert_by timer_lt"
  by (simp_all add: fun_eq_iff ngx_rbtree_insert_value_def ngx_rbtree_insert_timer_value_def rb_insert_by_def timer_lt_def [abs_def])

end
