(* ===== verification/Ngx_Rbtree_Delete.thy ===== *)
theory Ngx_Rbtree_Delete
  imports Ngx_Rbtree
begin

unbundle bit_operations_syntax

text \<open>
The proof about deletion from a red-black tree: the loop that restores the balance, and the node that
takes the place of a deleted one. It builds on the places and shapes of Ngx_Rbtree.
\<close>

section \<open>Restoring the balance after a deletion\<close>

definition del_red :: "bool \<Rightarrow> nat \<Rightarrow> nat \<Rightarrow> ngx_rbtree \<Rightarrow> nat \<times> ngx_rbtree" where
  "del_red d temp w tree =
     (if ngx_rbt_is_red tree w then
        let tree = ngx_rbt_black w tree;
            tree = ngx_rbt_red (parent_of tree temp) tree;
            tree = rot d (parent_of tree temp) tree
        in (ch (\<not> d) (rb_mem tree (parent_of tree temp)), tree)
      else (w, tree))"

definition del_inner :: "bool \<Rightarrow> nat \<Rightarrow> nat \<Rightarrow> ngx_rbtree \<Rightarrow> nat \<times> ngx_rbtree" where
  "del_inner d temp w tree =
     (if ngx_rbt_is_black tree (ch (\<not> d) (rb_mem tree w)) then
        let tree = ngx_rbt_black (ch d (rb_mem tree w)) tree;
            tree = ngx_rbt_red w tree;
            tree = rot (\<not> d) w tree
        in (ch (\<not> d) (rb_mem tree (parent_of tree temp)), tree)
      else (w, tree))"

definition del_step :: "bool \<Rightarrow> nat \<Rightarrow> ngx_rbtree \<Rightarrow> nat \<times> ngx_rbtree" where
  "del_step d temp tree =
     (let (w, tree) = del_red d temp (ch (\<not> d) (rb_mem tree (parent_of tree temp))) tree in
      if ngx_rbt_is_black tree (ch d (rb_mem tree w)) \<and> ngx_rbt_is_black tree (ch (\<not> d) (rb_mem tree w)) then
        let tree = ngx_rbt_red w tree in (parent_of tree temp, tree)
      else
        let (w, tree) = del_inner d temp w tree;
            tree = ngx_rbt_copy_color w (parent_of tree temp) tree;
            tree = ngx_rbt_black (parent_of tree temp) tree;
            tree = ngx_rbt_black (ch (\<not> d) (rb_mem tree w)) tree;
            tree = rot d (parent_of tree temp) tree
        in (rb_root tree, tree))"

lemma rb_delete_step_side:
  "rb_delete_step temp tree = del_step (temp = ch True (rb_mem tree (parent_of tree temp))) temp tree"
proof (cases "temp = left_of tree (parent_of tree temp)")
  case True
  show ?thesis unfolding rb_delete_step_def del_step_def del_red_def del_inner_def rotate_rot
    by (simp only: True [symmetric] ch_sides if_True not_True_eq_False simp_thms Let_def)
next
  case False
  show ?thesis unfolding rb_delete_step_def del_step_def del_red_def del_inner_def rotate_rot
    by (simp only: False ch_sides if_False not_False_eq_True simp_thms Let_def conj_commute)
qed


lemma zp_sentinel: "zp tree C p t \<Longrightarrow> rb_sentinel tree \<notin> set (ad t) \<union> set (cad C)"
  using shp_sentinel ctxp_sentinel unfolding zp_def by blast

lemma zp_return:
  assumes z: "zp tree ((d, c, p, y) # C) temp x" and z': "zp tree' C' p (nd d c' x p y')" and q: "quiet A tree tree'" and "rb_sentinel tree \<notin> A"
  shows "zp tree' ((d, c', p, y') # C') temp x"
proof -
  have s: "rb_sentinel tree' = rb_sentinel tree" "rb_mem tree' (rb_sentinel tree) = rb_mem tree (rb_sentinel tree)" using q assms(4) by (auto simp: quiet_def)
  have "temp = ch d (rb_mem tree' p)"
  proof (cases "x = Lf")
    case True
    then show ?thesis using z z' s(1) by (simp add: zp_def)
  next
    case False
    then obtain k l r where "x = Nd k l temp r" using zp_point [OF z] by blast
    then show ?thesis using z' by (simp add: zp_def)
  qed
  moreover have "x = Lf \<Longrightarrow> parent_of tree' (rb_sentinel tree) = p" using s(2) z by (auto simp: zp_def)
  moreover have "x = Lf \<Longrightarrow> ch d (rb_mem tree' p) = rb_sentinel tree" using z' s(1) by (simp add: zp_def)
  ultimately show ?thesis using zp_down [OF z'] by simp
qed

lemma sibling:
  assumes "zp tree ((d, c, p, nd e k y a w) # C) temp x"
  shows "ch (\<not> d) (rb_mem tree p) = a" "zp tree ((\<not> d, c, p, x) # C) a (nd e k y a w)"
proof -
  show "ch (\<not> d) (rb_mem tree p) = a" using assms by (simp add: zp_def)
  then show "zp tree ((\<not> d, c, p, x) # C) a (nd e k y a w)" using zp_across [OF assms] by simp
qed

lemma delete_red:
  assumes z: "zp tree ((d, c, p, nd d True w1 a w2) # C) temp x"
  defines "A \<equiv> set (ad x) \<union> set (cad ((d, c, p, nd d True w1 a w2) # C))"
  shows "\<exists>tree'. del_red d temp a tree = (ch (\<not> d) (rb_mem tree' p), tree') \<and> zp tree' ((d, True, p, w1) # (d, False, a, w2) # C) temp x
    \<and> quiet A tree tree'"
proof -
  have par: "parent_of tree temp = p" using zp_reads(1) [OF z] .
  define t1 where "t1 = ngx_rbt_black a tree"
  define t2 where "t2 = ngx_rbt_red p t1"
  define t3 where "t3 = rot d p t2"
  have "zp t1 ((\<not> d, c, p, x) # C) a (nd d False w1 a w2)" unfolding t1_def by (rule zp_black [OF sibling(2) [OF z]])
  then have "zp t1 C p (nd d c x p (nd d False w1 a w2))" unfolding nd_flip [of d c] by (rule zp_up)
  then have z2: "zp t2 C p (nd d True x p (nd d False w1 a w2))" unfolding t2_def by (rule zp_red)
  then have z3: "zp t3 C a (nd d False (nd d True x p w1) a w2)" unfolding t3_def by (rule zp_rot)
  have q2: "quiet A tree t2" unfolding t2_def t1_def by (rule quiet_trans [OF quiet_black quiet_red]) (simp_all add: A_def)
  have "quiet A t2 t3" unfolding t3_def by (rule quiet_mono [OF _ quiet_rot [OF z2]]) (auto simp: A_def)
  then have q: "quiet A tree t3" by (rule quiet_trans [OF q2])
  have "ch d (rb_mem t3 a) = p" using z3 by (simp add: zp_def)
  then have "zp t3 ((d, False, a, w2) # C) p (nd d True x p w1)" using zp_down [OF z3] by simp
  then have z4: "zp t3 ((d, True, p, w1) # (d, False, a, w2) # C) temp x"
    by (rule zp_return [OF z _ q]) (use zp_sentinel [OF z] in \<open>simp add: A_def\<close>)
  have red: "ngx_rbt_is_red tree a" using zp_isred [OF sibling(2) [OF z]] by simp
  have "parent_of t3 temp = p" using zp_reads(1) [OF z4] .
  then have "del_red d temp a tree = (ch (\<not> d) (rb_mem t3 p), t3)" using red par by (simp add: del_red_def t3_def t2_def t1_def Let_def)
  then show ?thesis using z4 q by blast
qed

lemma delete_inner:
  assumes z: "zp tree ((d, c, p, nd d False (nd d True u b v) a w2) # C) temp x" and "\<not> isred w2"
  defines "A \<equiv> set (ad x) \<union> set (cad ((d, c, p, nd d False (nd d True u b v) a w2) # C))"
  shows "\<exists>tree'. del_inner d temp a tree = (b, tree') \<and> zp tree' ((d, c, p, nd d False u b (nd d True v a w2)) # C) temp x \<and> quiet A tree tree'"
proof -
  have par: "parent_of tree temp = p" using zp_reads(1) [OF z] .
  note S = sibling(2) [OF z]
  have b: "ch d (rb_mem tree a) = b" using S by (simp add: zp_def)
  define t1 where "t1 = ngx_rbt_black b tree"
  define t2 where "t2 = ngx_rbt_red a t1"
  define t3 where "t3 = rot (\<not> d) a t2"
  have "zp tree ((d, False, a, w2) # (\<not> d, c, p, x) # C) b (nd d True u b v)" using zp_down [OF S] b by simp
  then have "zp t1 ((d, False, a, w2) # (\<not> d, c, p, x) # C) b (nd d False u b v)" unfolding t1_def by (rule zp_black)
  then have "zp t2 ((\<not> d, c, p, x) # C) a (nd d True (nd d False u b v) a w2)" unfolding t2_def by (rule zp_red [OF zp_up])
  then have z2: "zp t2 ((\<not> d, c, p, x) # C) a (nd (\<not> d) True w2 a (nd (\<not> d) False v b u))" by (simp only: nd_flip [of "\<not> d"] not_not)
  have "zp t3 ((\<not> d, c, p, x) # C) b (nd (\<not> d) False (nd (\<not> d) True w2 a v) b u)" unfolding t3_def by (rule zp_rot [OF z2])
  then have "zp t3 ((\<not> d, c, p, x) # C) b (nd d False u b (nd d True v a w2))" by (simp only: nd_flip [of "\<not> d"] not_not)
  then have z3: "zp t3 C p (nd d c x p (nd d False u b (nd d True v a w2)))" unfolding nd_flip [of d c] by (rule zp_up)
  have q2: "quiet A tree t2" unfolding t2_def t1_def by (rule quiet_trans [OF quiet_black quiet_red]) (simp_all add: A_def)
  have "quiet A t2 t3" unfolding t3_def by (rule quiet_mono [OF _ quiet_rot [OF z2]]) (auto simp: A_def)
  then have q: "quiet A tree t3" by (rule quiet_trans [OF q2])
  have z4: "zp t3 ((d, c, p, nd d False u b (nd d True v a w2)) # C) temp x"
    by (rule zp_return [OF z z3 q]) (use zp_sentinel [OF z] in \<open>simp add: A_def\<close>)
  have black: "ngx_rbt_is_black tree (ch (\<not> d) (rb_mem tree a))"
    using zp_reads(5) [OF \<open>zp tree ((d, False, a, w2) # (\<not> d, c, p, x) # C) b (nd d True u b v)\<close>] assms(2) by (simp add: ngx_rbt_is_black_def)
  have "parent_of t3 temp = p" "ch (\<not> d) (rb_mem t3 p) = b" using zp_reads(1) [OF z4] sibling(1) [OF z4] .
  then have "del_inner d temp a tree = (b, t3)" using black b by (simp add: del_inner_def t3_def t2_def t1_def Let_def)
  then show ?thesis using z4 q by blast
qed

lemma delete_last:
  assumes z: "zp tree ((d, c, p, nd d False w1 a w2) # C) temp x" and "isred w2"
  defines "A \<equiv> set (ad x) \<union> set (cad ((d, c, p, nd d False w1 a w2) # C))"
  defines "tree' \<equiv> rot d p (ngx_rbt_black (ch (\<not> d) (rb_mem tree a)) (ngx_rbt_black p (ngx_rbt_copy_color a p tree)))"
  shows "zp tree' C a (nd d c (nd d False x p w1) a (blk w2)) \<and> quiet A tree tree'"
proof -
  note S = sibling(2) [OF z]
  have w2: "w2 \<noteq> Lf" using assms(2) by auto
  define b where "b = ch (\<not> d) (rb_mem tree a)"
  have bA: "b \<in> A" using S w2 shp_root [of "rb_mem tree" "rb_sentinel tree" b w2] by (auto simp: A_def b_def zp_def)
  define t1 where "t1 = ngx_rbt_copy_color a p tree"
  define t2 where "t2 = ngx_rbt_black p t1"
  define t3 where "t3 = ngx_rbt_black b t2"
  have c: "rb_red (rb_mem tree p) = c" using zp_reads(3) [OF z] by (simp add: ngx_rbt_is_red_def)
  have "zp t1 ((\<not> d, c, p, x) # C) a (nd d c w1 a w2)" unfolding t1_def ngx_rbt_copy_color_def c by (rule zp_color [OF S])
  then have z2: "zp t2 C p (nd (\<not> d) False (nd d c w1 a w2) p x)" unfolding t2_def by (rule zp_black [OF zp_up])
  have "ch (\<not> d) (rb_mem t2 p) = a" "ch (\<not> d) (rb_mem t2 a) = b" using sibling(1) [OF z] by (simp_all add: t2_def t1_def b_def)
  moreover from this have "zp t2 ((\<not> d, False, p, x) # C) a (nd (\<not> d) c w2 a w1)" using zp_down [OF z2] by (simp add: nd_flip [of d])
  ultimately have "zp t2 ((\<not> d, c, a, w1) # (\<not> d, False, p, x) # C) b w2" using zp_down [of t2 _ a "\<not> d" c w2 w1] w2 by simp
  then have "zp t3 ((\<not> d, c, a, w1) # (\<not> d, False, p, x) # C) b (blk w2)" unfolding t3_def by (rule zp_paint)
  then have z3: "zp t3 C p (nd d False x p (nd d c w1 a (blk w2)))" unfolding nd_flip [of d] by (rule zp_up [OF zp_up])
  have z4: "zp tree' C a (nd d c (nd d False x p w1) a (blk w2))"
    unfolding tree'_def t1_def [symmetric] t2_def [symmetric] b_def [symmetric] t3_def [symmetric] by (rule zp_rot [OF z3])
  have "quiet A tree t3" unfolding t3_def t2_def t1_def ngx_rbt_copy_color_def
    by (rule quiet_trans [OF quiet_trans [OF quiet_color quiet_black] quiet_black]) (use bA in \<open>simp_all add: A_def\<close>)
  moreover have "quiet A t3 (rot d p t3)" by (rule quiet_mono [OF _ quiet_rot [OF z3]]) (auto simp: A_def)
  ultimately have "quiet A tree (rot d p t3)" by (rule quiet_trans)
  then show ?thesis using z4 by (simp add: tree'_def t3_def t2_def t1_def b_def)
qed

definition del_rest :: "bool \<Rightarrow> nat \<Rightarrow> nat \<Rightarrow> ngx_rbtree \<Rightarrow> nat \<times> ngx_rbtree" where
  "del_rest d temp w tree =
     (if ngx_rbt_is_black tree (ch d (rb_mem tree w)) \<and> ngx_rbt_is_black tree (ch (\<not> d) (rb_mem tree w)) then
        let tree = ngx_rbt_red w tree in (parent_of tree temp, tree)
      else
        let (w, tree) = del_inner d temp w tree;
            tree = ngx_rbt_copy_color w (parent_of tree temp) tree;
            tree = ngx_rbt_black (parent_of tree temp) tree;
            tree = ngx_rbt_black (ch (\<not> d) (rb_mem tree w)) tree;
            tree = rot d (parent_of tree temp) tree
        in (rb_root tree, tree))"

lemma del_step_rest:
  "del_step d temp tree = (case del_red d temp (ch (\<not> d) (rb_mem tree (parent_of tree temp))) tree of (w, tree) \<Rightarrow> del_rest d temp w tree)"
  by (simp add: del_step_def del_rest_def Let_def split: prod.splits)

lemma kids_black:
  assumes "zp tree ((d, c, p, nd d k w1 a w2) # C) temp x"
  shows "ngx_rbt_is_black tree (ch d (rb_mem tree a)) \<longleftrightarrow> \<not> isred w1" "ngx_rbt_is_black tree (ch (\<not> d) (rb_mem tree a)) \<longleftrightarrow> \<not> isred w2"
  using sibling(2) [OF assms] by (auto simp: zp_def ngx_rbt_is_black_def ngx_rbt_is_red_def dest: shp_red)

lemma delete_turn:
  assumes z: "zp tree ((d, c, p, nd d False w1 a w2) # C) temp x" and H: "ok h x" "ok h w1" "ok h w2"
  defines "A \<equiv> set (ad x) \<union> set (cad ((d, c, p, nd d False w1 a w2) # C))"
  shows "\<exists>temp' tree' t'. del_rest d temp a tree = (temp', tree') \<and> quiet A tree tree' \<and> ad t' = ad (nd d c x p (nd d False w1 a w2))
    \<and> isred t' = c \<and> ((temp' = p \<and> zp tree' C p t' \<and> ok (h + 1) (blk t')) \<or>
        (temp' = rb_root tree' \<and> (\<exists>q. zp tree' C q t') \<and> ok (if c then h + 1 else h + 2) t'))"
proof -
  have par: "parent_of tree temp = p" using zp_reads(1) [OF z] .
  consider "\<not> isred w1" "\<not> isred w2" | "isred w2" | "isred w1" "\<not> isred w2" by blast
  then show ?thesis
  proof cases
    case 1
    define t' where "t' = nd d c x p (nd d True w1 a w2)"
    have "zp (ngx_rbt_red a tree) ((\<not> d, c, p, x) # C) a (nd d True w1 a w2)" by (rule zp_red [OF sibling(2) [OF z]])
    then have "zp (ngx_rbt_red a tree) C p t'" unfolding t'_def nd_flip [of d c] by (rule zp_up)
    moreover have "del_rest d temp a tree = (p, ngx_rbt_red a tree)" using kids_black [OF z] 1 par by (simp add: del_rest_def Let_def)
    moreover have "quiet A tree (ngx_rbt_red a tree)" by (rule quiet_red) (simp add: A_def)
    moreover have "ad t' = ad (nd d c x p (nd d False w1 a w2))" unfolding t'_def by (intro ad_nd_cong) simp_all
    moreover have "ok (h + 1) (blk t')" "isred t' = c" using H 1 by (simp_all add: t'_def)
    ultimately show ?thesis by (intro exI [of _ p] exI [of _ "ngx_rbt_red a tree"] exI [of _ t']) simp
  next
    case 2
    define t' where "t' = nd d c (nd d False x p w1) a (blk w2)"
    define tree' where "tree' = rot d p (ngx_rbt_black (ch (\<not> d) (rb_mem tree a)) (ngx_rbt_black p (ngx_rbt_copy_color a p tree)))"
    have L: "zp tree' C a t'" "quiet A tree tree'" using delete_last [OF z 2] by (simp_all add: t'_def tree'_def A_def)
    have "del_rest d temp a tree = (rb_root tree', tree')"
      using kids_black [OF z] 2 par by (simp add: del_rest_def Let_def del_inner_def tree'_def)
    moreover have "ad t' = ad (nd d c x p (nd d False w1 a w2))" by (simp add: t'_def nd_def)
    moreover have "ok (if c then h + 1 else h + 2) t'" "isred t' = c" using H ok_blk [OF H(3) 2] by (simp_all add: t'_def)
    ultimately show ?thesis using L by blast
  next
    case 3
    then obtain u b v where w1: "w1 = nd d True u b v" using nd_ex [of w1 d] by (cases w1) fastforce+
    note z' = z [unfolded w1]
    from delete_inner [OF z' 3(2)] obtain tree1 where I: "del_inner d temp a tree = (b, tree1)"
      "zp tree1 ((d, c, p, nd d False u b (nd d True v a w2)) # C) temp x" "quiet A tree tree1" unfolding A_def w1 by blast
    define t' where "t' = nd d c (nd d False x p u) b (nd d False v a w2)"
    define tree' where "tree' = rot d p (ngx_rbt_black (ch (\<not> d) (rb_mem tree1 b)) (ngx_rbt_black p (ngx_rbt_copy_color b p tree1)))"
    have L: "zp tree' C b t'" "quiet A tree1 tree'"
      using delete_last [OF I(2)] by (simp_all add: t'_def tree'_def A_def w1 Un_ac insert_commute)
    have "parent_of tree1 temp = p" using zp_reads(1) [OF I(2)] .
    then have "del_rest d temp a tree = (rb_root tree', tree')"
      using kids_black [OF z] 3 I(1) by (simp add: del_rest_def Let_def tree'_def)
    moreover have "ad t' = ad (nd d c x p (nd d False w1 a w2))" by (simp add: t'_def w1 nd_def)
    moreover have "ok (if c then h + 1 else h + 2) t'" "isred t' = c" using H 3 by (auto simp: t'_def w1)
    ultimately show ?thesis using L(1) quiet_trans [OF I(3) L(2)] by blast
  qed
qed


lemma delete_loop_stop: "temp = rb_root tree \<or> ngx_rbt_is_red tree temp \<Longrightarrow> rb_delete_loop temp tree = Some (temp, tree)"
  by (subst rb_delete_loop.simps) (auto simp: ngx_rbt_is_black_def)

lemma zp_not_root: "zp tree C temp t \<Longrightarrow> C \<noteq> [] \<Longrightarrow> temp \<noteq> rb_root tree"
proof (cases "t = Lf")
  case True
  assume "zp tree C temp t" "C \<noteq> []"
  then show ?thesis using True ctxp_root [of "rb_mem tree" "rb_sentinel tree" "rb_root tree" temp C] ctxp_sentinel [of "rb_mem tree" "rb_sentinel tree"]
    unfolding zp_def by auto
qed (use zp_root in blast)

text \<open>The result of a turn that ends the loop.\<close>

definition balanced_at :: "ngx_rbtree \<Rightarrow> nat \<Rightarrow> nat list \<Rightarrow> bool" where
  "balanced_at tree temp xs \<longleftrightarrow> (\<exists>C t k. zp tree C temp t \<and> ok k (blk t) \<and> cok k C \<and> ad (plug C t) = xs)"

lemma balanced_root:
  assumes "zp tree C q t" and "ok k t" and "cok k C" and "\<not> (isred t \<and> cred C)" and "ad (plug C t) = xs"
  shows "balanced_at tree (rb_root tree) xs"
proof -
  obtain k' where "ok k' (blk (plug C t))" using ok_plug [OF assms(2-4)] ok_blk_ex by blast
  then show ?thesis using zp_plug [OF assms(1)] assms(5) unfolding balanced_at_def
    by (intro exI [of _ "[]"] exI [of _ "plug C t"] exI [of _ k']) simp
qed

lemma sibling_red:
  assumes z: "zp tree ((d, False, p, nd d True w1 a w2) # C) temp t" and H: "ok h t" "ok (h + 1) w1" "ok (h + 1) w2" "\<not> isred w1" "cok (h + 2) C"
  defines "A \<equiv> set (ad t) \<union> set (cad ((d, False, p, nd d True w1 a w2) # C))"
  shows "\<exists>temp' tree'. del_step d temp tree = (temp', tree') \<and> rb_delete_loop temp' tree' = Some (temp', tree')
    \<and> balanced_at tree' temp' (ad (plug ((d, False, p, nd d True w1 a w2) # C) t)) \<and> quiet A tree tree'"
proof -
  from delete_red [OF z, folded A_def] obtain tree1 where
    R: "del_red d temp a tree = (ch (\<not> d) (rb_mem tree1 p), tree1)" "zp tree1 ((d, True, p, w1) # (d, False, a, w2) # C) temp t" "quiet A tree tree1"
    by (elim exE conjE)
  have "w1 \<noteq> Lf" using H(2) by auto
  then obtain v1 b v2 where w1: "w1 = nd d False v1 b v2" using nd_ex [of w1 d] H(4) by auto
  note z1 = R(2) [unfolded w1]
  have "ch (\<not> d) (rb_mem tree (parent_of tree temp)) = a" using sibling(1) [OF z] zp_reads(1) [OF z] by simp
  then have step: "del_step d temp tree = del_rest d temp b tree1" unfolding del_step_rest using R(1) sibling(1) [OF z1] by simp
  have A: "set (ad t) \<union> set (cad ((d, True, p, nd d False v1 b v2) # (d, False, a, w2) # C)) = A"
    using w1 by (simp add: A_def Un_ac insert_commute)
  have H1: "ok h v1" "ok h v2" using H(2) w1 by simp_all
  from delete_turn [OF z1 H(1) H1, unfolded A] obtain temp' tree' t' where
    T: "del_rest d temp b tree1 = (temp', tree')" "quiet A tree1 tree'" "ad t' = ad (nd d True t p (nd d False v1 b v2))" "isred t' = True"
    and O: "(temp' = p \<and> zp tree' ((d, False, a, w2) # C) p t' \<and> ok (h + 1) (blk t')) \<or>
      (temp' = rb_root tree' \<and> (\<exists>q. zp tree' ((d, False, a, w2) # C) q t') \<and> ok (if True then h + 1 else h + 2) t')" by (elim exE conjE)
  have C2: "cok (h + 1) ((d, False, a, w2) # C)" using H(3,5) by simp
  have "ad (nd d False t' a w2) = ad (nd d False t p (nd d True w1 a w2))" using T(3) w1 by (simp add: nd_def)
  then have ad: "ad (plug ((d, False, a, w2) # C) t') = ad (plug ((d, False, p, nd d True w1 a w2) # C) t)"
    unfolding plug.simps by (rule ad_plug_cong)
  from O have "rb_delete_loop temp' tree' = Some (temp', tree') \<and> balanced_at tree' temp' (ad (plug ((d, False, p, nd d True w1 a w2) # C) t))"
  proof
    assume O: "temp' = p \<and> zp tree' ((d, False, a, w2) # C) p t' \<and> ok (h + 1) (blk t')"
    then have "balanced_at tree' temp' (ad (plug ((d, False, p, nd d True w1 a w2) # C) t))" unfolding balanced_at_def using C2 ad by blast
    moreover have "ngx_rbt_is_red tree' temp'" using O zp_isred T(4) by blast
    ultimately show ?thesis using delete_loop_stop by blast
  next
    assume O: "temp' = rb_root tree' \<and> (\<exists>q. zp tree' ((d, False, a, w2) # C) q t') \<and> ok (if True then h + 1 else h + 2) t'"
    then show ?thesis using balanced_root [OF _ _ C2 _ ad] delete_loop_stop [of temp' tree'] by auto
  qed
  then show ?thesis using step T(1) quiet_trans [OF R(3) T(2)] by simp
qed

text \<open>What holds whenever the loop begins a turn: one black node is missing above the subtree, or its root is red.\<close>

definition lacks :: "nat \<Rightarrow> way \<Rightarrow> rbt \<Rightarrow> bool" where
  "lacks h C t \<longleftrightarrow> cok (h + 1) C \<and> (if isred t then ok (h + 1) (blk t) else ok h t)"

lemma sibling_black:
  assumes z: "zp tree ((d, c, p, nd d False w1 a w2) # C) temp t" and H: "lacks h ((d, c, p, nd d False w1 a w2) # C) t" "\<not> isred t"
  defines "A \<equiv> set (ad t) \<union> set (cad ((d, c, p, nd d False w1 a w2) # C))"
  shows "\<exists>temp' tree' t'. del_step d temp tree = (temp', tree') \<and> quiet A tree tree'
    \<and> ad (plug C t') = ad (plug ((d, c, p, nd d False w1 a w2) # C) t) \<and> set (ad t') \<union> set (cad C) = A
    \<and> (zp tree' C temp' t' \<and> (\<exists>h'. lacks h' C t') \<or>
       rb_delete_loop temp' tree' = Some (temp', tree') \<and> balanced_at tree' temp' (ad (plug C t')))"
proof -
  have h: "ok h t" "ok h w1" "ok h w2" "c \<Longrightarrow> \<not> cred C" "cok (if c then h + 1 else h + 2) C"
    using H by (auto simp: lacks_def split: if_splits)
  have "ch (\<not> d) (rb_mem tree (parent_of tree temp)) = a" using sibling(1) [OF z] zp_reads(1) [OF z] by simp
  moreover have "del_red d temp a tree = (a, tree)" using zp_isred [OF sibling(2) [OF z]] by (simp add: del_red_def)
  ultimately have step: "del_step d temp tree = del_rest d temp a tree" unfolding del_step_rest by simp
  from delete_turn [OF z h(1-3), folded A_def] obtain temp' tree' t' where
    T: "del_rest d temp a tree = (temp', tree')" "quiet A tree tree'" "ad t' = ad (nd d c t p (nd d False w1 a w2))" "isred t' = c"
    and O: "(temp' = p \<and> zp tree' C p t' \<and> ok (h + 1) (blk t')) \<or>
      (temp' = rb_root tree' \<and> (\<exists>q. zp tree' C q t') \<and> ok (if c then h + 1 else h + 2) t')" by (elim exE conjE)
  have ad: "ad (plug C t') = ad (plug ((d, c, p, nd d False w1 a w2) # C) t)" using ad_plug_cong [OF T(3), of C] by simp
  moreover have "set (ad t') \<union> set (cad C) = A" unfolding T(3) by (simp add: A_def Un_ac)
  moreover have "zp tree' C temp' t' \<and> (\<exists>h'. lacks h' C t') \<or>
    rb_delete_loop temp' tree' = Some (temp', tree') \<and> balanced_at tree' temp' (ad (plug C t'))" using O
  proof
    assume O: "temp' = p \<and> zp tree' C p t' \<and> ok (h + 1) (blk t')"
    have "blk t' = t'" if "\<not> c" using T(4) that by (cases t') auto
    then have "lacks (if c then h else h + 1) C t'" using O h(5) T(4) by (auto simp: lacks_def)
    then show ?thesis using O by blast
  next
    assume O: "temp' = rb_root tree' \<and> (\<exists>q. zp tree' C q t') \<and> ok (if c then h + 1 else h + 2) t'"
    then have "balanced_at tree' temp' (ad (plug C t'))" using balanced_root [OF _ _ h(5) _ refl] T(4) h(4) by blast
    then show ?thesis using delete_loop_stop [of temp' tree'] O by auto
  qed
  ultimately show ?thesis using step T(1,2) by auto
qed

lemma delete_loop:
  assumes "zp tree C temp t" and "lacks h C t"
  shows "\<exists>temp' tree'. rb_delete_loop temp tree = Some (temp', tree') \<and> balanced_at tree' temp' (ad (plug C t))
    \<and> quiet (set (ad t) \<union> set (cad C)) tree tree'"
  using assms
proof (induction "length C" arbitrary: C temp t h tree rule: less_induct)
  case less
  note z = less.prems(1)
  consider "isred t" | "\<not> isred t" "C = []" | d c p w C1 where "\<not> isred t" "C = (d, c, p, w) # C1" by (cases C) auto
  then show ?case
  proof cases
    case 1
    then have "balanced_at tree temp (ad (plug C t))"
      unfolding balanced_at_def using less.prems by (intro exI [of _ C] exI [of _ t] exI [of _ "h + 1"]) (simp add: lacks_def)
    then show ?thesis using delete_loop_stop [of temp tree] zp_isred [OF z] 1 quiet_refl by auto
  next
    case 2
    then have "blk t = t" by (cases t) auto
    then have "balanced_at tree temp (ad (plug C t))"
      unfolding balanced_at_def using less.prems 2 by (intro exI [of _ C] exI [of _ t] exI [of _ h]) (simp add: lacks_def)
    then show ?thesis using delete_loop_stop [of temp tree] z 2 quiet_refl by (auto simp: zp_def)
  next
    case (3 d c p w C1)
    define A where "A = set (ad t) \<union> set (cad C)"
    have H: "ok h t" "ok (h + 1) w" "c \<Longrightarrow> \<not> isred w" "cok (if c then h + 1 else h + 2) C1"
      using less.prems(2) 3 by (auto simp: lacks_def split: if_splits)
    have "w \<noteq> Lf" using H(2) by auto
    then obtain k w1 a w2 where w: "w = nd d k w1 a w2" using nd_ex by blast
    have "rb_delete_step temp tree = del_step d temp tree"
      using zp_side [OF z [unfolded 3(2)], of True] \<open>w \<noteq> Lf\<close> zp_reads(1) [OF z [unfolded 3(2)]] unfolding rb_delete_step_side by simp
    then have unf: "rb_delete_loop temp tree = (case del_step d temp tree of (temp, tree) \<Rightarrow> rb_delete_loop temp tree)"
      using zp_not_root [OF z] zp_isred [OF z] 3 by (subst rb_delete_loop.simps) (simp add: ngx_rbt_is_black_def)
    show ?thesis
    proof (cases k)
      case False
      then have C: "C = (d, c, p, nd d False w1 a w2) # C1" using 3(2) w by simp
      from sibling_black [OF z [unfolded C] less.prems(2) [unfolded C] 3(1), folded C, folded A_def] obtain temp' tree' t' where
        T: "del_step d temp tree = (temp', tree')" "quiet A tree tree'" "ad (plug C1 t') = ad (plug C t)" "set (ad t') \<union> set (cad C1) = A"
        and O: "zp tree' C1 temp' t' \<and> (\<exists>h'. lacks h' C1 t') \<or>
          rb_delete_loop temp' tree' = Some (temp', tree') \<and> balanced_at tree' temp' (ad (plug C1 t'))" by (elim exE conjE)
      have "\<exists>temp'' tree''. rb_delete_loop temp' tree' = Some (temp'', tree'') \<and> balanced_at tree'' temp'' (ad (plug C1 t')) \<and> quiet A tree' tree''"
        using O less.hyps [of C1 tree' temp' t'] C quiet_refl T(4) by auto
      then show ?thesis using unf T quiet_trans [of A] unfolding A_def by auto
    next
      case True
      then have "\<not> c" using H(3) w by auto
      then have C: "C = (d, False, p, nd d True w1 a w2) # C1" and H': "ok (h + 1) w1" "ok (h + 1) w2" "\<not> isred w1" "cok (h + 2) C1"
        using H 3(2) w True by auto
      from sibling_red [OF z [unfolded C] H(1) H', folded C] show ?thesis using unf by auto
    qed
  qed
qed

section \<open>Taking a node out\<close>

lemma min_found:
  assumes "zp tree C p t" and "t \<noteq> Lf"
  shows "\<exists>b c z D. ngx_rbtree_min p tree = Some b \<and> zp tree (D @ C) b (nd True c Lf b z) \<and> plug D (nd True c Lf b z) = t
    \<and> (\<forall>(d, _)\<in>set D. d)"
  using assms
proof (induction "size t" arbitrary: C p t rule: less_induct)
  case less
  obtain c x y where t: "t = nd True c x p y" using nd_ex [OF less.prems(2), of True] less.prems(1) by (auto simp: zp_def)
  define q where "q = left_of tree p"
  have x: "shp (rb_mem tree) (rb_sentinel tree) q x" using less.prems(1) t by (simp add: zp_def q_def ch_def)
  have unf: "ngx_rbtree_min p tree = (if q \<noteq> rb_sentinel tree then ngx_rbtree_min q tree else Some p)"
    unfolding ngx_rbtree_min.simps [of p] q_def by (rule refl)
  show ?case
  proof (cases "x = Lf")
    case True
    then show ?thesis using unf x less.prems(1) t by (intro exI [of _ p] exI [of _ c] exI [of _ y] exI [of _ "[]"]) simp
  next
    case False
    have "zp tree ((True, c, p, y) # C) q x" using zp_down [of tree C p True c x y] less.prems(1) t False by (simp add: q_def ch_def)
    moreover have "size x < size t" unfolding t by (simp add: nd_def)
    ultimately obtain b c' z D where r: "ngx_rbtree_min q tree = Some b" "zp tree (D @ (True, c, p, y) # C) b (nd True c' Lf b z)"
      "plug D (nd True c' Lf b z) = x" "\<forall>(d, _)\<in>set D. d" using less.hyps False by blast
    have "plug (D @ [(True, c, p, y)]) (nd True c' Lf b z) = t" using r(3) t by (simp add: plug_append)
    moreover have "ngx_rbtree_min p tree = Some b" using unf x False shp_root [OF x] r(1) by simp
    moreover have "\<forall>(d, _)\<in>set (D @ [(True, c, p, y)]). d" using r(4) by auto
    ultimately show ?thesis using r(2) by (metis append.assoc append_Cons append_Nil)
  qed
qed

text \<open>A node with one child leaves its place to the child.\<close>

lemma detach:
  fixes P :: nat
  assumes z: "zp tree ((e, k, g, w) # C) n (nd d c Lf n x)"
  defines "q \<equiv> ch (\<not> d) (rb_mem tree n)"
  defines "m' \<equiv> rb_mem (set_parent q P (rb_at g (sc e q) tree))"
  shows "shp m' (rb_sentinel tree) q x" "ctxp m' (rb_sentinel tree) (rb_root tree) q ((e, k, g, w) # C)" "rb_parent (m' q) = P"
    "\<not> rb_red (m' (rb_sentinel tree))" "i \<noteq> q \<Longrightarrow> i \<noteq> g \<Longrightarrow> m' i = rb_mem tree i" "g \<noteq> q" "n \<noteq> q" "n \<noteq> g"
proof -
  define m where "m = rb_mem tree"
  define s where "s = rb_sentinel tree"
  note zd = z [unfolded zp_def, folded m_def s_def]
  have X: "shp m s q x" "ctxp m s (rb_root tree) n ((e, k, g, w) # C)" "\<not> rb_red (m s)" using zd by (simp_all add: q_def m_def)
  have D: "distinct (ad x)" "distinct (cad ((e, k, g, w) # C))" "g \<notin> set (ad x)" "set (ad x) \<inter> set (cad ((e, k, g, w) # C)) = {}" "n \<noteq> g" "g \<noteq> s"
    "n \<notin> set (ad x)" "n \<noteq> s" using zd by auto
  have qx: "x = Lf \<longleftrightarrow> q = s" "x \<noteq> Lf \<Longrightarrow> q \<in> set (ad x)" using shp_root [OF X(1)] by auto
  show gq: "g \<noteq> q" using qx D(3,6) by metis
  show "n \<noteq> q" using qx D(7,8) by metis
  show "n \<noteq> g" by (rule D(5))
  have M: "m' q = (m q)\<lparr>rb_parent := P\<rparr>" "m' g = sc e q (m g)" "\<And>i. i \<noteq> q \<Longrightarrow> i \<noteq> g \<Longrightarrow> m' i = m i"
    using gq by (simp_all add: m'_def m_def)
  have "shp m' s q x"
  proof (cases "x = Lf")
    case False
    show ?thesis by (rule shp_reparent [where v = P and m' = m', OF X(1) D(1) _ M(1)]) (use M(3) D(3) in metis)
  qed (use qx in simp)
  then show "shp m' (rb_sentinel tree) q x" by (simp add: s_def)
  have way: "q \<notin> set (cad ((e, k, g, w) # C))" using qx D(4) ctxp_sentinel [OF X(2)] by auto
  show "ctxp m' (rb_sentinel tree) (rb_root tree) q ((e, k, g, w) # C)" unfolding s_def [symmetric]
    by (rule ctxp_swap [where m' = m', OF X(2) D(2) _ M(2)]) (use M(3) way in metis)
  show "rb_parent (m' q) = P" using M(1) by simp
  show "\<not> rb_red (m' (rb_sentinel tree))" unfolding s_def [symmetric] using X(3) M D(6) by (cases "q = s") auto
  show "i \<noteq> q \<Longrightarrow> i \<noteq> g \<Longrightarrow> m' i = rb_mem tree i" using M(3) by (simp add: m_def)
qed

lemma zp_frame:
  assumes "zp tree C p t" and "\<And>i. i \<in> set (ad t) \<union> set (cad C) \<union> {rb_sentinel tree, p} \<Longrightarrow> rb_mem tree' i = rb_mem tree i"
    and "rb_root tree' = rb_root tree" and "rb_sentinel tree' = rb_sentinel tree"
  shows "zp tree' C p t"
  using assms(1) shp_frame [of t "rb_mem tree'" "rb_mem tree" "rb_sentinel tree" p] ctxp_frame [of C "rb_mem tree'" "rb_mem tree" "rb_sentinel tree" "rb_root tree" p] assms(2-4)
  unfolding zp_def by simp

text \<open>What a deletion leaves alone.\<close>

definition drops :: "nat set \<Rightarrow> nat \<Rightarrow> ngx_rbtree \<Rightarrow> ngx_rbtree \<Rightarrow> bool" where
  "drops A n tree tree' \<longleftrightarrow> (\<forall>i. i \<notin> A \<longrightarrow> rb_mem tree' i = rb_mem tree i) \<and> (\<forall>i. i \<noteq> n \<longrightarrow> key_of tree' i = key_of tree i)
     \<and> rb_sentinel tree' = rb_sentinel tree"

lemma drops_quiet: "drops A n x y \<Longrightarrow> quiet A y z \<Longrightarrow> drops A n x z"
  by (simp add: drops_def quiet_def)

lemma unlink_one:
  assumes z: "zp tree ((e, k, g, w) # C) n (nd d c Lf n x)"
  defines "q \<equiv> ch (\<not> d) (rb_mem tree n)"
  shows "zp (rb_unlink n n q tree) ((e, k, g, w) # C) q x"
    "drops (insert (rb_sentinel tree) (set (ad (nd d c Lf n x)) \<union> set (cad ((e, k, g, w) # C)))) n tree (rb_unlink n n q tree)"
proof -
  define t1 where "t1 = rb_at g (sc e q) tree"
  define t2 where "t2 = set_parent q g t1"
  have r: "parent_of tree n = g" using zp_reads(1) [OF z] .
  note E = detach(1-5) [OF z, where P = g, folded q_def, folded t1_def, folded t2_def] and F = detach(6-8) [OF z, folded q_def]
  have s1: "(if n = left_of tree g then set_left g q tree else set_right g q tree) = t1"
    using zp_side [OF z, of True] by (cases e) (simp_all add: t1_def ch_sides)
  have s2: "parent_of t1 n = g" using F(3) r by (simp add: t1_def)
  have u: "rb_unlink n n q tree = rb_clear n t2" unfolding rb_unlink_def Let_def r s1 s2 t2_def by simp
  have D: "distinct (ad x @ cad ((e, k, g, w) # C))" "n \<notin> set (ad x)" "n \<notin> set (cad ((e, k, g, w) # C))" "n \<noteq> rb_sentinel tree" using z by (auto simp: zp_def)
  have "zp t2 ((e, k, g, w) # C) q x" unfolding zp_def using E(1-4) D(1) by (simp add: t2_def t1_def)
  then show "zp (rb_unlink n n q tree) ((e, k, g, w) # C) q x"
    unfolding u by (rule zp_frame) (use D F(2) in \<open>auto simp: rb_clear_def t2_def t1_def\<close>)
  have "q \<in> insert (rb_sentinel tree) (set (ad x))" using shp_root [OF E(1)] by auto
  moreover have "\<And>i. i \<noteq> n \<Longrightarrow> rb_mem (rb_clear n t2) i = rb_mem t2 i" by (simp add: rb_clear_def)
  ultimately show "drops (insert (rb_sentinel tree) (set (ad (nd d c Lf n x)) \<union> set (cad ((e, k, g, w) # C)))) n tree (rb_unlink n n q tree)"
    unfolding drops_def u using E(5) by (auto simp: t2_def t1_def rb_clear_def)
qed

text \<open>The way up from a node to a place hi it.\<close>

fun seg :: "(nat \<Rightarrow> ngx_rbtree_node) \<Rightarrow> nat \<Rightarrow> nat \<Rightarrow> way \<Rightarrow> nat \<Rightarrow> nat \<Rightarrow> bool" where
  "seg m s p [] q hi = (p = q)"
| "seg m s p ((d, c, a, y) # D) q hi = (a \<noteq> s \<and> ch d (m a) = p \<and> rb_red (m a) = c \<and> shp m s (ch (\<not> d) (m a)) y
     \<and> (y \<noteq> Lf \<longrightarrow> rb_parent (m (ch (\<not> d) (m a))) = a) \<and> rb_parent (m a) = (if D = [] then hi else up D) \<and> seg m s a D q hi)"

lemma up_append: "up (D @ E) = (if D = [] then up E else up D)"
  by (cases D) auto

lemma cad_append [simp]: "cad (D @ E) = cad D @ cad E"
  by (induction D rule: cad.induct) auto

lemma ctxp_append: "E \<noteq> [] \<Longrightarrow> ctxp m s root p (D @ E) \<longleftrightarrow> (\<exists>q. seg m s p D q (up E) \<and> ctxp m s root q E)"
proof (induction D arbitrary: p)
  case (Cons f D)
  then show ?case by (cases f) (auto simp: up_append)
qed simp

lemma seg_last: "seg m s p D q hi \<Longrightarrow> D \<noteq> [] \<Longrightarrow> q \<in> set (cad D)"
proof (induction D arbitrary: p)
  case (Cons f D)
  then show ?case by (cases f; cases "D = []") auto
qed simp

lemma seg_reparent:
  assumes "seg m s p D q hi" and "D \<noteq> []" and "distinct (cad D)" and "\<And>i. i \<in> set (cad D) \<Longrightarrow> i \<noteq> q \<Longrightarrow> m' i = m i"
    and "m' q = (m q)\<lparr>rb_parent := v\<rparr>"
  shows "seg m' s p D q v"
  using assms
proof (induction D arbitrary: p)
  case (Cons f D)
  obtain d c a y where f: "f = (d, c, a, y)" by (cases f)
  note S = Cons.prems(1) [unfolded f]
  have qy: "q \<notin> set (ad y)" using seg_last [of m s a D q hi] S Cons.prems(3) f by (cases "D = []") auto
  have y: "shp m s (ch (\<not> d) (m a)) y" using S by simp
  have fy: "shp m' s (ch (\<not> d) (m a)) y" by (rule shp_frame [OF _ y]) (use Cons.prems(4) qy f in auto)
  have py: "y \<noteq> Lf \<Longrightarrow> m' (ch (\<not> d) (m a)) = m (ch (\<not> d) (m a))" using shp_root [OF y] Cons.prems(4) qy f by auto
  show ?case
  proof (cases "D = []")
    case True
    then have "q = a" using S by simp
    then show ?thesis using S fy py Cons.prems(5) True f by simp
  next
    case False
    then have "q \<in> set (cad D)" using seg_last [of m s a D q hi] S by simp
    then have "a \<noteq> q" using Cons.prems(3) f by auto
    then have "m' a = m a" using Cons.prems(4) f by simp
    moreover have "seg m' s a D q v" using Cons.IH [of a] S Cons.prems(3-5) f False by simp
    ultimately show ?thesis using S fy py False f by simp
  qed
qed simp

lemma replace_mem:
  assumes "b \<noteq> n" and "n = rb_root tree \<longleftrightarrow> C = []"
    and C: "C \<noteq> [] \<longrightarrow> C = (e, k, g, w) # C1 \<and> rb_parent (rb_mem tree n) = g \<and> (n = left_of tree g \<longleftrightarrow> e)"
    and l: "l = left_of tree n" and q: "q = right_of tree n"
    and ne: "l \<noteq> rb_sentinel tree" "l \<noteq> b" "q \<noteq> b" "l \<noteq> n" "q \<noteq> n" "l \<noteq> q" "C \<noteq> [] \<longrightarrow> g \<noteq> b \<and> g \<noteq> n \<and> g \<noteq> l \<and> g \<noteq> q"
  defines "m \<equiv> rb_mem tree" and "m' \<equiv> rb_mem (rb_replace n b tree)"
  shows "m' b = (m b)\<lparr>rb_left := l, rb_right := q, rb_parent := rb_parent (m n), rb_red := rb_red (m n)\<rparr>"
    "m' l = (m l)\<lparr>rb_parent := b\<rparr>" "q \<noteq> rb_sentinel tree \<Longrightarrow> m' q = (m q)\<lparr>rb_parent := b\<rparr>" "C \<noteq> [] \<Longrightarrow> m' g = sc e b (m g)"
    "i \<noteq> b \<Longrightarrow> i \<noteq> l \<Longrightarrow> i \<noteq> q \<or> q = rb_sentinel tree \<Longrightarrow> i \<noteq> g \<or> C = [] \<Longrightarrow> m' i = m i"
    "rb_root (rb_replace n b tree) = (if C = [] then b else rb_root tree)" "rb_sentinel (rb_replace n b tree) = rb_sentinel tree"
proof -
  define b1 where "b1 = (m b)\<lparr>rb_left := l, rb_right := q, rb_parent := rb_parent (m n), rb_red := rb_red (m n)\<rparr>"
  define t1 where "t1 = tree\<lparr>rb_mem := m(b := b1)\<rparr>"
  define t2 where "t2 = (if C = [] then t1\<lparr>rb_root := b\<rparr> else rb_at g (sc e b) t1)"
  define t3 where "t3 = set_parent l b t2"
  define t4 where "t4 = (if q \<noteq> rb_sentinel tree then set_parent q b t3 else t3)"
  have s: "rb_sentinel t1 = rb_sentinel tree" "rb_sentinel t2 = rb_sentinel tree" "rb_sentinel t3 = rb_sentinel tree" "rb_sentinel t4 = rb_sentinel tree"
    by (simp_all add: t1_def t2_def t3_def t4_def)
  have one: "ngx_rbt_copy_color b n (set_parent b (parent_of (set_right b (right_of (set_left b l tree) n) (set_left b l tree)) n)
      (set_right b (right_of (set_left b l tree) n) (set_left b l tree))) = t1"
    using assms(1) by (simp add: ngx_rbt_copy_color_def rb_at_def t1_def b1_def q m_def)
  have two: "(if n = rb_root t1 then t1\<lparr>rb_root := b\<rparr>
      else if n = left_of t1 (parent_of t1 n) then set_left (parent_of t1 n) b t1 else set_right (parent_of t1 n) b t1) = t2"
  proof (cases "C = []")
    case False
    then have "rb_parent (m n) = g" "n = left_of tree g \<longleftrightarrow> e" "g \<noteq> b" using C ne(7) by (auto simp: m_def)
    then have g: "parent_of t1 n = g" "n = left_of t1 g \<longleftrightarrow> e" using assms(1) by (auto simp: t1_def m_def)
    have r: "n = rb_root t1 \<longleftrightarrow> False" using assms(2) False by (simp add: t1_def)
    show ?thesis unfolding g r using False by (cases e) (simp_all add: t2_def ch_sides)
  qed (use assms(2) in \<open>simp add: t1_def t2_def\<close>)
  have kids: "left_of t2 b = l" "right_of t3 b = q" using ne C by (auto simp: t3_def t2_def t1_def b1_def)
  have R: "rb_replace n b tree = t4"
    unfolding rb_replace_def Let_def l [symmetric] one two kids(1) s t3_def [symmetric] using ne(1) kids(2) s(3) by (simp add: t3_def [symmetric] t4_def)
  have m4: "m' = rb_mem t4" by (simp add: m'_def R)
  show "m' b = (m b)\<lparr>rb_left := l, rb_right := q, rb_parent := rb_parent (m n), rb_red := rb_red (m n)\<rparr>"
    using ne unfolding m4 b1_def [symmetric] by (auto simp: t4_def t3_def t2_def t1_def)
  show "m' l = (m l)\<lparr>rb_parent := b\<rparr>" using ne unfolding m4 by (auto simp: t4_def t3_def t2_def t1_def)
  show "m' q = (m q)\<lparr>rb_parent := b\<rparr>" if "q \<noteq> rb_sentinel tree" using ne that unfolding m4 by (auto simp: t4_def t3_def t2_def t1_def)
  show "m' g = sc e b (m g)" if "C \<noteq> []" using ne that unfolding m4 by (auto simp: t4_def t3_def t2_def t1_def)
  show "m' i = m i" if "i \<noteq> b" "i \<noteq> l" "i \<noteq> q \<or> q = rb_sentinel tree" "i \<noteq> g \<or> C = []"
    using that unfolding m4 by (auto simp: t4_def t3_def t2_def t1_def)
  show "rb_root (rb_replace n b tree) = (if C = [] then b else rb_root tree)" "rb_sentinel (rb_replace n b tree) = rb_sentinel tree"
    unfolding R by (simp_all add: t4_def t3_def t2_def t1_def)
qed

lemma replace_zp:
  assumes X: "shp (rb_mem tree) (rb_sentinel tree) temp z" "ctxp (rb_mem tree) (rb_sentinel tree) (rb_root tree) temp (D @ (False, c, n, l) # C)"
    and dist: "distinct (ad z @ cad (D @ (False, c, n, l) # C))" and b: "b \<notin> set (ad z @ cad (D @ (False, c, n, l) # C))" "b \<noteq> rb_sentinel tree"
    and l: "l \<noteq> Lf" and par: "parent_of tree temp = (if D = [] then b else up D)" and black: "\<not> rb_red (rb_mem tree (rb_sentinel tree))"
  defines "tree' \<equiv> rb_replace n b tree"
  shows "zp tree' (D @ (False, c, b, l) # C) temp z"
    "quiet (insert b (set (ad z @ cad (D @ (False, c, n, l) # C)))) tree tree'"
proof -
  define m where "m = rb_mem tree"
  define s where "s = rb_sentinel tree"
  define m' where "m' = rb_mem tree'"
  note Xs = X [folded m_def s_def]
  obtain q where q: "seg m s temp D q n" "ctxp m s (rb_root tree) q ((False, c, n, l) # C)"
    using Xs(2) ctxp_append [of "(False, c, n, l) # C" m s "rb_root tree" temp D] by auto
  define l0 where "l0 = left_of tree n"
  have N: "n \<noteq> s" "right_of tree n = q" "rb_red (m n) = c" "shp m s l0 l" "rb_parent (m l0) = n" "C \<noteq> [] \<Longrightarrow> rb_parent (m n) = up C"
    "ctxp m s (rb_root tree) n C" using q(2) l by (simp_all add: l0_def m_def ch_sides)
  have l0: "l0 \<in> set (ad l)" "l0 \<noteq> s" using shp_root [OF N(4)] l by auto
  have qin: "(D = [] \<and> q = temp \<and> (if z = Lf then q = s else q \<in> set (ad z))) \<or> (D \<noteq> [] \<and> q \<in> set (cad D))"
    using q(1) seg_last [OF q(1)] shp_root [OF Xs(1)] by (cases "D = []") auto
  have ds: "n \<notin> set (ad l)" "n \<notin> set (cad C)" "n \<notin> set (ad z)" "n \<notin> set (cad D)" "set (ad l) \<inter> set (cad C) = {}" "set (ad l) \<inter> set (ad z) = {}"
    "set (ad l) \<inter> set (cad D) = {}" "set (cad D) \<inter> set (cad C) = {}" "set (ad z) \<inter> set (cad C) = {}" "set (ad z) \<inter> set (cad D) = {}"
    "distinct (ad l)" "distinct (cad C)" "distinct (ad z)" "distinct (cad D)" using dist by auto
  have db: "b \<noteq> n" "b \<notin> set (ad l)" "b \<notin> set (cad C)" "b \<notin> set (ad z)" "b \<notin> set (cad D)" "b \<noteq> s" using b by (auto simp: s_def)
  have ns: "s \<notin> set (ad l)" "s \<notin> set (cad C)" "s \<notin> set (ad z)" "s \<notin> set (cad D)"
    using shp_sentinel [OF Xs(1)] ctxp_sentinel [OF Xs(2)] by auto
  have ql: "q \<noteq> b" "q \<noteq> n" "l0 \<noteq> q" "q \<notin> set (cad C)" "q \<notin> set (ad l)" using qin ds db ns l0 N(1) by (auto split: if_splits)
  have root: "n = rb_root tree \<longleftrightarrow> C = []" using N(7) ctxp_root [OF N(7)] ds(2) by auto
  obtain e k g w C1 where C: "C \<noteq> [] \<Longrightarrow> C = (e, k, g, w) # C1" by (cases C) auto
  have g: "rb_parent (m n) = g" "n = left_of tree g \<longleftrightarrow> e" "g \<in> set (cad C)" if ne: "C \<noteq> []"
  proof -
    note C = C [OF ne]
    show "rb_parent (m n) = g" "g \<in> set (cad C)" using N(6) C by simp_all
    have "ch e (m g) = n" "shp m s (ch (\<not> e) (m g)) w" using N(7) C by simp_all
    moreover from this(2) have "ch (\<not> e) (m g) \<noteq> n" using shp_root [of m s "ch (\<not> e) (m g)" w] ds(2) C N(1) by auto
    ultimately show "n = left_of tree g \<longleftrightarrow> e" by (cases e) (auto simp: m_def ch_sides)
  qed
  have conds: "C \<noteq> [] \<longrightarrow> C = (e, k, g, w) # C1 \<and> rb_parent (rb_mem tree n) = g \<and> (n = left_of tree g) = e"
    "C \<noteq> [] \<longrightarrow> g \<noteq> b \<and> g \<noteq> n \<and> g \<noteq> l0 \<and> g \<noteq> q" using C g db(3) ds(2,5) l0 ql(4) by (auto simp: m_def)
  have l0': "l0 \<noteq> b" "l0 \<noteq> n" using l0 db(2) ds(1) by auto
  note M = replace_mem [OF db(1) root conds(1) l0_def N(2) [symmetric] l0(2) [unfolded s_def] l0'(1) ql(1) l0'(2) ql(2,3) conds(2),
      folded tree'_def, folded m_def m'_def s_def]
  have same: "m' i = m i" if "i \<noteq> b" "i \<noteq> l0" "i \<noteq> q \<or> q = s" "i \<notin> set (cad C) \<or> i \<noteq> g" for i
    by (rule M(5)) (use that g(3) in auto)
  have sz: "m' i = m i" if "i \<in> set (ad z)" "i \<noteq> q \<or> q = s" for i by (rule same) (use that db(4) ds(6,9) l0(1) in auto)
  have sD: "m' i = m i" if "i \<in> set (cad D)" "i \<noteq> q" for i by (rule same) (use that db(5) ds(7,8) l0(1) in auto)
  have sl: "m' i = m i" if "i \<in> set (ad l)" "i \<noteq> l0" for i by (rule same) (use that db(2) ds(5) ql(5) in auto)
  have sC: "m' i = m i" if "i \<in> set (cad C)" "i \<noteq> g" for i by (rule same) (use that db(3) ds(5) ql(4) l0(1) in auto)
  have z': "shp m' s temp z"
  proof (cases "D = [] \<and> z \<noteq> Lf")
    case True
    then have qz: "temp = q" "q \<noteq> s" using qin ns(3) by auto
    show ?thesis unfolding qz(1)
      by (rule shp_reparent [where m' = m', OF Xs(1) [unfolded qz(1)] ds(13) _ M(3) [OF qz(2)]])
        (use sz in simp)
  next
    case False
    have "q \<notin> set (ad z) \<or> q = s" using False qin ds(10) by auto
    then have "m' i = m i" if "i \<in> set (ad z)" for i using sz [OF that] that by metis
    then show ?thesis by (rule shp_frame [OF _ Xs(1)])
  qed
  have s': "m' s = m s" by (rule same) (use db(6) l0(2) ns(2) in auto)
  have par': "rb_parent (m' temp) = (if D = [] then b else up D)"
  proof (cases "temp = s \<or> D \<noteq> []")
    case True
    have "temp \<in> set (ad z) \<or> temp = s" using shp_root [OF Xs(1)] by auto
    then have "m' temp = m temp"
    proof
      assume t: "temp \<in> set (ad z)"
      then have "q \<noteq> temp" using True qin ds(10) ns(3) by auto
      then show ?thesis using sz [OF t] by simp
    qed (use s' in simp)
    then show ?thesis using par by (simp add: m_def)
  next
    case False
    then have "temp = q" "q \<noteq> s" using qin by auto
    then show ?thesis using M(3) False by simp
  qed
  have seg': "seg m' s temp D q b"
  proof (cases "D = []")
    case False
    then have qD: "q \<in> set (cad D)" "q \<noteq> s" using qin ns(4) by auto
    show ?thesis
      by (rule seg_reparent [where m' = m', OF q(1) False ds(14) _ M(3) [OF qD(2)]]) (use sD in simp)
  qed (use q(1) in simp)
  have lr: "shp m' s l0 l"
    by (rule shp_reparent [where m' = m', OF N(4) ds(11) _ M(2)]) (use sl in simp)
  have C': "ctxp m' s (rb_root tree') b C"
  proof (cases "C = []")
    case False
    note Ce = C [OF False]
    have "ctxp m' s (rb_root tree) b ((e, k, g, w) # C1)"
    proof (rule ctxp_swap [where m' = m', OF N(7) [unfolded Ce] ds(12) [unfolded Ce] _ M(4) [OF False]])
      show "m' i = m i" if "i \<in> set (cad ((e, k, g, w) # C1))" "i \<noteq> g" for i
        using sC [of i] that Ce by simp
    qed
    then show ?thesis using M(6) Ce by simp
  qed (use M(6) in simp)
  have B: "ch False (m' b) = q" "ch True (m' b) = l0" "rb_red (m' b) = c" "rb_parent (m' b) = rb_parent (m n)" using M(1) N(3) by (simp_all add: ch_sides)
  have "ctxp m' s (rb_root tree') q ((False, c, b, l) # C)" using B db(6) lr M(2) C' N(6) by simp
  then have W: "ctxp m' s (rb_root tree') temp (D @ (False, c, b, l) # C)"
    using seg' ctxp_append [of "(False, c, b, l) # C" m' s "rb_root tree'" temp D] by auto
  have "distinct (ad z @ cad (D @ (False, c, b, l) # C))" using dist b(1) by auto
  then show "zp tree' (D @ (False, c, b, l) # C) temp z"
    unfolding zp_def M(7) m'_def [symmetric] using z' par' W s' black by (simp add: m_def s_def up_append)
  have "key_of tree' i = key_of tree i" for i
  proof -
    consider "i = b" | "i = l0" | "i = q" "q \<noteq> s" | "C \<noteq> []" "i = g" | "i \<noteq> b" "i \<noteq> l0" "i \<noteq> q \<or> q = s" "i \<noteq> g \<or> C = []" by blast
    then show ?thesis unfolding m'_def [symmetric] m_def [symmetric]
    proof cases
      case 5
      then show "rb_key (m' i) = rb_key (m i)" using M(5) by simp
    qed (use M(1-4) in simp_all)
  qed
  moreover have "m' i = m i" if i: "i \<notin> insert b (set (ad z @ cad (D @ (False, c, n, l) # C)))" for i
  proof (rule M(5))
    show "i \<noteq> b" "i \<noteq> l0" using i l0(1) by auto
    show "i \<noteq> q \<or> q = s" using i qin by (auto split: if_splits)
    show "i \<noteq> g \<or> C = []" using i g(3) by auto
  qed
  ultimately show "quiet (insert b (set (ad z @ cad (D @ (False, c, n, l) # C)))) tree tree'"
    unfolding quiet_def M(7) by (simp add: m_def m'_def s_def)
qed

lemma unlink_two:
  assumes z: "zp tree (D @ (False, c, n, l) # C) b (nd True cb Lf b x)" and l: "l \<noteq> Lf"
  defines "q \<equiv> right_of tree b"
  shows "zp (rb_unlink n b q tree) (D @ (False, c, b, l) # C) q x"
    "drops (insert (rb_sentinel tree) (set (ad (nd True cb Lf b x)) \<union> set (cad (D @ (False, c, n, l) # C)))) n tree (rb_unlink n b q tree)"
proof -
  define W where "W = D @ (False, c, n, l) # C"
  obtain e k g w W1 where W: "W = (e, k, g, w) # W1" unfolding W_def by (cases D) auto
  note zW = z [folded W_def, unfolded W]
  define P where "P = (if D = [] then b else up D)"
  define t1 where "t1 = rb_at g (sc e q) tree"
  define t2 where "t2 = set_parent q P t1"
  have q: "q = ch (\<not> True) (rb_mem tree b)" by (simp add: q_def ch_sides)
  note E = detach(1-5) [OF zW, where P = P, folded q, folded t1_def, folded t2_def] and F = detach(6-8) [OF zW, folded q]
  have r: "parent_of tree b = g" using zp_reads(1) [OF zW] .
  have dist: "distinct (ad x @ cad W)" "b \<notin> set (ad x @ cad W)" "b \<noteq> rb_sentinel tree" "n \<in> set (cad W)" "n \<notin> set (ad x)"
    "n \<notin> set (cad D)" "n \<notin> set (ad l)" "n \<notin> set (cad C)" using z by (auto simp: zp_def W_def)
  have gn: "g = n \<longleftrightarrow> D = []" "D \<noteq> [] \<Longrightarrow> up D = g" using W dist(6) unfolding W_def by (cases D; force)+
  have s1: "(if b = left_of tree g then set_left g q tree else set_right g q tree) = t1"
    using zp_side [OF zW, of True] by (cases e) (simp_all add: t1_def ch_sides)
  have s2: "parent_of t1 b = g" using F(3) r by (simp add: t1_def)
  have s3: "(if g = n then set_parent q b t1 else set_parent q g t1) = t2" using gn by (simp add: t2_def P_def)
  have bn: "b \<noteq> n" using dist by auto
  have u: "rb_unlink n b q tree = rb_clear n (rb_replace n b t2)" unfolding rb_unlink_def Let_def r s1 s2 s3 using bn by simp
  have sel: "rb_sentinel t2 = rb_sentinel tree" "rb_root t2 = rb_root tree" by (simp_all add: t2_def t1_def)
  have R: "zp (rb_replace n b t2) (D @ (False, c, b, l) # C) q x" "quiet (insert b (set (ad x @ cad W))) t2 (rb_replace n b t2)"
    unfolding W_def by (rule replace_zp; use E dist l in \<open>simp_all add: sel W [symmetric] W_def [symmetric] P_def\<close>)+
  have qn: "q \<noteq> n" using shp_root [OF E(1)] dist(4,5) zp_sentinel [OF zW] W by auto
  have ns: "n \<noteq> rb_sentinel tree" using zp_sentinel [OF zW] dist(4) W by auto
  have sr: "rb_sentinel (rb_replace n b t2) = rb_sentinel tree" using R(2) sel by (simp add: quiet_def)
  show "zp (rb_unlink n b q tree) (D @ (False, c, b, l) # C) q x"
    unfolding u by (rule zp_frame [OF R(1)]) (use dist bn qn ns sr in \<open>auto simp: rb_clear_def\<close>)
  have "q \<in> insert (rb_sentinel tree) (set (ad x))" using shp_root [OF E(1)] by auto
  moreover have "g \<in> set (cad W)" using W by simp
  ultimately show "drops (insert (rb_sentinel tree) (set (ad (nd True cb Lf b x)) \<union> set (cad (D @ (False, c, n, l) # C)))) n tree (rb_unlink n b q tree)"
    unfolding drops_def u W_def [symmetric] using E(5) R(2) dist(4) sr
    by (auto simp: quiet_def rb_clear_def t2_def t1_def)
qed

lemma plug_black: "cok n C \<Longrightarrow> C \<noteq> [] \<Longrightarrow> \<not> isred (plug C t)"
proof (induction C t arbitrary: n rule: plug.induct)
  case (2 d c a y C t)
  then show ?case by (cases "C = []") auto
qed simp

lemma delete_finish:
  assumes z: "zp tree C temp x" and C: "C \<noteq> []" "cok k C" "ok k (nd d c Lf a x)"
  defines "A \<equiv> set (ad x) \<union> set (cad C)"
  shows "\<exists>tree' t'. (if c then Some tree else map_option (\<lambda>(temp, tree). ngx_rbt_black temp tree) (rb_delete_loop temp tree)) = Some tree'
    \<and> rb_tree tree' t' \<and> ad t' = ad (plug C x) \<and> quiet A tree tree'"
proof (cases c)
  case True
  then have "ok k x" "\<not> isred x" using C(3) by auto
  then have "rb_tree tree (plug C x)" using zp_plug [OF z] ok_plug [OF _ C(2)] plug_black [OF C(2,1)] by (auto simp: rb_tree_def)
  then show ?thesis using True quiet_refl by auto
next
  case False
  then have k: "k = 1" "ok 0 x" using C(3) by auto
  have "lacks 0 C x" using C(2) k ok_blk [of 0 x] by (simp add: lacks_def)
  from delete_loop [OF z this] obtain temp' tree1 where L: "rb_delete_loop temp tree = Some (temp', tree1)"
    "balanced_at tree1 temp' (ad (plug C x))" "quiet A tree tree1" unfolding A_def by blast
  from L(2) obtain C' t h where B: "zp tree1 C' temp' t" "ok h (blk t)" "cok h C'" "ad (plug C' t) = ad (plug C x)" unfolding balanced_at_def by blast
  define tree' where "tree' = ngx_rbt_black temp' tree1"
  have z': "zp tree' C' temp' (blk t)" unfolding tree'_def by (rule zp_paint [OF B(1)])
  have "\<not> isred (plug C' (blk t))" using plug_black [OF B(3)] by (cases "C' = []") auto
  then have "rb_tree tree' (plug C' (blk t))" using zp_plug [OF z'] ok_plug [OF B(2,3)] by (auto simp: rb_tree_def)
  moreover have "ad (plug C' (blk t)) = ad (plug C x)" using ad_plug_cong [of "blk t" t C'] B(4) by simp
  moreover have "quiet A tree1 tree'"
  proof (cases "t = Lf")
    case True
    then have "tree' = tree1" using black_sentinel [OF B(1)] B(1) by (simp add: zp_def tree'_def)
    then show ?thesis using quiet_refl by simp
  next
    case ne: False
    then have "temp' \<in> set (ad t)" using B(1) shp_root [of "rb_mem tree1" "rb_sentinel tree1" temp' t] by (simp add: zp_def)
    then have "temp' \<in> A" using B(4) set_ad_plug [of C' t] set_ad_plug [of C x] by (auto simp: A_def)
    then show ?thesis unfolding tree'_def by (rule quiet_black)
  qed
  ultimately show ?thesis using L(1) quiet_trans [OF L(3)] False by (auto simp: tree'_def)
qed

lemma zp_find:
  assumes "zp tree C p t" and "n \<in> set (ad t)"
  shows "\<exists>D c l r. zp tree (D @ C) n (Nd c l n r) \<and> plug D (Nd c l n r) = t"
  using assms
proof (induction "size t" arbitrary: C p t rule: less_induct)
  case less
  obtain c l r where t: "t = Nd c l p r" using zp_point [OF less.prems(1)] less.prems(2) by fastforce
  have sub: ?case if x: "n \<in> set (ad x)" "t = nd d c x p y" for d x y
  proof -
    have "x \<noteq> Lf" using x(1) by auto
    then have "zp tree ((d, c, p, y) # C) (ch d (rb_mem tree p)) x" using zp_down [of tree C p d c x y] less.prems(1) x(2) by simp
    moreover have "size x < size t" using x(2) by (simp add: nd_def)
    ultimately obtain D k l' r' where r: "zp tree (D @ (d, c, p, y) # C) n (Nd k l' n r')" "plug D (Nd k l' n r') = x"
      using less.hyps x(1) by blast
    then have "zp tree ((D @ [(d, c, p, y)]) @ C) n (Nd k l' n r')" "plug (D @ [(d, c, p, y)]) (Nd k l' n r') = t"
      using x(2) by (simp_all add: plug_append)
    then show ?thesis by blast
  qed
  consider "n = p" | "n \<in> set (ad l)" | "n \<in> set (ad r)" using less.prems(2) t by auto
  then show ?case
  proof cases
    case 1
    then show ?thesis using less.prems(1) t by (intro exI [of _ "[]"]) auto
  next
    case 2
    then show ?thesis using sub [of l True r] t by (simp add: nd_def)
  next
    case 3
    then show ?thesis using sub [of r False l] t by (simp add: nd_def)
  qed
qed

lemma set_pre_post: "set (pre C) \<union> set (post C) = set (cad C)"
  by (induction C rule: pre.induct) auto

lemma remove_plug:
  assumes "distinct (ad (plug C t))" and "ad t = xs @ n # ys" and "ad t' = xs @ ys"
  shows "ad (plug C t') = remove1 n (ad (plug C t))"
proof -
  have "n \<notin> set (pre C @ xs)" using assms(1,2) by (auto simp: ad_plug)
  then show ?thesis using assms(2,3) by (simp add: ad_plug remove1_append)
qed

lemma cok_rename: "cok k (D @ (d, c, a, y) # C) \<longleftrightarrow> cok k (D @ (d, c, b, y) # C)" "cred (D @ (d, c, a, y) # C) \<longleftrightarrow> cred (D @ (d, c, b, y) # C)"
proof -
  show cr: "cred (D @ (d, c, a, y) # C) \<longleftrightarrow> cred (D @ (d, c, b, y) # C)" for D by (cases D) auto
  show "cok k (D @ (d, c, a, y) # C) \<longleftrightarrow> cok k (D @ (d, c, b, y) # C)"
  proof (induction D arbitrary: k)
    case (Cons f D)
    then show ?case using cr [of D] by (cases f) auto
  qed simp
qed

lemma pre_left: "\<forall>(d, _)\<in>set D. d \<Longrightarrow> pre D = []"
  by (induction D rule: pre.induct) auto

text \<open>Deleting a node with at most one child.\<close>

lemma delete_one:
  assumes t: "rb_tree tree t" and z: "zp tree C n (nd d c Lf n x)" and p: "plug C (nd d c Lf n x) = t"
    and s: "rb_subst n tree = Some (n, ch (\<not> d) (rb_mem tree n))"
  shows "\<exists>tree' t'. ngx_rbtree_delete n tree = Some tree' \<and> rb_tree tree' t' \<and> ad t' = remove1 n (ad t)
    \<and> drops (insert (rb_sentinel tree) (set (ad t))) n tree tree'"
proof -
  define q where "q = ch (\<not> d) (rb_mem tree n)"
  define A where "A = insert (rb_sentinel tree) (set (ad t))"
  have dist: "distinct (ad t)" using t by (simp add: rb_tree_def zp_def)
  obtain ys zs where "ad (nd d c Lf n x) = ys @ n # zs" "ad x = ys @ zs" by (cases d) (auto simp: nd_def)
  then have rem: "ad (plug C x) = remove1 n (ad t)" using remove_plug [of C] dist p by blast
  obtain k where K: "ok k (nd d c Lf n x)" "cok k C" "C = [] \<longrightarrow> \<not> c"
    using plug_ok [of _ C "nd d c Lf n x"] t p by (auto simp: rb_tree_def)
  have nodes: "set (ad t) = insert n (set (ad x) \<union> set (cad C))" using set_ad_plug [of C "nd d c Lf n x"] p by auto
  show ?thesis
  proof (cases "C = []")
    case True
    define tree1 where "tree1 = tree\<lparr>rb_root := q\<rparr>"
    define tree2 where "tree2 = ngx_rbt_black q tree1"
    have x: "shp (rb_mem tree) (rb_sentinel tree) q x" "distinct (ad x)" "n \<notin> set (ad x)" "n \<noteq> rb_sentinel tree" "\<not> rb_red (rb_mem tree (rb_sentinel tree))"
      using z by (auto simp: zp_def q_def)
    have qn: "q \<noteq> n" "q \<in> A" using shp_root [OF x(1)] x(3,4) nodes by (auto simp: A_def)
    have "zp tree1 [] q x" using x by (simp add: zp_def tree1_def)
    then have z2: "zp tree2 [] q (blk x)" unfolding tree2_def by (rule zp_paint)
    have "zp (rb_clear n tree2) [] q (blk x)"
      by (rule zp_frame [OF z2]) (use x qn in \<open>auto simp: rb_clear_def tree2_def tree1_def\<close>)
    moreover have "rb_root (rb_clear n tree2) = q" by (simp add: rb_clear_def tree2_def tree1_def)
    ultimately have "rb_tree (rb_clear n tree2) (blk x)" using K(1,3) True ok_blk_ex [of "k - 1" x] by (auto simp: rb_tree_def)
    moreover have "n = rb_root tree" using z True by (simp add: zp_def)
    moreover from this have "ngx_rbtree_delete n tree = Some (rb_clear n tree2)" using s by (simp add: ngx_rbtree_delete_def q_def tree2_def tree1_def)
    moreover have "drops A n tree (rb_clear n tree2)"
      using qn nodes by (auto simp: drops_def rb_clear_def tree2_def tree1_def ngx_rbt_black_def A_def)
    ultimately show ?thesis using rem True by (auto simp: A_def)
  next
    case False
    then obtain e k' g w C1 where C: "C = (e, k', g, w) # C1" by (cases C) auto
    have U: "zp (rb_unlink n n q tree) C q x" "drops A n tree (rb_unlink n n q tree)"
      using unlink_one [OF z [unfolded C]] nodes C by (simp_all add: q_def A_def insert_commute)
    from delete_finish [OF U(1) False K(2,1)] obtain tree' t' where
      F: "(if c then Some (rb_unlink n n q tree) else map_option (\<lambda>(temp, tree). ngx_rbt_black temp tree) (rb_delete_loop q (rb_unlink n n q tree))) = Some tree'"
      "rb_tree tree' t'" "ad t' = ad (plug C x)" "quiet (set (ad x) \<union> set (cad C)) (rb_unlink n n q tree) tree'" by blast
    have "n \<noteq> rb_root tree" using zp_not_root [OF z False] .
    moreover have "ngx_rbt_is_red tree n = c" using zp_isred [OF z] by simp
    ultimately have "ngx_rbtree_delete n tree = Some tree'" using F(1) s [folded q_def] by (simp add: ngx_rbtree_delete_def Let_def)
    moreover have "drops A n tree tree'" using drops_quiet [OF U(2) quiet_mono [OF _ F(4)]] nodes by (auto simp: A_def)
    ultimately show ?thesis using F(2,3) rem by (auto simp: A_def)
  qed
qed

text \<open>Deleting a node with two children.\<close>

lemma delete_two:
  assumes t: "rb_tree tree t" and z: "zp tree C n (Nd c l n r)" and p: "plug C (Nd c l n r) = t" and lr: "l \<noteq> Lf" "r \<noteq> Lf"
  shows "\<exists>tree' t'. ngx_rbtree_delete n tree = Some tree' \<and> rb_tree tree' t' \<and> ad t' = remove1 n (ad t)
    \<and> drops (insert (rb_sentinel tree) (set (ad t))) n tree tree'"
proof -
  define A where "A = insert (rb_sentinel tree) (set (ad t))"
  have dist: "distinct (ad t)" using t by (simp add: rb_tree_def zp_def)
  have "zp tree C n (nd False c r n l)" using z by (simp add: nd_def)
  then have "zp tree ((False, c, n, l) # C) (right_of tree n) r" using zp_down [of tree C n False c r l] lr by (simp add: ch_sides)
  from min_found [OF this lr(2)] obtain b cb x D where M: "ngx_rbtree_min (right_of tree n) tree = Some b"
    "zp tree (D @ (False, c, n, l) # C) b (nd True cb Lf b x)" "plug D (nd True cb Lf b x) = r" "\<forall>(d, _)\<in>set D. d" by blast
  define q where "q = right_of tree b"
  define W where "W = D @ (False, c, b, l) # C"
  have kids: "left_of tree n \<noteq> rb_sentinel tree" "right_of tree n \<noteq> rb_sentinel tree" "left_of tree b = rb_sentinel tree"
    using z M(2) lr shp_root [of "rb_mem tree" "rb_sentinel tree" "left_of tree n" l] shp_root [of "rb_mem tree" "rb_sentinel tree" "right_of tree n" r]
    by (simp_all add: zp_def ch_sides)
  have s: "rb_subst n tree = Some (b, q)" using kids M(1) by (simp add: rb_subst_def q_def)
  have pl: "plug (D @ (False, c, n, l) # C) (nd True cb Lf b x) = t" using M(3) p by (simp add: plug_append nd_def)
  obtain k where K: "ok k (nd True cb Lf b x)" "cok k W" using plug_ok [of _ "D @ (False, c, n, l) # C" "nd True cb Lf b x"] t pl
    unfolding W_def cok_rename(1) [of k D False c b l C n] by (auto simp: rb_tree_def cok_rename(1) [of _ D False c b l C n])
  have nodes: "set (ad t) = insert b (set (ad x) \<union> set (cad (D @ (False, c, n, l) # C)))"
    using set_ad_plug [of "D @ (False, c, n, l) # C" "nd True cb Lf b x"] pl by auto
  have U: "zp (rb_unlink n b q tree) W q x" "drops A n tree (rb_unlink n b q tree)"
    using unlink_two [OF M(2) lr(1)] nodes unfolding W_def q_def A_def by (simp_all add: insert_commute)
  have rem: "ad (plug W x) = remove1 n (ad t)"
  proof -
    have pD: "ad (plug D u) = ad u @ post D" for u using ad_plug [of D u] pre_left [OF M(4)] by simp
    have "ad (Nd c l n r) = ad l @ n # b # ad x @ post D" using pD [of "nd True cb Lf b x"] M(3) by (simp add: nd_def)
    moreover have "ad (Nd c l b (plug D x)) = ad l @ b # ad x @ post D" using pD by simp
    moreover have "plug W x = plug C (Nd c l b (plug D x))" by (simp add: W_def plug_append nd_def)
    ultimately show ?thesis using remove_plug [of C "Nd c l n r" "ad l" n] dist p by simp
  qed
  from delete_finish [OF U(1) _ K(2,1)] obtain tree' t' where
    F: "(if cb then Some (rb_unlink n b q tree) else map_option (\<lambda>(temp, tree). ngx_rbt_black temp tree) (rb_delete_loop q (rb_unlink n b q tree))) = Some tree'"
    "rb_tree tree' t'" "ad t' = ad (plug W x)" "quiet (set (ad x) \<union> set (cad W)) (rb_unlink n b q tree) tree'" unfolding W_def by blast
  have "b \<noteq> rb_root tree" using zp_not_root [OF M(2)] by simp
  moreover have "ngx_rbt_is_red tree b = cb" using zp_isred [OF M(2)] by simp
  ultimately have "ngx_rbtree_delete n tree = Some tree'" using F(1) s by (simp add: ngx_rbtree_delete_def Let_def)
  moreover have "set (ad x) \<union> set (cad W) \<subseteq> A" using nodes by (auto simp: A_def W_def)
  then have "drops A n tree tree'" using drops_quiet [OF U(2) quiet_mono [OF _ F(4)]] by blast
  ultimately show ?thesis using F(2,3) rem by (auto simp: A_def)
qed

lemma delete_tree:
  assumes t: "rb_tree tree t" and n: "n \<in> set (ad t)"
  shows "\<exists>tree' t'. ngx_rbtree_delete n tree = Some tree' \<and> rb_tree tree' t' \<and> ad t' = remove1 n (ad t)
    \<and> drops (insert (rb_sentinel tree) (set (ad t))) n tree tree'"
proof -
  have "zp tree [] (rb_root tree) t" using t by (simp add: rb_tree_def)
  from zp_find [OF this n] obtain C c l r where z: "zp tree C n (Nd c l n r)" "plug C (Nd c l n r) = t" by auto
  have kids: "left_of tree n = rb_sentinel tree \<longleftrightarrow> l = Lf" "right_of tree n = rb_sentinel tree \<longleftrightarrow> r = Lf"
    using z(1) shp_root [of "rb_mem tree" "rb_sentinel tree" "left_of tree n" l] shp_root [of "rb_mem tree" "rb_sentinel tree" "right_of tree n" r]
    by (auto simp: zp_def)
  consider "l = Lf" | "l \<noteq> Lf" "r = Lf" | "l \<noteq> Lf" "r \<noteq> Lf" by blast
  then show ?thesis
  proof cases
    case 1
    then show ?thesis using delete_one [OF t, of C n True c r] z kids by (simp add: nd_def rb_subst_def ch_sides)
  next
    case 2
    then show ?thesis using delete_one [OF t, of C n False c l] z kids by (simp add: nd_def rb_subst_def ch_sides)
  next
    case 3
    then show ?thesis by (rule delete_two [OF t z])
  qed
qed

end
