(* ===== verification/Ngx_Rbtree_Order.thy ===== *)
theory Ngx_Rbtree_Order
  imports Ngx_Rbtree_Delete
begin

unbundle bit_operations_syntax

text \<open>
Walks through a red-black tree, its depth, the trees that sequences of operations make, and the properties
of the component.
\<close>

section \<open>Search and balance\<close>

lemma min_tree:
  assumes "zp tree C p t" and "t \<noteq> Lf"
  shows "ngx_rbtree_min p tree = Some (hd (ad t))"
proof -
  from min_found [OF assms] obtain b c z D where M: "ngx_rbtree_min p tree = Some b" "plug D (nd True c Lf b z) = t" "\<forall>(d, _)\<in>set D. d" by blast
  have "ad t = b # ad z @ post D" using ad_plug [of D "nd True c Lf b z"] pre_left [OF M(3)] M(2) by (simp add: nd_def)
  then show ?thesis using M(1) by simp
qed

text \<open>The node that follows, or the null pointer.\<close>

definition first_or_null :: "nat list \<Rightarrow> nat" where
  "first_or_null xs = (case xs of [] \<Rightarrow> 0 | a # _ \<Rightarrow> a)"

lemma next_up:
  assumes "zp tree C n t" and "t \<noteq> Lf"
  shows "rb_next_up n tree = Some (first_or_null (post C))"
  using assms
proof (induction C arbitrary: n t)
  case Nil
  then show ?case by (subst rb_next_up.simps) (simp add: zp_def first_or_null_def)
next
  case (Cons f C)
  obtain d c a y where f: "f = (d, c, a, y)" by (cases f)
  note z = Cons.prems(1) [unfolded f]
  have r: "parent_of tree n = a" "n \<noteq> rb_root tree" "n = left_of tree a \<longleftrightarrow> d"
    using zp_reads(1) [OF z] zp_not_root [OF z] zp_side [OF z, of True] Cons.prems(2) by (auto simp: ch_sides)
  have "rb_next_up a tree = Some (first_or_null (post C))" using Cons.IH [OF zp_up [OF z]] by simp
  then show ?case using r f by (subst rb_next_up.simps) (simp add: Let_def first_or_null_def)
qed

lemma next_tree:
  assumes "rb_tree tree t" and "ad t = xs @ n # ys"
  shows "ngx_rbtree_next n tree = Some (first_or_null ys)"
proof -
  have t: "zp tree [] (rb_root tree) t" "distinct (ad t)" using assms(1) by (simp_all add: rb_tree_def zp_def)
  from zp_find [OF t(1), of n] assms(2) obtain C c l r where z: "zp tree C n (Nd c l n r)" "plug C (Nd c l n r) = t" by auto
  have eq: "(pre C @ ad l) @ n # ad r @ post C = xs @ n # ys" using ad_plug [of C "Nd c l n r"] z(2) assms(2) by simp
  have "n \<notin> set (pre C @ ad l)" "n \<notin> set (ad r @ post C)" using t(2) unfolding assms(2) eq [symmetric] by auto
  then have ys: "ys = ad r @ post C" using eq append_Cons_eq_iff [of n "pre C @ ad l" "ad r @ post C" xs ys] by auto
  have s: "right_of tree n = rb_sentinel tree \<longleftrightarrow> r = Lf"
    using z(1) shp_root [of "rb_mem tree" "rb_sentinel tree" "right_of tree n" r] by (auto simp: zp_def)
  show ?thesis
  proof (cases "r = Lf")
    case True
    then show ?thesis using s next_up [OF z(1)] ys by (simp add: ngx_rbtree_next_def)
  next
    case False
    have "zp tree C n (nd False c r n l)" using z(1) by (simp add: nd_def)
    then have "zp tree ((False, c, n, l) # C) (right_of tree n) r" using zp_down [of tree C n False c r l] False by (simp add: ch_sides)
    then have "ngx_rbtree_min (right_of tree n) tree = Some (hd (ad r))" using min_tree False by blast
    then show ?thesis using s False ys by (cases "ad r"; cases r) (auto simp: ngx_rbtree_next_def first_or_null_def)
  qed
qed

fun depth :: "rbt \<Rightarrow> nat" where
  "depth Lf = 0"
| "depth (Nd c l a r) = Suc (max (depth l) (depth r))"

lemma ok_depth: "ok k t \<Longrightarrow> depth t \<le> 2 * k + (if isred t then 1 else 0)"
proof (induction t arbitrary: k)
  case (Nd c l a r)
  show ?case
  proof (cases c)
    case True
    then show ?thesis using Nd.IH [of k] Nd.prems by simp
  next
    case False
    then have k: "0 < k" "ok (k - 1) l" "ok (k - 1) r" using Nd.prems by auto
    have "depth l \<le> 2 * (k - 1) + 1" "depth r \<le> 2 * (k - 1) + 1" using Nd.IH(1) [OF k(2)] Nd.IH(2) [OF k(3)] by (auto split: if_splits)
    then show ?thesis using k(1) False by simp
  qed
qed simp

lemma ok_length: "ok k t \<Longrightarrow> 2 ^ k \<le> length (ad t) + 1"
proof (induction t arbitrary: k)
  case (Nd c l a r)
  show ?case
  proof (cases c)
    case True
    then show ?thesis using Nd.IH(1) [of k] Nd.prems by simp
  next
    case False
    then have "0 < k" "ok (k - 1) l" "ok (k - 1) r" using Nd.prems by auto
    then show ?thesis using Nd.IH(1) [of "k - 1"] Nd.IH(2) [of "k - 1"] by (cases k) simp_all
  qed
qed simp

lemma depth_bound:
  assumes "rb_tree tree t"
  shows "2 ^ depth t \<le> (length (ad t) + 1) ^ 2"
proof -
  obtain k where k: "ok k t" "\<not> isred t" using assms by (auto simp: rb_tree_def)
  have "(2 :: nat) ^ depth t \<le> 2 ^ (2 * k)" using ok_depth [OF k(1)] k(2) by (intro power_increasing) auto
  also have "\<dots> = (2 ^ k) ^ 2" by (simp add: power_mult power2_eq_square power_mult_distrib [symmetric])
  also have "\<dots> \<le> (length (ad t) + 1) ^ 2" using ok_length [OF k(1)] by (rule power_mono) simp
  finally show ?thesis .
qed

section \<open>Histories\<close>

lemma init_tree: "rb_tree (ngx_rbtree_init s m) Lf"
  by (simp add: rb_tree_def zp_def ngx_rbtree_init_def ngx_rbt_black_def)

lemma set_key_tree:
  assumes "rb_tree tree t" and "n \<notin> set (ad t)" and "n \<noteq> rb_sentinel tree"
  shows "rb_tree (rb_at n (\<lambda>x. x\<lparr>rb_key := k\<rparr>) tree) t"
proof -
  have z: "zp tree [] (rb_root tree) t" using assms(1) by (simp add: rb_tree_def)
  then have "rb_root tree \<in> insert (rb_sentinel tree) (set (ad t))" using shp_root [of "rb_mem tree" "rb_sentinel tree" "rb_root tree" t] by (auto simp: zp_def)
  then have "zp (rb_at n (\<lambda>x. x\<lparr>rb_key := k\<rparr>) tree) [] (rb_root tree) t" by (intro zp_frame [OF z]) (use assms(2,3) in auto)
  then show ?thesis using assms(1) by (simp add: rb_tree_def)
qed

text \<open>The trees that insertions and deletions make, with their nodes in order. A key is set before its node is inserted.\<close>

inductive rb_history :: "(64 word \<Rightarrow> 64 word \<Rightarrow> bool) \<Rightarrow> (nat \<Rightarrow> nat \<Rightarrow> ngx_rbtree \<Rightarrow> ngx_rbtree option) \<Rightarrow> 64 word set \<Rightarrow> ngx_rbtree \<Rightarrow> nat list \<Rightarrow> bool"
  for lt ins K where
  history_init: "rb_history lt ins K (ngx_rbtree_init s m) []"
| history_insert: "rb_history lt ins K tree xs \<Longrightarrow> n \<notin> set xs \<Longrightarrow> n \<noteq> rb_sentinel tree \<Longrightarrow> k \<in> K \<Longrightarrow>
    ngx_rbtree_insert ins n (rb_at n (\<lambda>x. x\<lparr>rb_key := k\<rparr>) tree) = Some tree' \<Longrightarrow> rb_history lt ins K tree' (rb_put lt (key_of tree') n xs)"
| history_delete: "rb_history lt ins K tree xs \<Longrightarrow> n \<in> set xs \<Longrightarrow> ngx_rbtree_delete n tree = Some tree' \<Longrightarrow>
    rb_history lt ins K tree' (remove1 n xs)"

lemma rb_sorted_cong: "(\<And>a. a \<in> set xs \<Longrightarrow> ky a = ky' a) \<Longrightarrow> rb_sorted lt ky xs \<longleftrightarrow> rb_sorted lt ky' xs"
  unfolding rb_sorted_def by (induction xs) auto

lemma rb_sorted_remove1: "rb_sorted lt ky xs \<Longrightarrow> rb_sorted lt ky (remove1 n xs)"
  unfolding rb_sorted_def
proof (induction xs)
  case (Cons x xs)
  then show ?case using set_remove1_subset [of n xs] by auto
qed simp

lemma rb_put_cong: "(\<And>a. a \<in> insert n (set xs) \<Longrightarrow> ky a = ky' a) \<Longrightarrow> rb_put lt ky n xs = rb_put lt ky' n xs"
  unfolding rb_put_def by (intro arg_cong2 [where f = append] arg_cong [where f = "Cons n"] takeWhile_cong dropWhile_cong) auto

context rb_order
begin

lemma delete_sorted:
  assumes "rb_tree tree t" and "n \<in> set (ad t)" and "rb_sorted lt (key_of tree) (ad t)"
  shows "\<exists>tree' t'. ngx_rbtree_delete n tree = Some tree' \<and> rb_tree tree' t' \<and> ad t' = remove1 n (ad t)
    \<and> rb_sorted lt (key_of tree') (ad t') \<and> drops (insert (rb_sentinel tree) (set (ad t))) n tree tree'"
proof -
  from delete_tree [OF assms(1,2)] obtain tree' t' where d: "ngx_rbtree_delete n tree = Some tree'" "rb_tree tree' t'"
    "ad t' = remove1 n (ad t)" "drops (insert (rb_sentinel tree) (set (ad t))) n tree tree'" by blast
  have "n \<notin> set (ad t')" using d(3) assms(1) by (simp add: rb_tree_def zp_def)
  then have "rb_sorted lt (key_of tree') (ad t') \<longleftrightarrow> rb_sorted lt (key_of tree) (ad t')" using d(4) by (intro rb_sorted_cong) (auto simp: drops_def)
  then show ?thesis using d rb_sorted_remove1 [OF assms(3)] by auto
qed

lemma insert_keyed:
  assumes "rb_tree tree t" and "n \<notin> set (ad t)" and "n \<noteq> rb_sentinel tree" and "rb_sorted lt (key_of tree) (ad t)"
    and "key_of tree ` set (ad t) \<subseteq> K" and "k \<in> K"
  shows "\<exists>tree' t'. ngx_rbtree_insert (rb_insert_by lt) n (rb_at n (\<lambda>x. x\<lparr>rb_key := k\<rparr>) tree) = Some tree' \<and> rb_tree tree' t'
    \<and> ad t' = rb_put lt (key_of tree') n (ad t) \<and> rb_sorted lt (key_of tree') (ad t') \<and> (\<forall>i. key_of tree' i = (if i = n then k else key_of tree i))
    \<and> (\<forall>i. i \<notin> insert n (set (ad t)) \<longrightarrow> rb_mem tree' i = rb_mem tree i) \<and> rb_sentinel tree' = rb_sentinel tree"
proof -
  define tree1 where "tree1 = rb_at n (\<lambda>x. x\<lparr>rb_key := k\<rparr>) tree"
  have "rb_tree tree1 t" unfolding tree1_def by (rule set_key_tree [OF assms(1-3)])
  moreover have "rb_sorted lt (key_of tree1) (ad t)" 
    by (rule rb_sorted_cong [THEN iffD1, OF _ assms(4)]) (use assms(2) in \<open>auto simp: tree1_def\<close>)
  moreover have "key_of tree1 ` insert n (set (ad t)) \<subseteq> K" using assms(2,5,6) by (auto simp: tree1_def)
  ultimately obtain tree' t' where I: "ngx_rbtree_insert (rb_insert_by lt) n tree1 = Some tree'" "rb_tree tree' t'"
    "ad t' = rb_put lt (key_of tree1) n (ad t)" "rb_sorted lt (key_of tree') (ad t')" "quiet (insert n (set (ad t))) tree1 tree'"
    using insert_tree [of tree1 t n] assms(2,3) by (auto simp: tree1_def)
  have k': "key_of tree' i = key_of tree1 i" for i using I(5) by (simp add: quiet_def)
  then have "ad t' = rb_put lt (key_of tree') n (ad t)" using I(3) by simp
  moreover have "key_of tree' i = (if i = n then k else key_of tree i)" for i using k' [of i] by (simp add: tree1_def)
  moreover have "rb_mem tree' i = rb_mem tree i" if "i \<notin> insert n (set (ad t))" for i using I(5) that by (auto simp: quiet_def tree1_def)
  moreover have "rb_sentinel tree' = rb_sentinel tree" using I(5) by (simp add: quiet_def tree1_def)
  ultimately show ?thesis using I(1,2,4) unfolding tree1_def [symmetric] by blast
qed

lemma history_tree:
  assumes "rb_history lt (rb_insert_by lt) K tree xs"
  shows "\<exists>t. rb_tree tree t \<and> ad t = xs \<and> rb_sorted lt (key_of tree) xs \<and> key_of tree ` set xs \<subseteq> K"
  using assms
proof induction
  case (history_init s m)
  then show ?case using init_tree [of s m] by (intro exI [of _ Lf]) (simp add: rb_sorted_def)
next
  case (history_insert tree xs n k tree')
  then obtain t where t: "rb_tree tree t" "ad t = xs" "rb_sorted lt (key_of tree) xs" "key_of tree ` set xs \<subseteq> K" by blast
  from insert_keyed [OF t(1), of n k] t history_insert.hyps obtain t' where
    i: "rb_tree tree' t'" "ad t' = rb_put lt (key_of tree') n xs" "rb_sorted lt (key_of tree') (ad t')" "\<forall>i. key_of tree' i = (if i = n then k else key_of tree i)" by auto
  then show ?case using t(4) history_insert.hyps by (intro exI [of _ t']) (auto simp: set_rb_put)
next
  case (history_delete tree xs n tree')
  then obtain t where t: "rb_tree tree t" "ad t = xs" "rb_sorted lt (key_of tree) xs" "key_of tree ` set xs \<subseteq> K" by blast
  from delete_sorted [OF t(1), of n] t history_delete.hyps obtain t' where
    d: "rb_tree tree' t'" "ad t' = remove1 n xs" "rb_sorted lt (key_of tree') (ad t')" "drops (insert (rb_sentinel tree) (set xs)) n tree tree'" by auto
  have "n \<notin> set (remove1 n xs)" using t(1,2) by (simp add: rb_tree_def zp_def)
  then have "key_of tree' ` set (remove1 n xs) \<subseteq> K" using d(4) t(4) set_remove1_subset [of n xs] unfolding drops_def by fastforce
  then show ?case using d by (intro exI [of _ t']) simp
qed

end

section \<open>Properties\<close>

text \<open>C34: \<open>ngx_rbtree_insert\<close> puts the new node behind all nodes that its key is not less than, whatever rotations it takes: it
  returns, the result is a red-black tree whose links and colours are right, its nodes are those of before with the new one in
  its place of the order, and no other memory is changed. The same holds for timers, whose keys wrap around, if all keys are in
  one half of the range.\<close>

theorem rbtree_insert_refines:
  assumes "rb_tree tree t" and "n \<notin> set (ad t)" and "n \<noteq> rb_sentinel tree"
  shows "(rb_sorted (\<lambda>k k'. k < k') (key_of tree) (ad t) \<longrightarrow>
      (\<exists>tree' t'. ngx_rbtree_insert ngx_rbtree_insert_value n tree = Some tree' \<and> rb_tree tree' t'
         \<and> ad t' = rb_put (\<lambda>k k'. k < k') (key_of tree) n (ad t) \<and> rb_sorted (\<lambda>k k'. k < k') (key_of tree') (ad t')
         \<and> quiet (insert n (set (ad t))) tree tree'))
    \<and> (rb_sorted timer_lt (key_of tree) (ad t) \<and> key_of tree ` insert n (set (ad t)) \<subseteq> timer_window base \<longrightarrow>
      (\<exists>tree' t'. ngx_rbtree_insert ngx_rbtree_insert_timer_value n tree = Some tree' \<and> rb_tree tree' t'
         \<and> ad t' = rb_put timer_lt (key_of tree) n (ad t) \<and> rb_sorted timer_lt (key_of tree') (ad t')
         \<and> quiet (insert n (set (ad t))) tree tree'))"
  unfolding insert_functions
  using value_order.insert_tree [OF assms] timer_order.insert_tree [OF assms, of base] by blast

text \<open>Node memory where every key is the address.\<close>

definition rb_mem0 :: "nat \<Rightarrow> ngx_rbtree_node" where
  "rb_mem0 a = \<lparr>rb_key = word_of_nat a, rb_left = 0, rb_right = 0, rb_parent = 0, rb_red = True\<rparr>"

lemma rb_put_Nil: "rb_put lt ky n [] = [n]"
  by (simp add: rb_put_def)

theorem rbtree_insert_refines_witness:
  "\<exists>tree1 t1 tree2 t2. ngx_rbtree_insert ngx_rbtree_insert_value 7 (ngx_rbtree_init 9 rb_mem0) = Some tree1 \<and> rb_tree tree1 t1 \<and> ad t1 = [7]
     \<and> ngx_rbtree_insert ngx_rbtree_insert_value 3 tree1 = Some tree2 \<and> rb_tree tree2 t2 \<and> ad t2 = [3, 7]"
proof -
  define tree where "tree = ngx_rbtree_init 9 rb_mem0"
  have s: "rb_sentinel tree = 9" "key_of tree a = word_of_nat a" for a
    by (simp_all add: tree_def ngx_rbtree_init_def ngx_rbt_black_def rb_mem0_def)
  have "rb_tree tree Lf" unfolding tree_def by (rule init_tree)
  then have "\<exists>tree1 t1. ngx_rbtree_insert ngx_rbtree_insert_value 7 tree = Some tree1 \<and> rb_tree tree1 t1 \<and> ad t1 = [7]
      \<and> rb_sorted (\<lambda>k k'. k < k') (key_of tree1) (ad t1) \<and> quiet {7} tree tree1"
    using rbtree_insert_refines [of tree Lf 7, THEN conjunct1] s(1) unfolding rb_put_Nil ad.simps by (simp add: rb_sorted_def)
  then obtain tree1 t1 where a: "ngx_rbtree_insert ngx_rbtree_insert_value 7 tree = Some tree1" "rb_tree tree1 t1" "ad t1 = [7]"
    "rb_sorted (\<lambda>k k'. k < k') (key_of tree1) (ad t1)" "quiet {7} tree tree1"
    by blast
  have k: "rb_sentinel tree1 = 9" "key_of tree1 a = word_of_nat a" for a using a(5) s by (simp_all add: quiet_def)
  obtain tree2 t2 where b: "ngx_rbtree_insert ngx_rbtree_insert_value 3 tree1 = Some tree2" "rb_tree tree2 t2"
    "ad t2 = rb_put (\<lambda>k k'. k < k') (key_of tree1) 3 (ad t1)"
    using rbtree_insert_refines [OF a(2), of 3, THEN conjunct1] a(3,4) k(1) by auto
  have "ad t2 = [3, 7]" using b(3) a(3) k(2) by (simp add: rb_put_def)
  then show ?thesis using a b by (auto simp: tree_def)
qed

text \<open>C35: \<open>ngx_rbtree_delete\<close> takes exactly the given node out of a red-black tree: it returns, never follows a pointer out of the tree,
  the other nodes stay in their order, the tree is balanced again, and no memory but that of the tree is changed.\<close>

theorem rbtree_delete_refines:
  assumes "rb_tree tree t" and "n \<in> set (ad t)"
  shows "\<exists>tree' t'. ngx_rbtree_delete n tree = Some tree' \<and> rb_tree tree' t' \<and> ad t' = remove1 n (ad t)
    \<and> drops (insert (rb_sentinel tree) (set (ad t))) n tree tree'"
  by (rule delete_tree [OF assms])

theorem rbtree_delete_refines_witness:
  "\<exists>tree t tree' t'. rb_tree tree t \<and> ad t = [7] \<and> ngx_rbtree_delete 7 tree = Some tree' \<and> rb_tree tree' t' \<and> ad t' = []"
proof -
  have "ngx_rbtree_init 9 rb_mem0 = ngx_rbt_black 9 \<lparr>rb_mem = rb_mem0, rb_root = 9, rb_sentinel = 9\<rparr>" by (simp add: ngx_rbtree_init_def)
  then have s: "rb_sentinel (ngx_rbtree_init 9 rb_mem0) = 9" by simp
  obtain tree t where t: "rb_tree tree t" "ad t = [7]"
    using value_order.insert_tree [OF init_tree [of 9 rb_mem0], of 7] s by (auto simp: rb_put_Nil rb_sorted_def)
  with rbtree_delete_refines [OF t(1), of 7] show ?thesis by auto
qed

text \<open>C36: Every tree that insertions and deletions make, in any order, is a red-black tree of the nodes that were inserted and not
  deleted, sorted by their keys, and its depth is at most twice the logarithm of their number plus one.\<close>

theorem rbtree_history_balanced:
  "(rb_history (\<lambda>k k'. k < k') ngx_rbtree_insert_value UNIV tree xs \<longrightarrow>
      (\<exists>t. rb_tree tree t \<and> ad t = xs \<and> rb_sorted (\<lambda>k k'. k < k') (key_of tree) xs \<and> 2 ^ depth t \<le> (length xs + 1) ^ 2))
   \<and> (rb_history timer_lt ngx_rbtree_insert_timer_value (timer_window base) tree xs \<longrightarrow>
      (\<exists>t. rb_tree tree t \<and> ad t = xs \<and> rb_sorted timer_lt (key_of tree) xs \<and> 2 ^ depth t \<le> (length xs + 1) ^ 2))"
  unfolding insert_functions
  using value_order.history_tree [of tree xs] timer_order.history_tree [of base tree xs] depth_bound by blast

theorem rbtree_history_balanced_witness:
  "\<exists>tree t. rb_history (\<lambda>k k'. k < k') ngx_rbtree_insert_value UNIV tree [5] \<and> rb_tree tree t \<and> ad t = [5] \<and> 2 ^ depth t \<le> (2 :: nat) ^ 2"
proof -
  define tree where "tree = ngx_rbtree_init 9 rb_mem0"
  have "rb_sentinel tree = 9" by (simp add: tree_def ngx_rbtree_init_def)
  then obtain tree' where i: "ngx_rbtree_insert ngx_rbtree_insert_value 5 (rb_at 5 (\<lambda>x. x\<lparr>rb_key := 8\<rparr>) tree) = Some tree'"
    using value_order.insert_keyed [OF init_tree [of 9 rb_mem0], of 5 8] unfolding insert_functions tree_def by (auto simp: rb_sorted_def)
  have "rb_history (\<lambda>k k'. k < k') ngx_rbtree_insert_value UNIV tree' [5]"
    using history_insert [where K = UNIV and lt = "\<lambda>k k'. k < k'", OF history_init _ _ _ i [unfolded tree_def]]
    by (simp add: rb_put_Nil ngx_rbtree_init_def)
  moreover obtain t where "rb_tree tree' t" "ad t = [5]" "2 ^ depth t \<le> (length [5 :: nat] + 1) ^ 2"
    using mp [OF rbtree_history_balanced [of tree' "[5]", THEN conjunct1] calculation] by (elim exE conjE)
  ultimately show ?thesis by (intro exI [of _ tree'] exI [of _ t]) (simp add: numeral_2_eq_2)
qed

text \<open>A walk with \<open>ngx_rbtree_min\<close> and \<open>ngx_rbtree_next\<close> visits the nodes of a tree in their order and ends with the null pointer.\<close>

lemma rbtree_walk:
  assumes "rb_tree tree t"
  shows "(ad t \<noteq> [] \<longrightarrow> ngx_rbtree_min (rb_root tree) tree = Some (hd (ad t)))
    \<and> (\<forall>xs n ys. ad t = xs @ n # ys \<longrightarrow> ngx_rbtree_next n tree = Some (if ys = [] then 0 else hd ys))"
proof (intro conjI allI impI)
  assume "ad t \<noteq> []"
  then show "ngx_rbtree_min (rb_root tree) tree = Some (hd (ad t))" using min_tree [of tree "[]" "rb_root tree" t] assms by (cases "t = Lf") (auto simp: rb_tree_def)
next
  fix xs n ys assume "ad t = xs @ n # ys"
  then show "ngx_rbtree_next n tree = Some (if ys = [] then 0 else hd ys)"
    using next_tree [OF assms] by (cases ys) (auto simp: first_or_null_def)
qed

end
