(* ===== verification/Ngx_Event_Timer.thy ===== *)
theory Ngx_Event_Timer
  imports Ngx_Rbtree_Order
begin

unbundle bit_operations_syntax

text \<open>
Timers of events (event/ngx_event_timer.c, event/ngx_event_timer.h): a red-black tree of deadlines in
milliseconds, which wrap around. The handlers of the events are a parameter.
\<close>

section \<open>Timers\<close>

text \<open>An event is named by the address of its timer node. What the handlers of events work on besides the timers is
  \<open>tm_world\<close>; \<open>now\<close> stands for \<open>ngx_current_msec\<close>.\<close>

record ngx_event =
  timer_set :: bool
  timedout :: bool
  cancelable :: bool

record 'w ngx_event_timers =
  ngx_event_timer_rbtree :: ngx_rbtree
  tm_events :: "nat \<Rightarrow> ngx_event"
  tm_world :: 'w

definition NGX_TIMER_INFINITE :: "64 word" where "NGX_TIMER_INFINITE = - 1"

definition NGX_TIMER_LAZY_DELAY :: int where "NGX_TIMER_LAZY_DELAY = 300"

definition tm_event :: "nat \<Rightarrow> (ngx_event \<Rightarrow> ngx_event) \<Rightarrow> 'w ngx_event_timers \<Rightarrow> 'w ngx_event_timers" where
  "tm_event a f st = st\<lparr>tm_events := (tm_events st)(a := f (tm_events st a))\<rparr>"

definition ngx_event_timer_init :: "nat \<Rightarrow> (nat \<Rightarrow> ngx_rbtree_node) \<Rightarrow> 'w \<Rightarrow> 'w ngx_event_timers" where
  "ngx_event_timer_init s m w =
     \<lparr>ngx_event_timer_rbtree = ngx_rbtree_init s m,
      tm_events = (\<lambda>a. \<lparr>timer_set = False, timedout = False, cancelable = False\<rparr>), tm_world = w\<rparr>"

definition ngx_event_find_timer :: "64 word \<Rightarrow> 'w ngx_event_timers \<Rightarrow> 64 word option" where
  "ngx_event_find_timer now st =
     (let tree = ngx_event_timer_rbtree st in
      if rb_root tree = rb_sentinel tree then Some NGX_TIMER_INFINITE
      else map_option (\<lambda>node. let timer = key_of tree node - now in if sint timer > 0 then timer else 0)
        (ngx_rbtree_min (rb_root tree) tree))"

definition ngx_event_del_timer :: "nat \<Rightarrow> 'w ngx_event_timers \<Rightarrow> 'w ngx_event_timers option" where
  "ngx_event_del_timer ev st =
     map_option (\<lambda>tree. tm_event ev (\<lambda>e. e\<lparr>timer_set := False\<rparr>) (st\<lparr>ngx_event_timer_rbtree := tree\<rparr>))
       (ngx_rbtree_delete ev (ngx_event_timer_rbtree st))"

definition ngx_abs :: "64 word \<Rightarrow> 64 word" where
  "ngx_abs v = (if sint v < 0 then - v else v)"

definition ngx_event_add_timer :: "64 word \<Rightarrow> nat \<Rightarrow> 64 word \<Rightarrow> 'w ngx_event_timers \<Rightarrow> 'w ngx_event_timers option" where
  "ngx_event_add_timer now ev timer st =
     (let key = now + timer;
          insert_timer = (\<lambda>st.
            map_option (\<lambda>tree. tm_event ev (\<lambda>e. e\<lparr>timer_set := True\<rparr>) (st\<lparr>ngx_event_timer_rbtree := tree\<rparr>))
              (ngx_rbtree_insert ngx_rbtree_insert_timer_value ev (rb_at ev (\<lambda>n. n\<lparr>rb_key := key\<rparr>) (ngx_event_timer_rbtree st))))
      in
      if timer_set (tm_events st ev) then
        let diff = key - key_of (ngx_event_timer_rbtree st) ev in
        if sint (ngx_abs diff) < NGX_TIMER_LAZY_DELAY then Some st
        else Option.bind (ngx_event_del_timer ev st) insert_timer
      else insert_timer st)"

text \<open>The handlers are called with the event; they may change the timers.\<close>

partial_function (option) ngx_event_expire_timers ::
  "(nat \<Rightarrow> 'w ngx_event_timers \<Rightarrow> 'w ngx_event_timers option) \<Rightarrow> 64 word \<Rightarrow> 'w ngx_event_timers \<Rightarrow> 'w ngx_event_timers option" where
  "ngx_event_expire_timers handler now st =
     (let tree = ngx_event_timer_rbtree st in
      if rb_root tree = rb_sentinel tree then Some st
      else
        Option.bind (ngx_rbtree_min (rb_root tree) tree) (\<lambda>node.
        if sint (key_of tree node - now) > 0 then Some st
        else
          Option.bind (ngx_rbtree_delete node tree) (\<lambda>tree.
          Option.bind (handler node (tm_event node (\<lambda>e. e\<lparr>timer_set := False, timedout := True\<rparr>) (st\<lparr>ngx_event_timer_rbtree := tree\<rparr>)))
            (ngx_event_expire_timers handler now))))"

partial_function (option) no_timers_loop :: "nat \<Rightarrow> 'w ngx_event_timers \<Rightarrow> ngx_rc option" where
  "no_timers_loop node st =
     (if node = 0 then Some NGX_OK
      else if \<not> cancelable (tm_events st node) then Some NGX_AGAIN
      else Option.bind (ngx_rbtree_next node (ngx_event_timer_rbtree st)) (\<lambda>node. no_timers_loop node st))"

definition ngx_event_no_timers_left :: "'w ngx_event_timers \<Rightarrow> ngx_rc option" where
  "ngx_event_no_timers_left st =
     (let tree = ngx_event_timer_rbtree st in
      if rb_root tree = rb_sentinel tree then Some NGX_OK
      else Option.bind (ngx_rbtree_min (rb_root tree) tree) (\<lambda>node. no_timers_loop node st))"

section \<open>The queue of deadlines\<close>

abbreviation deadline :: "'w ngx_event_timers \<Rightarrow> nat \<Rightarrow> 64 word" where
  "deadline st a \<equiv> key_of (ngx_event_timer_rbtree st) a"

text \<open>The timers that are set, in the order of their deadlines, which are in one half of the range.\<close>

definition timers :: "64 word \<Rightarrow> 'w ngx_event_timers \<Rightarrow> nat list \<Rightarrow> bool" where
  "timers base st xs \<longleftrightarrow> (\<exists>t. rb_tree (ngx_event_timer_rbtree st) t \<and> ad t = xs) \<and> rb_sorted timer_lt (deadline st) xs
     \<and> deadline st ` set xs \<subseteq> timer_window base \<and> (\<forall>a. timer_set (tm_events st a) \<longleftrightarrow> a \<in> set xs) \<and> 0 \<notin> set xs"

lemma timers_empty: "timers base st xs \<Longrightarrow> xs = [] \<longleftrightarrow> rb_root (ngx_event_timer_rbtree st) = rb_sentinel (ngx_event_timer_rbtree st)"
proof -
  assume "timers base st xs"
  then obtain t where t: "zp (ngx_event_timer_rbtree st) [] (rb_root (ngx_event_timer_rbtree st)) t" "ad t = xs" by (auto simp: timers_def rb_tree_def)
  moreover have "xs = [] \<longleftrightarrow> t = Lf" using t(2) by (cases t) auto
  ultimately show ?thesis using shp_root [of "rb_mem (ngx_event_timer_rbtree st)" "rb_sentinel (ngx_event_timer_rbtree st)"] by (auto simp: zp_def)
qed

lemma timers_min:
  assumes "timers base st (a # xs)"
  shows "ngx_rbtree_min (rb_root (ngx_event_timer_rbtree st)) (ngx_event_timer_rbtree st) = Some a"
proof -
  obtain t where t: "zp (ngx_event_timer_rbtree st) [] (rb_root (ngx_event_timer_rbtree st)) t" "ad t = a # xs"
    using assms by (auto simp: timers_def rb_tree_def)
  then show ?thesis using min_tree [OF t(1)] by (cases "t = Lf") auto
qed

lemma timers_delete:
  assumes T: "timers base st xs" and a: "a \<in> set xs"
  defines "tree \<equiv> ngx_event_timer_rbtree st"
  shows "\<exists>tree'. ngx_rbtree_delete a tree = Some tree' \<and> rb_sentinel tree' = rb_sentinel tree \<and> (\<forall>i. i \<noteq> a \<longrightarrow> key_of tree' i = key_of tree i)
    \<and> (\<forall>f. (\<forall>e. \<not> timer_set (f e)) \<longrightarrow> timers base (tm_event a f (st\<lparr>ngx_event_timer_rbtree := tree'\<rparr>)) (remove1 a xs))"
proof -
  obtain t where t: "rb_tree tree t" "ad t = xs" using T by (auto simp: timers_def tree_def)
  have dist: "distinct xs" using t by (auto simp: rb_tree_def zp_def)
  from timer_order.delete_sorted [OF t(1), of a] t(2) T a obtain tree' t' where
    d: "ngx_rbtree_delete a tree = Some tree'" "rb_tree tree' t'" "ad t' = remove1 a xs" "rb_sorted timer_lt (key_of tree') (remove1 a xs)"
      "drops (insert (rb_sentinel tree) (set xs)) a tree tree'" by (auto simp: timers_def tree_def)
  have k: "\<forall>i. i \<noteq> a \<longrightarrow> key_of tree' i = key_of tree i" "rb_sentinel tree' = rb_sentinel tree" using d(5) by (auto simp: drops_def)
  have s: "set (remove1 a xs) = set xs - {a}" using dist by simp
  have "timers base (tm_event a f (st\<lparr>ngx_event_timer_rbtree := tree'\<rparr>)) (remove1 a xs)" if "\<forall>e. \<not> timer_set (f e)" for f
    unfolding timers_def tm_event_def using d(2-4) k(1) s T that by (auto simp: timers_def tree_def)
  then show ?thesis using d(1) k by blast
qed

lemma timers_insert:
  assumes T: "timers base st xs" and a: "a \<notin> set xs" "a \<noteq> 0" "a \<noteq> rb_sentinel (ngx_event_timer_rbtree st)" and k: "k \<in> timer_window base"
  defines "tree \<equiv> ngx_event_timer_rbtree st"
  shows "\<exists>tree' xs'. ngx_rbtree_insert ngx_rbtree_insert_timer_value a (rb_at a (\<lambda>n. n\<lparr>rb_key := k\<rparr>) tree) = Some tree'
    \<and> (\<forall>i. key_of tree' i = (if i = a then k else key_of tree i)) \<and> set xs' = insert a (set xs) \<and> rb_sentinel tree' = rb_sentinel tree
    \<and> timers base (tm_event a (\<lambda>e. e\<lparr>timer_set := True\<rparr>) (st\<lparr>ngx_event_timer_rbtree := tree'\<rparr>)) xs'"
proof -
  obtain t where t: "rb_tree tree t" "ad t = xs" using T by (auto simp: timers_def tree_def)
  from timer_order.insert_keyed [OF t(1), of a base k] t(2) T a k obtain tree' t' where
    i: "ngx_rbtree_insert (rb_insert_by timer_lt) a (rb_at a (\<lambda>n. n\<lparr>rb_key := k\<rparr>) tree) = Some tree'" "rb_tree tree' t'"
      "ad t' = rb_put timer_lt (key_of tree') a xs" "rb_sorted timer_lt (key_of tree') (ad t')"
      "\<forall>i. key_of tree' i = (if i = a then k else key_of tree i)" "rb_sentinel tree' = rb_sentinel tree" by (auto simp: timers_def tree_def)
  have s: "set (ad t') = insert a (set xs)" using i(3) by (simp add: set_rb_put)
  have "timers base (tm_event a (\<lambda>e. e\<lparr>timer_set := True\<rparr>) (st\<lparr>ngx_event_timer_rbtree := tree'\<rparr>)) (ad t')"
    unfolding timers_def tm_event_def using i(2,4,5) s T a k by (auto simp: timers_def tree_def)
  then show ?thesis using i(1,5,6) s unfolding insert_functions by blast
qed

text \<open>The time that is left to a deadline.\<close>

abbreviation left :: "64 word \<Rightarrow> 'w ngx_event_timers \<Rightarrow> nat \<Rightarrow> int" where
  "left now st a \<equiv> sint (deadline st a - now)"

lemma left_window: "timers base st xs \<Longrightarrow> now \<in> timer_window base \<Longrightarrow> a \<in> set xs \<Longrightarrow> left now st a = uint (deadline st a - base) - uint (now - base)"
  by (intro timer_diff) (auto simp: timers_def)

lemma left_first:
  assumes "timers base st (a # xs)" and "now \<in> timer_window base" and "b \<in> set (a # xs)"
  shows "left now st a \<le> left now st b"
proof (cases "b = a")
  case False
  then have "\<not> timer_lt (deadline st b) (deadline st a)" using assms(1,3) by (auto simp: timers_def rb_sorted_def)
  moreover have "sint (deadline st b - deadline st a) = uint (deadline st b - base) - uint (deadline st a - base)"
    using assms(1,3) by (intro timer_diff) (auto simp: timers_def)
  ultimately show ?thesis using left_window [OF assms(1,2)] assms(3) by (simp add: timer_lt_def)
qed simp

lemma lazy_abs: "k \<in> timer_window base \<Longrightarrow> k' \<in> timer_window base \<Longrightarrow> sint (ngx_abs (k - k')) = \<bar>sint (k - k')\<bar>"
proof -
  assume k: "k \<in> timer_window base" "k' \<in> timer_window base"
  have "sint (- (k - k')) = - sint (k - k')" using timer_diff [OF k] timer_diff [OF k(2,1)] by (simp add: minus_diff_eq)
  then show ?thesis by (simp add: ngx_abs_def)
qed

text \<open>What a timer is set to, once its event is not in the tree.\<close>

lemma add_put:
  assumes a: "a \<noteq> 0" "a \<noteq> rb_sentinel (ngx_event_timer_rbtree st)" "now + timer \<in> timer_window base"
    and Y: "timers base st1 ys" "a \<notin> set ys" "rb_sentinel (ngx_event_timer_rbtree st1) = rb_sentinel (ngx_event_timer_rbtree st)"
      "\<forall>i. i \<noteq> a \<longrightarrow> deadline st1 i = deadline st i"
      "ngx_event_add_timer now a timer st = map_option (\<lambda>tree. tm_event a (\<lambda>e. e\<lparr>timer_set := True\<rparr>) (st1\<lparr>ngx_event_timer_rbtree := tree\<rparr>))
         (ngx_rbtree_insert ngx_rbtree_insert_timer_value a (rb_at a (\<lambda>n. n\<lparr>rb_key := now + timer\<rparr>) (ngx_event_timer_rbtree st1)))"
  shows "\<exists>st' xs'. ngx_event_add_timer now a timer st = Some st' \<and> timers base st' xs' \<and> set xs' = insert a (set ys)
      \<and> (\<forall>i. i \<noteq> a \<longrightarrow> deadline st' i = deadline st i) \<and> deadline st' a = now + timer
      \<and> rb_sentinel (ngx_event_timer_rbtree st') = rb_sentinel (ngx_event_timer_rbtree st)"
proof -
  from timers_insert [OF Y(1,2), of "now + timer"] a Y(3) obtain tree' xs' where
    i: "ngx_rbtree_insert ngx_rbtree_insert_timer_value a (rb_at a (\<lambda>n. n\<lparr>rb_key := now + timer\<rparr>) (ngx_event_timer_rbtree st1)) = Some tree'"
      "\<forall>i. key_of tree' i = (if i = a then now + timer else deadline st1 i)" "set xs' = insert a (set ys)"
      "rb_sentinel tree' = rb_sentinel (ngx_event_timer_rbtree st1)"
      "timers base (tm_event a (\<lambda>e. e\<lparr>timer_set := True\<rparr>) (st1\<lparr>ngx_event_timer_rbtree := tree'\<rparr>)) xs'" by auto
  then show ?thesis using Y(3-5)
    by (intro exI [of _ "tm_event a (\<lambda>e. e\<lparr>timer_set := True\<rparr>) (st1\<lparr>ngx_event_timer_rbtree := tree'\<rparr>)"] exI [of _ xs']) (simp add: tm_event_def)
qed

text \<open>C37: Setting and deleting timers keeps the queue of deadlines in order: \<open>ngx_event_del_timer\<close> removes exactly its event,
  \<open>ngx_event_add_timer\<close> sets the deadline of its event, except that a timer that is already set to within 300 milliseconds of
  the new deadline is left as it is; all other deadlines stay.\<close>

theorem timers_add_del:
  assumes T: "timers base st xs"
  shows "(a \<in> set xs \<longrightarrow> (\<exists>st'. ngx_event_del_timer a st = Some st' \<and> timers base st' (remove1 a xs) \<and> (\<forall>i. i \<noteq> a \<longrightarrow> deadline st' i = deadline st i)))
    \<and> (a \<noteq> 0 \<and> a \<noteq> rb_sentinel (ngx_event_timer_rbtree st) \<and> now + timer \<in> timer_window base \<longrightarrow>
        (\<exists>st' xs'. ngx_event_add_timer now a timer st = Some st' \<and> timers base st' xs' \<and> set xs' = insert a (set xs)
           \<and> (\<forall>i. i \<noteq> a \<longrightarrow> deadline st' i = deadline st i)
           \<and> (if a \<in> set xs \<and> \<bar>sint (now + timer - deadline st a)\<bar> < 300 then st' = st else deadline st' a = now + timer)))"
proof (intro conjI impI)
  assume a: "a \<in> set xs"
  from timers_delete [OF T a] obtain tree' where d: "ngx_rbtree_delete a (ngx_event_timer_rbtree st) = Some tree'"
    "\<forall>i. i \<noteq> a \<longrightarrow> key_of tree' i = deadline st i"
    "timers base (tm_event a (\<lambda>e. e\<lparr>timer_set := False\<rparr>) (st\<lparr>ngx_event_timer_rbtree := tree'\<rparr>)) (remove1 a xs)" by fastforce
  show "\<exists>st'. ngx_event_del_timer a st = Some st' \<and> timers base st' (remove1 a xs) \<and> (\<forall>i. i \<noteq> a \<longrightarrow> deadline st' i = deadline st i)"
    using d by (simp add: ngx_event_del_timer_def tm_event_def)
next
  assume a: "a \<noteq> 0 \<and> a \<noteq> rb_sentinel (ngx_event_timer_rbtree st) \<and> now + timer \<in> timer_window base"
  show "\<exists>st' xs'. ngx_event_add_timer now a timer st = Some st' \<and> timers base st' xs' \<and> set xs' = insert a (set xs)
      \<and> (\<forall>i. i \<noteq> a \<longrightarrow> deadline st' i = deadline st i)
      \<and> (if a \<in> set xs \<and> \<bar>sint (now + timer - deadline st a)\<bar> < 300 then st' = st else deadline st' a = now + timer)"
  proof (cases "a \<in> set xs")
    case False
    then have "\<not> timer_set (tm_events st a)" using T by (simp add: timers_def)
    then have eq: "ngx_event_add_timer now a timer st = map_option (\<lambda>tree. tm_event a (\<lambda>e. e\<lparr>timer_set := True\<rparr>) (st\<lparr>ngx_event_timer_rbtree := tree\<rparr>))
        (ngx_rbtree_insert ngx_rbtree_insert_timer_value a (rb_at a (\<lambda>n. n\<lparr>rb_key := now + timer\<rparr>) (ngx_event_timer_rbtree st)))"
      by (simp add: ngx_event_add_timer_def Let_def)
    show ?thesis using add_put [OF _ _ _ T False refl _ eq] a False by auto
  next
    case True
    then have ts: "timer_set (tm_events st a)" and w: "deadline st a \<in> timer_window base" using T by (auto simp: timers_def)
    have lazy: "sint (ngx_abs (now + timer - deadline st a)) < NGX_TIMER_LAZY_DELAY \<longleftrightarrow> \<bar>sint (now + timer - deadline st a)\<bar> < 300"
      using lazy_abs [OF _ w, of "now + timer"] a by (simp add: NGX_TIMER_LAZY_DELAY_def)
    show ?thesis
    proof (cases "\<bar>sint (now + timer - deadline st a)\<bar> < 300")
      case near: True
      then have "ngx_event_add_timer now a timer st = Some st" using ts lazy by (simp add: ngx_event_add_timer_def Let_def)
      then show ?thesis using T True near by (intro exI [of _ st] exI [of _ xs]) auto
    next
      case far: False
      from timers_delete [OF T True] obtain tree' where d: "ngx_rbtree_delete a (ngx_event_timer_rbtree st) = Some tree'"
        "rb_sentinel tree' = rb_sentinel (ngx_event_timer_rbtree st)" "\<forall>i. i \<noteq> a \<longrightarrow> key_of tree' i = deadline st i"
        "timers base (tm_event a (\<lambda>e. e\<lparr>timer_set := False\<rparr>) (st\<lparr>ngx_event_timer_rbtree := tree'\<rparr>)) (remove1 a xs)" by fastforce
      define st1 where "st1 = tm_event a (\<lambda>e. e\<lparr>timer_set := False\<rparr>) (st\<lparr>ngx_event_timer_rbtree := tree'\<rparr>)"
      have st1: "ngx_event_timer_rbtree st1 = tree'" "ngx_event_del_timer a st = Some st1"
        using d(1) by (simp_all add: st1_def tm_event_def ngx_event_del_timer_def)
      have "distinct xs" using T by (auto simp: timers_def rb_tree_def zp_def)
      then have "set (remove1 a xs) = set xs - {a}" by simp
      then have s: "a \<notin> set (remove1 a xs)" "insert a (set (remove1 a xs)) = insert a (set xs)" by auto
      have eq: "ngx_event_add_timer now a timer st = map_option (\<lambda>tree. tm_event a (\<lambda>e. e\<lparr>timer_set := True\<rparr>) (st1\<lparr>ngx_event_timer_rbtree := tree\<rparr>))
          (ngx_rbtree_insert ngx_rbtree_insert_timer_value a (rb_at a (\<lambda>n. n\<lparr>rb_key := now + timer\<rparr>) (ngx_event_timer_rbtree st1)))"
        using ts lazy far st1(2) by (simp add: ngx_event_add_timer_def Let_def)
      show ?thesis using add_put [OF _ _ _ d(4) [folded st1_def] s(1) _ _ eq] a d(2,3) st1(1) far s(2) by auto
    qed
  qed
qed

text \<open>C38: \<open>ngx_event_find_timer\<close> tells how long the event loop may sleep: forever if there is no timer, otherwise up to the earliest of
  all deadlines, and not at all if one has passed.\<close>

theorem find_timer_earliest:
  assumes "timers base st xs" and "now \<in> timer_window base"
  shows "\<exists>w. ngx_event_find_timer now st = Some w \<and> (xs = [] \<longrightarrow> w = NGX_TIMER_INFINITE)
    \<and> (xs \<noteq> [] \<longrightarrow> (\<exists>a\<in>set xs. sint w = max 0 (sint (deadline st a - now))) \<and> (\<forall>a\<in>set xs. sint w \<le> max 0 (sint (deadline st a - now))))"
proof (cases xs)
  case Nil
  then show ?thesis using timers_empty [OF assms(1)] by (simp add: ngx_event_find_timer_def)
next
  case (Cons a ys)
  define timer where "timer = deadline st a - now"
  have "ngx_event_find_timer now st = Some (if sint timer > 0 then timer else 0)"
    using timers_empty [OF assms(1)] timers_min [OF assms(1) [unfolded Cons]] Cons by (simp add: ngx_event_find_timer_def Let_def timer_def)
  moreover have "sint (if sint timer > 0 then timer else 0) = max 0 (sint timer)" by simp
  moreover have "max 0 (sint timer) \<le> max 0 (left now st b)" if "b \<in> set xs" for b
    using left_first [OF assms(1) [unfolded Cons] assms(2)] that Cons by (intro max.mono) (simp_all add: timer_def)
  ultimately show ?thesis using Cons by (intro exI [of _ "if sint timer > 0 then timer else 0"]) (auto simp: timer_def)
qed

section \<open>Expiry\<close>

lemma timers_world [simp]: "timers base (st\<lparr>tm_world := w\<rparr>) xs = timers base st xs"
  by (simp add: timers_def)

lemma expire_done:
  assumes "timers base st xs" and "xs \<noteq> [] \<Longrightarrow> 0 < left now st (hd xs)"
  shows "ngx_event_expire_timers handler now st = Some st"
proof (cases xs)
  case Nil
  then show ?thesis using timers_empty [OF assms(1)] by (subst ngx_event_expire_timers.simps) simp
next
  case (Cons a ys)
  then show ?thesis using timers_empty [OF assms(1)] timers_min [OF assms(1) [unfolded Cons]] assms(2)
    by (subst ngx_event_expire_timers.simps) (simp add: Let_def)
qed

lemma expire_step:
  assumes T: "timers base st (a # xs)" and "left now st a \<le> 0"
  shows "\<exists>st1. ngx_event_expire_timers handler now st = Option.bind (handler a st1) (ngx_event_expire_timers handler now)
    \<and> timers base st1 xs \<and> (\<forall>i. i \<noteq> a \<longrightarrow> deadline st1 i = deadline st i) \<and> tm_world st1 = tm_world st
    \<and> tm_events st1 = (tm_events st)(a := (tm_events st a)\<lparr>timer_set := False, timedout := True\<rparr>)
    \<and> rb_sentinel (ngx_event_timer_rbtree st1) = rb_sentinel (ngx_event_timer_rbtree st)"
proof -
  let ?f = "\<lambda>e. e\<lparr>timer_set := False, timedout := True\<rparr> :: ngx_event"
  from timers_delete [OF T] obtain tree' where d: "ngx_rbtree_delete a (ngx_event_timer_rbtree st) = Some tree'"
    "rb_sentinel tree' = rb_sentinel (ngx_event_timer_rbtree st)" "\<forall>i. i \<noteq> a \<longrightarrow> key_of tree' i = deadline st i"
    "timers base (tm_event a ?f (st\<lparr>ngx_event_timer_rbtree := tree'\<rparr>)) (remove1 a (a # xs))" by fastforce
  define st1 where "st1 = tm_event a ?f (st\<lparr>ngx_event_timer_rbtree := tree'\<rparr>)"
  have "ngx_event_expire_timers handler now st = Option.bind (handler a st1) (ngx_event_expire_timers handler now)"
    using timers_empty [OF T] timers_min [OF T] d(1) assms(2) by (subst ngx_event_expire_timers.simps) (simp add: Let_def st1_def)
  then show ?thesis using d by (intro exI [of _ st1]) (simp add: st1_def tm_event_def)
qed

text \<open>C39: \<open>ngx_event_expire_timers\<close> calls the handlers of exactly the timers whose deadline has passed, each once and in the order of
  the deadlines, and leaves the others set, if the handlers do not change the timers.\<close>

theorem expire_in_order:
  assumes "timers base st xs" and "now \<in> timer_window base" and "\<And>a st. handler a st = Some (st\<lparr>tm_world := f a (tm_world st)\<rparr>)"
  shows "\<exists>st'. ngx_event_expire_timers handler now st = Some st'
    \<and> tm_world st' = fold f (takeWhile (\<lambda>a. sint (deadline st a - now) \<le> 0) xs) (tm_world st)
    \<and> timers base st' (dropWhile (\<lambda>a. sint (deadline st a - now) \<le> 0) xs)
    \<and> (\<forall>a\<in>set xs. sint (deadline st a - now) \<le> 0 \<longleftrightarrow> a \<in> set (takeWhile (\<lambda>a. sint (deadline st a - now) \<le> 0) xs))
    \<and> (\<forall>a. timedout (tm_events st' a) \<longleftrightarrow> a \<in> set (takeWhile (\<lambda>a. sint (deadline st a - now) \<le> 0) xs) \<or> timedout (tm_events st a))"
  using assms(1)
proof (induction xs arbitrary: st)
  case Nil
  then show ?case using expire_done [OF Nil] by simp
next
  case (Cons a xs)
  show ?case
  proof (cases "left now st a \<le> 0")
    case False
    then have "ngx_event_expire_timers handler now st = Some st" using expire_done [OF Cons.prems] by simp
    moreover have "\<not> left now st b \<le> 0" if "b \<in> set (a # xs)" for b
      using left_first [OF Cons.prems assms(2) that] False by linarith
    ultimately show ?thesis using Cons.prems False by (intro exI [of _ st]) auto
  next
    case True
    from expire_step [OF Cons.prems True, of handler] obtain st1 where
      s: "ngx_event_expire_timers handler now st = Option.bind (handler a st1) (ngx_event_expire_timers handler now)"
        "timers base st1 xs" "\<forall>i. i \<noteq> a \<longrightarrow> deadline st1 i = deadline st i" "tm_world st1 = tm_world st"
        "tm_events st1 = (tm_events st)(a := (tm_events st a)\<lparr>timer_set := False, timedout := True\<rparr>)" by blast
    define st2 where "st2 = st1\<lparr>tm_world := f a (tm_world st1)\<rparr>"
    have a: "a \<notin> set xs" using Cons.prems by (auto simp: timers_def rb_tree_def zp_def)
    then have same: "left now st2 b = left now st b" if "b \<in> set xs" for b using s(3) that by (auto simp: st2_def)
    have tw: "takeWhile (\<lambda>a. left now st2 a \<le> 0) xs = takeWhile (\<lambda>a. left now st a \<le> 0) xs"
      "dropWhile (\<lambda>a. left now st2 a \<le> 0) xs = dropWhile (\<lambda>a. left now st a \<le> 0) xs"
      using same by (auto intro!: takeWhile_cong dropWhile_cong)
    have "timers base st2 xs" using s(2) by (simp add: st2_def)
    from Cons.IH [OF this] obtain st' where r: "ngx_event_expire_timers handler now st2 = Some st'"
      "tm_world st' = fold f (takeWhile (\<lambda>a. left now st a \<le> 0) xs) (tm_world st2)"
      "timers base st' (dropWhile (\<lambda>a. left now st a \<le> 0) xs)"
      "\<forall>b\<in>set xs. left now st2 b \<le> 0 \<longleftrightarrow> b \<in> set (takeWhile (\<lambda>a. left now st a \<le> 0) xs)"
      "\<forall>b. timedout (tm_events st' b) \<longleftrightarrow> b \<in> set (takeWhile (\<lambda>a. left now st a \<le> 0) xs) \<or> timedout (tm_events st2 b)" unfolding tw by blast
    have "ngx_event_expire_timers handler now st = Some st'" using s(1) r(1) assms(3) by (simp add: st2_def)
    moreover have "tm_world st2 = f a (tm_world st)" using s(4) by (simp add: st2_def)
    moreover have "timedout (tm_events st2 b) \<longleftrightarrow> b = a \<or> timedout (tm_events st b)" for b using s(5) by (simp add: st2_def)
    ultimately show ?thesis using r(2-5) True same by (intro exI [of _ st']) auto
  qed
qed

text \<open>C40: \<open>ngx_event_expire_timers\<close> ends, and no timer is due when it does, also with handlers that set and delete timers, as long as
  they do not make another timer due at once.\<close>

theorem expire_returns:
  assumes "timers base st xs" and "now \<in> timer_window base"
    and "\<And>a st xs. timers base st xs \<Longrightarrow> a \<notin> set xs \<Longrightarrow> a \<noteq> 0 \<Longrightarrow> a \<noteq> rb_sentinel (ngx_event_timer_rbtree st) \<Longrightarrow>
      \<exists>st' xs'. handler a st = Some st' \<and> timers base st' xs'
        \<and> {b \<in> set xs'. sint (deadline st' b - now) \<le> 0} \<subseteq> {b \<in> set xs. sint (deadline st b - now) \<le> 0}"
  shows "\<exists>st' xs'. ngx_event_expire_timers handler now st = Some st' \<and> timers base st' xs' \<and> (\<forall>a\<in>set xs'. sint (deadline st' a - now) > 0)"
  using assms(1)
proof (induction "card {b \<in> set xs. left now st b \<le> 0}" arbitrary: st xs rule: less_induct)
  case less
  show ?case
  proof (cases "xs \<noteq> [] \<and> left now st (hd xs) \<le> 0")
    case False
    then have "ngx_event_expire_timers handler now st = Some st" using expire_done [OF less.prems] by auto
    moreover have "0 < left now st b" if b: "b \<in> set xs" for b
    proof -
      obtain a ys where xs: "xs = a # ys" using b by (cases xs) auto
      then show ?thesis using left_first [OF less.prems [unfolded xs] assms(2)] b False by fastforce
    qed
    ultimately show ?thesis using less.prems by blast
  next
    case True
    then obtain a ys where xs: "xs = a # ys" "left now st a \<le> 0" by (cases xs) auto
    from expire_step [OF less.prems [unfolded xs(1)] xs(2), of handler] obtain st1 where
      s: "ngx_event_expire_timers handler now st = Option.bind (handler a st1) (ngx_event_expire_timers handler now)"
        "timers base st1 ys" "\<forall>i. i \<noteq> a \<longrightarrow> deadline st1 i = deadline st i"
        "rb_sentinel (ngx_event_timer_rbtree st1) = rb_sentinel (ngx_event_timer_rbtree st)" by blast
    obtain t where "rb_tree (ngx_event_timer_rbtree st) t" "ad t = xs" using less.prems by (auto simp: timers_def)
    then have a: "a \<notin> set ys" "a \<noteq> 0" "a \<noteq> rb_sentinel (ngx_event_timer_rbtree st1)"
      using less.prems xs s(4) zp_sentinel [of "ngx_event_timer_rbtree st" "[]" _ t] by (auto simp: timers_def rb_tree_def zp_def)
    from assms(3) [OF s(2) a] obtain st2 zs where h: "handler a st1 = Some st2" "timers base st2 zs"
      "{b \<in> set zs. left now st2 b \<le> 0} \<subseteq> {b \<in> set ys. left now st1 b \<le> 0}" by blast
    have "{b \<in> set ys. left now st1 b \<le> 0} \<subset> {b \<in> set xs. left now st b \<le> 0}" using xs a(1) s(3) by (auto simp: psubset_eq)
    then have "card {b \<in> set zs. left now st2 b \<le> 0} < card {b \<in> set xs. left now st b \<le> 0}" using h(3) by (intro psubset_card_mono) auto
    from less.hyps [OF this h(2)] show ?thesis using s(1) h(1) by simp
  qed
qed

text \<open>\<open>ngx_event_no_timers_left\<close> answers \<open>NGX_OK\<close> exactly if every timer that is set may be cancelled.\<close>

lemma no_timers_walk:
  assumes "timers base st (xs @ ys)"
  shows "no_timers_loop (first_or_null ys) st = Some (if \<forall>a\<in>set ys. cancelable (tm_events st a) then NGX_OK else NGX_AGAIN)"
  using assms
proof (induction ys arbitrary: xs)
  case Nil
  then show ?case by (subst no_timers_loop.simps) (simp add: first_or_null_def)
next
  case (Cons a ys)
  obtain t where t: "rb_tree (ngx_event_timer_rbtree st) t" "ad t = xs @ a # ys" using Cons.prems by (auto simp: timers_def)
  have "a \<noteq> 0" using Cons.prems by (auto simp: timers_def)
  then show ?case using next_tree [OF t] Cons.IH [of "xs @ [a]"] Cons.prems
    by (subst no_timers_loop.simps) (simp add: first_or_null_def)
qed

lemma no_timers_left_exact:
  assumes "timers base st xs"
  shows "ngx_event_no_timers_left st = Some (if \<forall>a\<in>set xs. cancelable (tm_events st a) then NGX_OK else NGX_AGAIN)"
proof (cases xs)
  case Nil
  then show ?thesis using timers_empty [OF assms] by (simp add: ngx_event_no_timers_left_def)
next
  case (Cons a ys)
  then show ?thesis
    using timers_empty [OF assms] timers_min [OF assms [unfolded Cons]] no_timers_walk [of base st "[]" xs] assms
    by (simp add: ngx_event_no_timers_left_def first_or_null_def)
qed

section \<open>Examples\<close>

text \<open>One timer, for the event at address 7, that is due at 150. The world is the list of the events that were handled.\<close>

lemma add_fresh:
  assumes "timers base st xs" and "a \<notin> set xs" and "a \<noteq> 0" and "a \<noteq> rb_sentinel (ngx_event_timer_rbtree st)" and "now + timer \<in> timer_window base"
  shows "\<exists>st' xs'. ngx_event_add_timer now a timer st = Some st' \<and> timers base st' xs' \<and> set xs' = insert a (set xs)
      \<and> (\<forall>i. i \<noteq> a \<longrightarrow> deadline st' i = deadline st i) \<and> deadline st' a = now + timer
      \<and> rb_sentinel (ngx_event_timer_rbtree st') = rb_sentinel (ngx_event_timer_rbtree st)"
proof (rule add_put [OF assms(3-5,1,2) refl])
  have "\<not> timer_set (tm_events st a)" using assms(1,2) by (simp add: timers_def)
  then show "ngx_event_add_timer now a timer st = map_option (\<lambda>tree. tm_event a (\<lambda>e. e\<lparr>timer_set := True\<rparr>) (st\<lparr>ngx_event_timer_rbtree := tree\<rparr>))
      (ngx_rbtree_insert ngx_rbtree_insert_timer_value a (rb_at a (\<lambda>n. n\<lparr>rb_key := now + timer\<rparr>) (ngx_event_timer_rbtree st)))"
    by (simp add: ngx_event_add_timer_def Let_def)
qed simp

lemma init_timers: "timers base (ngx_event_timer_init s m w) []" "rb_sentinel (ngx_event_timer_rbtree (ngx_event_timer_init s m w)) = s"
  using init_tree [of s m] by (auto simp: timers_def ngx_event_timer_init_def rb_sorted_def ngx_rbtree_init_def intro!: exI [of _ Lf])

lemma small_window [simp]: "150 \<in> timer_window 0" "200 \<in> timer_window 0" "1200 \<in> timer_window 0" "100 \<in> timer_window 0" "950 \<in> timer_window 0"
  by (simp_all add: timer_window_def)

lemma one_timer:
  "\<exists>st. timers 0 st [7] \<and> deadline st 7 = 150 \<and> tm_world st = ([] :: nat list)
    \<and> (\<forall>a. \<not> timedout (tm_events st a)) \<and> rb_sentinel (ngx_event_timer_rbtree st) = 9"
proof -
  define st0 where "st0 = ngx_event_timer_init 9 rb_mem0 ([] :: nat list)"
  have i: "timers 0 st0 []" "rb_sentinel (ngx_event_timer_rbtree st0) = 9" unfolding st0_def by (rule init_timers)+
  from add_fresh [OF i(1), of 7 100 50] i(2) obtain st xs where
    a: "ngx_event_add_timer 100 7 50 st0 = Some st" "timers 0 st xs" "set xs = {7}" "deadline st 7 = 150" "rb_sentinel (ngx_event_timer_rbtree st) = 9" by auto
  have "distinct xs" using a(2) by (auto simp: timers_def rb_tree_def zp_def)
  then have "length xs = 1" using a(3) distinct_card [of xs] by simp
  then obtain b where "xs = [b]" using length_Suc_conv [of xs 0] by auto
  then have "xs = [7]" using a(3) by simp
  moreover have "tm_world st = []" "\<not> timedout (tm_events st i)" for i
    using a(1) by (auto simp: ngx_event_add_timer_def st0_def ngx_event_timer_init_def tm_event_def Let_def split: if_splits)
  ultimately show ?thesis using a(2,4,5) by blast
qed

theorem timers_add_del_witness:
  "\<exists>(st :: nat list ngx_event_timers) st' xs'. timers 0 st [7] \<and> ngx_event_add_timer 200 7 750 st = Some st' \<and> timers 0 st' xs' \<and> deadline st' 7 = 950"
proof -
  obtain st :: "nat list ngx_event_timers" where s: "timers 0 st [7]" "deadline st 7 = 150" "rb_sentinel (ngx_event_timer_rbtree st) = 9"
    using one_timer by blast
  from timers_add_del [OF s(1), of 7 200 750, THEN conjunct2] s(2,3) obtain st' xs' where
    "ngx_event_add_timer 200 7 750 st = Some st'" "timers 0 st' xs'" "deadline st' 7 = 950" by auto
  then show ?thesis using s(1) by blast
qed

theorem find_timer_earliest_witness:
  "\<exists>(st :: nat list ngx_event_timers) w. timers 0 st [7] \<and> deadline st 7 = 150 \<and> ngx_event_find_timer 100 st = Some w \<and> sint w = 50"
proof -
  obtain st :: "nat list ngx_event_timers" where s: "timers 0 st [7]" "deadline st 7 = 150" using one_timer by blast
  from find_timer_earliest [OF s(1), of 100] s(2) obtain w where "ngx_event_find_timer 100 st = Some w" "sint w = 50" by auto
  then show ?thesis using s by blast
qed

theorem expire_in_order_witness:
  "\<exists>(st :: nat list ngx_event_timers) st'. timers 0 st [7]
     \<and> ngx_event_expire_timers (\<lambda>a st. Some (st\<lparr>tm_world := a # tm_world st\<rparr>)) 200 st = Some st' \<and> tm_world st' = [7] \<and> timers 0 st' []"
proof -
  obtain st :: "nat list ngx_event_timers" where s: "timers 0 st [7]" "deadline st 7 = 150" "tm_world st = []" using one_timer by blast
  from expire_in_order [OF s(1), of 200 "\<lambda>a st. Some (st\<lparr>tm_world := a # tm_world st\<rparr>)" "\<lambda>a w. a # w"] s(2,3) obtain st' where
    "ngx_event_expire_timers (\<lambda>a st. Some (st\<lparr>tm_world := a # tm_world st\<rparr>)) 200 st = Some st'" "tm_world st' = [7]" "timers 0 st' []" by auto
  then show ?thesis using s(1) by blast
qed

text \<open>Handlers that set their timer again, for one second later.\<close>

lemma rearm_ok:
  assumes "timers 0 st xs" "a \<notin> set xs" "a \<noteq> 0" "a \<noteq> rb_sentinel (ngx_event_timer_rbtree st)"
  shows "\<exists>st' xs'. ngx_event_add_timer 200 a 1000 st = Some st' \<and> timers 0 st' xs'
        \<and> {b \<in> set xs'. sint (deadline st' b - 200) \<le> 0} \<subseteq> {b \<in> set xs. sint (deadline st b - 200) \<le> 0}"
proof -
  from add_fresh [OF assms, of 200 1000] obtain st' xs' where r: "ngx_event_add_timer 200 a 1000 st = Some st'" "timers 0 st' xs'"
    "set xs' = insert a (set xs)" "\<forall>i. i \<noteq> a \<longrightarrow> deadline st' i = deadline st i" "deadline st' a = 1200" by auto
  have "b \<in> set xs \<and> sint (deadline st b - 200) \<le> 0" if "b \<in> set xs'" "sint (deadline st' b - 200) \<le> 0" for b
    using that r(3-5) by (cases "b = a") auto
  then show ?thesis using r(1,2) by blast
qed

theorem expire_returns_witness:
  "\<exists>(st :: nat list ngx_event_timers) st' xs'. timers 0 st [7]
     \<and> ngx_event_expire_timers (\<lambda>a. ngx_event_add_timer 200 a 1000) 200 st = Some st' \<and> timers 0 st' xs'
     \<and> (\<forall>a\<in>set xs'. sint (deadline st' a - 200) > 0)"
proof -
  obtain st :: "nat list ngx_event_timers" where s: "timers 0 st [7]" using one_timer by blast
  show ?thesis using expire_returns [OF s, of 200 "\<lambda>a. ngx_event_add_timer 200 a 1000", OF _ rearm_ok] s by auto
qed

end
