(* ===== verification/Ngx_Rwlock.thy ===== *)
theory Ngx_Rwlock
  imports Ngx_Base
begin

unbundle bit_operations_syntax

text \<open>
  The reader-writer lock of src/core/ngx_rwlock.c as a transition system: \<open>N\<close> processes, each at a
  position of \<open>ngx_rwlock_wlock\<close>, \<open>ngx_rwlock_rlock\<close> or \<open>ngx_rwlock_unlock\<close>, interleave their accesses
  to one 64-bit word. An invariant gives mutual exclusion; a process that runs alone makes progress.
\<close>

section \<open>The processes\<close>

definition NGX_RWLOCK_SPIN :: nat where "NGX_RWLOCK_SPIN = 2048"
definition NGX_RWLOCK_WLOCK :: "64 word" where "NGX_RWLOCK_WLOCK = - 1"

text \<open>
  Where a process is. The argument \<open>n\<close> is the variable \<open>n\<close> of the spinning loop, 0 at the first
  attempt of a round; the 64-bit argument is the variable \<open>readers\<close>. The boolean of the unlocking
  positions says what the process holds (a ghost: the code does not look at it).
\<close>

datatype rw_pc =
    Idle
  | W_test nat | W_cas nat | W_held
  | R_load nat | R_cas nat "64 word" | R_held
  | U_load bool | U_store bool | U_cas bool "64 word" | U_reload bool

text \<open>After a failed attempt: spin with \<open>n\<close> doubled, or yield and start a new round.\<close>

definition rw_next :: "nat \<Rightarrow> nat \<Rightarrow> nat" where
  "rw_next ncpu n =
     (if n = 0 then (if ncpu > 1 then 1 else 0)
      else if 2 * n < NGX_RWLOCK_SPIN then 2 * n else 0)"

text \<open>\<open>ngx_atomic_cmp_set\<close>: the new value of the lock, and whether it was set.\<close>

definition ngx_atomic_cmp_set :: "64 word \<Rightarrow> 64 word \<Rightarrow> 64 word \<Rightarrow> 64 word \<times> bool" where
  "ngx_atomic_cmp_set lock old v = (if lock = old then (v, True) else (lock, False))"

text \<open>One atomic access to the lock, with the local computation up to the next: \<open>ngx_rwlock_wlock\<close>,
  \<open>ngx_rwlock_rlock\<close> and \<open>ngx_rwlock_unlock\<close>.\<close>

primrec rwlock_action :: "nat \<Rightarrow> rw_pc \<Rightarrow> 64 word \<Rightarrow> 64 word \<times> rw_pc" where
  "rwlock_action ncpu Idle lock = (lock, Idle)"
| "rwlock_action ncpu (W_test n) lock =
     (lock, if lock = 0 then W_cas n else W_test (rw_next ncpu n))"
| "rwlock_action ncpu (W_cas n) lock =
     (let (lock', ok) = ngx_atomic_cmp_set lock 0 NGX_RWLOCK_WLOCK
      in (lock', if ok then W_held else W_test (rw_next ncpu n)))"
| "rwlock_action ncpu W_held lock = (lock, W_held)"
| "rwlock_action ncpu (R_load n) lock =
     (lock, if lock \<noteq> NGX_RWLOCK_WLOCK then R_cas n lock else R_load (rw_next ncpu n))"
| "rwlock_action ncpu (R_cas n readers) lock =
     (let (lock', ok) = ngx_atomic_cmp_set lock readers (readers + 1)
      in (lock', if ok then R_held else R_load (rw_next ncpu n)))"
| "rwlock_action ncpu R_held lock = (lock, R_held)"
| "rwlock_action ncpu (U_load w) lock =
     (lock, if lock = NGX_RWLOCK_WLOCK then U_store w else U_cas w lock)"
| "rwlock_action ncpu (U_store w) lock = (0, Idle)"
| "rwlock_action ncpu (U_cas w readers) lock =
     (let (lock', ok) = ngx_atomic_cmp_set lock readers (readers - 1)
      in (lock', if ok then Idle else U_reload w))"
| "rwlock_action ncpu (U_reload w) lock = (lock, U_cas w lock)"

section \<open>The system\<close>

record rw_system =
  rw_lock :: "64 word"
  rw_pcs :: "nat \<Rightarrow> rw_pc"

definition rw_set :: "rw_system \<Rightarrow> nat \<Rightarrow> 64 word \<Rightarrow> rw_pc \<Rightarrow> rw_system" where
  "rw_set s i l p = \<lparr>rw_lock = l, rw_pcs = (rw_pcs s)(i := p)\<rparr>"

text \<open>\<open>N\<close> processes interleave: each may call a lock function when it holds nothing, the unlock function
  when it holds the lock, and otherwise makes its next access.\<close>

inductive rw_step :: "nat \<Rightarrow> nat \<Rightarrow> nat \<Rightarrow> rw_system \<Rightarrow> rw_system \<Rightarrow> bool" for N ncpu :: nat where
  call_wlock: "i < N \<Longrightarrow> rw_pcs s i = Idle \<Longrightarrow> rw_step N ncpu i s (rw_set s i (rw_lock s) (W_test 0))"
| call_rlock: "i < N \<Longrightarrow> rw_pcs s i = Idle \<Longrightarrow> rw_step N ncpu i s (rw_set s i (rw_lock s) (R_load 0))"
| call_unlock_w: "i < N \<Longrightarrow> rw_pcs s i = W_held \<Longrightarrow> rw_step N ncpu i s (rw_set s i (rw_lock s) (U_load True))"
| call_unlock_r: "i < N \<Longrightarrow> rw_pcs s i = R_held \<Longrightarrow> rw_step N ncpu i s (rw_set s i (rw_lock s) (U_load False))"
| action: "i < N \<Longrightarrow> rwlock_action ncpu (rw_pcs s i) (rw_lock s) = (l, p) \<Longrightarrow>
    rw_step N ncpu i s (rw_set s i l p)"

definition rw_init :: rw_system where
  "rw_init = \<lparr>rw_lock = 0, rw_pcs = (\<lambda>_. Idle)\<rparr>"

inductive rw_reach :: "nat \<Rightarrow> nat \<Rightarrow> rw_system \<Rightarrow> bool" for N ncpu :: nat where
  init: "rw_reach N ncpu rw_init"
| step: "rw_reach N ncpu s \<Longrightarrow> rw_step N ncpu i s s' \<Longrightarrow> rw_reach N ncpu s'"

section \<open>Mutual exclusion\<close>

text \<open>A process holds the lock from the access that acquires it to the access that gives it up.\<close>

definition holds_w :: "rw_pc \<Rightarrow> bool" where
  "holds_w p \<longleftrightarrow> p = W_held \<or> p = U_load True \<or> p = U_store True \<or> p = U_reload True \<or> (\<exists>r. p = U_cas True r)"

definition holds_r :: "rw_pc \<Rightarrow> bool" where
  "holds_r p \<longleftrightarrow> p = R_held \<or> p = U_load False \<or> p = U_store False \<or> p = U_reload False \<or> (\<exists>r. p = U_cas False r)"

lemma holds_simps [simp]:
  "\<not> holds_w Idle" "\<not> holds_w (W_test n)" "\<not> holds_w (W_cas n)" "holds_w W_held" "\<not> holds_w (R_load n)"
  "\<not> holds_w (R_cas n r)" "\<not> holds_w R_held" "holds_w (U_load b) = b" "holds_w (U_store b) = b"
  "holds_w (U_cas b r) = b" "holds_w (U_reload b) = b"
  "\<not> holds_r Idle" "\<not> holds_r (W_test n)" "\<not> holds_r (W_cas n)" "\<not> holds_r W_held" "\<not> holds_r (R_load n)"
  "\<not> holds_r (R_cas n r)" "holds_r R_held" "holds_r (U_load b) = (\<not> b)" "holds_r (U_store b) = (\<not> b)"
  "holds_r (U_cas b r) = (\<not> b)" "holds_r (U_reload b) = (\<not> b)"
  by (auto simp: holds_w_def holds_r_def)

definition holders :: "nat \<Rightarrow> (rw_pc \<Rightarrow> bool) \<Rightarrow> rw_system \<Rightarrow> nat set" where
  "holders N h s = {i. i < N \<and> h (rw_pcs s i)}"

lemma holders_set:
  "i < N \<Longrightarrow> holders N h (rw_set s i l p) = (if h p then insert i (holders N h s) else holders N h s - {i})"
  by (auto simp: holders_def rw_set_def)

lemma holders_same:
  "i < N \<Longrightarrow> h p = h (rw_pcs s i) \<Longrightarrow> holders N h (rw_set s i l p) = holders N h s"
  by (auto simp: holders_def rw_set_def)

lemma finite_holders [simp]: "finite (holders N h s)"
  by (simp add: holders_def)

lemma card_holders: "card (holders N h s) \<le> N"
  using card_mono [of "{..<N}" "holders N h s"] by (auto simp: holders_def)

lemma rw_set_lock [simp]: "rw_lock (rw_set s i l p) = l"
  by (simp add: rw_set_def)

lemma rw_set_pcs [simp]: "rw_pcs (rw_set s i l p) = (rw_pcs s)(i := p)"
  by (simp add: rw_set_def)

text \<open>Positions that a process can be at: what \<open>readers\<close> holds and who stores.\<close>

definition pc_ok :: "rw_pc \<Rightarrow> bool" where
  "pc_ok p = (case p of R_cas n r \<Rightarrow> r \<noteq> NGX_RWLOCK_WLOCK | U_store b \<Rightarrow> b | U_cas b r \<Rightarrow> \<not> b
     | U_reload b \<Rightarrow> \<not> b | _ \<Rightarrow> True)"

definition rw_inv :: "nat \<Rightarrow> rw_system \<Rightarrow> bool" where
  "rw_inv N s \<longleftrightarrow> (\<forall>i<N. pc_ok (rw_pcs s i))
     \<and> (holders N holds_w s = {} \<and> rw_lock s = word_of_nat (card (holders N holds_r s))
        \<or> (\<exists>i. holders N holds_w s = {i}) \<and> holders N holds_r s = {} \<and> rw_lock s = NGX_RWLOCK_WLOCK)"


lemma rw_inv_same:
  assumes "rw_inv N s" and "i < N" and "pc_ok p"
    and "holds_w p = holds_w (rw_pcs s i)" and "holds_r p = holds_r (rw_pcs s i)"
  shows "rw_inv N (rw_set s i (rw_lock s) p)"
  using assms by (auto simp: rw_inv_def holders_same)

text \<open>The number of readers determines the lock, and neither wraps.\<close>

lemma readers_zero:
  assumes "N < 2 ^ 64 - 1" and "word_of_nat (card (holders N holds_r s)) = (0 :: 64 word)"
  shows "holders N holds_r s = {}"
proof -
  have "card (holders N holds_r s) < 2 ^ 64" using card_holders [of N holds_r s] assms(1) by simp
  then have "unat (word_of_nat (card (holders N holds_r s)) :: 64 word) = card (holders N holds_r s)"
    by (simp add: unsigned_of_nat take_bit_nat_eq_self)
  with assms(2) show ?thesis by simp
qed

lemma readers_not_wlock:
  assumes "N < 2 ^ 64 - 1"
  shows "word_of_nat (card (holders N holds_r s)) \<noteq> NGX_RWLOCK_WLOCK"
proof
  assume eq: "word_of_nat (card (holders N holds_r s)) = NGX_RWLOCK_WLOCK"
  have lt: "card (holders N holds_r s) < 2 ^ 64 - 1" using card_holders [of N holds_r s] assms by simp
  then have "unat (word_of_nat (card (holders N holds_r s)) :: 64 word) = card (holders N holds_r s)"
    by (simp add: unsigned_of_nat take_bit_nat_eq_self)
  moreover have "unat NGX_RWLOCK_WLOCK = 2 ^ 64 - 1"
    by (simp add: NGX_RWLOCK_WLOCK_def unsigned_minus_1_eq_mask mask_eq_exp_minus_1)
  ultimately show False using eq lt by simp
qed

lemma writer_holds:
  assumes "rw_inv N s" and "i < N" and "holds_w (rw_pcs s i)"
  shows "holders N holds_w s = {i} \<and> holders N holds_r s = {} \<and> rw_lock s = NGX_RWLOCK_WLOCK"
proof -
  have "i \<in> holders N holds_w s" using assms(2,3) by (simp add: holders_def)
  with assms(1) show ?thesis by (auto simp: rw_inv_def)
qed

lemma reader_holds:
  assumes "rw_inv N s" and "i < N" and "holds_r (rw_pcs s i)"
  shows "holders N holds_w s = {} \<and> i \<in> holders N holds_r s
    \<and> rw_lock s = word_of_nat (card (holders N holds_r s))"
proof -
  have "i \<in> holders N holds_r s" using assms(2,3) by (simp add: holders_def)
  with assms(1) show ?thesis by (auto simp: rw_inv_def)
qed

lemma acquire_w:
  assumes "rw_inv N s" and "N < 2 ^ 64 - 1" and "i < N" and "rw_pcs s i = W_cas n" and "rw_lock s = 0"
  shows "rw_inv N (rw_set s i NGX_RWLOCK_WLOCK W_held)"
proof -
  have "holders N holds_w s = {}" and "holders N holds_r s = {}"
    using assms(1,5) readers_zero [OF assms(2), of s] by (auto simp: rw_inv_def NGX_RWLOCK_WLOCK_def)
  with assms(1,3) show ?thesis by (auto simp: rw_inv_def holders_set pc_ok_def)
qed

lemma acquire_r:
  assumes "rw_inv N s" and "i < N" and "rw_pcs s i = R_cas n r" and "rw_lock s = r"
  shows "rw_inv N (rw_set s i (r + 1) R_held)"
proof -
  have "pc_ok (R_cas n r)" using assms(1,2,3) by (auto simp: rw_inv_def dest: spec [of _ i])
  then have "r \<noteq> NGX_RWLOCK_WLOCK" by (simp add: pc_ok_def)
  with assms(1,4) have "holders N holds_w s = {}" and l: "r = word_of_nat (card (holders N holds_r s))"
    by (auto simp: rw_inv_def)
  moreover have "i \<notin> holders N holds_r s" using assms(3) by (simp add: holders_def)
  then have "card (insert i (holders N holds_r s)) = Suc (card (holders N holds_r s))" by simp
  ultimately show ?thesis
    using assms(1,2) by (auto simp: rw_inv_def holders_set pc_ok_def add.commute)
qed

lemma release_w:
  assumes "rw_inv N s" and "i < N" and "rw_pcs s i = U_store True"
  shows "rw_inv N (rw_set s i 0 Idle)"
  using writer_holds [OF assms(1,2)] assms by (auto simp: rw_inv_def holders_set pc_ok_def)

lemma release_r:
  assumes "rw_inv N s" and "i < N" and "rw_pcs s i = U_cas False r" and "rw_lock s = r"
  shows "rw_inv N (rw_set s i (r - 1) Idle)"
proof -
  have h: "holders N holds_w s = {}" "i \<in> holders N holds_r s" "r = word_of_nat (card (holders N holds_r s))"
    using reader_holds [OF assms(1,2)] assms(3,4) by simp_all
  then have "card (holders N holds_r s) = Suc (card (holders N holds_r s - {i}))"
    using card_Suc_Diff1 [of "holders N holds_r s" i] by (metis finite_holders)
  then have "r - 1 = word_of_nat (card (holders N holds_r s - {i}))" using h(3) by simp
  with h(1) assms(1,2) show ?thesis by (auto simp: rw_inv_def holders_set pc_ok_def)
qed

lemma rw_inv_action:
  assumes inv: "rw_inv N s" and N: "N < 2 ^ 64 - 1" and i: "i < N"
    and act: "rwlock_action ncpu (rw_pcs s i) (rw_lock s) = (l, p)"
  shows "rw_inv N (rw_set s i l p)"
proof -
  have ok: "pc_ok (rw_pcs s i)" using inv i by (simp add: rw_inv_def)
  note same = rw_inv_same [OF inv i]
  show ?thesis
  proof (cases "rw_pcs s i")
    case (W_cas n)
    with act same acquire_w [OF inv N i W_cas] show ?thesis
      by (auto simp: ngx_atomic_cmp_set_def pc_ok_def split: if_splits)
  next
    case (R_cas n r)
    with act same acquire_r [OF inv i R_cas] show ?thesis
      by (auto simp: ngx_atomic_cmp_set_def pc_ok_def split: if_splits)
  next
    case (U_load b)
    have "b \<Longrightarrow> rw_lock s = NGX_RWLOCK_WLOCK" using writer_holds [OF inv i] U_load by simp
    moreover have "\<not> b \<Longrightarrow> rw_lock s \<noteq> NGX_RWLOCK_WLOCK"
      using reader_holds [OF inv i] U_load readers_not_wlock [OF N, of s] by simp
    ultimately show ?thesis using act U_load same by (cases b) (auto simp: pc_ok_def)
  next
    case (U_store b)
    with ok act release_w [OF inv i] show ?thesis by (simp add: pc_ok_def)
  next
    case (U_cas b r)
    with ok have "rw_pcs s i = U_cas False r" by (simp add: pc_ok_def)
    with act same release_r [OF inv i this] show ?thesis
      by (auto simp: ngx_atomic_cmp_set_def pc_ok_def split: if_splits)
  next
    case (U_reload b)
    with ok act same show ?thesis by (auto simp: pc_ok_def)
  qed (use act same in \<open>auto simp: pc_ok_def split: if_splits\<close>)
qed

lemma rw_inv_step:
  assumes "rw_step N ncpu i s s'" and "rw_inv N s" and "N < 2 ^ 64 - 1"
  shows "rw_inv N s'"
  using assms
proof cases
  case (action l p)
  with assms show ?thesis using rw_inv_action by blast
qed (use assms in \<open>auto intro!: rw_inv_same simp: pc_ok_def\<close>)

lemma rw_inv_reach: "rw_reach N ncpu s \<Longrightarrow> N < 2 ^ 64 - 1 \<Longrightarrow> rw_inv N s"
proof (induction rule: rw_reach.induct)
  case init
  show ?case by (simp add: rw_inv_def rw_init_def holders_def pc_ok_def)
qed (blast intro: rw_inv_step)


text \<open>C19: However the accesses of fewer than \<open>2^64 - 1\<close> processes to an \<open>ngx_rwlock\<close> interleave, a
  writer that holds it excludes every other holder, and the word in memory is \<open>NGX_RWLOCK_WLOCK\<close> while
  a writer holds it and the number of readers that hold it otherwise; so the lock word neither
  overflows into the writer's value nor wraps below zero.\<close>

theorem rwlock_mutual_exclusion:
  assumes "rw_reach N ncpu s" and "N < 2 ^ 64 - 1"
  shows "(\<forall>i j. i < N \<and> j < N \<and> holds_w (rw_pcs s i) \<and> (holds_w (rw_pcs s j) \<or> holds_r (rw_pcs s j)) \<longrightarrow> i = j)
    \<and> (if \<exists>i<N. holds_w (rw_pcs s i) then rw_lock s = NGX_RWLOCK_WLOCK
       else unat (rw_lock s) = card {i. i < N \<and> holds_r (rw_pcs s i)})"
proof -
  note inv = rw_inv_reach [OF assms]
  have "card (holders N holds_r s) < 2 ^ 64" using card_holders [of N holds_r s] assms(2) by simp
  then have u: "unat (word_of_nat (card (holders N holds_r s)) :: 64 word) = card (holders N holds_r s)"
    by (simp add: unsigned_of_nat take_bit_nat_eq_self)
  have ex: "i = j" if "i < N" "j < N" "holds_w (rw_pcs s i)" "holds_w (rw_pcs s j) \<or> holds_r (rw_pcs s j)" for i j
    using writer_holds [OF inv that(1,3)] that(2,4) by (auto simp: holders_def)
  have lock: "if \<exists>i<N. holds_w (rw_pcs s i) then rw_lock s = NGX_RWLOCK_WLOCK
       else unat (rw_lock s) = card {i. i < N \<and> holds_r (rw_pcs s i)}"
  proof (cases "\<exists>i<N. holds_w (rw_pcs s i)")
    case True
    then show ?thesis using writer_holds [OF inv] by auto
  next
    case False
    then have "holders N holds_w s = {}" by (auto simp: holders_def)
    with inv u False show ?thesis by (auto simp: rw_inv_def holders_def)
  qed
  from ex lock show ?thesis by blast
qed

text \<open>A run of one process that takes the write lock.\<close>

lemma rw_run_wlock:
  "\<exists>s. rw_reach 2 2 s \<and> rw_pcs s 0 = W_test 0 \<and> rw_pcs s 1 = Idle"
  "\<exists>s. rw_reach 2 2 s \<and> rw_pcs s 0 = W_held \<and> rw_pcs s 1 = Idle"
proof -
  define s1 where "s1 = rw_set rw_init 0 0 (W_test 0)"
  define s2 where "s2 = rw_set s1 0 0 (W_cas 0)"
  define s3 where "s3 = rw_set s2 0 NGX_RWLOCK_WLOCK W_held"
  have "rw_step 2 2 0 rw_init s1"
    using rw_step.call_wlock [of 0 2 rw_init 2] by (simp add: s1_def rw_init_def)
  then have r1: "rw_reach 2 2 s1" by (rule rw_reach.step [OF rw_reach.init])
  have "rw_step 2 2 0 s1 s2" unfolding s2_def by (rule rw_step.action) (simp_all add: s1_def)
  then have r2: "rw_reach 2 2 s2" by (rule rw_reach.step [OF r1])
  have "rw_step 2 2 0 s2 s3"
    unfolding s3_def by (rule rw_step.action) (simp_all add: s2_def ngx_atomic_cmp_set_def)
  then have r3: "rw_reach 2 2 s3" by (rule rw_reach.step [OF r2])
  show "\<exists>s. rw_reach 2 2 s \<and> rw_pcs s 0 = W_test 0 \<and> rw_pcs s 1 = Idle"
    using r1 by (intro exI [of _ s1]) (simp add: s1_def rw_init_def)
  show "\<exists>s. rw_reach 2 2 s \<and> rw_pcs s 0 = W_held \<and> rw_pcs s 1 = Idle"
    using r3 by (intro exI [of _ s3]) (simp add: s1_def s2_def s3_def rw_init_def)
qed

theorem rwlock_mutual_exclusion_witness:
  "\<exists>s. rw_reach 2 2 s \<and> rw_pcs s 0 = W_held \<and> rw_lock s = NGX_RWLOCK_WLOCK"
proof -
  obtain s where s: "rw_reach 2 2 s" "rw_pcs s 0 = W_held" using rw_run_wlock(2) by blast
  have "\<exists>i<2. holds_w (rw_pcs s i)" using s(2) by (intro exI [of _ 0]) simp
  with rwlock_mutual_exclusion [OF s(1)] s show ?thesis by auto
qed

section \<open>Progress\<close>

text \<open>A process that runs alone.\<close>

definition rw_act :: "nat \<Rightarrow> nat \<Rightarrow> rw_system \<Rightarrow> rw_system" where
  "rw_act ncpu i s = (let (l, p) = rwlock_action ncpu (rw_pcs s i) (rw_lock s) in rw_set s i l p)"

lemma rw_act_sel:
  "rw_pcs (rw_act ncpu i s) i = snd (rwlock_action ncpu (rw_pcs s i) (rw_lock s))"
  "rw_lock (rw_act ncpu i s) = fst (rwlock_action ncpu (rw_pcs s i) (rw_lock s))"
  by (simp_all add: rw_act_def split: prod.split)

lemma rw_act_steps: "i < N \<Longrightarrow> (rw_step N ncpu i ^^ k) s ((rw_act ncpu i ^^ k) s)"
proof (induction k)
  case (Suc k)
  moreover have "rw_step N ncpu i t (rw_act ncpu i t)" for t
    unfolding rw_act_def using rw_step.action [OF \<open>i < N\<close>, of ncpu t] by (simp split: prod.split)
  ultimately show ?case by auto
qed simp

lemma solo_reaches:
  assumes "i < N" and "rw_pcs ((rw_act ncpu i ^^ k) s) i = p" and "k \<le> 3"
  shows "\<exists>k \<le> 3. \<exists>s'. (rw_step N ncpu i ^^ k) s s' \<and> rw_pcs s' i = p"
proof (intro exI conjI)
  show "k \<le> 3" by (rule assms(3))
  show "(rw_step N ncpu i ^^ k) s ((rw_act ncpu i ^^ k) s)" by (rule rw_act_steps [OF assms(1)])
  show "rw_pcs ((rw_act ncpu i ^^ k) s) i = p" by (rule assms(2))
qed

lemmas rw_solo = rw_act_sel ngx_atomic_cmp_set_def numeral_2_eq_2 numeral_3_eq_3

lemma solo_wlock:
  assumes "rw_lock s = 0"
  shows "rw_pcs s i = W_test n \<Longrightarrow> rw_pcs ((rw_act ncpu i ^^ 2) s) i = W_held"
    and "rw_pcs s i = W_cas n \<Longrightarrow> rw_pcs ((rw_act ncpu i ^^ 1) s) i = W_held"
  using assms by (simp_all add: rw_solo)

lemma solo_rlock:
  assumes "rw_lock s \<noteq> NGX_RWLOCK_WLOCK"
  shows "rw_pcs s i = R_load n \<Longrightarrow> rw_pcs ((rw_act ncpu i ^^ 2) s) i = R_held"
    and "rw_pcs s i = R_cas n r \<Longrightarrow> \<exists>k \<le> 3. rw_pcs ((rw_act ncpu i ^^ k) s) i = R_held"
proof -
  show "rw_pcs s i = R_load n \<Longrightarrow> rw_pcs ((rw_act ncpu i ^^ 2) s) i = R_held"
    using assms by (simp add: rw_solo)
  assume pc: "rw_pcs s i = R_cas n r"
  show "\<exists>k \<le> 3. rw_pcs ((rw_act ncpu i ^^ k) s) i = R_held"
  proof (cases "rw_lock s = r")
    case True
    with pc have "rw_pcs ((rw_act ncpu i ^^ 1) s) i = R_held" by (simp add: rw_solo)
    then show ?thesis by (intro exI [of _ 1]) simp
  next
    case False
    with pc assms have "rw_pcs ((rw_act ncpu i ^^ 3) s) i = R_held" by (simp add: rw_solo)
    then show ?thesis by blast
  qed
qed

lemma solo_unlock:
  "rw_pcs s i = U_load w \<Longrightarrow> rw_pcs ((rw_act ncpu i ^^ 2) s) i = Idle"
  "rw_pcs s i = U_store w \<Longrightarrow> rw_pcs ((rw_act ncpu i ^^ 1) s) i = Idle"
  "rw_pcs s i = U_reload w \<Longrightarrow> rw_pcs ((rw_act ncpu i ^^ 2) s) i = Idle"
  "rw_pcs s i = U_cas w r \<Longrightarrow> \<exists>k \<le> 3. rw_pcs ((rw_act ncpu i ^^ k) s) i = Idle"
proof -
  assume pc: "rw_pcs s i = U_cas w r"
  show "\<exists>k \<le> 3. rw_pcs ((rw_act ncpu i ^^ k) s) i = Idle"
  proof (cases "rw_lock s = r")
    case True
    with pc have "rw_pcs ((rw_act ncpu i ^^ 1) s) i = Idle" by (simp add: rw_solo)
    then show ?thesis by (intro exI [of _ 1]) simp
  next
    case False
    with pc have "rw_pcs ((rw_act ncpu i ^^ 3) s) i = Idle" by (simp add: rw_solo)
    then show ?thesis by blast
  qed
qed (simp_all add: rw_solo)


text \<open>Who waits for what.\<close>

definition waits_w :: "rw_pc \<Rightarrow> bool" where
  "waits_w p = (case p of W_test n \<Rightarrow> True | W_cas n \<Rightarrow> True | _ \<Rightarrow> False)"

definition waits_r :: "rw_pc \<Rightarrow> bool" where
  "waits_r p = (case p of R_load n \<Rightarrow> True | R_cas n r \<Rightarrow> True | _ \<Rightarrow> False)"

definition unlocks :: "rw_pc \<Rightarrow> bool" where
  "unlocks p = (case p of U_load w \<Rightarrow> True | U_store w \<Rightarrow> True | U_cas w r \<Rightarrow> True | U_reload w \<Rightarrow> True | _ \<Rightarrow> False)"

text \<open>C20: From every reachable state, a process that waits for the write lock acquires it within three
  accesses of its own if nobody holds the lock and nobody interferes; one that waits for the read
  lock, if no writer holds it; and one that unlocks has always given the lock up after three: no
  state is left in which the lock is free and cannot be taken.\<close>

theorem rwlock_progress:
  assumes "rw_reach N ncpu s" and "N < 2 ^ 64 - 1" and "i < N"
  shows "(waits_w (rw_pcs s i) \<and> (\<forall>j<N. \<not> holds_w (rw_pcs s j) \<and> \<not> holds_r (rw_pcs s j)) \<longrightarrow>
      (\<exists>k \<le> 3. \<exists>s'. (rw_step N ncpu i ^^ k) s s' \<and> rw_pcs s' i = W_held))
    \<and> (waits_r (rw_pcs s i) \<and> (\<forall>j<N. \<not> holds_w (rw_pcs s j)) \<longrightarrow>
      (\<exists>k \<le> 3. \<exists>s'. (rw_step N ncpu i ^^ k) s s' \<and> rw_pcs s' i = R_held))
    \<and> (unlocks (rw_pcs s i) \<longrightarrow>
      (\<exists>k \<le> 3. \<exists>s'. (rw_step N ncpu i ^^ k) s s' \<and> rw_pcs s' i = Idle))"
proof (intro conjI impI; (elim conjE)?)
  note inv = rw_inv_reach [OF assms(1,2)]
  note go = solo_reaches [OF assms(3)]
  assume w: "waits_w (rw_pcs s i)" and "\<forall>j<N. \<not> holds_w (rw_pcs s j) \<and> \<not> holds_r (rw_pcs s j)"
  then have "holders N holds_w s = {}" and "holders N holds_r s = {}" by (auto simp: holders_def)
  with inv have l: "rw_lock s = 0" by (auto simp: rw_inv_def)
  from w obtain k where "k \<le> 3" and "rw_pcs ((rw_act ncpu i ^^ k) s) i = W_held"
  proof (cases "rw_pcs s i")
    case (W_test n)
    with that [of 2] solo_wlock(1) [OF l, of i n ncpu] show ?thesis by simp
  next
    case (W_cas n)
    with that [of 1] solo_wlock(2) [OF l, of i n ncpu] show ?thesis by simp
  qed (simp_all add: waits_w_def)
  then show "\<exists>k \<le> 3. \<exists>s'. (rw_step N ncpu i ^^ k) s s' \<and> rw_pcs s' i = W_held" by (intro go)
next
  note inv = rw_inv_reach [OF assms(1,2)]
  note go = solo_reaches [OF assms(3)]
  assume w: "waits_r (rw_pcs s i)" and "\<forall>j<N. \<not> holds_w (rw_pcs s j)"
  then have "holders N holds_w s = {}" by (auto simp: holders_def)
  with inv readers_not_wlock [OF assms(2), of s] have l: "rw_lock s \<noteq> NGX_RWLOCK_WLOCK"
    by (auto simp: rw_inv_def)
  from w obtain k where "k \<le> 3" and "rw_pcs ((rw_act ncpu i ^^ k) s) i = R_held"
  proof (cases "rw_pcs s i")
    case (R_load n)
    with that [of 2] solo_rlock(1) [OF l, of i n ncpu] show ?thesis by simp
  next
    case (R_cas n r)
    with that solo_rlock(2) [OF l, of i n r ncpu] show ?thesis by blast
  qed (simp_all add: waits_r_def)
  then show "\<exists>k \<le> 3. \<exists>s'. (rw_step N ncpu i ^^ k) s s' \<and> rw_pcs s' i = R_held" by (intro go)
next
  note go = solo_reaches [OF assms(3)]
  assume "unlocks (rw_pcs s i)"
  then obtain k where "k \<le> 3" and "rw_pcs ((rw_act ncpu i ^^ k) s) i = Idle"
  proof (cases "rw_pcs s i")
    case (U_load w)
    with that [of 2] solo_unlock(1) [of s i w ncpu] show ?thesis by simp
  next
    case (U_store w)
    with that [of 1] solo_unlock(2) [of s i w ncpu] show ?thesis by simp
  next
    case (U_reload w)
    with that [of 2] solo_unlock(3) [of s i w ncpu] show ?thesis by simp
  next
    case (U_cas w r)
    with that solo_unlock(4) [of s i w r ncpu] show ?thesis by blast
  qed (simp_all add: unlocks_def)
  then show "\<exists>k \<le> 3. \<exists>s'. (rw_step N ncpu i ^^ k) s s' \<and> rw_pcs s' i = Idle" by (intro go)
qed

theorem rwlock_progress_witness:
  "\<exists>s k s'. rw_reach 2 2 s \<and> rw_pcs s 0 = W_test 0 \<and> k \<le> 3 \<and> (rw_step 2 2 0 ^^ k) s s' \<and> rw_pcs s' 0 = W_held"
proof -
  obtain s where s: "rw_reach 2 2 s" "rw_pcs s 0 = W_test 0" "rw_pcs s 1 = Idle"
    using rw_run_wlock(1) by blast
  have "\<forall>j<2. \<not> holds_w (rw_pcs s j) \<and> \<not> holds_r (rw_pcs s j)"
    using s(2,3) by (auto simp: less_2_cases_iff)
  moreover have "waits_w (rw_pcs s 0)" using s(2) by (simp add: waits_w_def)
  ultimately have "\<exists>k \<le> 3. \<exists>s'. (rw_step 2 2 0 ^^ k) s s' \<and> rw_pcs s' 0 = W_held"
    using rwlock_progress [OF s(1), of 0] by simp
  with s show ?thesis by blast
qed

end
