(* ===== verification/Spec2Isabelle.thy ===== *)
theory Spec2Isabelle
  imports Http_Request_Line Http_Header_Line Http_Uri Http_Status_Line Http_Chunked Ngx_Parse
    Http_Args Ngx_Base64 Http_Range Http_Geo Http_Round_Robin Ngx_Event_Timer Ngx_Rwlock
begin

text \<open>
  nginx 1.12.1 (src/projects/nginx-1.12.1): a verification of its core logic.

  The paths below are relative to src/projects/nginx-1.12.1/src.

  \<^bold>\<open>The program.\<close> nginx is an event-driven HTTP server and proxy. A connection's bytes arrive in pieces, in
  buffers (\<open>ngx_buf_t\<close>); \<open>http/ngx_http_request.c\<close> hands each piece to the parsers of
  \<open>http/ngx_http_parse.c\<close>, which are state machines that keep their state in the request
  (\<open>r->state\<close>) and answer \<open>NGX_AGAIN\<close> until they have seen enough. The request line gives the method, the
  URI and the version, the header lines give names, values and the hash under which
  \<open>core/ngx_hash.c\<close> finds their handlers, and a chunked body is cut into data by
  \<open>http/ngx_http_request_body.c\<close>. What the parsers point at is decoded and normalised (complex URIs),
  searched (arguments, cookies), checked (unsafe URIs) and converted (numbers, sizes, times, dates) by the
  routines of \<open>core/ngx_string.c\<close>, \<open>core/ngx_parse.c\<close> and \<open>core/ngx_parse_time.c\<close>. Addresses of clients and
  networks of the configuration are read by \<open>core/ngx_inet.c\<close>; \<open>core/ngx_radix_tree.c\<close> keeps networks with
  their values, and \<open>http/modules/ngx_http_geo_module.c\<close> looks the client's address up there. A request that is
  proxied is given a server by \<open>http/ngx_http_upstream_round_robin.c\<close>, a partial response is cut out by
  \<open>http/modules/ngx_http_range_filter_module.c\<close>. The event loop keeps its timeouts in the red-black tree of
  \<open>core/ngx_rbtree.c\<close> (\<open>event/ngx_event_timer.c\<close>). Worker processes share memory and lock it with
  \<open>core/ngx_rwlock.c\<close>.

  \<^bold>\<open>Machine model.\<close> 64-bit, little-endian, \<open>NGX_MAX_INT_T_VALUE\<close> and its siblings are \<open>2^63 - 1\<close>, not
  Windows. A byte is an \<open>8 word\<close>, a buffer is the list of its bytes with the offset \<open>b_pos\<close>, a pointer into
  a buffer is an offset, and a null pointer is \<open>None\<close>. Arithmetic that may wrap is on words or is reduced
  explicitly (\<open>s64\<close>, \<open>u64\<close>, \<open>s32\<close>); where the model computes with unbounded numbers, that the machine's do
  not overflow is a theorem. Reading outside of a buffer gives the byte 0 in the model (\<open>rd\<close>). Return
  codes are the datatype \<open>ngx_rc\<close>, or an option or sum type where the code has one error.

  \<^bold>\<open>Theories.\<close>

  \<^item> \<open>Ngx_Base\<close>: bytes, literals, slices of a buffer, and the driver of the resumable parsers: \<open>scan\<close> is the
    loop over the bytes, \<open>drive\<close> the function around it that loads and stores the state, \<open>feed\<close> the caller
    that repeats it on every piece. The locale \<open>resumable\<close> is the contract of such a parser (what is stored
    is what is loaded); in it, cutting the input anywhere is proved not to matter.
  \<^item> \<open>Http_Request\<close>: the fields of \<open>ngx_http_request_t\<close> the parsers use, the table \<open>usual\<close>, the comparison
    macros on 32-bit words.
  \<^item> \<open>Http_Request_Line\<close>, \<open>Http_Header_Line\<close>, \<open>Http_Status_Line\<close>: \<open>ngx_http_parse_request_line\<close>,
    \<open>ngx_http_parse_header_line\<close>, \<open>ngx_http_parse_status_line\<close>, one definition for every state of the
    machine. Fragmentation, the pointers and what lies between them, versions, hash and lower-case ring,
    and a round trip with a printer.
  \<^item> \<open>Http_Uri\<close>: \<open>ngx_http_parse_uri\<close> and \<open>ngx_http_parse_complex_uri\<close>. The latter is proved to compute a
    two-pass reference (decode, then resolve the segments on a stack); its result is safe, fits into the
    buffer, and is the input for URIs that the former calls simple.
  \<^item> \<open>Http_Chunked\<close>: \<open>ngx_http_parse_chunked\<close> and the two loops of \<open>ngx_http_request_body.c\<close> that use it. The
    reference decodes byte by byte; \<open>rb->rest\<close> is exact, nothing overflows, discarding agrees with reading.
  \<^item> \<open>Http_Args\<close>: \<open>ngx_http_arg\<close>, \<open>ngx_http_split_args\<close>, \<open>ngx_http_parse_unsafe_uri\<close>, and the cookie
    searches \<open>ngx_http_parse_multi_header_lines\<close> and \<open>ngx_http_parse_set_cookie_lines\<close>.
  \<^item> \<open>Http_Range\<close>: \<open>http/modules/ngx_http_range_filter_module.c\<close>: the parser of the \<open>Range\<close> header (it reads exactly
    the grammar, every range it keeps lies within the content), the header filters, and the body filters: what
    is sent is the slice that was asked for, or the multipart body with one part for every range, and the
    announced length is the length of what is sent.
  \<^item> \<open>Ngx_Hash\<close>: the hash of a name (\<open>ngx_hash_key\<close>, \<open>ngx_hash_key_lc\<close>, \<open>ngx_hash_strlow\<close>).
  \<^item> \<open>Ngx_Number\<close>, \<open>Ngx_Parse\<close>: numbers (\<open>ngx_ato*\<close>, \<open>ngx_hextoi\<close>, \<open>ngx_sprintf_num\<close>), sizes, offsets and
    time intervals. The readers are exact: a value or an error, never a wrapped value. The locales
    \<open>decimal_reader\<close> and \<open>decimal_loop\<close> are the contract of the readers.
  \<^item> \<open>Ngx_String\<close>, \<open>Ngx_Escape\<close>, \<open>Ngx_Base64\<close>: comparisons (locale \<open>byte_order\<close>), searches, escaping and
    its inverses, base64 (locale \<open>base64_tables\<close>).
  \<^item> \<open>Ngx_Time\<close>: dates. \<open>ngx_gmtime\<close>, the two printers and \<open>ngx_parse_http_time\<close> are inverse to each other.
  \<^item> \<open>Ngx_Inet\<close>, \<open>Ngx_Cidr\<close>: \<open>ngx_inet_addr\<close>, \<open>ngx_inet6_addr\<close>, the printers \<open>ngx_sock_ntop\<close>, \<open>ngx_inet_ntop\<close>,
    \<open>ngx_inet6_ntop\<close>, \<open>ngx_ptocidr\<close>, \<open>ngx_cidr_match\<close>. What is printed is read back; a network matches the addresses
    with its prefix.
  \<^item> \<open>Ngx_Radix\<close>: the radix tree, with its nodes in a store indexed by addresses and its free list. The store
    represents a binary trie, and the trie a finite map from prefixes: insertion, deletion (with the loop that
    prunes) and search refine the operations of the map, and creation returns with a well-formed tree; what a
    deletion takes out of the tree is on the free list afterwards, and nothing useless is left on its way.
    \<open>Ngx_Prefix_Table\<close> states that contract as the locale \<open>prefix_table\<close>, interpreted on the tree for 32 and
    for 128 bits, and proves its clients there.
  \<^item> \<open>Http_Geo\<close>: the CIDR part of the geo module; a history of directives followed by a lookup gives the
    value of the longest network that contains the address.
  \<^item> \<open>Http_Round_Robin\<close>: \<open>ngx_http_upstream_get_peer\<close>, \<open>ngx_http_upstream_get_round_robin_peer\<close>,
    \<open>ngx_http_upstream_free_round_robin_peer\<close> and the initialisation of the peers. The choice (which peers may be
    chosen, which one is), the invariant of the weights, and fairness: among healthy peers the weights return
    to zero after a cycle in which each peer served as many requests as its weight. The weights are reduced to
    64 bits at every addition (their sum is 0 modulo \<open>2^64\<close>); fairness needs a bound on the configured weights,
    which \<open>ngx_atoi\<close> does not give.
  \<^item> \<open>Ngx_Rbtree\<close>, \<open>Ngx_Rbtree_Delete\<close>, \<open>Ngx_Rbtree_Order\<close>: the red-black tree, with nodes in a store with
    parent, left and right pointers, a sentinel, and left and right told apart by a parameter of direction.
    The proofs relate the store to a tree and a place in it with the way up to the root. Insertion and deletion
    keep the colours and the black height, and refine insertion into and removal from a sorted list; the
    locale \<open>rb_order\<close> is the contract of an insertion function and is interpreted on
    \<open>ngx_rbtree_insert_value\<close> and, for keys in a window of half of the range, on
    \<open>ngx_rbtree_insert_timer_value\<close>. Every history of operations leaves a tree of logarithmic height.
  \<^item> \<open>Ngx_Event_Timer\<close>: adding, deleting and finding timers, \<open>ngx_event_expire_timers\<close> and
    \<open>ngx_event_no_timers_left\<close>. The handlers of events are a parameter. The timers that are due are called in
    order and exactly once.
  \<^item> \<open>Ngx_Rwlock\<close>: the lock as a transition system; mutual exclusion and progress by rule induction.

  \<^bold>\<open>Loops and fuel.\<close> No definition needs fuel. The loops over the bytes of a buffer are structural or have a
  measure. The loops that follow pointers (the search, creation and pruning of the radix tree; the descent,
  recolouring and successor of the red-black tree; the loop over the timers) are \<open>partial_function (option)\<close>,
  so that running in a circle would be \<open>None\<close>, and are proved to return on well-formed stores. The timers are
  compared by a signed difference, which orders them only when they lie within half of the range: that is a
  hypothesis of the statements about them. The spinning loops of the lock may run forever; they are steps
  of the transition system, and what is proved is that a process which is alone gets through.

  \<^bold>\<open>Not modelled.\<close> Everything that is a call of the system: sockets, files, the polling of events, processes,
  configuration reading, TLS. The allocator, which is taken to succeed except where the radix tree and the
  geo module test it; the record of the tree itself is taken to be there. Negative arguments of
  \<open>ngx_radix_tree_create\<close> other than -1, which no caller passes. Log messages. The modules of nginx that glue these together (upstream, proxy, FastCGI,
  SSI, ...), HTTP/2, mail and stream. The locks on the shared peers and the saved TLS sessions of the round
  robin. The remaining containers of the core (hash tables, slab, arrays, lists, queues). lighttpd
  (src/projects/lighttpd-1.4.47) is a second, independent server, and src/mutants holds
  copies of the two with one line changed each.
\<close>

end
